(* ===== verification/Prelude.thy ===== *)
theory Prelude
  imports Main "HOL-Library.Word"
begin

text \<open>
  What the component theories share: names for the machine types, byte buffers as lists of
  8-bit words with the C library operations the sources use on them (\<open>memcpy\<close> into a buffer,
  \<open>strncpy\<close>, the C string a buffer holds), little- and big-endian codecs, and the named
  collections the component proofs are built on.

    \<^item> \<open>buf_simps\<close>: lengths and contents of buffers after a write;
    \<^item> \<open>codec_simps\<close>: decoding what was encoded.
\<close>

unbundle bit_operations_syntax

type_synonym u8 = "8 word"
type_synonym u16 = "16 word"
type_synonym u32 = "32 word"
type_synonym u64 = "64 word"
type_synonym bytes = "8 word list"

text \<open>The largest \<open>size_t\<close>.\<close>

definition size_max :: nat where
  "size_max = 2 ^ 64 - 1"

text \<open>The value of a \<open>char\<close> as an unsigned number.\<close>

definition code :: "char \<Rightarrow> nat" where
  "code c = of_char c"

lemma code_char_of: "n < 256 \<Longrightarrow> code (char_of n) = n"
  by (simp add: code_def)

lemma code_inject: "code c = code d \<longleftrightarrow> c = d"
  by (simp add: code_def)

text \<open>A list of results that are all there.\<close>

lemma those_length: "those xs = Some ys \<Longrightarrow> length ys = length xs"
  by (induction xs arbitrary: ys) (auto split: option.splits)

named_theorems buf_simps
named_theorems codec_simps

section \<open>Text constants\<close>

text \<open>An ASCII constant of the source as the bytes it is stored as.\<close>

definition ascii :: "string \<Rightarrow> bytes" where
  "ascii s = map of_char s"

lemma length_ascii [simp]: "length (ascii s) = length s"
  by (simp add: ascii_def)

lemma ascii_char_inj: "(of_char c :: u8) = of_char d \<longleftrightarrow> c = d"
proof
  assume "(of_char c :: u8) = of_char d"
  then have "unat (of_nat (of_char c :: nat) :: u8) = unat (of_nat (of_char d :: nat) :: u8)"
    by (simp only: of_nat_of_char)
  then have "(of_char c :: nat) mod 256 = of_char d mod 256"
    unfolding unat_of_nat by simp
  then show "c = d"
    by simp
qed simp

lemma ascii_inj: "ascii s = ascii t \<longleftrightarrow> s = t"
  by (simp add: ascii_def inj_map_eq_map inj_def ascii_char_inj)

section \<open>Results\<close>

text \<open>
  A routine that returns \<open>false\<close> with a message is a value of \<open>string + 'a\<close>; the next call
  runs on the result of the one before, or not at all.
\<close>

definition andThen :: "'e + 'a \<Rightarrow> ('a \<Rightarrow> 'e + 'b) \<Rightarrow> 'e + 'b" where
  "andThen m f = (case m of Inl e \<Rightarrow> Inl e | Inr a \<Rightarrow> f a)"

definition or_error :: "'a option \<Rightarrow> 'e \<Rightarrow> 'e + 'a" where
  "or_error x e = (case x of None \<Rightarrow> Inl e | Some a \<Rightarrow> Inr a)"

lemma andThen_simps [simp]: "andThen (Inl e) f = Inl e" "andThen (Inr a) f = f a"
  by (simp_all add: andThen_def)

lemma or_error_simps [simp]: "or_error None e = Inl e" "or_error (Some a) e = Inr a"
  by (simp_all add: or_error_def)

lemma andThen_Inr_iff: "andThen m f = Inr b \<longleftrightarrow> (\<exists>a. m = Inr a \<and> f a = Inr b)"
  by (cases m) simp_all

lemma or_error_Inr_iff [simp]: "or_error x e = Inr a \<longleftrightarrow> x = Some a"
  by (cases x) simp_all

section \<open>Buffers\<close>

text \<open>\<open>memcpy(dst + off, src, length src)\<close>: the bytes before and after are kept.\<close>

definition memcpy_at :: "bytes \<Rightarrow> nat \<Rightarrow> bytes \<Rightarrow> bytes" where
  "memcpy_at dst off src = take off dst @ src @ drop (off + length src) dst"

lemma length_memcpy_at [simp, buf_simps]:
  "off + length src \<le> length dst \<Longrightarrow> length (memcpy_at dst off src) = length dst"
  by (simp add: memcpy_at_def)

text \<open>The C string a buffer holds: the bytes before the first NUL.\<close>

definition c_str :: "bytes \<Rightarrow> bytes" where
  "c_str b = takeWhile (\<lambda>x. x \<noteq> 0) b"

definition nul_terminated :: "bytes \<Rightarrow> bool" where
  "nul_terminated b \<longleftrightarrow> 0 \<in> set b"

lemma nul_terminated_length: "nul_terminated b \<Longrightarrow> length (c_str b) < length b"
  unfolding nul_terminated_def c_str_def
  by (induction b) auto

lemma c_str_nonzero: "0 \<notin> set (c_str b)"
  by (auto simp: c_str_def dest: set_takeWhileD)

lemma c_str_id: "0 \<notin> set b \<Longrightarrow> c_str b = b"
  unfolding c_str_def by (rule takeWhile_eq_all_conv [THEN iffD2]) blast

lemma c_str_append_nul: "0 \<notin> set b \<Longrightarrow> c_str (b @ 0 # r) = b"
  unfolding c_str_def by (subst takeWhile_append2) auto

text \<open>
  \<open>strncpy(dst, src, n)\<close> into a buffer of \<open>size\<close> zero bytes with \<open>n = size - 1\<close>, the way every
  call of the sources uses it: at most \<open>size - 1\<close> bytes of the C string, zeros after it.
\<close>

definition strncpy_buf :: "nat \<Rightarrow> bytes \<Rightarrow> bytes" where
  "strncpy_buf sz src =
     (let s = take (sz - 1) (c_str src) in s @ replicate (sz - length s) 0)"

lemma length_strncpy_buf [simp, buf_simps]: "length (strncpy_buf sz src) = sz"
  by (simp add: strncpy_buf_def Let_def)

lemma nul_strncpy_buf [buf_simps]: "0 < sz \<Longrightarrow> nul_terminated (strncpy_buf sz src)"
  by (auto simp: nul_terminated_def strncpy_buf_def Let_def)

lemma c_str_strncpy_buf [buf_simps]:
  "0 < sz \<Longrightarrow> c_str (strncpy_buf sz src) = take (sz - 1) (c_str src)"
proof -
  assume "0 < sz"
  define s where "s = take (sz - 1) (c_str src)"
  have nz: "0 \<notin> set s"
    unfolding s_def using c_str_nonzero [of src] by (auto dest: in_set_takeD)
  have "length s < sz" using \<open>0 < sz\<close> by (simp add: s_def)
  then obtain k where "sz - length s = Suc k" by (metis Suc_diff_Suc)
  then have "strncpy_buf sz src = s @ 0 # replicate k 0"
    by (simp add: strncpy_buf_def s_def Let_def)
  then show ?thesis using c_str_append_nul [OF nz] by (simp add: s_def)
qed

lemma nth_memcpy_at:
  "off + length src \<le> length dst \<Longrightarrow> p < length dst \<Longrightarrow>
     memcpy_at dst off src ! p = (if off \<le> p \<and> p < off + length src then src ! (p - off) else dst ! p)"
  by (auto simp: memcpy_at_def nth_append min_def add.commute)

lemma row_position:
  fixes p :: nat
  assumes "0 < stride" "a + len \<le> stride"
  shows "row * stride + a \<le> p \<and> p < row * stride + a + len \<longleftrightarrow>
    p div stride = row \<and> a \<le> p mod stride \<and> p mod stride < a + len"
proof
  assume l: "row * stride + a \<le> p \<and> p < row * stride + a + len"
  define c where "c = p - row * stride"
  have p: "p = c + row * stride" and c: "c < stride" using l assms by (auto simp: c_def)
  have "p div stride = row" "p mod stride = c" using p c by simp_all
  then show "p div stride = row \<and> a \<le> p mod stride \<and> p mod stride < a + len" using l p by auto
next
  assume r: "p div stride = row \<and> a \<le> p mod stride \<and> p mod stride < a + len"
  then have "p = row * stride + p mod stride" by (metis div_mult_mod_eq)
  then show "row * stride + a \<le> p \<and> p < row * stride + a + len" using r by linarith
qed

text \<open>
  Copying \<open>n\<close> rows of \<open>len\<close> bytes between strided buffers: row \<open>r\<close> from \<open>so + r * ss\<close> of the source to
  \<open>off + r * ds\<close> of the destination.
\<close>

primrec copy_rows :: "nat \<Rightarrow> nat \<Rightarrow> bytes \<Rightarrow> nat \<Rightarrow> nat \<Rightarrow> nat \<Rightarrow> nat \<Rightarrow> bytes \<Rightarrow> bytes" where
  "copy_rows 0 len src so ss off ds dst = dst"
| "copy_rows (Suc n) len src so ss off ds dst =
     memcpy_at (copy_rows n len src so ss off ds dst) (off + n * ds) (take len (drop (so + n * ss) src))"

lemma copy_rows_effect:
  assumes "0 < ds" "x + len \<le> ds" "(y + n) * ds \<le> length dst" "0 < n \<Longrightarrow> so + (n - 1) * ss + len \<le> length src"
  shows "length (copy_rows n len src so ss (y * ds + x) ds dst) = length dst \<and>
    (\<forall>p<length dst. copy_rows n len src so ss (y * ds + x) ds dst ! p =
      (if y \<le> p div ds \<and> p div ds < y + n \<and> x \<le> p mod ds \<and> p mod ds < x + len
       then src ! (so + (p div ds - y) * ss + (p mod ds - x)) else dst ! p))"
  using assms(3,4)
proof (induction n)
  case 0
  then show ?case by (auto dest: leD)
next
  case (Suc n)
  have src: "so + n * ss + len \<le> length src" using Suc.prems(2) by simp
  have "(y + n) * ds + ds \<le> length dst" using Suc.prems(1) by (simp add: algebra_simps)
  moreover have "so + (n - 1) * ss + len \<le> length src" using src by (cases n) simp_all
  ultimately have ih: "length (copy_rows n len src so ss (y * ds + x) ds dst) = length dst"
      "\<forall>p<length dst. copy_rows n len src so ss (y * ds + x) ds dst ! p =
        (if y \<le> p div ds \<and> p div ds < y + n \<and> x \<le> p mod ds \<and> p mod ds < x + len
         then src ! (so + (p div ds - y) * ss + (p mod ds - x)) else dst ! p)"
    using Suc.IH by auto
  define row where "row = take len (drop (so + n * ss) src)"
  have row: "length row = len" "\<And>c. c < len \<Longrightarrow> row ! c = src ! (so + n * ss + c)"
    using src by (simp_all add: row_def)
  have off: "y * ds + x + n * ds = (y + n) * ds + x" by (simp add: algebra_simps)
  have room: "(y + n) * ds + x + len \<le> length dst"
    using \<open>(y + n) * ds + ds \<le> length dst\<close> assms(2) by linarith
  show ?case
  proof (intro conjI allI impI)
    show "length (copy_rows (Suc n) len src so ss (y * ds + x) ds dst) = length dst"
      using room row(1) ih(1) by (simp only: copy_rows.simps off row_def [symmetric]) simp
    fix p
    assume p: "p < length dst"
    have pos: "(y + n) * ds + x \<le> p \<and> p < (y + n) * ds + x + len \<longleftrightarrow>
        p div ds = y + n \<and> x \<le> p mod ds \<and> p mod ds < x + len"
      by (rule row_position [OF assms(1,2)])
    have step: "copy_rows (Suc n) len src so ss (y * ds + x) ds dst ! p =
        (if p div ds = y + n \<and> x \<le> p mod ds \<and> p mod ds < x + len then row ! (p - ((y + n) * ds + x))
         else copy_rows n len src so ss (y * ds + x) ds dst ! p)"
      using nth_memcpy_at [of "(y + n) * ds + x" row "copy_rows n len src so ss (y * ds + x) ds dst" p] room row(1) ih(1) p
      by (simp only: copy_rows.simps off row_def [symmetric] pos)
    show "copy_rows (Suc n) len src so ss (y * ds + x) ds dst ! p =
      (if y \<le> p div ds \<and> p div ds < y + Suc n \<and> x \<le> p mod ds \<and> p mod ds < x + len
       then src ! (so + (p div ds - y) * ss + (p mod ds - x)) else dst ! p)"
    proof (cases "p div ds = y + n \<and> x \<le> p mod ds \<and> p mod ds < x + len")
      case True
      have "p - ((y + n) * ds + x) = p mod ds - x" using True by (metis div_mult_mod_eq diff_add_inverse diff_diff_left)
      moreover have "p mod ds - x < len" using True by linarith
      ultimately show ?thesis using step True row(2) by simp
    next
      case False
      then show ?thesis using step ih(2) p by auto
    qed
  qed
qed

text \<open>The rows of a buffer without gaps.\<close>

lemma copy_rows_tight:
  assumes "0 < ds" "n * ds = length dst" "0 < n \<Longrightarrow> so + (n - 1) * ss + ds \<le> length src"
  shows "length (copy_rows n ds src so ss 0 ds dst) = length dst"
    "p < length dst \<Longrightarrow> copy_rows n ds src so ss 0 ds dst ! p = src ! (so + p div ds * ss + p mod ds)"
proof -
  have room: "(0 + n) * ds \<le> length dst" using assms(2) by simp
  show "length (copy_rows n ds src so ss 0 ds dst) = length dst"
    using copy_rows_effect [OF assms(1), of 0 ds, OF _ room assms(3)] by simp
  assume p: "p < length dst"
  then have "p div ds < n" using assms(2) by (simp add: less_mult_imp_div_less)
  then show "copy_rows n ds src so ss 0 ds dst ! p = src ! (so + p div ds * ss + p mod ds)"
    using copy_rows_effect [OF assms(1), of 0 ds, OF _ room assms(3)] p assms(1) by simp
qed

section \<open>Codecs\<close>

definition le32 :: "u32 \<Rightarrow> bytes" where
  "le32 w = [ucast w, ucast (drop_bit 8 w), ucast (drop_bit 16 w), ucast (drop_bit 24 w)]"

definition read_le32 :: "bytes \<Rightarrow> u32" where
  "read_le32 b = ucast (b ! 0) OR push_bit 8 (ucast (b ! 1)) OR push_bit 16 (ucast (b ! 2))
     OR push_bit 24 (ucast (b ! 3))"

lemma length_le32 [simp, buf_simps]: "length (le32 w) = 4"
  by (simp add: le32_def)

lemma read_le32_le32 [codec_simps]: "read_le32 (le32 w @ r) = w"
proof (rule bit_word_eqI)
  fix n :: nat
  assume "n < LENGTH(32)"
  then consider "n < 8" | "8 \<le> n" "n < 16" | "16 \<le> n" "n < 24" | "24 \<le> n" "n < 32"
    by fastforce
  then show "bit (read_le32 (le32 w @ r)) n = bit w n"
    by cases (auto simp: read_le32_def le32_def bit_simps)
qed

end
