(* ===== verification/Cbor.thy ===== *)
theory Cbor
  imports Prelude
begin

text \<open>
  The CBOR items the WebAuthn channel exchanges, with the constructors of libcbor's
  \<open>cbor_item_t\<close> (\<open>libs/fido2-ohos/*/include/cbor/data.h\<close>): the type discriminator, the width and
  value of an integer, the bytes \<open>cbor_bytestring_handle\<close>/\<open>cbor_string_handle\<close> and their lengths
  expose, the members of an array and the pairs of a map in order (a map may repeat a key).

  libcbor itself is a prebuilt library. What the channel calls of it is the record \<open>cbor_lib\<close>, a
  parameter of every definition that uses it:

    \<^item> \<open>cl_load\<close>: \<open>cbor_load\<close>, the item (\<open>NULL\<close> is \<open>None\<close>) and \<open>result.error.code\<close>;
    \<^item> \<open>cl_serialize\<close>: \<open>cbor_serialize\<close>, the bytes written (\<open>[]\<close> is its failure result 0);
    \<^item> \<open>cl_get_bool\<close>: \<open>cbor_get_bool\<close> of a float/ctrl item, from its width and ctrl byte.
\<close>

datatype int_width = INT_8 | INT_16 | INT_32 | INT_64

datatype float_width = FLOAT_0 | FLOAT_16 | FLOAT_32 | FLOAT_64

datatype cbor =
    CUint int_width u64
  | CNegint int_width u64
  | CBytestring bytes
  | CString bytes
  | CArray "cbor list"
  | CMap "(cbor \<times> cbor) list"
  | CTag u64 cbor
  | CFloatCtrl float_width u8

record cbor_lib =
  cl_load :: "bytes \<Rightarrow> cbor option \<times> nat"
  cl_serialize :: "cbor \<Rightarrow> bytes"
  cl_get_bool :: "float_width \<Rightarrow> u8 \<Rightarrow> bool"

definition CBOR_ERR_NONE :: nat where
  "CBOR_ERR_NONE = 0"

fun cbor_isa_map :: "cbor \<Rightarrow> bool" where
  "cbor_isa_map (CMap _) = True"
| "cbor_isa_map _ = False"

text \<open>The items the channel builds, with the widths of the builder it calls.\<close>

definition cbor_build_uint8 :: "u8 \<Rightarrow> cbor" where
  "cbor_build_uint8 v = CUint INT_8 (ucast v)"

definition cbor_build_uint16 :: "u16 \<Rightarrow> cbor" where
  "cbor_build_uint16 v = CUint INT_16 (ucast v)"

definition cbor_build_string :: "bytes \<Rightarrow> cbor" where
  "cbor_build_string s = CString (c_str s)"

text \<open>A text key of a map, as \<open>cbor_build_string\<close> of a source literal gives it.\<close>

abbreviation ckey :: "string \<Rightarrow> cbor" where
  "ckey s \<equiv> CString (ascii s)"

text \<open>
  The value the last occurrence of a key has: the loops of the decoders run over the pairs in
  order and overwrite what an earlier occurrence stored.
\<close>

definition last_entry :: "cbor \<Rightarrow> (cbor \<times> cbor) list \<Rightarrow> cbor option" where
  "last_entry k ps = map_of (rev ps) k"

lemma last_entry_Nil [simp]: "last_entry k [] = None"
  by (simp add: last_entry_def)

lemma last_entry_Cons:
  "last_entry k ((k', v) # ps) =
     (case last_entry k ps of None \<Rightarrow> if k' = k then Some v else None | Some w \<Rightarrow> Some w)"
  by (auto simp: last_entry_def map_add_def split: option.splits)

lemma last_entry_None: "last_entry k ps = None \<longleftrightarrow> k \<notin> fst ` set ps"
  by (simp add: last_entry_def map_of_eq_None_iff)

end
