(* ===== verification/Rdpewa_Request.thy ===== *)
theory Rdpewa_Request
  imports Cbor
begin

text \<open>
  \<open>rdp/rdpewa/rdpewa_cbor.c\<close>, first half: decoding an MS-RDPEWA request (a CBOR map with text
  keys) into \<open>RDPEWA_REQUEST\<close> (\<open>rdpewa_cbor.h\<close>). One definition models the body of the loop over
  the pairs, with every \<open>goto out\<close> as an \<open>Inl\<close>; \<open>decode_request\<close> is the function with its cleanup.
\<close>

section \<open>The request\<close>

text \<open>
  \<open>request\<close> is the malloc'd copy of the payload (\<open>NULL\<close> is \<open>None\<close>), \<open>transactionId\<close> and \<open>rpId\<close> are
  the fixed arrays of 16 and 256 bytes. \<open>rq_allocs\<close> is a ghost field: how many buffers \<open>malloc\<close>
  has returned to the decoder that were not freed since.
\<close>

record rdpewa_request =
  rq_command :: u32
  rq_flags :: u32
  rq_request :: "bytes option"
  rq_requestLen :: nat
  rq_timeout :: u32
  rq_transactionId :: bytes
  rq_hasTransactionId :: bool
  rq_rpId :: bytes
  rq_allocs :: nat

definition zero_request :: rdpewa_request where
  "zero_request = \<lparr>rq_command = 0, rq_flags = 0, rq_request = None, rq_requestLen = 0,
     rq_timeout = 0, rq_transactionId = replicate 16 0, rq_hasTransactionId = False,
     rq_rpId = replicate 256 0, rq_allocs = 0\<rparr>"

definition rdpewa_cbor_get_uint32 :: "u64 \<Rightarrow> u32 option" where
  "rdpewa_cbor_get_uint32 raw = (if raw > 0xFFFFFFFF then None else Some (ucast raw))"

text \<open>\<open>rpId\<close>: at most 255 bytes of the text, then a NUL; the bytes after it are kept.\<close>

definition store_rpId :: "bytes \<Rightarrow> bytes \<Rightarrow> bytes" where
  "store_rpId buf v =
     (let slen = (if length v \<ge> length buf then length buf - 1 else length v)
      in memcpy_at buf 0 (take slen v @ [0]))"

section \<open>Decoding\<close>

definition decode_entry ::
    "(nat \<Rightarrow> bool) \<Rightarrow> rdpewa_request \<Rightarrow> cbor \<times> cbor \<Rightarrow> rdpewa_request + rdpewa_request" where
  "decode_entry malloc_ok out kv = (case kv of (key, value) \<Rightarrow> (case key of CString k \<Rightarrow>
     if k = ascii ''rpId'' then
       (case value of CString v \<Rightarrow> Inr (out\<lparr>rq_rpId := store_rpId (rq_rpId out) v\<rparr>) | _ \<Rightarrow> Inr out)
     else if k = ascii ''flags'' then
       (case value of CUint _ n \<Rightarrow> (case rdpewa_cbor_get_uint32 n of
            Some w \<Rightarrow> Inr (out\<lparr>rq_flags := w\<rparr>) | None \<Rightarrow> Inl out)
        | _ \<Rightarrow> Inl out)
     else if k = ascii ''command'' then
       (case value of CUint _ n \<Rightarrow> (case rdpewa_cbor_get_uint32 n of
            Some w \<Rightarrow> Inr (out\<lparr>rq_command := w\<rparr>) | None \<Rightarrow> Inl out)
        | _ \<Rightarrow> Inl out)
     else if k = ascii ''request'' then
       (case value of CBytestring b \<Rightarrow>
          if malloc_ok (length b)
          then Inr (out\<lparr>rq_request := Some b, rq_requestLen := length b,
                      rq_allocs := Suc (rq_allocs out)\<rparr>)
          else Inl (out\<lparr>rq_request := None, rq_requestLen := 0\<rparr>)
        | _ \<Rightarrow> Inl out)
     else if k = ascii ''timeout'' then
       (case value of CUint _ n \<Rightarrow> (case rdpewa_cbor_get_uint32 n of
            Some w \<Rightarrow> Inr (out\<lparr>rq_timeout := w\<rparr>) | None \<Rightarrow> Inl out)
        | _ \<Rightarrow> Inl out)
     else if k = ascii ''transactionId'' then
       (case value of CBytestring b \<Rightarrow>
          if length b \<noteq> 16 then Inl out
          else Inr (out\<lparr>rq_transactionId := b, rq_hasTransactionId := True\<rparr>)
        | _ \<Rightarrow> Inl out)
     else Inr out
   | _ \<Rightarrow> Inr out))"

fun decode_entries ::
    "(nat \<Rightarrow> bool) \<Rightarrow> rdpewa_request \<Rightarrow> (cbor \<times> cbor) list \<Rightarrow> rdpewa_request + rdpewa_request" where
  "decode_entries malloc_ok out [] = Inr out"
| "decode_entries malloc_ok out (p # ps) =
     (case decode_entry malloc_ok out p of
        Inl out' \<Rightarrow> Inl out'
      | Inr out' \<Rightarrow> decode_entries malloc_ok out' ps)"

text \<open>The \<open>out:\<close> label on the failure path: the payload is freed and forgotten.\<close>

definition decode_fail :: "rdpewa_request \<Rightarrow> bool \<times> rdpewa_request" where
  "decode_fail out = (False, out\<lparr>rq_request := None, rq_requestLen := 0,
     rq_allocs := (if rq_request out = None then rq_allocs out else rq_allocs out - 1)\<rparr>)"

definition rdpewa_cbor_decode_request ::
    "cbor_lib \<Rightarrow> (nat \<Rightarrow> bool) \<Rightarrow> bytes \<Rightarrow> bool \<times> rdpewa_request" where
  "rdpewa_cbor_decode_request lib malloc_ok data =
     (case cl_load lib data of (root, err) \<Rightarrow> (case root of
        None \<Rightarrow> decode_fail zero_request
      | Some item \<Rightarrow>
          if err \<noteq> CBOR_ERR_NONE then decode_fail zero_request
          else (case item of
              CMap pairs \<Rightarrow> (case decode_entries malloc_ok zero_request pairs of
                  Inl out \<Rightarrow> decode_fail out
                | Inr out \<Rightarrow> if rq_command out = 0 then decode_fail out else (True, out))
            | _ \<Rightarrow> decode_fail zero_request)))"

section \<open>What an entry does\<close>

text \<open>The entries the loop accepts: a known key has a value of its type, in range.\<close>

definition fits_u32 :: "cbor \<Rightarrow> bool" where
  "fits_u32 v = (case v of CUint _ n \<Rightarrow> n \<le> 0xFFFFFFFF | _ \<Rightarrow> False)"

definition wf_entry :: "(nat \<Rightarrow> bool) \<Rightarrow> cbor \<times> cbor \<Rightarrow> bool" where
  "wf_entry malloc_ok kv = (case kv of (k, v) \<Rightarrow>
     (k \<in> {ckey ''flags'', ckey ''command'', ckey ''timeout''} \<longrightarrow> fits_u32 v) \<and>
     (k = ckey ''request'' \<longrightarrow> (case v of CBytestring b \<Rightarrow> malloc_ok (length b) | _ \<Rightarrow> False)) \<and>
     (k = ckey ''transactionId'' \<longrightarrow> (case v of CBytestring b \<Rightarrow> length b = 16 | _ \<Rightarrow> False)))"

definition u32_of :: "cbor \<Rightarrow> u32" where
  "u32_of v = (case v of CUint _ n \<Rightarrow> ucast n | _ \<Rightarrow> 0)"

definition bytes_of :: "cbor \<Rightarrow> bytes" where
  "bytes_of v = (case v of CBytestring b \<Rightarrow> b | CString b \<Rightarrow> b | _ \<Rightarrow> [])"

lemma decode_entry_accepts:
  "(\<exists>out'. decode_entry malloc_ok out kv = Inr out') \<longleftrightarrow> wf_entry malloc_ok kv"
  by (cases kv; cases "fst kv"; cases "snd kv")
     (auto simp: decode_entry_def wf_entry_def fits_u32_def rdpewa_cbor_get_uint32_def ascii_inj not_le
       split: if_splits)

lemmas decode_entry_cases = decode_entry_def rdpewa_cbor_get_uint32_def ascii_inj

lemma decode_entry_fields:
  assumes "decode_entry malloc_ok out (k, v) = Inr out'"
  shows "rq_command out' = (if k = ckey ''command'' then u32_of v else rq_command out)"
    and "rq_flags out' = (if k = ckey ''flags'' then u32_of v else rq_flags out)"
    and "rq_timeout out' = (if k = ckey ''timeout'' then u32_of v else rq_timeout out)"
    and "rq_request out' = (if k = ckey ''request'' then Some (bytes_of v) else rq_request out)"
    and "rq_requestLen out' = (if k = ckey ''request'' then length (bytes_of v) else rq_requestLen out)"
    and "rq_transactionId out' = (if k = ckey ''transactionId'' then bytes_of v else rq_transactionId out)"
    and "rq_hasTransactionId out' = (k = ckey ''transactionId'' \<or> rq_hasTransactionId out)"
    and "rq_allocs out' = rq_allocs out + (if k = ckey ''request'' then 1 else 0)"
  using assms
  by (auto simp: decode_entry_cases u32_of_def bytes_of_def split: cbor.splits if_splits)

lemma decode_entry_rpId:
  "decode_entry malloc_ok out (k, v) = Inr out' \<Longrightarrow>
   rq_rpId out' = (case (k, v) of (CString s, CString t) \<Rightarrow>
     if s = ascii ''rpId'' then store_rpId (rq_rpId out) t else rq_rpId out | _ \<Rightarrow> rq_rpId out)"
  by (auto simp: decode_entry_cases split: cbor.splits if_splits)

section \<open>What the loop does\<close>

lemma decode_entries_accepts:
  "(\<exists>out'. decode_entries malloc_ok out ps = Inr out') \<longleftrightarrow> list_all (wf_entry malloc_ok) ps"
proof (induction ps arbitrary: out)
  case (Cons p ps)
  show ?case
  proof (cases "decode_entry malloc_ok out p")
    case (Inl o')
    then have "\<not> wf_entry malloc_ok p" by (simp flip: decode_entry_accepts [of _ out])
    with Inl show ?thesis by simp
  next
    case (Inr o')
    then have "wf_entry malloc_ok p" using decode_entry_accepts [of malloc_ok out p] by simp
    with Inr Cons.IH [of o'] show ?thesis by simp
  qed
qed simp

text \<open>The value the last occurrence of a key stores, through a reader, over what was there.\<close>

definition stored :: "(cbor \<Rightarrow> 'a) \<Rightarrow> 'a \<Rightarrow> string \<Rightarrow> (cbor \<times> cbor) list \<Rightarrow> 'a" where
  "stored f d k ps = (case last_entry (ckey k) ps of None \<Rightarrow> d | Some v \<Rightarrow> f v)"

lemma stored_Nil [simp]: "stored f d k [] = d"
  by (simp add: stored_def)

lemma stored_Cons:
  "stored f d k ((k', v) # ps) = stored f (if k' = ckey k then f v else d) k ps"
  by (simp add: stored_def last_entry_Cons split: option.split)

lemma decode_entries_fields:
  assumes "decode_entries malloc_ok out ps = Inr out'"
  shows "rq_command out' = stored u32_of (rq_command out) ''command'' ps"
    and "rq_flags out' = stored u32_of (rq_flags out) ''flags'' ps"
    and "rq_timeout out' = stored u32_of (rq_timeout out) ''timeout'' ps"
    and "rq_request out' = stored (Some \<circ> bytes_of) (rq_request out) ''request'' ps"
    and "rq_requestLen out' = stored (length \<circ> bytes_of) (rq_requestLen out) ''request'' ps"
    and "rq_transactionId out' = stored bytes_of (rq_transactionId out) ''transactionId'' ps"
    and "rq_hasTransactionId out' = (ckey ''transactionId'' \<in> fst ` set ps \<or> rq_hasTransactionId out)"
    and "rq_allocs out' = rq_allocs out + count_list (map fst ps) (ckey ''request'')"
  using assms
  by (induction ps arbitrary: out)
     (auto simp: stored_Cons decode_entry_fields split: sum.splits prod.splits)

lemma store_rpId_length: "0 < length buf \<Longrightarrow> length (store_rpId buf v) = length buf"
  by (simp add: store_rpId_def Let_def)

lemma store_rpId_nul: "0 < length buf \<Longrightarrow> nul_terminated (store_rpId buf v)"
  by (simp add: store_rpId_def nul_terminated_def memcpy_at_def Let_def)

text \<open>Both text buffers keep their size, and \<open>rpId\<close> its terminator, whatever the entries are.\<close>

definition buffers_ok :: "rdpewa_request \<Rightarrow> bool" where
  "buffers_ok r \<longleftrightarrow> length (rq_transactionId r) = 16 \<and> length (rq_rpId r) = 256 \<and>
     nul_terminated (rq_rpId r) \<and>
     (case rq_request r of None \<Rightarrow> rq_requestLen r = 0 | Some b \<Rightarrow> rq_requestLen r = length b)"

lemma buffers_ok_zero: "buffers_ok zero_request"
  by (simp add: buffers_ok_def zero_request_def nul_terminated_def)

lemma buffers_ok_entry_Inr: "decode_entry m out kv = Inr out' \<Longrightarrow> buffers_ok out \<Longrightarrow> buffers_ok out'"
  by (auto simp: decode_entry_cases buffers_ok_def store_rpId_length store_rpId_nul
      split: cbor.splits if_splits prod.splits option.splits)

lemma buffers_ok_entry_Inl: "decode_entry m out kv = Inl out' \<Longrightarrow> buffers_ok out \<Longrightarrow> buffers_ok out'"
  by (auto simp: decode_entry_cases buffers_ok_def split: cbor.splits if_splits prod.splits)

lemma buffers_ok_entries:
  assumes "buffers_ok out"
  shows "decode_entries m out ps = Inl o' \<Longrightarrow> buffers_ok o'"
    and "decode_entries m out ps = Inr o' \<Longrightarrow> buffers_ok o'"
  using assms
  by (induction ps arbitrary: out)
     (auto split: sum.splits intro: buffers_ok_entry_Inl buffers_ok_entry_Inr)

lemma buffers_ok_fail: "buffers_ok out \<Longrightarrow> buffers_ok (snd (decode_fail out))"
  by (simp add: decode_fail_def buffers_ok_def split: option.splits)

text \<open>
  The decoder owns what it allocated: as many live buffers as \<open>out->request\<close> holds. The loop keeps
  this as long as the key \<open>request\<close> is not seen twice.
\<close>

definition owned :: "rdpewa_request \<Rightarrow> nat" where
  "owned r = (if rq_request r = None then 0 else 1)"

lemma decode_entry_owned:
  assumes "rq_allocs out = owned out" and "k = ckey ''request'' \<Longrightarrow> rq_request out = None"
  shows "decode_entry m out (k, v) = Inl o' \<Longrightarrow> rq_allocs o' = owned o'"
    and "decode_entry m out (k, v) = Inr o' \<Longrightarrow> rq_allocs o' = owned o'"
  using assms
  by (auto simp: decode_entry_cases owned_def split: cbor.splits if_splits)

lemma decode_entries_owned:
  assumes "rq_allocs out = owned out"
    and "count_list (map fst ps) (ckey ''request'') + owned out \<le> 1"
  shows "case decode_entries m out ps of
    Inl o' \<Rightarrow> rq_allocs o' = owned o' | Inr o' \<Rightarrow> rq_allocs o' = owned o'"
  using assms
proof (induction ps arbitrary: out)
  case Nil
  then show ?case by simp
next
  case (Cons p ps)
  obtain k v where p: "p = (k, v)" by force
  have first: "k = ckey ''request'' \<Longrightarrow> rq_request out = None"
    using Cons.prems(2) by (auto simp: p owned_def split: if_splits)
  show ?case
  proof (cases "decode_entry m out p")
    case (Inl o1)
    then show ?thesis
      using decode_entry_owned(1) [OF Cons.prems(1) first, where v = v and o' = o1] by (simp add: p)
  next
    case (Inr o1)
    have "count_list (map fst ps) (ckey ''request'') + owned o1 \<le> 1"
      using Inr Cons.prems(2) decode_entry_fields(4) [of m out k v o1]
      by (auto simp: p owned_def split: if_splits)
    moreover have "rq_allocs o1 = owned o1"
      using Inr decode_entry_owned(2) [OF Cons.prems(1) first, where v = v and o' = o1] by (simp add: p)
    ultimately show ?thesis using Cons.IH [of o1] Inr by simp
  qed
qed

section \<open>Properties\<close>

text \<open>
  A library for the witnesses: every buffer decodes to the given map. The request of the example
  is a registration (command 5) whose payload is one byte.
\<close>

definition lib_of_map :: "(cbor \<times> cbor) list \<Rightarrow> cbor_lib" where
  "lib_of_map ps = \<lparr>cl_load = (\<lambda>_. (Some (CMap ps), CBOR_ERR_NONE)),
     cl_serialize = (\<lambda>_. [0xA0]), cl_get_bool = (\<lambda>_ c. c = 21)\<rparr>"

definition example_request :: "(cbor \<times> cbor) list" where
  "example_request = [(ckey ''command'', CUint INT_8 5), (ckey ''request'', CBytestring [1])]"

lemmas decode_request_unfold =
  rdpewa_cbor_decode_request_def decode_fail_def CBOR_ERR_NONE_def

text \<open>
  The texts a map gives for \<open>rpId\<close> (a value of another type is passed over), and what the array
  holds of one: its first 255 bytes and a NUL.
\<close>

definition rpId_texts :: "(cbor \<times> cbor) list \<Rightarrow> bytes list" where
  "rpId_texts ps = [t. (CString s, CString t) \<leftarrow> ps, s = ascii ''rpId'']"

definition holds_text :: "bytes \<Rightarrow> bytes \<Rightarrow> bool" where
  "holds_text buf t \<longleftrightarrow> take (min 255 (length t) + 1) buf = take 255 t @ [0]"

lemma store_rpId_holds: "length buf = 256 \<Longrightarrow> length (store_rpId buf t) = 256 \<and> holds_text (store_rpId buf t) t"
  by (auto simp: store_rpId_def holds_text_def memcpy_at_def Let_def)

lemma decode_entries_rpId:
  "decode_entries malloc_ok out ps = Inr out' \<Longrightarrow> length (rq_rpId out) = 256 \<Longrightarrow>
     length (rq_rpId out') = 256 \<and>
     (if rpId_texts ps = [] then rq_rpId out' = rq_rpId out else holds_text (rq_rpId out') (last (rpId_texts ps)))"
proof (induction ps arbitrary: out)
  case (Cons p ps)
  obtain k v where p: "p = (k, v)" by force
  obtain o1 where o1: "decode_entry malloc_ok out (k, v) = Inr o1" "decode_entries malloc_ok o1 ps = Inr out'"
    using Cons.prems(1) p by (auto split: sum.splits)
  show ?case
  proof (cases "\<exists>t. k = CString (ascii ''rpId'') \<and> v = CString t")
    case True
    then obtain t where t: "k = CString (ascii ''rpId'')" "v = CString t" by blast
    then have "rq_rpId o1 = store_rpId (rq_rpId out) t" using decode_entry_rpId [OF o1(1)] by simp
    moreover have "rpId_texts (p # ps) = t # rpId_texts ps" using t p by (simp add: rpId_texts_def)
    ultimately show ?thesis using Cons.IH [OF o1(2)] store_rpId_holds [OF Cons.prems(2), of t] by simp
  next
    case False
    then have "rq_rpId o1 = rq_rpId out" using decode_entry_rpId [OF o1(1)] by (auto split: cbor.splits)
    moreover have "rpId_texts (p # ps) = rpId_texts ps" using False p by (auto simp: rpId_texts_def split: cbor.splits)
    ultimately show ?thesis using Cons.IH [OF o1(2)] Cons.prems(2) by simp
  qed
qed (simp add: rpId_texts_def)

text \<open>
  C1. Decoding a request map is exactly this: it succeeds when every known key has a value of its
  type and range and the last \<open>command\<close> is not 0, and then every field holds the value of the last
  occurrence of its key, or 0 when the map does not have it; \<open>rpId\<close> holds the first 255 bytes of its last
  text and a NUL.
\<close>

theorem decode_request_spec:
  assumes "cl_load lib data = (Some (CMap ps), CBOR_ERR_NONE)"
  shows "case rdpewa_cbor_decode_request lib m data of (ok, r) \<Rightarrow>
    (ok \<longleftrightarrow> list_all (wf_entry m) ps \<and> stored u32_of 0 ''command'' ps \<noteq> 0) \<and>
    (ok \<longrightarrow> rq_command r = stored u32_of 0 ''command'' ps \<and>
       rq_flags r = stored u32_of 0 ''flags'' ps \<and>
       rq_timeout r = stored u32_of 0 ''timeout'' ps \<and>
       rq_request r = stored (Some \<circ> bytes_of) None ''request'' ps \<and>
       rq_requestLen r = stored (length \<circ> bytes_of) 0 ''request'' ps \<and>
       rq_transactionId r = stored bytes_of (replicate 16 0) ''transactionId'' ps \<and>
       rq_hasTransactionId r = (ckey ''transactionId'' \<in> fst ` set ps) \<and>
       length (rq_rpId r) = 256 \<and>
       (if rpId_texts ps = [] then rq_rpId r = replicate 256 0
        else holds_text (rq_rpId r) (last (rpId_texts ps))))"
proof (cases "decode_entries m zero_request ps")
  case (Inl out)
  then have "\<not> list_all (wf_entry m) ps" by (simp flip: decode_entries_accepts [of _ zero_request])
  with Inl assms show ?thesis by (simp add: decode_request_unfold)
next
  case (Inr out)
  then have "list_all (wf_entry m) ps" by (simp flip: decode_entries_accepts [of _ zero_request])
  with Inr assms decode_entries_fields [OF Inr] decode_entries_rpId [OF Inr] show ?thesis
    by (simp add: decode_request_unfold zero_request_def)
qed

lemma decode_request_spec_witness:
  "rdpewa_cbor_decode_request (lib_of_map example_request) (\<lambda>_. True) [] =
     (True, snd (rdpewa_cbor_decode_request (lib_of_map example_request) (\<lambda>_. True) [])) \<and>
   rq_command (snd (rdpewa_cbor_decode_request (lib_of_map example_request) (\<lambda>_. True) [])) = 5"
  using decode_request_spec [of "lib_of_map example_request" "[]" example_request "\<lambda>_. True"]
  by (auto simp: lib_of_map_def example_request_def wf_entry_def fits_u32_def ascii_inj stored_def
      last_entry_Cons u32_of_def split: prod.splits)

text \<open>
  Whatever bytes arrive, the decoded structure is safe to read: the transaction id has 16 bytes,
  \<open>rpId\<close> is NUL-terminated inside its 256 bytes, \<open>requestLen\<close> is the length of the payload it comes
  with; after a failure there is no payload, after a success the command is not 0.
\<close>

lemma decode_request_buffers:
  "buffers_ok (snd (rdpewa_cbor_decode_request lib m data)) \<and>
   (if fst (rdpewa_cbor_decode_request lib m data)
    then rq_command (snd (rdpewa_cbor_decode_request lib m data)) \<noteq> 0
    else rq_request (snd (rdpewa_cbor_decode_request lib m data)) = None)"
proof -
  obtain root err where l: "cl_load lib data = (root, err)" by force
  show ?thesis
  proof (cases "\<exists>ps. root = Some (CMap ps) \<and> err = CBOR_ERR_NONE")
    case True
    then obtain ps where r: "root = Some (CMap ps)" "err = CBOR_ERR_NONE" by blast
    show ?thesis
      using l r buffers_ok_entries [OF buffers_ok_zero, of m ps] buffers_ok_fail
      by (cases "decode_entries m zero_request ps")
         (auto simp: rdpewa_cbor_decode_request_def decode_fail_def)
  next
    case False
    then have "rdpewa_cbor_decode_request lib m data = decode_fail zero_request"
      using l by (auto simp: rdpewa_cbor_decode_request_def split: option.split cbor.split)
    then show ?thesis
      using buffers_ok_fail [OF buffers_ok_zero] by (simp add: decode_fail_def)
  qed
qed

text \<open>
  C2. A request map that names \<open>request\<close> at most once leaks nothing: the buffers still allocated
  after decoding are exactly the payload handed to the caller (one on success with a payload, none
  otherwise).
\<close>

theorem decode_request_no_leak:
  assumes "cl_load lib data = (Some (CMap ps), err)"
    and "count_list (map fst ps) (ckey ''request'') \<le> 1"
  shows "rq_allocs (snd (rdpewa_cbor_decode_request lib m data)) =
    owned (snd (rdpewa_cbor_decode_request lib m data))"
proof -
  have z: "rq_allocs zero_request = owned zero_request"
    "count_list (map fst ps) (ckey ''request'') + owned zero_request \<le> 1"
    using assms(2) by (simp_all add: zero_request_def owned_def)
  show ?thesis
    using assms(1) decode_entries_owned [OF z, of m] z(1)
    by (cases "decode_entries m zero_request ps")
       (auto simp: rdpewa_cbor_decode_request_def decode_fail_def owned_def)
qed

lemma decode_request_no_leak_witness:
  "rq_allocs (snd (rdpewa_cbor_decode_request (lib_of_map example_request) (\<lambda>_. True) [])) =
   owned (snd (rdpewa_cbor_decode_request (lib_of_map example_request) (\<lambda>_. True) []))"
  by (rule decode_request_no_leak [of _ _ example_request CBOR_ERR_NONE])
     (simp_all add: lib_of_map_def example_request_def ascii_inj)

text \<open>
  The hypothesis of the theorem above is needed: a map that names \<open>request\<close> twice makes the decoder
  forget the first copy, which nothing frees.
\<close>

lemma decode_request_duplicate_leaks:
  "rq_allocs (snd (rdpewa_cbor_decode_request
     (lib_of_map (example_request @ [(ckey ''request'', CBytestring [1])])) (\<lambda>_. True) [])) = 2 \<and>
   owned (snd (rdpewa_cbor_decode_request
     (lib_of_map (example_request @ [(ckey ''request'', CBytestring [1])])) (\<lambda>_. True) [])) = 1"
  by (simp add: rdpewa_cbor_decode_request_def lib_of_map_def example_request_def decode_entry_cases
      zero_request_def owned_def CBOR_ERR_NONE_def)

end
