(* ===== verification/Rdpewa_Response.thy ===== *)
theory Rdpewa_Response
  imports Cbor
begin

text \<open>
  \<open>rdp/rdpewa/rdpewa_cbor.c\<close>, second half, and \<open>rdpewa_fido_fill_device_info\<close> of
  \<open>rdp/rdpewa/rdpewa_fido.c\<close>: the device description (\<open>RDPEWA_DEVICE_INFO\<close>) and the replies built
  from it. A reply is the byte string of the stream up to its position; \<open>NULL\<close> is \<open>None\<close>. The
  argument \<open>ok\<close> says which of the checked allocations of a builder succeed.
\<close>

section \<open>Device information\<close>

record rdpewa_device_info =
  di_maxMsgSize :: u32
  di_maxSerializedLargeBlobArray :: u32
  di_providerType :: bytes
  di_providerName :: bytes
  di_devicePath :: bytes
  di_manufacturer :: bytes
  di_product :: bytes
  di_aaGuid :: bytes
  di_uvStatus :: u8
  di_uvRetries :: u8
  di_transports :: u32

definition zero_device_info :: rdpewa_device_info where
  "zero_device_info = \<lparr>di_maxMsgSize = 0, di_maxSerializedLargeBlobArray = 0,
     di_providerType = replicate 16 0, di_providerName = replicate 64 0,
     di_devicePath = replicate 256 0, di_manufacturer = replicate 64 0, di_product = replicate 64 0,
     di_aaGuid = replicate 16 0, di_uvStatus = 0, di_uvRetries = 0, di_transports = 0\<rparr>"

text \<open>
  What \<open>fido_dev_get_cbor_info\<close> reports of a device, read through libfido2's accessors; \<open>None\<close>
  stands for a failed call (or no memory for the container), for a null pointer among the
  transports, and for a missing AAGUID.
\<close>

record fido_info =
  fi_maxmsgsiz :: u64
  fi_maxlargeblob :: u64
  fi_aaguid :: "bytes option"
  fi_transports :: "bytes option list"

definition transport_bit :: "bytes option \<Rightarrow> u32" where
  "transport_bit t = (case t of None \<Rightarrow> 0 | Some s \<Rightarrow>
     if c_str s = ascii ''usb'' then 1
     else if c_str s = ascii ''nfc'' then 2
     else if c_str s = ascii ''ble'' then 4 else 0)"

definition apply_fido_info :: "fido_info \<Rightarrow> rdpewa_device_info \<Rightarrow> rdpewa_device_info" where
  "apply_fido_info ci info =
     (let info1 = (if 0 < fi_maxmsgsiz ci \<and> fi_maxmsgsiz ci \<le> 0xFFFFFFFF
                   then info\<lparr>di_maxMsgSize := ucast (fi_maxmsgsiz ci)\<rparr> else info);
          info2 = (if 0 < fi_maxlargeblob ci \<and> fi_maxlargeblob ci \<le> 0xFFFFFFFF
                   then info1\<lparr>di_maxSerializedLargeBlobArray := ucast (fi_maxlargeblob ci)\<rparr>
                   else info1);
          info3 = (case fi_aaguid ci of None \<Rightarrow> info2
                   | Some g \<Rightarrow> if length g = 16 then info2\<lparr>di_aaGuid := g\<rparr> else info2)
      in info3\<lparr>di_transports :=
           fold (\<lambda>t acc. acc OR transport_bit t) (fi_transports ci) (di_transports info3)\<rparr>)"

definition rdpewa_fido_fill_device_info ::
    "bool \<Rightarrow> fido_info option \<Rightarrow> bytes option \<Rightarrow> bytes option \<Rightarrow> bytes option \<Rightarrow> rdpewa_device_info" where
  "rdpewa_fido_fill_device_info has_pin cbor_info path manufacturer product =
     (let info0 = zero_device_info\<lparr>di_maxMsgSize := 1200, di_maxSerializedLargeBlobArray := 1024,
            di_providerType := strncpy_buf 16 (ascii ''Hid''),
            di_providerName := strncpy_buf 64 (ascii ''FreeRDPFidoProvider''),
            di_uvStatus := (if has_pin then 1 else 0), di_uvRetries := 3\<rparr>;
          info1 = (case path of None \<Rightarrow> info0 | Some p \<Rightarrow> info0\<lparr>di_devicePath := strncpy_buf 256 p\<rparr>);
          info2 = (case manufacturer of None \<Rightarrow> info1
                   | Some t \<Rightarrow> if c_str t = [] then info1
                               else info1\<lparr>di_manufacturer := strncpy_buf 64 t\<rparr>);
          info3 = (case product of None \<Rightarrow> info2
                   | Some t \<Rightarrow> if c_str t = [] then info2
                               else info2\<lparr>di_product := strncpy_buf 64 t\<rparr>)
      in (case cbor_info of None \<Rightarrow> info3 | Some ci \<Rightarrow> apply_fido_info ci info3))"

text \<open>Every text field fits its array with its terminator, and the AAGUID has 16 bytes.\<close>

definition text_field :: "nat \<Rightarrow> bytes \<Rightarrow> bool" where
  "text_field n b \<longleftrightarrow> length b = n \<and> nul_terminated b"

definition wf_device_info :: "rdpewa_device_info \<Rightarrow> bool" where
  "wf_device_info d \<longleftrightarrow> text_field 16 (di_providerType d) \<and> text_field 64 (di_providerName d) \<and>
     text_field 256 (di_devicePath d) \<and> text_field 64 (di_manufacturer d) \<and>
     text_field 64 (di_product d) \<and> length (di_aaGuid d) = 16"

lemma text_field_replicate [simp]: "0 < n \<Longrightarrow> text_field n (replicate n 0)"
  by (simp add: text_field_def nul_terminated_def)

lemma text_field_strncpy [simp]: "0 < n \<Longrightarrow> text_field n (strncpy_buf n s)"
  by (simp add: text_field_def buf_simps)

lemma wf_zero_device_info [simp]: "wf_device_info zero_device_info"
  by (simp add: wf_device_info_def zero_device_info_def)

lemma wf_apply_fido_info: "wf_device_info d \<Longrightarrow> wf_device_info (apply_fido_info ci d)"
  by (simp add: wf_device_info_def apply_fido_info_def Let_def split: option.split)

lemma wf_fill_device_info [simp]:
  "wf_device_info (rdpewa_fido_fill_device_info hp ci path manuf pr)"
proof -
  have "wf_device_info (rdpewa_fido_fill_device_info hp None path manuf pr)"
    by (auto simp: rdpewa_fido_fill_device_info_def wf_device_info_def zero_device_info_def Let_def
        split: option.split)
  then show ?thesis
    using wf_apply_fido_info
    by (cases ci) (simp_all add: rdpewa_fido_fill_device_info_def Let_def)
qed

section \<open>Building a reply\<close>

definition rdpewa_cbor_clamp_uint16 :: "u32 \<Rightarrow> u16" where
  "rdpewa_cbor_clamp_uint16 v = (if v > 0xFFFF then 0xFFFF else ucast v)"

datatype encode_site =
    SiteResponseData | SiteRootMap | SiteDeviceInfo | SiteDevicePair nat
  | SiteAddDeviceInfo | SiteAddStatus | SiteAddResponse | SiteStream

definition device_info_pairs :: "rdpewa_device_info \<Rightarrow> (cbor \<times> cbor) list" where
  "device_info_pairs d =
     [(ckey ''maxMsgSize'', cbor_build_uint16 (rdpewa_cbor_clamp_uint16 (di_maxMsgSize d))),
      (ckey ''maxSerializedLargeBlobArray'',
         cbor_build_uint16 (rdpewa_cbor_clamp_uint16 (di_maxSerializedLargeBlobArray d))),
      (ckey ''providerType'', cbor_build_string (di_providerType d)),
      (ckey ''providerName'', cbor_build_string (di_providerName d)),
      (ckey ''devicePath'', cbor_build_string (di_devicePath d)),
      (ckey ''Manufacturer'', cbor_build_string (di_manufacturer d)),
      (ckey ''Product'', cbor_build_string (di_product d)),
      (ckey ''aaGuid'', CBytestring (di_aaGuid d)),
      (ckey ''uvStatus'', cbor_build_uint8 (di_uvStatus d)),
      (ckey ''uvRetries'', cbor_build_uint8 (di_uvRetries d)),
      (ckey ''transports'', cbor_build_uint8 (ucast (di_transports d AND 0x07)))]"

text \<open>\<open>wrap_cbor_map_add\<close> over the pairs in order: \<open>None\<close> at the first one that is refused.\<close>

fun add_pairs :: "(nat \<Rightarrow> bool) \<Rightarrow> nat \<Rightarrow> (cbor \<times> cbor) list \<Rightarrow> (cbor \<times> cbor) list option" where
  "add_pairs ok i [] = Some []"
| "add_pairs ok i (p # ps) =
     (if ok i then map_option ((#) p) (add_pairs ok (Suc i) ps) else None)"

lemma add_pairs_Some: "add_pairs ok i ps = Some qs \<Longrightarrow> qs = ps"
  by (induction ps arbitrary: i qs) (auto split: if_splits)

lemma add_pairs_all: "(\<And>i. ok i) \<Longrightarrow> add_pairs ok i ps = Some ps"
  by (induction ps arbitrary: i) simp_all

definition response_root :: "u8 \<Rightarrow> bytes \<Rightarrow> rdpewa_device_info \<Rightarrow> cbor" where
  "response_root ctapStatus ctapData devInfo =
     CMap [(ckey ''deviceInfo'', CMap (device_info_pairs devInfo)),
           (ckey ''status'', cbor_build_uint8 0),
           (ckey ''response'', CBytestring (ctapStatus # ctapData))]"

definition rdpewa_cbor_encode_webauthn_response ::
    "cbor_lib \<Rightarrow> (encode_site \<Rightarrow> bool) \<Rightarrow> u32 \<Rightarrow> u8 \<Rightarrow> bytes \<Rightarrow> rdpewa_device_info \<Rightarrow> bytes option" where
  "rdpewa_cbor_encode_webauthn_response lib ok hresult ctapStatus ctapData devInfo =
     (if \<not> ok SiteResponseData then None else
      let responseData = ctapStatus # ctapData in
      if \<not> ok SiteRootMap then None else
      if \<not> ok SiteDeviceInfo then None else
      case add_pairs (\<lambda>i. ok (SiteDevicePair i)) 0 (device_info_pairs devInfo) of
        None \<Rightarrow> None
      | Some diMap \<Rightarrow>
          if \<not> ok SiteAddDeviceInfo then None else
          if \<not> ok SiteAddStatus then None else
          if \<not> ok SiteAddResponse then None else
          let root = CMap [(ckey ''deviceInfo'', CMap diMap), (ckey ''status'', cbor_build_uint8 0),
                           (ckey ''response'', CBytestring responseData)];
              body = cl_serialize lib root in
          if body = [] then None else
          if \<not> ok SiteStream then None else Some (le32 hresult @ body))"

definition rdpewa_cbor_encode_simple_response :: "(encode_site \<Rightarrow> bool) \<Rightarrow> u32 \<Rightarrow> u32 \<Rightarrow> bytes option" where
  "rdpewa_cbor_encode_simple_response ok hresult value =
     (if \<not> ok SiteStream then None else Some (le32 hresult @ le32 value))"

definition rdpewa_cbor_encode_hresult_response :: "(encode_site \<Rightarrow> bool) \<Rightarrow> u32 \<Rightarrow> bytes option" where
  "rdpewa_cbor_encode_hresult_response ok hresult =
     (if \<not> ok SiteStream then None else Some (le32 hresult))"

text \<open>Every reply is the result code followed by the serialized map, or nothing.\<close>

lemma encode_webauthn_cases:
  "rdpewa_cbor_encode_webauthn_response lib ok h st d di = None \<or>
   rdpewa_cbor_encode_webauthn_response lib ok h st d di =
     Some (le32 h @ cl_serialize lib (response_root st d di))"
  by (auto simp: rdpewa_cbor_encode_webauthn_response_def response_root_def Let_def
      split: option.split dest: add_pairs_Some)

lemma encode_webauthn_Some:
  "(\<And>s. ok s) \<Longrightarrow> cl_serialize lib (response_root st d di) \<noteq> [] \<Longrightarrow>
   rdpewa_cbor_encode_webauthn_response lib ok h st d di =
     Some (le32 h @ cl_serialize lib (response_root st d di))"
  by (simp add: rdpewa_cbor_encode_webauthn_response_def response_root_def Let_def add_pairs_all)

section \<open>Widths\<close>

text \<open>An integer item fits the width it is written with, in every part of the item.\<close>

definition width_bits :: "int_width \<Rightarrow> nat" where
  "width_bits w = (case w of INT_8 \<Rightarrow> 8 | INT_16 \<Rightarrow> 16 | INT_32 \<Rightarrow> 32 | INT_64 \<Rightarrow> 64)"

fun fits_widths :: "cbor \<Rightarrow> bool" where
  "fits_widths (CUint w n) \<longleftrightarrow> unat n < 2 ^ width_bits w"
| "fits_widths (CNegint w n) \<longleftrightarrow> unat n < 2 ^ width_bits w"
| "fits_widths (CArray xs) \<longleftrightarrow> list_all fits_widths xs"
| "fits_widths (CMap ps) \<longleftrightarrow> list_all (\<lambda>p. fits_widths (fst p) \<and> fits_widths (snd p)) ps"
| "fits_widths (CTag _ x) \<longleftrightarrow> fits_widths x"
| "fits_widths _ \<longleftrightarrow> True"

lemma fits_uint8 [simp]: "fits_widths (cbor_build_uint8 v)"
proof -
  have "unat v < 2 ^ LENGTH(8)" by (rule unsigned_less)
  then show ?thesis
    by (simp add: cbor_build_uint8_def width_bits_def unsigned_ucast_eq take_bit_eq_mod)
qed

lemma fits_uint16 [simp]: "fits_widths (cbor_build_uint16 v)"
proof -
  have "unat v < 2 ^ LENGTH(16)" by (rule unsigned_less)
  then show ?thesis
    by (simp add: cbor_build_uint16_def width_bits_def unsigned_ucast_eq take_bit_eq_mod)
qed

lemma fits_string [simp]: "fits_widths (cbor_build_string s)"
  by (simp add: cbor_build_string_def)

lemma clamp_uint16: "unat (rdpewa_cbor_clamp_uint16 v) = min (unat v) 0xFFFF"
proof (cases "v > 0xFFFF")
  case True
  then have "unat v > 0xFFFF" by (simp add: word_less_nat_alt)
  with True show ?thesis by (simp add: rdpewa_cbor_clamp_uint16_def)
next
  case False
  then have "unat v \<le> 0xFFFF" by (simp add: word_le_nat_alt not_less)
  with False show ?thesis
    by (simp add: rdpewa_cbor_clamp_uint16_def unsigned_ucast_eq take_bit_eq_mod)
qed

lemma ucast_mask3: "(ucast (ucast (w AND 7 :: u32) :: u8) :: u64) = ucast (w AND 7)"
proof -
  have "w AND 7 = w AND mask 3" by (simp add: mask_numeral)
  then show ?thesis by (auto intro!: bit_word_eqI simp: bit_simps)
qed

lemma device_info_entries:
  "last_entry (ckey ''maxMsgSize'') (device_info_pairs d) =
     Some (cbor_build_uint16 (rdpewa_cbor_clamp_uint16 (di_maxMsgSize d)))"
  "last_entry (ckey ''transports'') (device_info_pairs d) =
     Some (cbor_build_uint8 (ucast (di_transports d AND 7)))"
  "last_entry (ckey ''Product'') (device_info_pairs d) = Some (cbor_build_string (di_product d))"
  by (simp_all add: device_info_pairs_def last_entry_Cons ascii_inj)

lemma clamp_ucast: "(ucast (rdpewa_cbor_clamp_uint16 v) :: u64) = of_nat (min (unat v) 0xFFFF)"
  by (simp only: clamp_uint16 [symmetric] of_nat_unat)

section \<open>Properties\<close>

text \<open>
  C3. A WebAuthn reply can be read back: its first four bytes are the little-endian result code, and
  decoding the rest (with a library whose \<open>cbor_load\<close> inverts its \<open>cbor_serialize\<close>) gives a map
  whose \<open>response\<close> is the CTAP status byte followed by the authenticator's data, unchanged.
\<close>

theorem webauthn_response_roundtrip:
  assumes law: "\<And>x. cl_serialize lib x \<noteq> [] \<Longrightarrow>
      cl_load lib (cl_serialize lib x) = (Some x, CBOR_ERR_NONE)"
    and reply: "rdpewa_cbor_encode_webauthn_response lib ok h st d di = Some reply"
  shows "read_le32 reply = h \<and> (\<exists>ps. cl_load lib (drop 4 reply) = (Some (CMap ps), CBOR_ERR_NONE) \<and>
     last_entry (ckey ''response'') ps = Some (CBytestring (st # d)) \<and>
     last_entry (ckey ''status'') ps = Some (CUint INT_8 0))"
proof -
  have r: "reply = le32 h @ cl_serialize lib (response_root st d di)"
    using encode_webauthn_cases [of lib ok h st d di] reply by auto
  have "cl_serialize lib (response_root st d di) \<noteq> []"
    using reply
    by (auto simp: rdpewa_cbor_encode_webauthn_response_def response_root_def Let_def
        split: if_splits option.splits dest: add_pairs_Some)
  from law [OF this] r show ?thesis
    by (simp add: codec_simps response_root_def last_entry_Cons ascii_inj cbor_build_uint8_def)
qed

definition lib_of_item :: "cbor \<Rightarrow> cbor_lib" where
  "lib_of_item x = \<lparr>cl_load = (\<lambda>b. if b = [0xA3] then (Some x, CBOR_ERR_NONE) else (None, 1)),
     cl_serialize = (\<lambda>y. if y = x then [0xA3] else []), cl_get_bool = (\<lambda>_ c. c = 21)\<rparr>"

lemma webauthn_response_roundtrip_witness:
  "\<exists>reply. rdpewa_cbor_encode_webauthn_response (lib_of_item (response_root 0 [7] zero_device_info))
       (\<lambda>_. True) 0x80004005 0 [7] zero_device_info = Some reply \<and> read_le32 reply = 0x80004005"
proof -
  let ?lib = "lib_of_item (response_root 0 [7] zero_device_info)"
  have s: "cl_serialize ?lib (response_root 0 [7] zero_device_info) \<noteq> []"
    by (simp add: lib_of_item_def)
  obtain reply where r: "rdpewa_cbor_encode_webauthn_response ?lib (\<lambda>_. True) 0x80004005 0 [7]
      zero_device_info = Some reply"
    using encode_webauthn_Some [OF _ s, of "\<lambda>_. True"] by simp
  have "\<And>x. cl_serialize ?lib x \<noteq> [] \<Longrightarrow> cl_load ?lib (cl_serialize ?lib x) = (Some x, CBOR_ERR_NONE)"
    by (auto simp: lib_of_item_def split: if_splits)
  from webauthn_response_roundtrip [OF this r] r show ?thesis by blast
qed

text \<open>
  What a device reports is clamped to what the reply can carry: every integer of the reply fits
  its CBOR width, a message size or blob size above 16 bits becomes 65535, the transports are a
  three-bit mask, and the product name is text that fits its 64-byte field.
\<close>

lemma device_info_reply_bounds:
  fixes hp ci path manuf pr
  defines "d \<equiv> rdpewa_fido_fill_device_info hp ci path manuf pr"
  shows "fits_widths (response_root st c d) \<and>
    last_entry (ckey ''maxMsgSize'') (device_info_pairs d) =
      Some (CUint INT_16 (of_nat (min (unat (di_maxMsgSize d)) 0xFFFF))) \<and>
    last_entry (ckey ''transports'') (device_info_pairs d) =
      Some (CUint INT_8 (ucast (di_transports d AND 7))) \<and>
    (\<exists>s. last_entry (ckey ''Product'') (device_info_pairs d) = Some (CString s) \<and>
       length s < 64 \<and> 0 \<notin> set s)"
proof -
  have wf: "wf_device_info d" by (simp add: d_def)
  then have "length (c_str (di_product d)) < 64"
    using nul_terminated_length [of "di_product d"] by (simp add: wf_device_info_def text_field_def)
  moreover have "fits_widths (response_root st c d)"
    by (simp add: response_root_def device_info_pairs_def)
  ultimately show ?thesis
    by (simp only: device_info_entries cbor_build_uint16_def cbor_build_uint8_def
        cbor_build_string_def clamp_ucast ucast_mask3) (simp add: c_str_nonzero)
qed

end
