(* ===== verification/Rdpewa_Ctap.thy ===== *)
theory Rdpewa_Ctap
  imports Cbor
begin

text \<open>
  The parsing half of \<open>rdpewa_fido_make_credential\<close> and \<open>rdpewa_fido_get_assertion\<close>
  (\<open>rdp/rdpewa/rdpewa_fido.c\<close>): the CTAP2 map of a request becomes a sequence of libfido2 setter
  calls. libfido2 is a prebuilt library, so a credential or an assertion under construction is the
  list of the setter calls made on it, in order; what libfido2 does with them is never assumed.
  Every \<open>case\<close> of the \<open>switch\<close> has its definition, with the field tests in the order of the code.
  \<open>mem s\<close> says whether the allocation of \<open>strndup\<close> for the text \<open>s\<close> succeeds.
\<close>

section \<open>Setter calls\<close>

datatype cred_call =
    CredSetType int
  | CredSetClientdataHash bytes
  | CredSetRp bytes "bytes option"
  | CredSetUser bytes "bytes option" "bytes option"
  | CredExclude bytes
  | CredSetRk

datatype assert_call =
    AssertSetRp bytes
  | AssertSetClientdataHash bytes
  | AssertAllowCred bytes
  | AssertSetUp bool

definition COSE_ES256 :: int where
  "COSE_ES256 = -7"

definition strndup :: "(bytes \<Rightarrow> bool) \<Rightarrow> bytes \<Rightarrow> bytes option" where
  "strndup mem s = (if mem s then Some (c_str s) else None)"

section \<open>MakeCredential\<close>

text \<open>\<open>CTAP_MAKECRED_RP\<close>: the last text \<open>id\<close> and the last text \<open>name\<close>; no \<open>id\<close>, no call.\<close>

fun rp_fields :: "(bytes \<Rightarrow> bool) \<Rightarrow> bytes option \<times> bytes option \<Rightarrow> (cbor \<times> cbor) list
    \<Rightarrow> bytes option \<times> bytes option" where
  "rp_fields mem acc [] = acc"
| "rp_fields mem (rpId, rpName) ((CString rk, CString v) # ps) =
     (if rk = ascii ''id'' then rp_fields mem (strndup mem v, rpName) ps
      else if rk = ascii ''name'' then rp_fields mem (rpId, strndup mem v) ps
      else rp_fields mem (rpId, rpName) ps)"
| "rp_fields mem acc (_ # ps) = rp_fields mem acc ps"

definition makecred_rp :: "(bytes \<Rightarrow> bool) \<Rightarrow> cbor \<Rightarrow> cred_call list" where
  "makecred_rp mem v = (case v of
     CMap rpPairs \<Rightarrow> (case rp_fields mem (None, None) rpPairs of
         (Some rpId, rpName) \<Rightarrow> [CredSetRp rpId rpName]
       | (None, _) \<Rightarrow> [])
   | _ \<Rightarrow> [])"

record user_fields =
  uf_id :: "bytes option"
  uf_name :: "bytes option"
  uf_displayName :: "bytes option"

definition user_field :: "(bytes \<Rightarrow> bool) \<Rightarrow> cbor \<times> cbor \<Rightarrow> user_fields \<Rightarrow> user_fields" where
  "user_field mem kv u = (case kv of
     (CString uk, value) \<Rightarrow>
       (if uk = ascii ''id'' then (case value of CBytestring b \<Rightarrow> u\<lparr>uf_id := Some b\<rparr> | _ \<Rightarrow> u)
        else if uk = ascii ''name'' then
          (case value of CString t \<Rightarrow> u\<lparr>uf_name := strndup mem t\<rparr> | _ \<Rightarrow> u)
        else if uk = ascii ''displayName'' then
          (case value of CString t \<Rightarrow> u\<lparr>uf_displayName := strndup mem t\<rparr> | _ \<Rightarrow> u)
        else u)
   | _ \<Rightarrow> u)"

definition makecred_user :: "(bytes \<Rightarrow> bool) \<Rightarrow> cbor \<Rightarrow> cred_call list" where
  "makecred_user mem v = (case v of
     CMap uPairs \<Rightarrow>
       (let u = fold (user_field mem) uPairs \<lparr>uf_id = None, uf_name = None, uf_displayName = None\<rparr>
        in (case uf_id u of
              Some userId \<Rightarrow> if 0 < length userId
                             then [CredSetUser userId (uf_name u) (uf_displayName u)] else []
            | None \<Rightarrow> []))
   | _ \<Rightarrow> [])"

text \<open>
  \<open>CTAP_MAKECRED_PUB_KEY_CRED_PARAMS\<close>: the \<open>alg\<close> entries of the first element only. A COSE
  identifier that does not fit a C \<open>int\<close> ends the request; the calls made before it are kept.
\<close>

definition INT32_MAX :: nat where
  "INT32_MAX = 2147483647"

definition cose_alg :: "bool \<Rightarrow> u64 \<Rightarrow> int option" where
  "cose_alg negative magnitude =
     (if unat magnitude > INT32_MAX - (if negative then 1 else 0) then None
      else Some (if negative then - int (unat magnitude) - 1 else int (unat magnitude)))"

definition alg_value :: "cbor \<times> cbor \<Rightarrow> (bool \<times> u64) option" where
  "alg_value kv = (case kv of
     (CString pk, CUint _ n) \<Rightarrow> if pk = ascii ''alg'' then Some (False, n) else None
   | (CString pk, CNegint _ n) \<Rightarrow> if pk = ascii ''alg'' then Some (True, n) else None
   | _ \<Rightarrow> None)"

fun alg_loop :: "(cbor \<times> cbor) list \<Rightarrow> bool \<times> cred_call list" where
  "alg_loop [] = (False, [])"
| "alg_loop (p # ps) = (case alg_value p of
      None \<Rightarrow> alg_loop ps
    | Some (negative, magnitude) \<Rightarrow> (case cose_alg negative magnitude of
          None \<Rightarrow> (True, [])
        | Some alg \<Rightarrow> (case alg_loop ps of (badAlg, calls) \<Rightarrow> (badAlg, CredSetType alg # calls))))"

definition makecred_params :: "cbor \<Rightarrow> bool \<times> cred_call list" where
  "makecred_params v = (case v of
     CArray (CMap pPairs # _) \<Rightarrow> alg_loop pPairs
   | _ \<Rightarrow> (False, []))"

text \<open>The \<open>id\<close> byte strings of the credential descriptors of a list (both requests have one).\<close>

definition cred_ids :: "cbor \<Rightarrow> bytes list" where
  "cred_ids v = (case v of
     CArray descs \<Rightarrow> concat (map (\<lambda>credDesc. case credDesc of
         CMap cdPairs \<Rightarrow> concat (map (\<lambda>kv. case kv of
             (CString ck, CBytestring b) \<Rightarrow> if ck = ascii ''id'' then [b] else []
           | _ \<Rightarrow> []) cdPairs)
       | _ \<Rightarrow> []) descs)
   | _ \<Rightarrow> [])"

definition makecred_exclude :: "cbor \<Rightarrow> cred_call list" where
  "makecred_exclude v = map CredExclude (cred_ids v)"

text \<open>The boolean options of a given name, as \<open>cbor_get_bool\<close> reads them.\<close>

definition option_values :: "cbor_lib \<Rightarrow> bytes \<Rightarrow> cbor \<Rightarrow> bool list" where
  "option_values lib name v = (case v of
     CMap oPairs \<Rightarrow> concat (map (\<lambda>kv. case kv of
         (CString ok, CFloatCtrl w c) \<Rightarrow> if ok = name then [cl_get_bool lib w c] else []
       | _ \<Rightarrow> []) oPairs)
   | _ \<Rightarrow> [])"

definition makecred_options :: "cbor_lib \<Rightarrow> cbor \<Rightarrow> cred_call list" where
  "makecred_options lib v = map (\<lambda>_. CredSetRk) (filter id (option_values lib (ascii ''rk'') v))"

definition makecred_entry ::
    "cbor_lib \<Rightarrow> (bytes \<Rightarrow> bool) \<Rightarrow> cbor \<times> cbor \<Rightarrow> bool \<times> cred_call list" where
  "makecred_entry lib mem kv = (case kv of (key, v) \<Rightarrow> (case key of CUint _ k \<Rightarrow>
     if k = 1 then
       (False, case v of CBytestring h \<Rightarrow> [CredSetClientdataHash h] | _ \<Rightarrow> [])
     else if k = 2 then (False, makecred_rp mem v)
     else if k = 3 then (False, makecred_user mem v)
     else if k = 4 then makecred_params v
     else if k = 5 then (False, makecred_exclude v)
     else if k = 7 then (False, makecred_options lib v)
     else (False, [])
   | _ \<Rightarrow> (False, [])))"

fun makecred_entries ::
    "cbor_lib \<Rightarrow> (bytes \<Rightarrow> bool) \<Rightarrow> (cbor \<times> cbor) list \<Rightarrow> bool \<times> cred_call list" where
  "makecred_entries lib mem [] = (False, [])"
| "makecred_entries lib mem (p # ps) = (case makecred_entry lib mem p of
      (True, calls) \<Rightarrow> (True, calls)
    | (False, calls) \<Rightarrow> (case makecred_entries lib mem ps of (bad, rest) \<Rightarrow> (bad, calls @ rest)))"

text \<open>
  Lines 267--493: \<open>None\<close> is \<open>goto out\<close> before the user is asked, \<open>Some\<close> the calls on \<open>cred\<close>, the
  default algorithm first. \<open>cred_new\<close> says whether \<open>fido_cred_new\<close> returns an object.
\<close>

definition parse_make_credential ::
    "cbor_lib \<Rightarrow> (bytes \<Rightarrow> bool) \<Rightarrow> bool \<Rightarrow> bytes \<Rightarrow> cred_call list option" where
  "parse_make_credential lib mem cred_new ctapData = (case fst (cl_load lib ctapData) of
     Some (CMap pairs) \<Rightarrow>
       if \<not> cred_new then None
       else (case makecred_entries lib mem pairs of
           (True, _) \<Rightarrow> None
         | (False, calls) \<Rightarrow> Some (CredSetType COSE_ES256 # calls))
   | _ \<Rightarrow> None)"

section \<open>GetAssertion\<close>

definition getassert_entry ::
    "cbor_lib \<Rightarrow> (bytes \<Rightarrow> bool) \<Rightarrow> cbor \<times> cbor \<Rightarrow> assert_call list" where
  "getassert_entry lib mem kv = (case kv of (key, v) \<Rightarrow> (case key of CUint _ k \<Rightarrow>
     if k = 1 then
       (case v of CString t \<Rightarrow> (case strndup mem t of Some rpId \<Rightarrow> [AssertSetRp rpId] | None \<Rightarrow> [])
        | _ \<Rightarrow> [])
     else if k = 2 then (case v of CBytestring h \<Rightarrow> [AssertSetClientdataHash h] | _ \<Rightarrow> [])
     else if k = 3 then map AssertAllowCred (cred_ids v)
     else if k = 5 then map AssertSetUp (option_values lib (ascii ''up'') v)
     else []
   | _ \<Rightarrow> []))"

definition parse_get_assertion ::
    "cbor_lib \<Rightarrow> (bytes \<Rightarrow> bool) \<Rightarrow> bool \<Rightarrow> bytes \<Rightarrow> assert_call list option" where
  "parse_get_assertion lib mem assert_new ctapData = (case fst (cl_load lib ctapData) of
     Some (CMap pairs) \<Rightarrow>
       if \<not> assert_new then None else Some (concat (map (getassert_entry lib mem) pairs))
   | _ \<Rightarrow> None)"

section \<open>What the loops keep\<close>

text \<open>An \<open>alg\<close> entry whose value does not fit a C \<open>int\<close>.\<close>

definition alg_out_of_range :: "cbor \<times> cbor \<Rightarrow> bool" where
  "alg_out_of_range kv = (case alg_value kv of
     Some (negative, magnitude) \<Rightarrow> cose_alg negative magnitude = None | None \<Rightarrow> False)"

lemma cose_alg_bounds: "cose_alg neg m = Some a \<Longrightarrow> - (2 ^ 31) < a \<and> a < 2 ^ 31"
  by (auto simp: cose_alg_def INT32_MAX_def simp del: of_nat_unat split: if_splits)

lemma alg_loop_bad: "fst (alg_loop ps) \<longleftrightarrow> (\<exists>p\<in>set ps. alg_out_of_range p)"
  by (induction ps) (auto simp: alg_out_of_range_def split: option.splits prod.splits)

lemma alg_loop_calls:
  "c \<in> set (snd (alg_loop ps)) \<Longrightarrow> \<exists>a. c = CredSetType a \<and> - (2 ^ 31) < a \<and> a < 2 ^ 31"
  by (induction ps) (auto split: option.splits prod.splits dest: cose_alg_bounds)

definition opt_text :: "bytes option \<Rightarrow> bool" where
  "opt_text x = (case x of None \<Rightarrow> True | Some t \<Rightarrow> 0 \<notin> set t)"

lemma opt_text_simps [simp]: "opt_text None" "opt_text (Some t) \<longleftrightarrow> 0 \<notin> set t"
  "opt_text (strndup mem s)"
  by (simp_all add: opt_text_def strndup_def c_str_nonzero)

lemma rp_fields_text: "opt_text (fst acc) \<Longrightarrow> opt_text (fst (rp_fields mem acc ps))"
  by (induction mem acc ps rule: rp_fields.induct) auto

text \<open>A call the parser makes carries values its libfido2 setter may be given.\<close>

fun call_in_range :: "cred_call \<Rightarrow> bool" where
  "call_in_range (CredSetType a) \<longleftrightarrow> - (2 ^ 31) < a \<and> a < 2 ^ 31"
| "call_in_range (CredSetRp rpId _) \<longleftrightarrow> 0 \<notin> set rpId"
| "call_in_range (CredSetUser userId _ _) \<longleftrightarrow> userId \<noteq> []"
| "call_in_range _ \<longleftrightarrow> True"

lemma makecred_rp_in_range: "c \<in> set (makecred_rp mem v) \<Longrightarrow> call_in_range c"
proof (cases v)
  case (CMap ps)
  assume "c \<in> set (makecred_rp mem v)"
  with CMap show ?thesis
    using rp_fields_text [of "(None, None)" mem ps]
    by (cases "rp_fields mem (None, None) ps") (auto simp: makecred_rp_def split: option.splits)
qed (simp_all add: makecred_rp_def)

lemma makecred_entry_in_range: "c \<in> set (snd (makecred_entry lib mem kv)) \<Longrightarrow> call_in_range c"
  using makecred_rp_in_range alg_loop_calls
  by (fastforce simp: makecred_entry_def makecred_user_def makecred_params_def makecred_exclude_def
      makecred_options_def Let_def split: cbor.splits prod.splits if_splits option.splits list.splits)

lemma makecred_entries_in_range:
  "c \<in> set (snd (makecred_entries lib mem ps)) \<Longrightarrow> call_in_range c"
proof (induction ps)
  case (Cons p ps)
  then show ?case
    using makecred_entry_in_range [of c lib mem p]
    by (auto split: prod.splits bool.splits)
qed simp

lemma makecred_entry_bad:
  "fst (makecred_entry lib mem (k, v)) \<longleftrightarrow>
     (\<exists>w ps rest. k = CUint w 4 \<and> v = CArray (CMap ps # rest) \<and> (\<exists>p\<in>set ps. alg_out_of_range p))"
  by (auto simp: makecred_entry_def makecred_params_def alg_loop_bad
      split: cbor.splits list.splits)

lemma makecred_entries_bad:
  "fst (makecred_entries lib mem ps) \<longleftrightarrow> (\<exists>p\<in>set ps. fst (makecred_entry lib mem p))"
  by (induction ps) (auto split: prod.splits bool.splits)

section \<open>Requests in their canonical form\<close>

text \<open>The maps a CTAP client sends, with every member the two parsers read.\<close>

definition ctap_key :: "u64 \<Rightarrow> cbor" where
  "ctap_key k = CUint INT_8 k"

definition descriptor :: "bytes \<Rightarrow> cbor" where
  "descriptor i = CMap [(ckey ''id'', CBytestring i), (ckey ''type'', ckey ''public-key'')]"

definition cbor_bool :: "bool \<Rightarrow> cbor" where
  "cbor_bool b = CFloatCtrl FLOAT_0 (if b then 21 else 20)"

definition cose_item :: "int \<Rightarrow> cbor" where
  "cose_item alg = (if alg < 0 then CNegint INT_32 (of_int (- alg - 1)) else CUint INT_32 (of_int alg))"

definition getassert_map :: "bytes \<Rightarrow> bytes \<Rightarrow> bytes list \<Rightarrow> bool \<Rightarrow> cbor" where
  "getassert_map rpId hash ids up =
     CMap [(ctap_key 1, CString rpId), (ctap_key 2, CBytestring hash),
           (ctap_key 3, CArray (map descriptor ids)),
           (ctap_key 5, CMap [(ckey ''up'', cbor_bool up)])]"

definition makecred_map ::
    "bytes \<Rightarrow> bytes \<Rightarrow> bytes \<Rightarrow> bytes \<Rightarrow> bytes \<Rightarrow> bytes \<Rightarrow> int \<Rightarrow> bytes list \<Rightarrow> bool \<Rightarrow> cbor" where
  "makecred_map hash rpId rpName userId userName userDisplay alg ids rk =
     CMap [(ctap_key 1, CBytestring hash),
           (ctap_key 2, CMap [(ckey ''id'', CString rpId), (ckey ''name'', CString rpName)]),
           (ctap_key 3, CMap [(ckey ''id'', CBytestring userId), (ckey ''name'', CString userName),
                              (ckey ''displayName'', CString userDisplay)]),
           (ctap_key 4, CArray [CMap [(ckey ''alg'', cose_item alg),
                                      (ckey ''type'', ckey ''public-key'')]]),
           (ctap_key 5, CArray (map descriptor ids)),
           (ctap_key 7, CMap [(ckey ''rk'', cbor_bool rk)])]"

lemma cred_ids_descriptors: "cred_ids (CArray (map descriptor ids)) = ids"
  by (induction ids) (auto simp: cred_ids_def descriptor_def ascii_inj)

lemma unat_of_int_u64:
  assumes "0 \<le> x" "x < 2 ^ 64"
  shows "unat (of_int x :: u64) = nat x"
proof -
  obtain n where n: "x = int n" using assms(1) nonneg_int_cases by blast
  then have "n < 2 ^ 64" using assms(2) by simp
  then show ?thesis using n by (simp add: unat_of_nat)
qed

lemma alg_value_item:
  assumes "- (2 ^ 31) < alg" "alg < 2 ^ 31"
  shows "\<exists>neg m. alg_value (ckey ''alg'', cose_item alg) = Some (neg, m) \<and> cose_alg neg m = Some alg"
proof (cases "alg < 0")
  case True
  have "unat (of_int (- alg - 1) :: u64) = nat (- alg - 1)"
    by (rule unat_of_int_u64) (use True assms in auto)
  with True assms have "cose_alg True (of_int (- alg - 1)) = Some alg"
    by (simp only: cose_alg_def INT32_MAX_def) auto
  with True show ?thesis by (auto simp: alg_value_def cose_item_def)
next
  case False
  have "unat (of_int alg :: u64) = nat alg"
    by (rule unat_of_int_u64) (use False assms in auto)
  with False assms have "cose_alg False (of_int alg) = Some alg"
    by (simp only: cose_alg_def INT32_MAX_def) auto
  with False show ?thesis by (auto simp: alg_value_def cose_item_def)
qed

definition one_item_lib :: "cbor \<Rightarrow> cbor_lib" where
  "one_item_lib x = \<lparr>cl_load = (\<lambda>_. (Some x, CBOR_ERR_NONE)), cl_serialize = (\<lambda>_. [0xA0]),
     cl_get_bool = (\<lambda>_ c. c = 21)\<rparr>"

section \<open>Properties\<close>

text \<open>
  Parsing a registration never hands libfido2 a value it must not get: the first call sets ES256,
  every algorithm set afterwards is a C \<open>int\<close> computed without overflow, every relying party id is
  text without an inner NUL and no user has an empty id. The request is refused exactly when it is
  not a map, no credential can be created, or an \<open>alg\<close> of the first parameter does not fit an \<open>int\<close>.
\<close>

lemma make_credential_calls_in_range:
  "case parse_make_credential lib mem cred_new ctapData of
     Some calls \<Rightarrow> hd calls = CredSetType (-7) \<and> list_all call_in_range calls
   | None \<Rightarrow> \<not> cred_new \<or> (\<nexists>ps. fst (cl_load lib ctapData) = Some (CMap ps)) \<or>
       (\<exists>ps w pps rest p. fst (cl_load lib ctapData) = Some (CMap ps) \<and>
          (CUint w 4, CArray (CMap pps # rest)) \<in> set ps \<and> p \<in> set pps \<and> alg_out_of_range p)"
proof (cases "\<exists>ps. fst (cl_load lib ctapData) = Some (CMap ps)")
  case True
  then obtain ps where ps: "fst (cl_load lib ctapData) = Some (CMap ps)" by blast
  obtain bad calls where r: "makecred_entries lib mem ps = (bad, calls)" by force
  have ok: "list_all call_in_range calls"
    using makecred_entries_in_range [of _ lib mem ps] r by (simp add: list_all_iff)
  have "bad \<longleftrightarrow> (\<exists>kv\<in>set ps. fst (makecred_entry lib mem kv))"
    using makecred_entries_bad [of lib mem ps] r by simp
  then have "bad \<Longrightarrow> \<exists>w pps rest p. (CUint w 4, CArray (CMap pps # rest)) \<in> set ps \<and>
      p \<in> set pps \<and> alg_out_of_range p"
    by (metis makecred_entry_bad prod.collapse)
  with ps r ok show ?thesis
    by (cases bad; cases cred_new) (auto simp: parse_make_credential_def COSE_ES256_def)
next
  case False
  then show ?thesis by (auto simp: parse_make_credential_def split: option.splits cbor.splits)
qed

text \<open>A registration with one parameter, whose algorithm is 2^31.\<close>

definition big_alg_lib :: cbor_lib where
  "big_alg_lib = one_item_lib (CMap [(CUint INT_8 4,
     CArray [CMap [(ckey ''alg'', CUint INT_64 0x80000000)]])])"

lemma make_credential_calls_in_range_witness:
  "parse_make_credential big_alg_lib (\<lambda>_. True) True [] = None \<and>
   (\<exists>p. alg_out_of_range p \<and> p = (ckey ''alg'', CUint INT_64 0x80000000))"
proof -
  have none: "parse_make_credential big_alg_lib (\<lambda>_. True) True [] = None"
    by (simp add: parse_make_credential_def big_alg_lib_def one_item_lib_def makecred_entry_def
        makecred_params_def alg_value_def cose_alg_def INT32_MAX_def)
  from make_credential_calls_in_range [where lib = big_alg_lib and mem = "\<lambda>_. True" and cred_new = True and ctapData = "[]"] none
  show ?thesis by (auto simp: big_alg_lib_def one_item_lib_def)
qed

text \<open>
  A canonical GetAssertion request is read back exactly: the parser makes the relying party, hash,
  allow-list and user-presence calls of the request, in that order, and nothing else.
\<close>

lemma get_assertion_roundtrip:
  assumes "fst (cl_load lib ctapData) = Some (getassert_map rpId hash ids up)"
    and "0 \<notin> set rpId" and "mem rpId" and "\<And>c. cl_get_bool lib FLOAT_0 c \<longleftrightarrow> c = 21"
  shows "parse_get_assertion lib mem True ctapData =
    Some ([AssertSetRp rpId, AssertSetClientdataHash hash] @ map AssertAllowCred ids @ [AssertSetUp up])"
  using assms
  by (simp add: parse_get_assertion_def getassert_map_def getassert_entry_def ctap_key_def strndup_def
      c_str_id cred_ids_descriptors option_values_def cbor_bool_def)

lemma get_assertion_roundtrip_witness:
  "parse_get_assertion (one_item_lib (getassert_map [97] [1, 2] [[9], [8, 7]] False)) (\<lambda>_. True) True []
     = Some [AssertSetRp [97], AssertSetClientdataHash [1, 2], AssertAllowCred [9],
             AssertAllowCred [8, 7], AssertSetUp False]"
proof -
  have "parse_get_assertion (one_item_lib (getassert_map [97] [1, 2] [[9], [8, 7]] False)) (\<lambda>_. True) True []
     = Some ([AssertSetRp [97], AssertSetClientdataHash [1, 2]] @ map AssertAllowCred [[9], [8, 7]]
         @ [AssertSetUp False])"
    by (rule get_assertion_roundtrip) (simp_all add: one_item_lib_def)
  then show ?thesis by simp
qed

text \<open>
  C4. A canonical MakeCredential request is read back exactly, whatever 32-bit COSE algorithm (other
  than the smallest \<open>int\<close>) it asks for: its algorithm replaces the default.
\<close>

theorem make_credential_roundtrip:
  assumes "fst (cl_load lib ctapData) =
      Some (makecred_map hash rpId rpName userId userName userDisplay alg ids rk)"
    and "0 \<notin> set rpId" "0 \<notin> set rpName" "0 \<notin> set userName" "0 \<notin> set userDisplay"
    and "userId \<noteq> []" and "\<And>s. mem s" and "\<And>c. cl_get_bool lib FLOAT_0 c \<longleftrightarrow> c = 21"
    and "- (2 ^ 31) < alg" "alg < 2 ^ 31"
  shows "parse_make_credential lib mem True ctapData =
    Some ([CredSetType COSE_ES256, CredSetClientdataHash hash, CredSetRp rpId (Some rpName),
           CredSetUser userId (Some userName) (Some userDisplay), CredSetType alg]
          @ map CredExclude ids @ (if rk then [CredSetRk] else []))"
proof -
  obtain neg m where a: "alg_value (ckey ''alg'', cose_item alg) = Some (neg, m)"
      "cose_alg neg m = Some alg"
    using alg_value_item assms(9,10) by blast
  have t: "alg_value (ckey ''type'', ckey ''public-key'') = None" by (simp add: alg_value_def)
  have "makecred_entry lib mem (ctap_key 4, CArray [CMap [(ckey ''alg'', cose_item alg),
      (ckey ''type'', ckey ''public-key'')]]) = (False, [CredSetType alg])"
    by (simp add: makecred_entry_def ctap_key_def makecred_params_def a t)
  moreover have "makecred_entry lib mem (ctap_key 1, CBytestring hash) = (False, [CredSetClientdataHash hash])"
    by (simp add: makecred_entry_def ctap_key_def)
  moreover have "makecred_entry lib mem (ctap_key 2, CMap [(ckey ''id'', CString rpId),
      (ckey ''name'', CString rpName)]) = (False, [CredSetRp rpId (Some rpName)])"
    using assms(2,3,7) by (simp add: makecred_entry_def ctap_key_def makecred_rp_def strndup_def
        c_str_id ascii_inj)
  moreover have "makecred_entry lib mem (ctap_key 3, CMap [(ckey ''id'', CBytestring userId),
      (ckey ''name'', CString userName), (ckey ''displayName'', CString userDisplay)]) =
      (False, [CredSetUser userId (Some userName) (Some userDisplay)])"
    using assms(4-7) by (simp add: makecred_entry_def ctap_key_def makecred_user_def user_field_def
        strndup_def c_str_id ascii_inj)
  moreover have "makecred_entry lib mem (ctap_key 5, CArray (map descriptor ids)) =
      (False, map CredExclude ids)"
    by (simp add: makecred_entry_def ctap_key_def makecred_exclude_def cred_ids_descriptors)
  moreover have "makecred_entry lib mem (ctap_key 7, CMap [(ckey ''rk'', cbor_bool rk)]) =
      (False, if rk then [CredSetRk] else [])"
    using assms(8) by (simp add: makecred_entry_def ctap_key_def makecred_options_def
        option_values_def cbor_bool_def)
  ultimately show ?thesis
    using assms(1) by (simp add: parse_make_credential_def makecred_map_def)
qed

lemma make_credential_roundtrip_witness:
  "parse_make_credential (one_item_lib (makecred_map [5] [97] [98] [1] [99] [100] (-257) [[6]] True))
     (\<lambda>_. True) True [] =
   Some [CredSetType COSE_ES256, CredSetClientdataHash [5], CredSetRp [97] (Some [98]),
         CredSetUser [1] (Some [99]) (Some [100]), CredSetType (-257), CredExclude [6], CredSetRk]"
proof -
  have "parse_make_credential (one_item_lib (makecred_map [5] [97] [98] [1] [99] [100] (-257) [[6]] True))
     (\<lambda>_. True) True [] =
   Some ([CredSetType COSE_ES256, CredSetClientdataHash [5], CredSetRp [97] (Some [98]),
         CredSetUser [1] (Some [99]) (Some [100]), CredSetType (-257)] @ map CredExclude [[6]]
         @ (if True then [CredSetRk] else []))"
    by (rule make_credential_roundtrip) (simp_all add: one_item_lib_def)
  then show ?thesis by simp
qed

end
