(* ===== verification/Rdpewa_Fido.thy ===== *)
theory Rdpewa_Fido
  imports Rdpewa_Request Rdpewa_Response Rdpewa_Ctap
begin

text \<open>
  The ceremony half of \<open>rdp/rdpewa/rdpewa_fido.c\<close>: the user confirms the relying party, an
  authenticator is opened, the PIN is asked for, the operation runs on a thread while the prompt is
  shown, and the answer is encoded.

  Everything the code asks of its surroundings (the broker of \<open>remotedesk_rdpewa.h\<close>, libfido2 with
  the device behind it, threads, the allocator) is the record \<open>world\<close>: each answer may depend on all
  that has happened before, which is the list of events so far. The functions return that list,
  extended by what they did, and the reply (\<open>NULL\<close> is \<open>None\<close>).
\<close>

section \<open>Events and the surroundings\<close>

datatype operation = REGISTER | SIGN_IN

datatype authenticator = AUTH_NONE | AUTH_USB_KEY | AUTH_PHONE

datatype event =
    EvConfirm operation "bytes option" bool
  | EvOpen authenticator bool
  | EvPhone bytes "bytes option"
  | EvAskPin int "bytes option"
  | EvStart "bytes option"
  | EvTouch bool
  | EvWait bool
  | EvCancelDev
  | EvJoin
  | EvWipePin bytes bytes
  | EvClose
  | EvFree

text \<open>
  An open device: \<open>dv_retries\<close> is what \<open>fido_dev_get_retry_count\<close> leaves in \<open>retries\<close> (-1 when it
  fails), \<open>dv_info\<close> what \<open>fido_dev_get_cbor_info\<close> reports.
\<close>

record device =
  dv_has_pin :: bool
  dv_retries :: int
  dv_info :: "fido_info option"

datatype ctap_site = CtapMap | CtapCredMap nat | CtapAdd nat

record 'r world =
  w_confirm :: "event list \<Rightarrow> bool"
  w_open :: "event list \<Rightarrow> authenticator \<times> device option \<times> bytes"
  w_passkey :: "event list \<Rightarrow> bytes \<Rightarrow> bytes option \<Rightarrow> bool \<times> bytes \<times> bool"
  w_pin :: "event list \<Rightarrow> int \<Rightarrow> bytes option"
  w_thread :: "event list \<Rightarrow> bool"
  w_wait :: "event list \<Rightarrow> bool"
  w_result :: "event list \<Rightarrow> 'r"
  w_malloc :: "event list \<Rightarrow> bool"
  w_encode :: "event list \<Rightarrow> encode_site \<Rightarrow> bool"
  w_ctap :: "event list \<Rightarrow> ctap_site \<Rightarrow> bool"

definition S_OK :: u32 where "S_OK = 0"
definition E_FAIL :: u32 where "E_FAIL = 0x80004005"
definition E_NOTIMPL :: u32 where "E_NOTIMPL = 0x80004001"
definition HRESULT_CANCELLED :: u32 where "HRESULT_CANCELLED = 0x80090036"
definition FIDO_OK :: int where "FIDO_OK = 0"

section \<open>The steps of a ceremony\<close>

text \<open>\<open>notifyWait\<close>; \<open>ft\<close> says whether \<open>CreateThread\<close> returned a handle.\<close>

definition notifyWait :: "'r world \<Rightarrow> event list \<Rightarrow> bool \<Rightarrow> event list \<times> bool" where
  "notifyWait w tr ft =
     (if \<not> ft then (tr, False)
      else let tr1 = tr @ [EvTouch True];
               rc = w_wait w tr1;
               tr2 = tr1 @ [EvWait rc, EvTouch False]
           in if \<not> rc then (tr2 @ [EvCancelDev, EvJoin], False) else (tr2, True))"

text \<open>
  \<open>zfree\<close>: the loop over the C string, and the free with what the memory then holds; a null pointer is left
  alone.
\<close>

fun zero_str :: "bytes \<Rightarrow> bytes" where
  "zero_str [] = []"
| "zero_str (b # bs) = (if b \<noteq> 0 then 0 # zero_str bs else b # bs)"

definition zfree :: "bytes option \<Rightarrow> event list" where
  "zfree pin = (case pin of None \<Rightarrow> [] | Some p \<Rightarrow> [EvWipePin p (zero_str (c_str p @ [0]))])"

definition all_zero :: "bytes \<Rightarrow> bool" where
  "all_zero m \<longleftrightarrow> list_all (\<lambda>b. b = 0) m"

lemma zero_str_all: "0 \<notin> set s \<Longrightarrow> all_zero (zero_str (s @ [0]))"
  by (induction s) (auto simp: all_zero_def)

lemma zfree_zero: "all_zero (zero_str (c_str p @ [0]))"
  using zero_str_all c_str_nonzero .

definition rdpewa_fido_open_device ::
    "'r world \<Rightarrow> event list \<Rightarrow> rdpewa_device_info
     \<Rightarrow> event list \<times> device option \<times> rdpewa_device_info \<times> authenticator" where
  "rdpewa_fido_open_device w tr devInfo =
     (case w_open w tr of (kind, dev, product) \<Rightarrow>
        (tr @ [EvOpen kind (dev \<noteq> None)], dev,
         (case dev of None \<Rightarrow> devInfo
          | Some d \<Rightarrow> rdpewa_fido_fill_device_info (dv_has_pin d) (dv_info d)
              (Some (ascii ''remotedesk-usb'')) None (Some product)),
         kind))"

definition rdpewa_fido_cancelled_response ::
    "cbor_lib \<Rightarrow> (encode_site \<Rightarrow> bool) \<Rightarrow> rdpewa_device_info \<Rightarrow> bytes option" where
  "rdpewa_fido_cancelled_response lib ok devInfo =
     rdpewa_cbor_encode_webauthn_response lib ok HRESULT_CANCELLED 0x01 [] devInfo"

definition phone_device_info :: rdpewa_device_info where
  "phone_device_info = zero_device_info\<lparr>di_maxMsgSize := 1200,
     di_providerType := strncpy_buf 16 (ascii ''Hid''),
     di_providerName := strncpy_buf 64 (ascii ''RemoteDeskPhonePasskey''),
     di_uvStatus := 1, di_uvRetries := 3, di_transports := 1,
     di_devicePath := strncpy_buf 256 (ascii ''remotedesk-phone''),
     di_product := strncpy_buf 64 (ascii ''Phone passkey'')\<rparr>"

text \<open>\<open>offer\<close>: the caller passed \<open>reselect\<close>; the last component is \<open>*reselect\<close>.\<close>

definition rdpewa_fido_phone ::
    "cbor_lib \<Rightarrow> 'r world \<Rightarrow> event list \<Rightarrow> u8 \<Rightarrow> bytes \<Rightarrow> bytes option \<Rightarrow> bool
     \<Rightarrow> event list \<times> bytes option \<times> bool" where
  "rdpewa_fido_phone lib w tr subCommand ctapData rpId offer =
     (if \<not> w_malloc w tr then (tr, None, False)
      else let command = subCommand # ctapData;
               tr' = tr @ [EvPhone command rpId]
           in (case w_passkey w tr command rpId of (answered, reply, again) \<Rightarrow>
                 if \<not> answered \<or> length reply < 1 then
                   (if offer \<and> again then (tr', None, True)
                    else (tr', rdpewa_fido_cancelled_response lib (w_encode w tr') phone_device_info, False))
                 else if reply ! 0 = 0x27 then
                   (tr', rdpewa_fido_cancelled_response lib (w_encode w tr') phone_device_info, False)
                 else
                   (tr', rdpewa_cbor_encode_webauthn_response lib (w_encode w tr')
                           (if reply ! 0 = 0 then S_OK else E_FAIL) (reply ! 0) (drop 1 reply)
                           phone_device_info, False)))"

section \<open>From the confirmation to the authenticator's result\<close>

text \<open>
  The two request functions share this part line by line; they differ in the operation the user
  sees, the sub-command and the thread's body. \<open>Finish ret dev\<close> is \<open>goto out\<close> with that reply and
  that device, \<open>Answer\<close> a thread that ended within its wait.
\<close>

datatype 'r progress = Finish "bytes option" "device option" | Answer device rdpewa_device_info 'r

definition use_key ::
    "cbor_lib \<Rightarrow> 'r world \<Rightarrow> event list \<Rightarrow> device \<Rightarrow> rdpewa_device_info
     \<Rightarrow> event list \<times> 'r progress" where
  "use_key lib w tr dev devInfo =
     (let (tr1, pin, refused) =
            (if dv_has_pin dev
             then let p = w_pin w tr (dv_retries dev)
                  in (tr @ [EvAskPin (dv_retries dev) p], p, p = None)
             else (tr, None, False))
      in if refused
         then (tr1, Finish (rdpewa_fido_cancelled_response lib (w_encode w tr1) devInfo) (Some dev))
         else let ft = w_thread w tr1;
                  tr2 = (if ft then tr1 @ [EvStart pin] else tr1)
              in (case notifyWait w tr2 ft of (tr3, waited) \<Rightarrow>
                    let tr4 = tr3 @ zfree pin
                    in if \<not> waited
                       then (tr4, Finish (rdpewa_fido_cancelled_response lib (w_encode w tr4) devInfo)
                                         (Some dev))
                       else (tr4, Answer dev devInfo (w_result w tr3))))"

definition with_device ::
    "cbor_lib \<Rightarrow> 'r world \<Rightarrow> event list \<Rightarrow> device option \<Rightarrow> rdpewa_device_info
     \<Rightarrow> event list \<times> 'r progress" where
  "with_device lib w tr dev devInfo =
     (case dev of
        None \<Rightarrow> (tr, Finish (rdpewa_fido_cancelled_response lib (w_encode w tr) devInfo) None)
      | Some d \<Rightarrow> use_key lib w tr d devInfo)"

definition ceremony ::
    "cbor_lib \<Rightarrow> 'r world \<Rightarrow> operation \<Rightarrow> u8 \<Rightarrow> bytes \<Rightarrow> bytes option \<Rightarrow> event list \<times> 'r progress" where
  "ceremony lib w op subCommand ctapData rpId =
     (let yes = w_confirm w []; tr0 = [EvConfirm op rpId yes]
      in if \<not> yes
         then (tr0, Finish (rdpewa_fido_cancelled_response lib (w_encode w tr0) zero_device_info) None)
         else (case rdpewa_fido_open_device w tr0 zero_device_info of (tr1, dev, devInfo, kind) \<Rightarrow>
           if kind = AUTH_PHONE then
             (case rdpewa_fido_phone lib w tr1 subCommand ctapData rpId True of (tr2, ret, reselect) \<Rightarrow>
                if \<not> reselect then (tr2, Finish ret dev)
                else (case rdpewa_fido_open_device w tr2 devInfo of (tr3, dev', devInfo', kind') \<Rightarrow>
                  if kind' = AUTH_PHONE then
                    (case rdpewa_fido_phone lib w tr3 subCommand ctapData rpId False of (tr4, ret', _) \<Rightarrow>
                       (tr4, Finish ret' dev'))
                  else with_device lib w tr3 dev' devInfo'))
           else with_device lib w tr1 dev devInfo))"

text \<open>The \<open>out:\<close> label: an open device is closed and freed.\<close>

definition release :: "device option \<Rightarrow> event list" where
  "release dev = (case dev of None \<Rightarrow> [] | Some _ \<Rightarrow> [EvClose, EvFree])"

section \<open>Encoding the authenticator's answer\<close>

record cred_result =
  cr_code :: int
  cr_fmt :: "bytes option"
  cr_authdata :: bytes
  cr_attstmt :: "bytes option"

record assert_result =
  ar_code :: int
  ar_count :: nat
  ar_id :: bytes
  ar_authdata :: bytes
  ar_sig :: bytes
  ar_user_id :: bytes

text \<open>The attestation statement is parsed and re-attached; without one it is the empty map.\<close>

definition att_stmt :: "cbor_lib \<Rightarrow> bytes option \<Rightarrow> cbor option" where
  "att_stmt lib raw = (case raw of
     Some b \<Rightarrow> if 0 < length b
               then (case cl_load lib b of (item, err) \<Rightarrow> if err \<noteq> CBOR_ERR_NONE then None else item)
               else Some (CMap [])
   | None \<Rightarrow> Some (CMap []))"

definition cred_response_map :: "cred_result \<Rightarrow> cbor \<Rightarrow> (cbor \<times> cbor) list" where
  "cred_response_map r att =
     [(cbor_build_uint8 1, cbor_build_string (case cr_fmt r of Some f \<Rightarrow> f | None \<Rightarrow> ascii ''none'')),
      (cbor_build_uint8 2, CBytestring (cr_authdata r)),
      (cbor_build_uint8 3, att)]"

text \<open>Serializing the map and wrapping it, as both functions do it.\<close>

definition wrap_answer ::
    "cbor_lib \<Rightarrow> 'r world \<Rightarrow> event list \<Rightarrow> rdpewa_device_info \<Rightarrow> (cbor \<times> cbor) list \<Rightarrow> bytes option" where
  "wrap_answer lib w tr devInfo pairs =
     (if \<not> w_ctap w tr CtapMap then None
      else (case add_pairs (\<lambda>i. w_ctap w tr (CtapAdd i)) 0 pairs of
          None \<Rightarrow> None
        | Some ps \<Rightarrow> let ctapBuf = cl_serialize lib (CMap ps)
                     in if length ctapBuf = 0 then None
                        else rdpewa_cbor_encode_webauthn_response lib (w_encode w tr) S_OK 0 ctapBuf devInfo))"

definition make_credential_answer ::
    "cbor_lib \<Rightarrow> cred_result world \<Rightarrow> event list \<Rightarrow> rdpewa_device_info \<Rightarrow> cred_result \<Rightarrow> bytes option" where
  "make_credential_answer lib w tr devInfo r =
     (if cr_code r \<noteq> FIDO_OK
      then rdpewa_cbor_encode_webauthn_response lib (w_encode w tr) E_FAIL 0x01 [] devInfo
      else (case att_stmt lib (cr_attstmt r) of
          None \<Rightarrow> None
        | Some att \<Rightarrow> wrap_answer lib w tr devInfo (cred_response_map r att)))"

definition assert_response_map :: "assert_result \<Rightarrow> (cbor \<times> cbor) list" where
  "assert_response_map r =
     (if 0 < length (ar_id r)
      then [(cbor_build_uint8 1, CMap [(cbor_build_string (ascii ''id''), CBytestring (ar_id r)),
               (cbor_build_string (ascii ''type''), cbor_build_string (ascii ''public-key''))])]
      else []) @
     [(cbor_build_uint8 2, CBytestring (ar_authdata r)), (cbor_build_uint8 3, CBytestring (ar_sig r))] @
     (if 0 < length (ar_user_id r)
      then [(cbor_build_uint8 4, CMap [(cbor_build_string (ascii ''id''), CBytestring (ar_user_id r))])]
      else [])"

definition get_assertion_answer ::
    "cbor_lib \<Rightarrow> assert_result world \<Rightarrow> event list \<Rightarrow> rdpewa_device_info \<Rightarrow> assert_result \<Rightarrow> bytes option" where
  "get_assertion_answer lib w tr devInfo r =
     (if ar_code r \<noteq> FIDO_OK \<or> ar_count r = 0
      then rdpewa_cbor_encode_webauthn_response lib (w_encode w tr) E_FAIL 0x01 [] devInfo
      else if (0 < length (ar_id r) \<longrightarrow> w_ctap w tr (CtapCredMap 0) \<and> w_ctap w tr (CtapCredMap 1)) \<and>
              (0 < length (ar_user_id r) \<longrightarrow> w_ctap w tr (CtapCredMap 2))
           then wrap_answer lib w tr devInfo (assert_response_map r)
           else None)"

section \<open>The two requests\<close>

text \<open>
  What libfido2 answers about the objects under construction: whether \<open>fido_cred_new\<close> and
  \<open>fido_assert_new\<close> return one, and the relying party that \<open>fido_cred_rp_id\<close> and
  \<open>fido_assert_rp_id\<close> read back after the given setter calls; \<open>fl_strndup\<close> the allocations of
  \<open>strndup\<close>.
\<close>

record fido_lib =
  fl_cred_new :: bool
  fl_cred_rp_id :: "cred_call list \<Rightarrow> bytes option"
  fl_assert_new :: bool
  fl_assert_rp_id :: "assert_call list \<Rightarrow> bytes option"
  fl_strndup :: "bytes \<Rightarrow> bool"

definition make_credential_ceremony ::
    "cbor_lib \<Rightarrow> cred_result world \<Rightarrow> bytes \<Rightarrow> bytes option \<Rightarrow> event list \<times> cred_result progress" where
  "make_credential_ceremony lib w ctapData rpId = ceremony lib w REGISTER 0x01 ctapData rpId"

definition get_assertion_ceremony ::
    "cbor_lib \<Rightarrow> assert_result world \<Rightarrow> bytes \<Rightarrow> bytes option \<Rightarrow> event list \<times> assert_result progress" where
  "get_assertion_ceremony lib w ctapData rpId = ceremony lib w SIGN_IN 0x02 ctapData rpId"

definition rdpewa_fido_make_credential ::
    "cbor_lib \<Rightarrow> fido_lib \<Rightarrow> cred_result world \<Rightarrow> bytes \<Rightarrow> event list \<times> bytes option" where
  "rdpewa_fido_make_credential lib fl w ctapData =
     (case parse_make_credential lib (fl_strndup fl) (fl_cred_new fl) ctapData of
        None \<Rightarrow> ([], None)
      | Some cred \<Rightarrow> (case make_credential_ceremony lib w ctapData (fl_cred_rp_id fl cred) of
            (tr, Finish ret dev) \<Rightarrow> (tr @ release dev, ret)
          | (tr, Answer dev devInfo r) \<Rightarrow>
              (tr @ release (Some dev), make_credential_answer lib w tr devInfo r)))"

definition rdpewa_fido_get_assertion ::
    "cbor_lib \<Rightarrow> fido_lib \<Rightarrow> assert_result world \<Rightarrow> bytes \<Rightarrow> event list \<times> bytes option" where
  "rdpewa_fido_get_assertion lib fl w ctapData =
     (case parse_get_assertion lib (fl_strndup fl) (fl_assert_new fl) ctapData of
        None \<Rightarrow> ([], None)
      | Some calls \<Rightarrow> (case get_assertion_ceremony lib w ctapData (fl_assert_rp_id fl calls) of
            (tr, Finish ret dev) \<Rightarrow> (tr @ release dev, ret)
          | (tr, Answer dev devInfo r) \<Rightarrow>
              (tr @ release (Some dev), get_assertion_answer lib w tr devInfo r)))"

definition rdpewa_fido_webauthn ::
    "cbor_lib \<Rightarrow> fido_lib \<Rightarrow> cred_result world \<Rightarrow> assert_result world \<Rightarrow> rdpewa_request
     \<Rightarrow> event list \<times> bytes option" where
  "rdpewa_fido_webauthn lib fl wc wa request = (case rq_request request of
     None \<Rightarrow> ([], None)
   | Some payload \<Rightarrow>
       if rq_requestLen request < 1 then ([], None)
       else let subCommand = payload ! 0; ctapData = drop 1 payload
            in if subCommand = 0x01 then rdpewa_fido_make_credential lib fl wc ctapData
               else if subCommand = 0x02 then rdpewa_fido_get_assertion lib fl wa ctapData
               else ([], None))"

section \<open>Queries answered without a ceremony\<close>

definition rdpewa_fido_is_uvpaa :: "(encode_site \<Rightarrow> bool) \<Rightarrow> bytes option" where
  "rdpewa_fido_is_uvpaa ok = rdpewa_cbor_encode_simple_response ok S_OK 0"

definition rdpewa_fido_api_version :: "(encode_site \<Rightarrow> bool) \<Rightarrow> bytes option" where
  "rdpewa_fido_api_version ok = rdpewa_cbor_encode_simple_response ok S_OK 4"

datatype list_site = ListArray | ListEntry | ListAdd nat | ListPush

definition authenticator_pairs :: "bytes \<Rightarrow> (cbor \<times> cbor) list" where
  "authenticator_pairs product =
     [(cbor_build_uint8 1, cbor_build_uint8 1),
      (cbor_build_uint8 3,
       cbor_build_string (if c_str product \<noteq> [] then product else ascii ''FIDO2 Key'')),
      (cbor_build_uint8 4, CBytestring []),
      (cbor_build_uint8 5, CFloatCtrl FLOAT_0 20)]"

text \<open>\<open>authorized\<close> is the broker's answer, with the product name when a key is authorized.\<close>

definition rdpewa_fido_get_authenticator_list ::
    "cbor_lib \<Rightarrow> (encode_site \<Rightarrow> bool) \<Rightarrow> (list_site \<Rightarrow> bool) \<Rightarrow> bytes option \<Rightarrow> bytes option" where
  "rdpewa_fido_get_authenticator_list lib ok lok authorized = (case authorized of
     None \<Rightarrow> rdpewa_cbor_encode_hresult_response ok S_OK
   | Some product \<Rightarrow>
       if \<not> lok ListArray then None
       else let entry = (if lok ListEntry
                         then add_pairs (\<lambda>i. lok (ListAdd i)) 0 (authenticator_pairs product) else None);
                arr = (case entry of
                         Some ps \<Rightarrow> if lok ListPush then CArray [CMap ps] else CArray []
                       | None \<Rightarrow> CArray []);
                body = cl_serialize lib arr
            in if length body = 0 then None
               else if \<not> ok SiteStream then None
               else Some (le32 S_OK @ body))"

definition rdpewa_fido_get_credentials :: "(encode_site \<Rightarrow> bool) \<Rightarrow> bytes option" where
  "rdpewa_fido_get_credentials ok = (if ok SiteStream then Some (le32 S_OK @ [0x80]) else None)"

end
