(* ===== verification/Rdpewa_Ceremony.thy ===== *)
theory Rdpewa_Ceremony
  imports Rdpewa_Fido
begin

text \<open>
  The protocol every WebAuthn request keeps, as an abstract state machine over events, and the
  refinement: both request functions of \<open>rdpewa_fido.c\<close> only produce runs of it. The guarantees
  (consent first, one device at a time, closed after its thread ended, the PIN wiped, at most two
  commands to the phone) are proved once for every run, in the locale of a handler that keeps the
  protocol, and hold for both functions by interpretation.
\<close>

section \<open>The protocol\<close>

datatype phase =
    Asking
  | Choosing nat
  | AtPhone nat
  | KeyOpen "bytes option"
  | Running "bytes option"
  | Prompting "bytes option"
  | Waited "bytes option" bool
  | Cancelling "bytes option"
  | Joining "bytes option"
  | Stopped "bytes option"
  | Freeing
  | Finished

text \<open>\<open>step op rp cmd\<close>: the user is asked about \<open>op\<close> for \<open>rp\<close>, the phone is sent \<open>cmd\<close>.\<close>

inductive step :: "operation \<Rightarrow> bytes option \<Rightarrow> bytes \<Rightarrow> phase \<Rightarrow> event \<Rightarrow> phase \<Rightarrow> bool"
  for op rp cmd where
  step_yes: "step op rp cmd Asking (EvConfirm op rp True) (Choosing 0)"
| step_no: "step op rp cmd Asking (EvConfirm op rp False) Finished"
| step_phone: "step op rp cmd (Choosing n) (EvOpen AUTH_PHONE False) (AtPhone n)"
| step_key: "k \<noteq> AUTH_PHONE \<Longrightarrow> step op rp cmd (Choosing n) (EvOpen k True) (KeyOpen None)"
| step_none: "k \<noteq> AUTH_PHONE \<Longrightarrow> step op rp cmd (Choosing n) (EvOpen k False) Finished"
| step_sent: "step op rp cmd (AtPhone n) (EvPhone cmd rp) Finished"
| step_again: "step op rp cmd (AtPhone 0) (EvPhone cmd rp) (Choosing 1)"
| step_pin: "step op rp cmd (KeyOpen None) (EvAskPin r (Some p)) (KeyOpen (Some p))"
| step_no_pin: "step op rp cmd (KeyOpen None) (EvAskPin r None) (Stopped None)"
| step_start: "step op rp cmd (KeyOpen pin) (EvStart pin) (Running pin)"
| step_no_thread: "all_zero m \<Longrightarrow> step op rp cmd (KeyOpen (Some p)) (EvWipePin p m) (Stopped None)"
| step_no_thread_pin: "step op rp cmd (KeyOpen None) EvClose Freeing"
| step_prompt: "step op rp cmd (Running pin) (EvTouch True) (Prompting pin)"
| step_wait: "step op rp cmd (Prompting pin) (EvWait b) (Waited pin b)"
| step_ended: "step op rp cmd (Waited pin True) (EvTouch False) (Stopped pin)"
| step_expired: "step op rp cmd (Waited pin False) (EvTouch False) (Cancelling pin)"
| step_cancel: "step op rp cmd (Cancelling pin) EvCancelDev (Joining pin)"
| step_join: "step op rp cmd (Joining pin) EvJoin (Stopped pin)"
| step_wipe: "all_zero m \<Longrightarrow> step op rp cmd (Stopped (Some p)) (EvWipePin p m) (Stopped None)"
| step_close: "step op rp cmd (Stopped None) EvClose Freeing"
| step_free: "step op rp cmd Freeing EvFree Finished"

inductive_cases step_from_Choosing: "step op rp cmd (Choosing n) e q"
inductive_simps step_to_Choosing: "step op rp cmd p e (Choosing n)"
inductive_simps step_confirm: "step op rp cmd p (EvConfirm op' rp' b) q"
inductive_simps step_closes: "step op rp cmd p EvClose q"
inductive_simps step_asks_pin: "step op rp cmd p (EvAskPin r a) q"
inductive_simps step_sends: "step op rp cmd p (EvPhone c r) q"

inductive run :: "operation \<Rightarrow> bytes option \<Rightarrow> bytes \<Rightarrow> event list \<Rightarrow> phase \<Rightarrow> bool"
  for op rp cmd where
  run_init: "run op rp cmd [] Asking"
| run_snoc: "run op rp cmd tr p \<Longrightarrow> step op rp cmd p e q \<Longrightarrow> run op rp cmd (tr @ [e]) q"

lemma run_one: "run op rp cmd tr p \<Longrightarrow> step op rp cmd p e q \<Longrightarrow> run op rp cmd (tr @ [e]) q"
  by (rule run_snoc)

lemma run_two:
  "run op rp cmd tr p \<Longrightarrow> step op rp cmd p e q \<Longrightarrow> step op rp cmd q e' q' \<Longrightarrow>
   run op rp cmd (tr @ [e, e']) q'"
  using run_snoc [OF run_snoc, of op rp cmd tr p e q e' q'] by simp

text \<open>Where a request may end: never asked, nothing open, or the phone could not be sent a command.\<close>

definition final :: "phase \<Rightarrow> bool" where
  "final p \<longleftrightarrow> (case p of Asking \<Rightarrow> True | AtPhone _ \<Rightarrow> True | Finished \<Rightarrow> True | _ \<Rightarrow> False)"

lemma run_nothing: "\<exists>p. run op rp cmd [] p \<and> final p"
  by (rule exI [of _ Asking]) (simp add: run_init final_def)

section \<open>What every run keeps\<close>

text \<open>What the phase says about the past, one clause per guarantee.\<close>

definition consented :: "operation \<Rightarrow> bytes option \<Rightarrow> event list \<Rightarrow> bool" where
  "consented op rp tr \<longleftrightarrow> tr = [] \<or> tr = [EvConfirm op rp False] \<or>
     (hd tr = EvConfirm op rp True \<and> tr \<noteq> [])"

definition opened :: "event list \<Rightarrow> nat" where
  "opened tr = length (filter (\<lambda>e. \<exists>k. e = EvOpen k True) tr)"

definition count_ev :: "event \<Rightarrow> event list \<Rightarrow> nat" where
  "count_ev e tr = length (filter ((=) e) tr)"

definition pins :: "event list \<Rightarrow> bytes list" where
  "pins tr = concat (map (\<lambda>e. case e of EvAskPin _ (Some p) \<Rightarrow> [p] | _ \<Rightarrow> []) tr)"

definition wiped :: "event list \<Rightarrow> bytes list" where
  "wiped tr = concat (map (\<lambda>e. case e of EvWipePin p m \<Rightarrow> if all_zero m then [p] else [] | _ \<Rightarrow> []) tr)"

definition phone_calls :: "event list \<Rightarrow> (bytes \<times> bytes option) list" where
  "phone_calls tr = concat (map (\<lambda>e. case e of EvPhone c r \<Rightarrow> [(c, r)] | _ \<Rightarrow> []) tr)"

definition started :: "event list \<Rightarrow> nat" where
  "started tr = length (filter (\<lambda>e. \<exists>p. e = EvStart p) tr)"

definition ended :: "event list \<Rightarrow> nat" where
  "ended tr = count_ev (EvWait True) tr + count_ev EvJoin tr"

lemmas trace_defs = opened_def count_ev_def pins_def wiped_def phone_calls_def started_def ended_def

primrec pin_list :: "bytes option \<Rightarrow> bytes list" where
  "pin_list None = []"
| "pin_list (Some p) = [p]"

fun live_pin :: "phase \<Rightarrow> bytes list" where
  "live_pin (KeyOpen pin) = pin_list pin"
| "live_pin (Running pin) = pin_list pin"
| "live_pin (Prompting pin) = pin_list pin"
| "live_pin (Waited pin _) = pin_list pin"
| "live_pin (Cancelling pin) = pin_list pin"
| "live_pin (Joining pin) = pin_list pin"
| "live_pin (Stopped pin) = pin_list pin"
| "live_pin _ = []"

fun thread_live :: "phase \<Rightarrow> bool" where
  "thread_live (Running _) = True"
| "thread_live (Prompting _) = True"
| "thread_live (Waited _ b) = (\<not> b)"
| "thread_live (Cancelling _) = True"
| "thread_live (Joining _) = True"
| "thread_live _ = False"

fun key_open :: "phase \<Rightarrow> nat" where
  "key_open Asking = 0"
| "key_open (Choosing _) = 0"
| "key_open (AtPhone _) = 0"
| "key_open Freeing = 0"
| "key_open Finished = 0"
| "key_open _ = 1"

lemma run_consented:
  "run op rp cmd tr p \<Longrightarrow> consented op rp tr \<and> (tr = [] \<longleftrightarrow> p = Asking) \<and>
     (tr = [EvConfirm op rp False] \<longrightarrow> p = Finished)"
proof (induction rule: run.induct)
  case (run_snoc tr p e q)
  from run_snoc.hyps(2) run_snoc.IH show ?case
    by (cases rule: step.cases) (auto simp: consented_def)
qed (simp add: consented_def)

lemma run_pins: "run op rp cmd tr p \<Longrightarrow> pins tr = wiped tr @ live_pin p"
proof (induction rule: run.induct)
  case (run_snoc tr p e q)
  from run_snoc.hyps(2) run_snoc.IH show ?case
    by (cases rule: step.cases) (auto simp: trace_defs split: option.splits)
qed (simp add: trace_defs)

lemma run_threads: "run op rp cmd tr p \<Longrightarrow> started tr = ended tr + of_bool (thread_live p)"
proof (induction rule: run.induct)
  case (run_snoc tr p e q)
  from run_snoc.hyps(2) run_snoc.IH show ?case
    by (cases rule: step.cases) (auto simp: trace_defs)
qed (simp add: trace_defs)

lemma run_devices:
  "run op rp cmd tr p \<Longrightarrow> opened tr = count_ev EvClose tr + key_open p \<and>
     count_ev EvClose tr = count_ev EvFree tr + of_bool (p = Freeing)"
proof (induction rule: run.induct)
  case (run_snoc tr p e q)
  from run_snoc.hyps(2) run_snoc.IH show ?case
    by (cases rule: step.cases) (auto simp: trace_defs)
qed (simp add: trace_defs)

lemma phone_calls_snoc:
  "phone_calls (tr @ [e]) = phone_calls tr @ (case e of EvPhone c r \<Rightarrow> [(c, r)] | _ \<Rightarrow> [])"
  "phone_calls [] = []"
  by (simp_all add: phone_calls_def)

lemma run_phone:
  "run op rp cmd tr p \<Longrightarrow> set (phone_calls tr) \<subseteq> {(cmd, rp)} \<and>
     (case p of Choosing n \<Rightarrow> n \<le> 1 \<and> length (phone_calls tr) = n
      | AtPhone n \<Rightarrow> n \<le> 1 \<and> length (phone_calls tr) = n
      | Asking \<Rightarrow> phone_calls tr = []
      | _ \<Rightarrow> length (phone_calls tr) \<le> 2)"
proof (induction rule: run.induct)
  case (run_snoc tr p e q)
  from run_snoc.hyps(2) run_snoc.IH show ?case
    by (cases rule: step.cases) (auto simp: phone_calls_snoc)
qed (simp add: phone_calls_snoc)

lemma run_prefix:
  "run op rp cmd tr p \<Longrightarrow> tr = pre @ e # post \<Longrightarrow>
   \<exists>p1 p2. run op rp cmd pre p1 \<and> step op rp cmd p1 e p2"
proof (induction arbitrary: post rule: run.induct)
  case (run_snoc tr p e' q)
  then show ?case
    by (cases post rule: rev_cases) (auto simp flip: append_Cons append_assoc)
qed simp

text \<open>A device is closed only when its thread has ended and its PIN is wiped.\<close>

lemma run_close_safe:
  assumes "run op rp cmd tr p" "tr = pre @ EvClose # post"
  shows "started pre = ended pre \<and> wiped pre = pins pre"
proof -
  obtain p1 p2 where r: "run op rp cmd pre p1" and st: "step op rp cmd p1 EvClose p2"
    using run_prefix [OF assms] by blast
  from st have "p1 = KeyOpen None \<or> p1 = Stopped None" by (auto simp: step_closes)
  then show ?thesis using run_threads [OF r] run_pins [OF r] by auto
qed

section \<open>A handler that keeps the protocol\<close>

locale webauthn_handler =
  fixes trace :: "'i \<Rightarrow> event list"
    and operation :: "'i \<Rightarrow> operation"
    and relying_party :: "'i \<Rightarrow> bytes option"
    and command :: "'i \<Rightarrow> bytes"
    and contract :: "'i \<Rightarrow> bool"
  assumes protocol: "contract i \<Longrightarrow>
    \<exists>p. run (operation i) (relying_party i) (command i) (trace i) p \<and> final p"
begin

lemma consent: "contract i \<Longrightarrow> consented (operation i) (relying_party i) (trace i)"
  using protocol [of i] run_consented by blast

lemma devices_released:
  assumes "contract i"
  shows "opened (trace i) = count_ev EvClose (trace i) \<and>
    count_ev EvFree (trace i) = count_ev EvClose (trace i)"
proof -
  obtain p where "run (operation i) (relying_party i) (command i) (trace i) p" "final p"
    using protocol [OF assms] by blast
  then show ?thesis using run_devices [of "operation i" "relying_party i" "command i" "trace i" p]
    by (cases p) (auto simp: final_def)
qed

lemma one_device:
  assumes "contract i" "trace i = pre @ post"
  shows "opened pre \<le> Suc (count_ev EvClose pre)"
proof (cases post)
  case Nil
  with assms devices_released [of i] show ?thesis by simp
next
  case (Cons e rest)
  then obtain p1 where "run (operation i) (relying_party i) (command i) pre p1"
    using assms protocol [of i] run_prefix by blast
  then show ?thesis
    using run_devices [of "operation i" "relying_party i" "command i" pre p1] by (cases p1) auto
qed

lemma pins_wiped:
  assumes "contract i"
  shows "wiped (trace i) = pins (trace i)"
proof -
  obtain p where "run (operation i) (relying_party i) (command i) (trace i) p" "final p"
    using protocol [OF assms] by blast
  then show ?thesis using run_pins [of "operation i" "relying_party i" "command i" "trace i" p]
    by (cases p) (auto simp: final_def)
qed

lemma closed_after_join:
  "contract i \<Longrightarrow> trace i = pre @ EvClose # post \<Longrightarrow> started pre = ended pre \<and> wiped pre = pins pre"
  using protocol [of i] run_close_safe by blast

lemma phone_commands:
  assumes "contract i"
  shows "set (phone_calls (trace i)) \<subseteq> {(command i, relying_party i)} \<and>
    length (phone_calls (trace i)) \<le> 2"
proof -
  obtain p where "run (operation i) (relying_party i) (command i) (trace i) p" "final p"
    using protocol [OF assms] by blast
  then show ?thesis using run_phone [of "operation i" "relying_party i" "command i" "trace i" p]
    by (cases p) (auto simp: final_def)
qed

end

section \<open>Both request functions keep it\<close>

text \<open>
  The documented contract of \<open>remotedesk_rdpewa_open\<close>: with the phone chosen no device is returned.
\<close>

definition broker_contract :: "'r world \<Rightarrow> bool" where
  "broker_contract w \<longleftrightarrow> (\<forall>tr. fst (w_open w tr) = AUTH_PHONE \<longrightarrow> fst (snd (w_open w tr)) = None)"

fun device_of :: "'r progress \<Rightarrow> device option" where
  "device_of (Finish _ dev) = dev"
| "device_of (Answer dev _ _) = Some dev"

lemma notifyWait_run:
  assumes "run op rp cmd tr (Running pin)"
  shows "run op rp cmd (fst (notifyWait w tr True)) (Stopped pin)"
proof -
  have 1: "run op rp cmd (tr @ [EvTouch True]) (Prompting pin)"
    by (rule run_one [OF assms step_prompt])
  show ?thesis
  proof (cases "w_wait w (tr @ [EvTouch True])")
    case True
    with run_two [OF 1 step_wait step_ended] show ?thesis by (simp add: notifyWait_def)
  next
    case False
    with run_two [OF run_two [OF 1 step_wait step_expired] step_cancel step_join]
    show ?thesis by (simp add: notifyWait_def)
  qed
qed

lemma zfree_run:
  assumes "run op rp cmd tr (Stopped pin)"
  shows "run op rp cmd (tr @ zfree pin) (Stopped None)"
  using assms run_one [OF _ step_wipe [OF zfree_zero]] by (cases pin) (simp_all add: zfree_def)

lemma use_key_run:
  assumes k: "run op rp cmd tr (KeyOpen None)"
  shows "run op rp cmd (fst (use_key lib w tr dev di) @ release (device_of (snd (use_key lib w tr dev di))))
    Finished"
proof -
  have fin: "run op rp cmd (tr' @ [EvClose, EvFree]) Finished"
    if "run op rp cmd tr' (Stopped None) \<or> run op rp cmd tr' (KeyOpen None)" for tr'
    using that by (auto intro: run_two step_close step_free step_no_thread_pin)
  define p where "p = (if dv_has_pin dev then w_pin w tr (dv_retries dev) else None)"
  define tr1 where "tr1 = (if dv_has_pin dev then tr @ [EvAskPin (dv_retries dev) p] else tr)"
  have ask: "run op rp cmd tr1 (KeyOpen p)" if "dv_has_pin dev \<longrightarrow> p \<noteq> None"
    using that k run_one [OF k] step_pin by (auto simp: tr1_def p_def)
  have refuse: "run op rp cmd tr1 (Stopped None)" if "dv_has_pin dev" "p = None"
    using that run_one [OF k step_no_pin] by (simp add: tr1_def)
  show ?thesis
  proof (cases "dv_has_pin dev \<and> p = None")
    case True
    then show ?thesis using fin [of tr1] refuse
      by (auto simp: use_key_def p_def tr1_def release_def Let_def)
  next
    case False
    then have a: "run op rp cmd tr1 (KeyOpen p)" using ask by auto
    have started: "run op rp cmd (fst (notifyWait w (tr1 @ [EvStart p]) True) @ zfree p) (Stopped None)"
      by (intro zfree_run notifyWait_run run_one [OF a step_start])
    have not_started: "run op rp cmd (tr1 @ zfree p) (Stopped None) \<or> run op rp cmd (tr1 @ zfree p) (KeyOpen None)"
      using a run_one [OF a] step_no_thread [OF zfree_zero] by (cases p) (auto simp: zfree_def)
    have "use_key lib w tr dev di = (let ft = w_thread w tr1;
                  tr2 = (if ft then tr1 @ [EvStart p] else tr1)
              in (case notifyWait w tr2 ft of (tr3, waited) \<Rightarrow>
                    let tr4 = tr3 @ zfree p
                    in if \<not> waited
                       then (tr4, Finish (rdpewa_fido_cancelled_response lib (w_encode w tr4) di) (Some dev))
                       else (tr4, Answer dev di (w_result w tr3))))"
      using False by (auto simp: use_key_def p_def tr1_def Let_def)
    then have "fst (use_key lib w tr dev di) = tr1 @ zfree p \<or>
        fst (use_key lib w tr dev di) = fst (notifyWait w (tr1 @ [EvStart p]) True) @ zfree p"
      and d: "device_of (snd (use_key lib w tr dev di)) = Some dev"
      by (auto simp: Let_def notifyWait_def)
    then have "run op rp cmd (fst (use_key lib w tr dev di)) (Stopped None) \<or>
        run op rp cmd (fst (use_key lib w tr dev di)) (KeyOpen None)"
      using started not_started by metis
    with fin d show ?thesis by (simp add: release_def)
  qed
qed

lemma phone_trace:
  "fst (rdpewa_fido_phone lib w tr sub data rp offer) \<in> {tr, tr @ [EvPhone (sub # data) rp]}"
  "snd (snd (rdpewa_fido_phone lib w tr sub data rp offer)) \<Longrightarrow>
   fst (rdpewa_fido_phone lib w tr sub data rp offer) = tr @ [EvPhone (sub # data) rp]"
  by (auto simp: rdpewa_fido_phone_def Let_def split: prod.splits if_splits)

lemma phone_run_final:
  assumes "run op rp (sub # data) tr (AtPhone n)"
  shows "\<exists>p. run op rp (sub # data) (fst (rdpewa_fido_phone lib w tr sub data rp offer)) p \<and> final p"
  using phone_trace(1) [of lib w tr sub data rp offer] assms run_one [OF assms step_sent]
  by (auto simp: final_def split: phase.splits)

lemma phone_run_again:
  assumes "run op rp (sub # data) tr (AtPhone 0)"
    and "snd (snd (rdpewa_fido_phone lib w tr sub data rp offer))"
  shows "run op rp (sub # data) (fst (rdpewa_fido_phone lib w tr sub data rp offer)) (Choosing 1)"
  using phone_trace(2) [OF assms(2)] run_one [OF assms(1) step_again] by simp

lemma open_run:
  assumes "broker_contract w" "run op rp cmd tr (Choosing n)"
    and "rdpewa_fido_open_device w tr di = (tr', dev, di', kind)"
  shows "run op rp cmd tr'
      (if kind = AUTH_PHONE then AtPhone n else if dev = None then Finished else KeyOpen None)"
    and "kind = AUTH_PHONE \<Longrightarrow> dev = None"
proof -
  obtain product where o: "w_open w tr = (kind, dev, product)" and t: "tr' = tr @ [EvOpen kind (dev \<noteq> None)]"
    using assms(3) by (auto simp: rdpewa_fido_open_device_def split: prod.splits)
  show dev: "kind = AUTH_PHONE \<Longrightarrow> dev = None"
    using assms(1) o by (auto simp: broker_contract_def dest: spec [of _ tr])
  show "run op rp cmd tr'
      (if kind = AUTH_PHONE then AtPhone n else if dev = None then Finished else KeyOpen None)"
    unfolding t using dev
    by (auto intro!: run_one [OF assms(2)] step_phone step_key step_none)
qed

lemma with_device_run:
  assumes "run op rp cmd tr (if dev = None then Finished else KeyOpen None)"
  shows "run op rp cmd (fst (with_device lib w tr dev di) @ release (device_of (snd (with_device lib w tr dev di))))
    Finished"
  using assms use_key_run by (cases dev) (auto simp: with_device_def release_def)

text \<open>The refinement: a ceremony, cleanup included, is a run of the protocol to a final phase.\<close>

theorem ceremony_run:
  assumes c: "broker_contract w"
  shows "\<exists>p. run op rp (sub # data) (fst (ceremony lib w op sub data rp) @
      release (device_of (snd (ceremony lib w op sub data rp)))) p \<and> final p"
proof (cases "w_confirm w []")
  case False
  have "run op rp (sub # data) ([] @ [EvConfirm op rp False]) Finished"
    by (rule run_one [OF run_init step_no])
  with False show ?thesis by (auto simp: ceremony_def Let_def release_def final_def split: phase.splits)
next
  case True
  let ?tr0 = "[EvConfirm op rp True]"
  have r0: "run op rp (sub # data) ?tr0 (Choosing 0)"
    using run_one [OF run_init step_yes] by simp
  obtain tr1 dev di kind where o1: "rdpewa_fido_open_device w ?tr0 zero_device_info = (tr1, dev, di, kind)"
    by (metis prod_cases4)
  note r1 = open_run [OF c r0 o1]
  show ?thesis
  proof (cases "kind = AUTH_PHONE")
    case False
    then have "run op rp (sub # data) tr1 (if dev = None then Finished else KeyOpen None)"
      using r1(1) by simp
    from with_device_run [OF this, of lib w di] True False o1 show ?thesis
      by (auto simp: ceremony_def Let_def final_def split: phase.splits)
  next
    case phone1: True
    then have p1: "run op rp (sub # data) tr1 (AtPhone 0)" and d1: "dev = None" using r1 by auto
    obtain tr2 ret again where ph: "rdpewa_fido_phone lib w tr1 sub data rp True = (tr2, ret, again)"
      by (metis prod_cases3)
    show ?thesis
    proof (cases again)
      case False
      with phone_run_final [OF p1, of lib w True] True phone1 o1 ph d1 show ?thesis
        by (simp add: ceremony_def Let_def release_def)
    next
      case again: True
      have r2: "run op rp (sub # data) tr2 (Choosing 1)"
        using phone_run_again [OF p1, of lib w True] ph again by simp
      obtain tr3 dev' di' kind' where o2: "rdpewa_fido_open_device w tr2 di = (tr3, dev', di', kind')"
        by (metis prod_cases4)
      note r3 = open_run [OF c r2 o2]
      show ?thesis
      proof (cases "kind' = AUTH_PHONE")
        case False
        then have "run op rp (sub # data) tr3 (if dev' = None then Finished else KeyOpen None)"
          using r3(1) by simp
        from with_device_run [OF this, of lib w di'] True False phone1 o1 o2 ph again show ?thesis
          by (auto simp: ceremony_def Let_def final_def split: phase.splits)
      next
        case phone2: True
        then have p3: "run op rp (sub # data) tr3 (AtPhone 1)" and d2: "dev' = None" using r3 by auto
        obtain tr4 ret' x where ph2: "rdpewa_fido_phone lib w tr3 sub data rp False = (tr4, ret', x)"
          by (metis prod_cases3)
        with phone_run_final [OF p3, of lib w False] True phone1 phone2 o1 o2 ph again d2 show ?thesis
          by (simp add: ceremony_def Let_def release_def)
      qed
    qed
  qed
qed

text \<open>The relying party libfido2 reads back from the request, the one the user is asked about.\<close>

definition cred_rp :: "cbor_lib \<Rightarrow> fido_lib \<Rightarrow> bytes \<Rightarrow> bytes option" where
  "cred_rp lib fl d = (case parse_make_credential lib (fl_strndup fl) (fl_cred_new fl) d of
     None \<Rightarrow> None | Some calls \<Rightarrow> fl_cred_rp_id fl calls)"

definition assert_rp :: "cbor_lib \<Rightarrow> fido_lib \<Rightarrow> bytes \<Rightarrow> bytes option" where
  "assert_rp lib fl d = (case parse_get_assertion lib (fl_strndup fl) (fl_assert_new fl) d of
     None \<Rightarrow> None | Some calls \<Rightarrow> fl_assert_rp_id fl calls)"

lemma make_credential_run:
  assumes "broker_contract w"
  shows "\<exists>p. run REGISTER (cred_rp lib fl d) (1 # d) (fst (rdpewa_fido_make_credential lib fl w d)) p \<and> final p"
proof (cases "parse_make_credential lib (fl_strndup fl) (fl_cred_new fl) d")
  case None
  then show ?thesis using run_nothing by (simp add: rdpewa_fido_make_credential_def)
next
  case (Some calls)
  then show ?thesis
    using ceremony_run [OF assms, of REGISTER "fl_cred_rp_id fl calls" 1 d lib]
    by (auto simp: rdpewa_fido_make_credential_def make_credential_ceremony_def cred_rp_def
        split: prod.splits progress.splits)
qed

lemma get_assertion_run:
  assumes "broker_contract w"
  shows "\<exists>p. run SIGN_IN (assert_rp lib fl d) (2 # d) (fst (rdpewa_fido_get_assertion lib fl w d)) p \<and> final p"
proof (cases "parse_get_assertion lib (fl_strndup fl) (fl_assert_new fl) d")
  case None
  then show ?thesis using run_nothing by (simp add: rdpewa_fido_get_assertion_def)
next
  case (Some calls)
  then show ?thesis
    using ceremony_run [OF assms, of SIGN_IN "fl_assert_rp_id fl calls" 2 d lib]
    by (auto simp: rdpewa_fido_get_assertion_def get_assertion_ceremony_def assert_rp_def
        split: prod.splits progress.splits)
qed

interpretation make_cred: webauthn_handler
  "\<lambda>(lib, fl, w, d). fst (rdpewa_fido_make_credential lib fl w d)"
  "\<lambda>_. REGISTER" "\<lambda>(lib, fl, w, d). cred_rp lib fl d" "\<lambda>(lib, fl, w, d). 1 # d"
  "\<lambda>(lib, fl, w, d). broker_contract w"
  by unfold_locales (auto intro: make_credential_run)

interpretation get_assert: webauthn_handler
  "\<lambda>(lib, fl, w, d). fst (rdpewa_fido_get_assertion lib fl w d)"
  "\<lambda>_. SIGN_IN" "\<lambda>(lib, fl, w, d). assert_rp lib fl d" "\<lambda>(lib, fl, w, d). 2 # d"
  "\<lambda>(lib, fl, w, d). broker_contract w"
  by unfold_locales (auto intro: get_assertion_run)

text \<open>The request of a WEB_AUTHN message: its payload, and what it is about.\<close>

definition payload :: "rdpewa_request \<Rightarrow> bytes" where
  "payload rq = (case rq_request rq of None \<Rightarrow> [] | Some b \<Rightarrow> b)"

definition request_operation :: "rdpewa_request \<Rightarrow> operation" where
  "request_operation rq = (if payload rq ! 0 = 1 then REGISTER else SIGN_IN)"

definition request_rp :: "cbor_lib \<Rightarrow> fido_lib \<Rightarrow> rdpewa_request \<Rightarrow> bytes option" where
  "request_rp lib fl rq = (if payload rq ! 0 = 1 then cred_rp lib fl (drop 1 (payload rq))
     else assert_rp lib fl (drop 1 (payload rq)))"

text \<open>What \<open>rdpewa_cbor_decode_request\<close> stores: the length field is the payload's.\<close>

definition request_wf :: "rdpewa_request \<Rightarrow> bool" where
  "request_wf rq \<longleftrightarrow> rq_requestLen rq = length (payload rq)"

lemma webauthn_run:
  assumes wf: "request_wf rq" and c: "broker_contract wc" "broker_contract wa"
  shows "\<exists>p. run (request_operation rq) (request_rp lib fl rq) (payload rq)
    (fst (rdpewa_fido_webauthn lib fl wc wa rq)) p \<and> final p"
proof (cases "payload rq")
  case Nil
  then show ?thesis using wf run_nothing
    by (auto simp: rdpewa_fido_webauthn_def request_wf_def payload_def split: option.splits)
next
  case (Cons s d)
  then have r: "rq_request rq = Some (s # d)" "rq_requestLen rq = Suc (length d)"
    using wf by (auto simp: payload_def request_wf_def split: option.splits)
  consider "s = 1" | "s = 2" | "s \<noteq> 1" "s \<noteq> 2" by blast
  then show ?thesis
  proof cases
    case 1
    then show ?thesis using make_credential_run [OF c(1), of lib fl d] r Cons
      by (simp add: rdpewa_fido_webauthn_def request_operation_def request_rp_def)
  next
    case 2
    then show ?thesis using get_assertion_run [OF c(2), of lib fl d] r Cons
      by (simp add: rdpewa_fido_webauthn_def request_operation_def request_rp_def)
  next
    case 3
    then show ?thesis using run_nothing r Cons
      by (simp add: rdpewa_fido_webauthn_def)
  qed
qed

interpretation webauthn: webauthn_handler
  "\<lambda>(lib, fl, wc, wa, rq). fst (rdpewa_fido_webauthn lib fl wc wa rq)"
  "\<lambda>(lib, fl, wc, wa, rq). request_operation rq" "\<lambda>(lib, fl, wc, wa, rq). request_rp lib fl rq"
  "\<lambda>(lib, fl, wc, wa, rq). payload rq"
  "\<lambda>(lib, fl, wc, wa, rq). request_wf rq \<and> broker_contract wc \<and> broker_contract wa"
  by unfold_locales (auto intro: webauthn_run)

section \<open>Replies\<close>

lemma encode_code:
  "rdpewa_cbor_encode_webauthn_response lib ok h st d di = Some r \<Longrightarrow> read_le32 r = h"
  using encode_webauthn_cases [of lib ok h st d di] by (auto simp: codec_simps)

lemma cancelled_code:
  "rdpewa_fido_cancelled_response lib ok di = Some r \<Longrightarrow> read_le32 r = HRESULT_CANCELLED"
  by (auto simp: rdpewa_fido_cancelled_response_def dest: encode_code)

text \<open>A reply other than the cancellation comes from the phone or from a thread that ended in time.\<close>

fun key_outcome :: "event list \<Rightarrow> 'r progress \<Rightarrow> bool" where
  "key_outcome tr (Finish None _) \<longleftrightarrow> True"
| "key_outcome tr (Finish (Some r) _) \<longleftrightarrow> read_le32 r = HRESULT_CANCELLED"
| "key_outcome tr (Answer _ _ _) \<longleftrightarrow> EvWait True \<in> set tr"

lemma key_outcome_cancelled:
  "key_outcome tr (Finish (rdpewa_fido_cancelled_response lib ok di) dev)"
  by (cases "rdpewa_fido_cancelled_response lib ok di") (auto dest: cancelled_code)

lemma use_key_outcome: "use_key lib w tr dev di = (tr', pr) \<Longrightarrow> key_outcome tr' pr"
  by (auto simp: use_key_def Let_def notifyWait_def key_outcome_cancelled split: if_splits prod.splits)

lemma with_device_outcome: "with_device lib w tr dev di = (tr', pr) \<Longrightarrow> key_outcome tr' pr"
  by (cases dev) (auto simp: with_device_def key_outcome_cancelled intro: use_key_outcome)

lemma phone_reply:
  assumes "rdpewa_fido_phone lib w tr sub d rp offer = (tr', ret, again)"
  shows "phone_calls tr' \<noteq> [] \<or> ret = None"
  using assms
  by (auto simp: rdpewa_fido_phone_def phone_calls_snoc Let_def split: if_splits prod.splits)

lemma ceremony_outcome:
  "ceremony lib w op sub d rp = (tr, pr) \<Longrightarrow> key_outcome tr pr \<or> phone_calls tr \<noteq> []"
  by (auto simp: ceremony_def Let_def key_outcome_cancelled
      dest: with_device_outcome phone_reply split: if_splits prod.splits)

lemma phone_calls_append: "phone_calls (a @ b) = phone_calls a @ phone_calls b"
  by (simp add: phone_calls_def)

lemma S_OK_codes: "S_OK \<noteq> HRESULT_CANCELLED" "S_OK \<noteq> E_FAIL" "E_FAIL \<noteq> S_OK" "HRESULT_CANCELLED \<noteq> S_OK"
  by (simp_all add: S_OK_def HRESULT_CANCELLED_def E_FAIL_def)

text \<open>Two surroundings to evaluate requests in: a security key with a PIN, and the phone.\<close>

definition key_world :: "'r \<Rightarrow> 'r world" where
  "key_world r = \<lparr>w_confirm = (\<lambda>_. True),
     w_open = (\<lambda>_. (AUTH_USB_KEY, Some \<lparr>dv_has_pin = True, dv_retries = 8, dv_info = None\<rparr>, [75, 0])),
     w_passkey = (\<lambda>_ _ _. (False, [], False)), w_pin = (\<lambda>_ _. Some [49, 50]), w_thread = (\<lambda>_. True),
     w_wait = (\<lambda>_. True), w_result = (\<lambda>_. r), w_malloc = (\<lambda>_. True), w_encode = (\<lambda>_ _. True),
     w_ctap = (\<lambda>_ _. True)\<rparr>"

definition phone_world :: "'r \<Rightarrow> 'r world" where
  "phone_world r = (key_world r)\<lparr>w_open := (\<lambda>_. (AUTH_PHONE, None, [])),
     w_passkey := (\<lambda>tr _ _. (length tr > 3, [0, 0xA0], True))\<rparr>"

definition sign_in_lib :: cbor_lib where
  "sign_in_lib = one_item_lib (getassert_map [97] [1, 2] [[9]] True)"

definition plain_fido :: fido_lib where
  "plain_fido = \<lparr>fl_cred_new = True, fl_cred_rp_id = (\<lambda>_. Some [97]), fl_assert_new = True,
     fl_assert_rp_id = (\<lambda>_. Some [97]), fl_strndup = (\<lambda>_. True)\<rparr>"

definition sign_in_request :: rdpewa_request where
  "sign_in_request = zero_request\<lparr>rq_command := 5, rq_request := Some [2, 0xA1], rq_requestLen := 2\<rparr>"

definition good_assertion :: assert_result where
  "good_assertion = \<lparr>ar_code = 0, ar_count = 1, ar_id = [9], ar_authdata = [3], ar_sig = [4], ar_user_id = []\<rparr>"

lemma contracts [simp]: "broker_contract (key_world r)" "broker_contract (phone_world r)"
  by (simp_all add: broker_contract_def key_world_def phone_world_def)

lemma sign_in_request_wf [simp]: "request_wf sign_in_request"
  by (simp add: request_wf_def payload_def sign_in_request_def)

lemmas world_defs = key_world_def phone_world_def plain_fido_def sign_in_request_def
  good_assertion_def sign_in_lib_def one_item_lib_def

lemmas ceremony_defs = rdpewa_fido_webauthn_def rdpewa_fido_get_assertion_def
  parse_get_assertion_def getassert_map_def get_assertion_ceremony_def ceremony_def
  rdpewa_fido_open_device_def with_device_def use_key_def notifyWait_def zfree_def c_str_def release_def
  rdpewa_fido_phone_def Let_def

lemma sign_in_with_key:
  "fst (rdpewa_fido_webauthn sign_in_lib plain_fido wc (key_world good_assertion) sign_in_request) =
     [EvConfirm SIGN_IN (Some [97]) True, EvOpen AUTH_USB_KEY True, EvAskPin 8 (Some [49, 50]),
      EvStart (Some [49, 50]), EvTouch True, EvWait True, EvTouch False, EvWipePin [49, 50] [0, 0, 0],
      EvClose, EvFree]"
  by (simp add: ceremony_defs world_defs)

lemma sign_in_with_phone:
  "fst (rdpewa_fido_webauthn sign_in_lib plain_fido wc (phone_world good_assertion) sign_in_request) =
     [EvConfirm SIGN_IN (Some [97]) True, EvOpen AUTH_PHONE False, EvPhone [2, 0xA1] (Some [97]),
      EvOpen AUTH_PHONE False, EvPhone [2, 0xA1] (Some [97])]"
  by (simp add: ceremony_defs world_defs)

section \<open>Properties\<close>

text \<open>
  C5. Nothing happens on a user's authenticator before that user agreed: every WebAuthn request either
  does nothing at all, or first asks about its own operation and its own relying party, and goes on
  only after a yes.
\<close>

theorem webauthn_consent_first:
  fixes lib :: cbor_lib and fl :: fido_lib
  assumes "request_wf rq" "broker_contract wc" "broker_contract wa"
  defines "tr \<equiv> fst (rdpewa_fido_webauthn lib fl wc wa rq)"
  shows "tr = [] \<or> tr = [EvConfirm (request_operation rq) (request_rp lib fl rq) False] \<or>
    (\<exists>rest. tr = EvConfirm (request_operation rq) (request_rp lib fl rq) True # rest)"
proof -
  have "consented (request_operation rq) (request_rp lib fl rq) tr"
    using webauthn.consent [of "(lib, fl, wc, wa, rq)"] assms by simp
  then show ?thesis by (cases tr) (auto simp: consented_def)
qed

lemma webauthn_consent_first_witness:
  "\<exists>rest. fst (rdpewa_fido_webauthn sign_in_lib plain_fido (key_world undefined) (key_world good_assertion)
     sign_in_request) = EvConfirm SIGN_IN (Some [97]) True # rest"
  using webauthn_consent_first [OF sign_in_request_wf contracts(1) contracts(1),
      of sign_in_lib plain_fido undefined good_assertion]
  by (simp add: sign_in_with_key)

text \<open>
  C6. Every request leaves the session clean: each security key it opened was closed and freed once,
  never two at a time, and of every PIN the user typed the memory was all zero when it was freed.
\<close>

theorem webauthn_releases_everything:
  fixes lib :: cbor_lib and fl :: fido_lib
  assumes "request_wf rq" "broker_contract wc" "broker_contract wa"
  defines "tr \<equiv> fst (rdpewa_fido_webauthn lib fl wc wa rq)"
  shows "opened tr = count_ev EvClose tr \<and> count_ev EvFree tr = count_ev EvClose tr \<and>
    wiped tr = pins tr \<and> (\<forall>pre post. tr = pre @ post \<longrightarrow> opened pre \<le> Suc (count_ev EvClose pre))"
  using webauthn.devices_released [of "(lib, fl, wc, wa, rq)"]
    webauthn.pins_wiped [of "(lib, fl, wc, wa, rq)"] webauthn.one_device [of "(lib, fl, wc, wa, rq)"] assms
  by auto

lemma webauthn_releases_everything_witness:
  "wiped (fst (rdpewa_fido_webauthn sign_in_lib plain_fido (key_world undefined)
     (key_world good_assertion) sign_in_request)) = [[49, 50]]"
  using webauthn_releases_everything [OF sign_in_request_wf contracts(1) contracts(1),
      of sign_in_lib plain_fido undefined good_assertion]
  by (simp add: sign_in_with_key pins_def)

text \<open>
  A key is closed only after the thread that uses it has ended (within its wait, or joined after a
  cancellation) and after its PIN was wiped: the thread never works on a freed device.
\<close>

lemma webauthn_close_after_join:
  assumes "request_wf rq" "broker_contract wc" "broker_contract wa"
    and "fst (rdpewa_fido_webauthn lib fl wc wa rq) = pre @ EvClose # post"
  shows "started pre = ended pre \<and> wiped pre = pins pre"
  using webauthn.closed_after_join [of "(lib, fl, wc, wa, rq)" pre post] assms by auto

lemma webauthn_close_after_join_witness:
  "started [EvConfirm SIGN_IN (Some [97]) True, EvOpen AUTH_USB_KEY True, EvAskPin 8 (Some [49, 50]),
      EvStart (Some [49, 50]), EvTouch True, EvWait True, EvTouch False, EvWipePin [49, 50] [0, 0, 0]] = 1 \<and>
   ended [EvConfirm SIGN_IN (Some [97]) True, EvOpen AUTH_USB_KEY True, EvAskPin 8 (Some [49, 50]),
      EvStart (Some [49, 50]), EvTouch True, EvWait True, EvTouch False, EvWipePin [49, 50] [0, 0, 0]] = 1"
proof -
  let ?pre = "[EvConfirm SIGN_IN (Some [97]) True, EvOpen AUTH_USB_KEY True, EvAskPin 8 (Some [49, 50]),
      EvStart (Some [49, 50]), EvTouch True, EvWait True, EvTouch False, EvWipePin [49, 50] [0, 0, 0]]"
  have "started ?pre = ended ?pre"
    using webauthn_close_after_join [OF sign_in_request_wf contracts(1) contracts(1),
        of sign_in_lib plain_fido undefined good_assertion ?pre "[EvFree]"]
    by (simp add: sign_in_with_key)
  moreover have "started ?pre = 1" by (simp add: started_def)
  ultimately show ?thesis by simp
qed

text \<open>
  The phone is sent at most two commands, each the request's own payload (sub-command and CTAP
  data, unchanged) for the relying party the user confirmed.
\<close>

lemma webauthn_phone_commands:
  fixes lib :: cbor_lib and fl :: fido_lib
  assumes "request_wf rq" "broker_contract wc" "broker_contract wa"
  defines "tr \<equiv> fst (rdpewa_fido_webauthn lib fl wc wa rq)"
  shows "set (phone_calls tr) \<subseteq> {(payload rq, request_rp lib fl rq)} \<and> length (phone_calls tr) \<le> 2"
  using webauthn.phone_commands [of "(lib, fl, wc, wa, rq)"] assms by auto

lemma webauthn_phone_commands_witness:
  "length (phone_calls (fst (rdpewa_fido_webauthn sign_in_lib plain_fido (key_world undefined)
     (phone_world good_assertion) sign_in_request))) = 2 \<and> request_rp sign_in_lib plain_fido sign_in_request = Some [97]"
proof -
  have "set (phone_calls (fst (rdpewa_fido_webauthn sign_in_lib plain_fido (key_world undefined)
      (phone_world good_assertion) sign_in_request))) \<subseteq>
      {(payload sign_in_request, request_rp sign_in_lib plain_fido sign_in_request)}"
    using webauthn_phone_commands [OF sign_in_request_wf contracts(1) contracts(2),
        of sign_in_lib plain_fido undefined good_assertion] by blast
  then show ?thesis by (simp add: sign_in_with_phone phone_calls_def)
qed

text \<open>
  Success is never reported without an authenticator: a reply with \<open>S_OK\<close> means that the key's
  thread ended within its wait or that the phone was asked.
\<close>

lemma webauthn_success_needs_authenticator:
  assumes "rdpewa_fido_webauthn lib fl wc wa rq = (tr, Some r)" and "read_le32 r = S_OK"
  shows "EvWait True \<in> set tr \<or> phone_calls tr \<noteq> []"
  using assms S_OK_codes
  by (auto simp: rdpewa_fido_webauthn_def rdpewa_fido_make_credential_def rdpewa_fido_get_assertion_def
      make_credential_ceremony_def get_assertion_ceremony_def Let_def phone_calls_append
      dest!: ceremony_outcome split: option.splits if_splits prod.splits progress.splits)

lemma webauthn_success_needs_authenticator_witness:
  "\<exists>tr r. rdpewa_fido_webauthn sign_in_lib plain_fido (key_world undefined) (key_world good_assertion)
      sign_in_request = (tr, Some r) \<and> read_le32 r = S_OK \<and> (EvWait True \<in> set tr \<or> phone_calls tr \<noteq> [])"
proof -
  obtain tr ret where t: "rdpewa_fido_webauthn sign_in_lib plain_fido (key_world undefined)
      (key_world good_assertion) sign_in_request = (tr, ret)" by fastforce
  have "ret = Some (le32 S_OK @ [0xA0])"
    using t by (auto simp: ceremony_defs world_defs get_assertion_answer_def FIDO_OK_def wrap_answer_def
        assert_response_map_def add_pairs_all rdpewa_cbor_encode_webauthn_response_def)
  then have r: "rdpewa_fido_webauthn sign_in_lib plain_fido (key_world undefined)
      (key_world good_assertion) sign_in_request = (tr, Some (le32 S_OK @ [0xA0]))"
    using t by simp
  have c: "read_le32 (le32 S_OK @ [0xA0]) = S_OK" by (simp add: codec_simps)
  from webauthn_success_needs_authenticator [OF r c] r c show ?thesis by blast
qed

end
