(* ===== verification/Rdpewa_Channel.thy ===== *)
theory Rdpewa_Channel
  imports Rdpewa_Ceremony
begin

text \<open>
  \<open>rdp/rdpewa/rdpewa_main.c\<close>: the dynamic channel. \<open>rdpewa_on_data_received\<close> answers a message at
  once or hands a WEB_AUTHN request to a worker thread, \<open>rdpewa_on_close\<close> ends the channel. The
  worker's end is an action of its own, so it may fall between any two callbacks, inside the join
  of a callback, or between a server's cancellation and its answer; everything else the channel
  thread does is in program order. A worker's answer and all that allocators, threads and the
  broker answer are given with the action.

  Ghost state: messages are numbered, and \<open>ch_log\<close> records what was done for which message, \<open>Silent\<close> where the
  code has nothing to write for it and goes on;
  \<open>ch_buffers\<close> counts the payload buffers that are still allocated.
\<close>

section \<open>The worker\<close>

definition CHANNEL_RC_OK :: u32 where "CHANNEL_RC_OK = 0"
definition ERROR_INVALID_DATA :: u32 where "ERROR_INVALID_DATA = 13"
definition ERROR_INTERNAL_ERROR :: u32 where "ERROR_INTERNAL_ERROR = 1359"

text \<open>
  What a worker meets: \<open>en_fail\<close> and \<open>en_fail_code\<close> are the allocations of the two replies of
  \<open>rdpewa_failed_response\<close>, \<open>en_disconnect\<close> is \<open>freerdp_shall_disconnect_context\<close>.
\<close>

record env =
  en_lib :: cbor_lib
  en_fido :: fido_lib
  en_cred :: "cred_result world"
  en_assert :: "assert_result world"
  en_fail :: "encode_site \<Rightarrow> bool"
  en_fail_code :: "encode_site \<Rightarrow> bool"
  en_disconnect :: bool

definition rdpewa_failed_response ::
    "cbor_lib \<Rightarrow> (encode_site \<Rightarrow> bool) \<Rightarrow> (encode_site \<Rightarrow> bool) \<Rightarrow> bytes option" where
  "rdpewa_failed_response lib ok ok_code =
     (case rdpewa_cbor_encode_webauthn_response lib ok E_FAIL 0x01 [] zero_device_info of
        Some s \<Rightarrow> Some s
      | None \<Rightarrow> rdpewa_cbor_encode_hresult_response ok_code E_FAIL)"

text \<open>What the worker writes to its channel, if anything.\<close>

definition rdpewa_async_webauthn_thread :: "env \<Rightarrow> rdpewa_request \<Rightarrow> bytes option" where
  "rdpewa_async_webauthn_thread en request =
     (let s = (if rq_command request = 5
               then snd (rdpewa_fido_webauthn (en_lib en) (en_fido en) (en_cred en) (en_assert en) request)
               else None);
          s' = (case s of Some r \<Rightarrow> Some r
                | None \<Rightarrow> rdpewa_failed_response (en_lib en) (en_fail en) (en_fail_code en))
      in (if en_disconnect en then None else s'))"

section \<open>The channel\<close>

datatype chan_event =
    Accept nat | Reject nat
  | Cancel | Begin u32
  | StartWorker nat | EndWorker nat | JoinWorker nat
  | Write nat bytes | Silent nat

text \<open>\<open>ch_worker\<close> is the handle: the message, its request and whether the thread still runs.\<close>

record channel =
  ch_open :: bool
  ch_worker :: "(nat \<times> rdpewa_request \<times> bool) option"
  ch_next :: nat
  ch_log :: "chan_event list"
  ch_buffers :: nat

definition rdpewa_on_open :: channel where
  "rdpewa_on_open = \<lparr>ch_open = True, ch_worker = None, ch_next = 0, ch_log = [], ch_buffers = 0\<rparr>"

definition log_ev :: "chan_event list \<Rightarrow> channel \<Rightarrow> channel" where
  "log_ev es st = st\<lparr>ch_log := ch_log st @ es\<rparr>"

definition write_ev :: "nat \<Rightarrow> bytes option \<Rightarrow> chan_event list" where
  "write_ev n reply = (case reply of None \<Rightarrow> [Silent n] | Some b \<Rightarrow> [Write n b])"

definition free_payload :: "rdpewa_request \<Rightarrow> channel \<Rightarrow> channel" where
  "free_payload rq st = (if rq_request rq = None then st else st\<lparr>ch_buffers := ch_buffers st - 1\<rparr>)"

definition worker_ends :: "env \<Rightarrow> channel \<Rightarrow> channel" where
  "worker_ends en st = (case ch_worker st of
     Some (n, rq, True) \<Rightarrow>
       free_payload rq (log_ev (write_ev n (rdpewa_async_webauthn_thread en rq) @ [EndWorker n])
         (st\<lparr>ch_worker := Some (n, rq, False)\<rparr>))
   | _ \<Rightarrow> st)"

text \<open>Cancel, \<open>WaitForSingleObject(INFINITE)\<close>, \<open>CloseHandle\<close>, forget the handle.\<close>

definition cancel_and_join :: "env \<Rightarrow> channel \<Rightarrow> channel" where
  "cancel_and_join en st = (case ch_worker st of
     None \<Rightarrow> st
   | Some (n, _, _) \<Rightarrow>
       (let st1 = worker_ends en (log_ev [Cancel] st)
        in log_ev [JoinWorker n] (st1\<lparr>ch_worker := None\<rparr>)))"

definition rdpewa_on_close :: "env \<Rightarrow> channel \<Rightarrow> channel" where
  "rdpewa_on_close en st = (cancel_and_join en st)\<lparr>ch_open := False\<rparr>"

text \<open>
  What a callback meets: \<open>an_worker\<close> is for the worker it may have to join, \<open>an_during\<close> for a worker
  that ends between a cancellation and its answer, \<open>an_authorized\<close> the broker's authorized key.
\<close>

record answers =
  an_lib :: cbor_lib
  an_malloc :: "nat \<Rightarrow> bool"
  an_calloc :: bool
  an_thread :: bool
  an_encode :: "encode_site \<Rightarrow> bool"
  an_encode_code :: "encode_site \<Rightarrow> bool"
  an_list :: "list_site \<Rightarrow> bool"
  an_authorized :: "bytes option"
  an_write :: u32
  an_worker :: env
  an_during :: "env option"

definition rdpewa_write_failure :: "answers \<Rightarrow> nat \<Rightarrow> channel \<Rightarrow> channel" where
  "rdpewa_write_failure an n st =
     log_ev (write_ev n (rdpewa_failed_response (an_lib an) (an_encode an) (an_encode_code an))) st"

text \<open>The \<open>CTAPCBOR_RPC_COMMAND_WEB_AUTHN\<close> case.\<close>

definition receive_webauthn :: "answers \<Rightarrow> nat \<Rightarrow> rdpewa_request \<Rightarrow> channel \<Rightarrow> channel \<times> u32" where
  "receive_webauthn an n request st =
     (if \<not> an_calloc an
      then (rdpewa_write_failure an n (free_payload request st), ERROR_INTERNAL_ERROR)
      else let st1 = log_ev [Begin (rq_timeout request)] (cancel_and_join (an_worker an) st)
           in if \<not> an_thread an
              then (rdpewa_write_failure an n (free_payload request st1), ERROR_INTERNAL_ERROR)
              else (log_ev [StartWorker n] (st1\<lparr>ch_worker := Some (n, request, True)\<rparr>), CHANNEL_RC_OK))"

text \<open>The other cases: the answer made on the channel's own thread.\<close>

definition direct_response :: "answers \<Rightarrow> rdpewa_request \<Rightarrow> bytes option" where
  "direct_response an request =
     (if rq_command request = 6 then rdpewa_fido_is_uvpaa (an_encode an)
      else if rq_command request = 7 then rdpewa_cbor_encode_hresult_response (an_encode an) S_OK
      else if rq_command request = 8 then rdpewa_fido_api_version (an_encode an)
      else if rq_command request = 9 then rdpewa_fido_get_credentials (an_encode an)
      else if rq_command request = 12
           then rdpewa_fido_get_authenticator_list (an_lib an) (an_encode an) (an_list an) (an_authorized an)
      else rdpewa_cbor_encode_hresult_response (an_encode an) E_NOTIMPL)"

definition rdpewa_on_data_received :: "answers \<Rightarrow> bytes \<Rightarrow> channel \<Rightarrow> channel \<times> u32" where
  "rdpewa_on_data_received an data st =
     (let n = ch_next st; st0 = st\<lparr>ch_next := Suc n\<rparr>
      in (case rdpewa_cbor_decode_request (an_lib an) (an_malloc an) data of
         (False, request) \<Rightarrow>
           (log_ev [Reject n] (st0\<lparr>ch_buffers := ch_buffers st0 + rq_allocs request\<rparr>), ERROR_INVALID_DATA)
       | (True, request) \<Rightarrow>
           (let st1 = log_ev [Accept n] (st0\<lparr>ch_buffers := ch_buffers st0 + rq_allocs request\<rparr>)
            in if rq_command request = 5 then receive_webauthn an n request st1
               else let st2 = (if rq_command request = 7
                               then (let c = log_ev [Cancel] st1
                                     in (case an_during an of None \<Rightarrow> c | Some en \<Rightarrow> worker_ends en c))
                               else st1)
                    in (case direct_response an request of
                          None \<Rightarrow> (free_payload request (log_ev [Silent n] st2), ERROR_INTERNAL_ERROR)
                        | Some b \<Rightarrow> (free_payload request (log_ev [Write n b] st2), an_write an)))))"

datatype action = Receive answers bytes | WorkerEnds env | CloseChannel env

definition act :: "action \<Rightarrow> channel \<Rightarrow> channel" where
  "act a st = (if \<not> ch_open st then st else (case a of
     Receive an data \<Rightarrow> fst (rdpewa_on_data_received an data st)
   | WorkerEnds en \<Rightarrow> worker_ends en st
   | CloseChannel en \<Rightarrow> rdpewa_on_close en st))"

definition exec :: "action list \<Rightarrow> channel \<Rightarrow> channel" where
  "exec as st = fold act as st"

section \<open>What the log says\<close>

definition writes :: "nat \<Rightarrow> chan_event list \<Rightarrow> nat" where
  "writes n es = length (filter (\<lambda>e. case e of Write m _ \<Rightarrow> m = n | _ \<Rightarrow> False) es)"

definition silent :: "nat \<Rightarrow> chan_event list \<Rightarrow> nat" where
  "silent n es = count_list es (Silent n)"

definition running :: "channel \<Rightarrow> nat option" where
  "running st = (case ch_worker st of Some (n, _, True) \<Rightarrow> Some n | _ \<Rightarrow> None)"

lemma writes_simps [simp]:
  "writes n [] = 0"
  "writes n (es @ fs) = writes n es + writes n fs"
  "writes n (e # es) = (case e of Write m _ \<Rightarrow> of_bool (m = n) | _ \<Rightarrow> 0) + writes n es"
  by (auto simp: writes_def split: chan_event.split)

lemma silent_simps [simp]:
  "silent n [] = 0" "silent n (es @ fs) = silent n es + silent n fs"
  "silent n (e # es) = of_bool (e = Silent n) + silent n es"
  by (simp_all add: silent_def)

lemma count_list_write_ev [simp]: "count_list (write_ev n r) (Accept m) = 0"
  "count_list (write_ev n r) (StartWorker m) = 0" "count_list (write_ev n r) (EndWorker m) = 0"
  "count_list (write_ev n r) (JoinWorker m) = 0"
  by (simp_all add: write_ev_def split: option.split)

lemma writes_write_ev [simp]: "writes n (write_ev m r) = of_bool (r \<noteq> None \<and> m = n)"
  by (simp add: write_ev_def split: option.split)

lemma silent_write_ev [simp]: "silent n (write_ev m r) = of_bool (r = None \<and> m = n)"
  by (simp add: write_ev_def split: option.split)

lemma log_ev_simps [simp]:
  "ch_open (log_ev es st) = ch_open st" "ch_worker (log_ev es st) = ch_worker st"
  "ch_next (log_ev es st) = ch_next st" "ch_log (log_ev es st) = ch_log st @ es"
  "ch_buffers (log_ev es st) = ch_buffers st" "running (log_ev es st) = running st"
  by (simp_all add: log_ev_def running_def)

lemma free_payload_simps [simp]:
  "ch_open (free_payload rq st) = ch_open st" "ch_worker (free_payload rq st) = ch_worker st"
  "ch_next (free_payload rq st) = ch_next st" "ch_log (free_payload rq st) = ch_log st"
  "running (free_payload rq st) = running st"
  "ch_buffers (free_payload rq st) = ch_buffers st - of_bool (rq_request rq \<noteq> None)"
  by (simp_all add: free_payload_def running_def)

lemma worker_ends_simps:
  "ch_next (worker_ends en st) = ch_next st"
  "ch_open (worker_ends en st) = ch_open st"
  "running (worker_ends en st) = None"
  "map_option fst (ch_worker (worker_ends en st)) = map_option fst (ch_worker st)"
  "ch_log (worker_ends en st) = (case ch_worker st of
     Some (n, rq, True) \<Rightarrow> ch_log st @ write_ev n (rdpewa_async_webauthn_thread en rq) @ [EndWorker n]
   | _ \<Rightarrow> ch_log st)"
  by (auto simp: worker_ends_def running_def split: option.splits prod.splits bool.splits)

lemma cancel_and_join_simps:
  "ch_next (cancel_and_join en st) = ch_next st"
  "ch_open (cancel_and_join en st) = ch_open st"
  "ch_worker (cancel_and_join en st) = None"
  "running (cancel_and_join en st) = None"
  by (auto simp: cancel_and_join_def worker_ends_simps running_def Let_def split: option.splits prod.splits)

section \<open>Every accepted message is answered once\<close>

text \<open>Surroundings in which an answer can be written: no disconnection, memory for a short reply.\<close>

definition worker_answers :: "env \<Rightarrow> bool" where
  "worker_answers en \<longleftrightarrow> \<not> en_disconnect en \<and> en_fail_code en SiteStream"

definition good_answers :: "answers \<Rightarrow> bool" where
  "good_answers an \<longleftrightarrow> an_encode an SiteStream \<and> an_encode_code an SiteStream \<and> an_list an ListArray \<and>
     (\<forall>x. cl_serialize (an_lib an) x \<noteq> []) \<and> worker_answers (an_worker an) \<and>
     (case an_during an of None \<Rightarrow> True | Some en \<Rightarrow> worker_answers en)"

fun good_action :: "action \<Rightarrow> bool" where
  "good_action (Receive an _) = good_answers an"
| "good_action (WorkerEnds en) = worker_answers en"
| "good_action (CloseChannel en) = worker_answers en"

lemma failed_response_written:
  "ok_code SiteStream \<Longrightarrow> rdpewa_failed_response lib ok ok_code \<noteq> None"
  by (auto simp: rdpewa_failed_response_def rdpewa_cbor_encode_hresult_response_def split: option.splits)

lemma worker_writes: "worker_answers en \<Longrightarrow> rdpewa_async_webauthn_thread en rq \<noteq> None"
  using failed_response_written
  by (auto simp: rdpewa_async_webauthn_thread_def worker_answers_def Let_def split: option.splits)

lemma direct_writes: "good_answers an \<Longrightarrow> direct_response an rq \<noteq> None"
  by (auto simp: direct_response_def good_answers_def rdpewa_fido_is_uvpaa_def rdpewa_fido_api_version_def
      rdpewa_fido_get_credentials_def rdpewa_fido_get_authenticator_list_def Let_def
      rdpewa_cbor_encode_simple_response_def rdpewa_cbor_encode_hresult_response_def
      split: option.splits)

text \<open>\<open>owed\<close> is the message a callback has accepted and neither settled nor handed over yet.\<close>

definition answer_inv :: "nat option \<Rightarrow> nat \<Rightarrow> channel \<Rightarrow> bool" where
  "answer_inv owed n st \<longleftrightarrow>
     writes n (ch_log st) + silent n (ch_log st) + of_bool (running st = Some n) + of_bool (owed = Some n) =
       count_list (ch_log st) (Accept n) \<and>
     count_list (ch_log st) (Accept n) \<le> of_bool (n < ch_next st)"

lemma answer_inv_open: "answer_inv None n rdpewa_on_open"
  by (simp add: answer_inv_def rdpewa_on_open_def running_def)

lemma answer_inv_log:
  "answer_inv ow n st \<Longrightarrow> writes n es = 0 \<Longrightarrow> silent n es = 0 \<Longrightarrow> count_list es (Accept n) = 0 \<Longrightarrow>
     answer_inv ow n (log_ev es st)"
  by (simp add: answer_inv_def)

lemma answer_inv_free: "answer_inv ow n (free_payload rq st) \<longleftrightarrow> answer_inv ow n st"
  by (simp add: answer_inv_def)

lemma answer_inv_worker_ends:
  assumes "answer_inv ow n st"
  shows "answer_inv ow n (worker_ends en st)"
proof (cases "ch_worker st")
  case (Some w)
  then show ?thesis using assms
    by (cases w; cases "snd (snd w)") (auto simp: answer_inv_def worker_ends_def running_def log_ev_def free_payload_def)
qed (use assms in \<open>simp add: worker_ends_def\<close>)

lemma answer_inv_join:
  assumes "answer_inv ow n st"
  shows "answer_inv ow n (cancel_and_join en st)"
proof (cases "ch_worker st")
  case (Some w)
  have "answer_inv ow n (worker_ends en (log_ev [Cancel] st))"
    by (intro answer_inv_worker_ends answer_inv_log assms) simp_all
  then show ?thesis
    using Some worker_ends_simps(3) [of en "log_ev [Cancel] st"]
    by (cases w) (auto simp: cancel_and_join_def Let_def answer_inv_def running_def)
qed (use assms in \<open>simp add: cancel_and_join_def\<close>)

lemma answer_inv_write: "answer_inv (Some k) n st \<Longrightarrow> answer_inv None n (log_ev (write_ev k reply) st)"
  by (auto simp: answer_inv_def)

lemma answer_inv_receive_webauthn:
  assumes "answer_inv (Some k) n st"
  shows "answer_inv None n (fst (receive_webauthn an k rq st))"
proof -
  have j: "answer_inv (Some k) n (log_ev [Begin (rq_timeout rq)] (cancel_and_join (an_worker an) st))"
    by (intro answer_inv_log answer_inv_join assms) simp_all
  have "answer_inv None n (log_ev [StartWorker k] ((log_ev [Begin (rq_timeout rq)]
      (cancel_and_join (an_worker an) st))\<lparr>ch_worker := Some (k, rq, True)\<rparr>))"
    using j by (simp add: answer_inv_def running_def cancel_and_join_simps)
  with j assms show ?thesis
    by (simp add: receive_webauthn_def Let_def rdpewa_write_failure_def answer_inv_write answer_inv_free)
qed

lemma answer_inv_receive:
  assumes inv: "answer_inv None n st"
  shows "answer_inv None n (fst (rdpewa_on_data_received an data st))"
proof -
  obtain ok rq where d: "rdpewa_cbor_decode_request (an_lib an) (an_malloc an) data = (ok, rq)"
    by fastforce
  let ?k = "ch_next st"
  let ?st1 = "log_ev [Accept ?k] (st\<lparr>ch_next := Suc ?k, ch_buffers := ch_buffers st + rq_allocs rq\<rparr>)"
  let ?mid = "case an_during an of None \<Rightarrow> log_ev [Cancel] ?st1 | Some en \<Rightarrow> worker_ends en (log_ev [Cancel] ?st1)"
  have bump: "answer_inv None n (log_ev [Reject ?k]
      (st\<lparr>ch_next := Suc ?k, ch_buffers := ch_buffers st + rq_allocs rq\<rparr>))"
    using inv by (cases "n < ch_next st") (auto simp: answer_inv_def running_def)
  have acc: "answer_inv (Some ?k) n ?st1"
    using inv by (auto simp: answer_inv_def running_def)
  have mid: "answer_inv (Some ?k) n ?mid"
    by (auto intro!: answer_inv_worker_ends answer_inv_log acc split: option.splits)
  have settle: "answer_inv (Some ?k) n t \<Longrightarrow> answer_inv None n (fst (case direct_response an rq of
      None \<Rightarrow> (free_payload rq (log_ev [Silent ?k] t), ERROR_INTERNAL_ERROR)
    | Some b \<Rightarrow> (free_payload rq (log_ev [Write ?k b] t), an_write an)))" for t
    using answer_inv_write [of ?k n t "direct_response an rq"]
    by (cases "direct_response an rq") (simp_all add: write_ev_def answer_inv_free)
  show ?thesis
    using bump answer_inv_receive_webauthn [OF acc] settle [OF acc] settle [OF mid]
    by (cases ok; cases "direct_response an rq") (simp_all add: rdpewa_on_data_received_def d Let_def)
qed

lemma answer_inv_exec:
  assumes "answer_inv None n st"
  shows "answer_inv None n (exec as st)"
  using assms
proof (induction as arbitrary: st)
  case (Cons a as)
  have "answer_inv None n (act a st)"
  proof (cases a)
    case (CloseChannel en)
    then have "answer_inv None n (cancel_and_join en st)"
      using Cons.prems answer_inv_join by simp
    then show ?thesis
      using CloseChannel Cons.prems by (simp add: act_def rdpewa_on_close_def answer_inv_def running_def)
  qed (use Cons.prems answer_inv_receive answer_inv_worker_ends in \<open>auto simp: act_def\<close>)
  with Cons show ?case by (simp add: exec_def)
qed (simp add: exec_def)

text \<open>An action that meets such surroundings leaves no message unanswered.\<close>

lemma silent_worker_ends: "worker_answers en \<Longrightarrow> silent n (ch_log (worker_ends en st)) = silent n (ch_log st)"
  using worker_writes [of en] by (simp add: worker_ends_simps split: option.split prod.split bool.split)

lemma silent_join: "worker_answers en \<Longrightarrow> silent n (ch_log (cancel_and_join en st)) = silent n (ch_log st)"
  using silent_worker_ends [of en n "log_ev [Cancel] st"] by (simp add: cancel_and_join_def Let_def split: option.split)

lemma silent_receive:
  assumes "good_answers an"
  shows "silent n (ch_log (fst (rdpewa_on_data_received an data st))) = silent n (ch_log st)"
proof -
  obtain ok rq where d: "rdpewa_cbor_decode_request (an_lib an) (an_malloc an) data = (ok, rq)"
    by fastforce
  have failed: "rdpewa_failed_response (an_lib an) (an_encode an) (an_encode_code an) \<noteq> None"
    using failed_response_written assms by (simp add: good_answers_def)
  have worker: "silent n (ch_log (worker_ends en t)) = silent n (ch_log t)" if "an_during an = Some en" for en t
    using assms that silent_worker_ends by (simp add: good_answers_def)
  obtain b y where "direct_response an rq = Some b"
    "rdpewa_failed_response (an_lib an) (an_encode an) (an_encode_code an) = Some y"
    using direct_writes [OF assms] failed by fastforce
  moreover have "worker_answers (an_worker an)" using assms by (simp add: good_answers_def)
  ultimately show ?thesis
    using worker silent_join [of "an_worker an"]
    by (cases ok; cases "an_during an")
      (simp_all add: rdpewa_on_data_received_def d receive_webauthn_def rdpewa_write_failure_def write_ev_def Let_def)
qed

lemma silent_act: "good_action a \<Longrightarrow> silent n (ch_log (act a st)) = silent n (ch_log st)"
  using silent_receive silent_worker_ends silent_join by (cases a) (simp_all add: act_def rdpewa_on_close_def)

lemma silent_exec: "list_all good_action as \<Longrightarrow> silent n (ch_log (exec as st)) = silent n (ch_log st)"
proof (induction as arbitrary: st)
  case (Cons a as)
  then show ?case using silent_act [of a n st] by (simp add: exec_def)
qed (simp add: exec_def)

section \<open>One worker at a time\<close>

text \<open>
  A monitor over the log: a worker starts only when there is none, ends while it runs, and is joined
  when it has ended. Its state is the worker's message and whether it runs; \<open>None\<close> is a violation.
\<close>

fun mstep :: "chan_event \<Rightarrow> (nat \<times> bool) option option \<Rightarrow> (nat \<times> bool) option option" where
  "mstep (StartWorker n) (Some None) = Some (Some (n, True))"
| "mstep (StartWorker n) (Some (Some _)) = None"
| "mstep (EndWorker n) (Some (Some (m, True))) = (if m = n then Some (Some (n, False)) else None)"
| "mstep (EndWorker n) (Some _) = None"
| "mstep (JoinWorker n) (Some (Some (m, False))) = (if m = n then Some None else None)"
| "mstep (JoinWorker n) (Some _) = None"
| "mstep _ m = m"

definition monitor :: "chan_event list \<Rightarrow> (nat \<times> bool) option option" where
  "monitor es = fold mstep es (Some None)"

definition worker_state :: "channel \<Rightarrow> (nat \<times> bool) option" where
  "worker_state st = map_option (\<lambda>(n, _, r). (n, r)) (ch_worker st)"

definition monitor_inv :: "channel \<Rightarrow> bool" where
  "monitor_inv st \<longleftrightarrow> monitor (ch_log st) = Some (worker_state st)"

lemma monitor_append: "monitor (es @ fs) = fold mstep fs (monitor es)"
  by (simp add: monitor_def)

lemma fold_mstep_write_ev [simp]: "fold mstep (write_ev n r) m = m"
  by (simp add: write_ev_def split: option.split)

lemma monitor_inv_log:
  "monitor_inv st \<Longrightarrow> fold mstep es (Some (worker_state st)) = Some (worker_state st) \<Longrightarrow>
   monitor_inv (log_ev es st)"
  by (simp add: monitor_inv_def monitor_append worker_state_def)

lemma monitor_inv_worker_ends: "monitor_inv st \<Longrightarrow> monitor_inv (worker_ends en st)"
proof (cases "ch_worker st")
  case (Some w)
  assume "monitor_inv st"
  with Some show ?thesis
    by (cases w; cases "snd (snd w)")
       (auto simp: monitor_inv_def worker_ends_def worker_state_def monitor_append log_ev_def free_payload_def)
qed (simp add: worker_ends_def)

lemma monitor_inv_join: "monitor_inv st \<Longrightarrow> monitor_inv (cancel_and_join en st)"
proof (cases "ch_worker st")
  case (Some w)
  assume "monitor_inv st"
  then have m: "monitor_inv (worker_ends en (log_ev [Cancel] st))"
    by (intro monitor_inv_worker_ends monitor_inv_log) simp_all
  obtain n rq r where w: "w = (n, rq, r)" by (cases w)
  have "worker_state (worker_ends en (log_ev [Cancel] st)) = Some (n, False)"
    using Some w by (cases r) (auto simp: worker_state_def worker_ends_def log_ev_def free_payload_def)
  with m show ?thesis
    using Some w by (auto simp: cancel_and_join_def Let_def monitor_inv_def monitor_append worker_state_def)
qed (simp add: cancel_and_join_def)

lemma monitor_inv_simps [simp]:
  "monitor_inv (free_payload rq st) = monitor_inv st"
  "monitor_inv (rdpewa_write_failure an n st) = monitor_inv st"
  "monitor_inv (st\<lparr>ch_next := k\<rparr>) = monitor_inv st"
  "monitor_inv (st\<lparr>ch_next := k, ch_buffers := b\<rparr>) = monitor_inv st"
  "monitor_inv (st\<lparr>ch_open := o'\<rparr>) = monitor_inv st"
  "monitor_inv (log_ev [Accept n] st) = monitor_inv st"
  "monitor_inv (log_ev [Reject n] st) = monitor_inv st"
  "monitor_inv (log_ev [Cancel] st) = monitor_inv st"
  "monitor_inv (log_ev [Begin t] st) = monitor_inv st"
  "monitor_inv (log_ev [Write n r] st) = monitor_inv st"
  "monitor_inv (log_ev [Silent n] st) = monitor_inv st"
  by (simp_all add: monitor_inv_def worker_state_def monitor_append rdpewa_write_failure_def)

lemma monitor_inv_receive: "monitor_inv st \<Longrightarrow> monitor_inv (fst (rdpewa_on_data_received an data st))"
proof -
  assume inv: "monitor_inv st"
  have start: "monitor_inv (log_ev [StartWorker n] (st'\<lparr>ch_worker := Some (n, rq, True)\<rparr>))"
    if "monitor_inv st'" "ch_worker st' = None" for n rq st'
    using that by (simp add: monitor_inv_def worker_state_def monitor_append)
  have web: "monitor_inv (fst (receive_webauthn an n rq st'))" if "monitor_inv st'" for n rq st'
    using that monitor_inv_join [of st' "an_worker an"]
    by (auto simp: receive_webauthn_def Let_def cancel_and_join_simps intro!: start)
  show ?thesis
    using inv web monitor_inv_worker_ends
    by (auto simp: rdpewa_on_data_received_def Let_def split: prod.splits bool.splits option.splits)
qed

lemma monitor_inv_exec: "monitor_inv st \<Longrightarrow> monitor_inv (exec as st)"
proof (induction as arbitrary: st)
  case (Cons a as)
  have "monitor_inv (act a st)"
    using Cons.prems monitor_inv_receive monitor_inv_worker_ends monitor_inv_join
    by (cases a) (auto simp: act_def rdpewa_on_close_def)
  with Cons show ?case by (simp add: exec_def)
qed (simp add: exec_def)

lemma closed_no_worker:
  "(\<not> ch_open st \<longrightarrow> ch_worker st = None) \<Longrightarrow> \<not> ch_open (exec as st) \<longrightarrow> ch_worker (exec as st) = None"
proof (induction as arbitrary: st)
  case (Cons a as)
  have o: "ch_open (fst (rdpewa_on_data_received an data st)) = ch_open st" for an data
    by (auto simp: rdpewa_on_data_received_def receive_webauthn_def rdpewa_write_failure_def Let_def
        worker_ends_simps cancel_and_join_simps split: prod.splits bool.splits option.splits)
  have "\<not> ch_open (act a st) \<longrightarrow> ch_worker (act a st) = None"
    using Cons.prems o by (cases a) (auto simp: act_def rdpewa_on_close_def cancel_and_join_simps worker_ends_simps)
  from Cons.IH [OF this] show ?case by (simp add: exec_def)
qed (simp add: exec_def)

section \<open>Payload buffers\<close>

text \<open>A message whose decoding leaves exactly the payload it returns allocated.\<close>

definition tidy :: "answers \<Rightarrow> bytes \<Rightarrow> bool" where
  "tidy an data \<longleftrightarrow> (let rq = snd (rdpewa_cbor_decode_request (an_lib an) (an_malloc an) data)
     in rq_allocs rq = of_bool (rq_request rq \<noteq> None)) \<and>
     (fst (rdpewa_cbor_decode_request (an_lib an) (an_malloc an) data) \<or>
      rq_request (snd (rdpewa_cbor_decode_request (an_lib an) (an_malloc an) data)) = None)"

fun tidy_action :: "action \<Rightarrow> bool" where
  "tidy_action (Receive an data) = tidy an data"
| "tidy_action _ = True"

definition held :: "channel \<Rightarrow> nat" where
  "held st = (case ch_worker st of Some (_, rq, True) \<Rightarrow> of_bool (rq_request rq \<noteq> None) | _ \<Rightarrow> 0)"

lemma buffers_worker_ends:
  "ch_buffers st = held st + k \<Longrightarrow> ch_buffers (worker_ends en st) = k"
  "held (worker_ends en st) = 0"
  by (auto simp: worker_ends_def held_def log_ev_def free_payload_def split: option.splits prod.splits bool.splits)

lemma held_simps [simp]:
  "held (log_ev es st) = held st" "held (free_payload rq st) = held st"
  "held (st\<lparr>ch_next := k\<rparr>) = held st" "held (st\<lparr>ch_next := k, ch_buffers := b\<rparr>) = held st"
  "held (st\<lparr>ch_open := o'\<rparr>) = held st"
  "held (cancel_and_join en st) = 0" "ch_worker st = None \<Longrightarrow> held st = 0"
  by (simp_all add: held_def cancel_and_join_simps)

lemma buffers_join: "ch_buffers st = held st + k \<Longrightarrow> ch_buffers (cancel_and_join en st) = k"
  using buffers_worker_ends(1) [of "log_ev [Cancel] st" k en]
  by (auto simp: cancel_and_join_def Let_def held_def split: option.splits)

lemma buffers_receive:
  assumes "ch_buffers st = held st" "tidy an data"
  shows "ch_buffers (fst (rdpewa_on_data_received an data st)) = held (fst (rdpewa_on_data_received an data st))"
proof -
  obtain ok rq where d: "rdpewa_cbor_decode_request (an_lib an) (an_malloc an) data = (ok, rq)" by fastforce
  let ?k = "of_bool (rq_request rq \<noteq> None)"
  have k: "rq_allocs rq = ?k" and fail: "\<not> ok \<Longrightarrow> rq_allocs rq = 0"
    using assms(2) d by (auto simp: tidy_def Let_def)
  let ?st1 = "log_ev [Accept (ch_next st)] (st\<lparr>ch_next := Suc (ch_next st), ch_buffers := ch_buffers st + rq_allocs rq\<rparr>)"
  have b1: "ch_buffers ?st1 = held ?st1 + ?k" using assms(1) k by simp
  have web: "ch_buffers (fst (receive_webauthn an n rq ?st1)) = held (fst (receive_webauthn an n rq ?st1))" for n
    using b1 buffers_join [OF b1]
    by (auto simp: receive_webauthn_def rdpewa_write_failure_def Let_def held_def cancel_and_join_simps)
  have mid: "ch_buffers (worker_ends en (log_ev [Cancel] ?st1)) = ?k" for en
    using buffers_worker_ends(1) [of "log_ev [Cancel] ?st1" ?k en] b1 by simp
  show ?thesis
    using assms(1) k fail web mid b1
    by (auto simp: rdpewa_on_data_received_def d Let_def buffers_worker_ends(2) split: bool.split option.split)
qed

lemma buffers_exec: "list_all tidy_action as \<Longrightarrow> ch_buffers st = held st \<Longrightarrow> ch_buffers (exec as st) = held (exec as st)"
proof (induction as arbitrary: st)
  case (Cons a as)
  have "ch_buffers (act a st) = held (act a st)"
    using Cons.prems buffers_receive buffers_worker_ends(1) [of st 0] buffers_worker_ends(2) buffers_join [of st 0]
    by (cases a) (auto simp: act_def rdpewa_on_close_def)
  with Cons show ?case by (simp add: exec_def)
qed (simp add: exec_def)

section \<open>A session to evaluate\<close>

text \<open>Two sign-in requests, the second superseding the first, and a close.\<close>

definition message_lib :: cbor_lib where
  "message_lib = \<lparr>cl_load = (\<lambda>_. (Some (CMap [(ckey ''command'', CUint INT_8 5),
       (ckey ''request'', CBytestring [9])]), CBOR_ERR_NONE)),
     cl_serialize = (\<lambda>_. [0xA0]), cl_get_bool = (\<lambda>_ c. c = 21)\<rparr>"

definition plain_env :: env where
  "plain_env = \<lparr>en_lib = message_lib, en_fido = plain_fido, en_cred = key_world undefined,
     en_assert = key_world good_assertion, en_fail = (\<lambda>_. True), en_fail_code = (\<lambda>_. True),
     en_disconnect = False\<rparr>"

definition plain_answers :: answers where
  "plain_answers = \<lparr>an_lib = message_lib, an_malloc = (\<lambda>_. True), an_calloc = True, an_thread = True,
     an_encode = (\<lambda>_. True), an_encode_code = (\<lambda>_. True), an_list = (\<lambda>_. True), an_authorized = None,
     an_write = 0, an_worker = plain_env, an_during = None\<rparr>"

definition plain_session :: "action list" where
  "plain_session = [Receive plain_answers [], Receive plain_answers [], CloseChannel plain_env]"

lemma plain_session_good [simp]: "list_all good_action plain_session"
  by (simp add: plain_session_def plain_answers_def plain_env_def good_answers_def worker_answers_def
      message_lib_def)

lemma plain_session_tidy [simp]: "list_all tidy_action plain_session"
  by (simp add: plain_session_def plain_answers_def tidy_def rdpewa_cbor_decode_request_def
      message_lib_def zero_request_def decode_entry_def ascii_inj rdpewa_cbor_get_uint32_def
      CBOR_ERR_NONE_def decode_fail_def Let_def)

lemma plain_decode:
  "rdpewa_cbor_decode_request message_lib (\<lambda>_. True) [] =
     (True, zero_request\<lparr>rq_command := 5, rq_request := Some [9], rq_requestLen := 1, rq_allocs := 1\<rparr>)"
  by (simp add: rdpewa_cbor_decode_request_def message_lib_def zero_request_def decode_entry_def
      ascii_inj rdpewa_cbor_get_uint32_def CBOR_ERR_NONE_def)

lemma plain_session_closed: "\<not> ch_open (exec plain_session rdpewa_on_open)"
  by (auto simp: exec_def plain_session_def act_def rdpewa_on_close_def)

lemma plain_session_accepts: "count_list (ch_log (exec plain_session rdpewa_on_open)) (Accept 1) = 1"
  by (simp add: exec_def plain_session_def act_def rdpewa_on_close_def rdpewa_on_open_def
      rdpewa_on_data_received_def plain_answers_def plain_decode receive_webauthn_def Let_def
      cancel_and_join_def worker_ends_def log_ev_def free_payload_def write_ev_def plain_env_def
      split: option.split)

section \<open>Properties\<close>

text \<open>
  C7. Every message the channel accepts is settled once: in every history it has one answer, or it was
  left unanswered, or its worker still runs, and never two of these; a closed channel has no worker
  left. A message is left unanswered only in an action in which the session is disconnecting, the reply's
  stream or list cannot be allocated, or an item serialises to nothing.
\<close>

theorem every_request_answered_once:
  "writes n (ch_log (exec as rdpewa_on_open)) + silent n (ch_log (exec as rdpewa_on_open)) +
       of_bool (running (exec as rdpewa_on_open) = Some n) =
     count_list (ch_log (exec as rdpewa_on_open)) (Accept n) \<and>
   count_list (ch_log (exec as rdpewa_on_open)) (Accept n) \<le> 1 \<and>
   (\<not> ch_open (exec as rdpewa_on_open) \<longrightarrow> running (exec as rdpewa_on_open) = None) \<and>
   (\<forall>bs a cs. as = bs @ a # cs \<longrightarrow>
      silent n (ch_log (exec (bs @ [a]) rdpewa_on_open)) \<noteq> silent n (ch_log (exec bs rdpewa_on_open)) \<longrightarrow>
      \<not> good_action a)"
proof -
  define st where "st = exec as rdpewa_on_open"
  have "answer_inv None n st"
    unfolding st_def by (rule answer_inv_exec [OF answer_inv_open])
  moreover have "\<not> ch_open st \<longrightarrow> ch_worker st = None"
    unfolding st_def by (rule closed_no_worker) (simp add: rdpewa_on_open_def)
  moreover have "good_action a \<Longrightarrow>
      silent n (ch_log (exec (bs @ [a]) rdpewa_on_open)) = silent n (ch_log (exec bs rdpewa_on_open))" for bs a
    using silent_act by (simp add: exec_def)
  ultimately show ?thesis
    unfolding st_def [symmetric] by (cases "n < ch_next st") (auto simp: answer_inv_def running_def)
qed

lemma every_request_answered_once_witness:
  "writes 1 (ch_log (exec plain_session rdpewa_on_open)) = 1"
proof -
  have "silent 1 (ch_log (exec plain_session rdpewa_on_open)) = 0"
    unfolding silent_exec [OF plain_session_good] by (simp add: rdpewa_on_open_def)
  then show ?thesis
    using every_request_answered_once [of 1 plain_session] plain_session_closed plain_session_accepts by force
qed

text \<open>
  C8. At most one worker runs, and none outlives its channel: in every history a worker starts only
  when the previous one has ended and was joined, and once the channel is closed there is none.
\<close>

theorem workers_disciplined:
  "monitor (ch_log (exec as rdpewa_on_open)) = Some (worker_state (exec as rdpewa_on_open)) \<and>
   (ch_open (exec as rdpewa_on_open) \<or> worker_state (exec as rdpewa_on_open) = None)"
proof
  have "monitor_inv rdpewa_on_open"
    by (simp add: monitor_inv_def monitor_def rdpewa_on_open_def worker_state_def)
  then show "monitor (ch_log (exec as rdpewa_on_open)) = Some (worker_state (exec as rdpewa_on_open))"
    using monitor_inv_exec by (simp add: monitor_inv_def)
  show "ch_open (exec as rdpewa_on_open) \<or> worker_state (exec as rdpewa_on_open) = None"
    using closed_no_worker [of rdpewa_on_open as] by (auto simp: worker_state_def rdpewa_on_open_def)
qed

text \<open>
  A payload buffer has one owner: while the channel is open the only buffer allocated is that of
  the running worker, and a closed channel has freed every one. (Messages with one payload.)
\<close>

lemma payloads_freed:
  assumes "list_all tidy_action as"
  defines "st \<equiv> exec as rdpewa_on_open"
  shows "ch_buffers st \<le> of_bool (running st \<noteq> None) \<and> (\<not> ch_open st \<longrightarrow> ch_buffers st = 0)"
proof -
  have "ch_buffers st = held st"
    unfolding st_def using assms(1) by (rule buffers_exec) (simp add: rdpewa_on_open_def held_def)
  moreover have "\<not> ch_open st \<longrightarrow> ch_worker st = None"
    unfolding st_def by (rule closed_no_worker) (simp add: rdpewa_on_open_def)
  ultimately show ?thesis
    by (auto simp: held_def running_def split: option.splits prod.splits bool.splits)
qed

lemma payloads_freed_witness: "ch_buffers (exec plain_session rdpewa_on_open) = 0"
  using payloads_freed [OF plain_session_tidy] plain_session_closed by simp

text \<open>
  A message that cannot be decoded is refused with \<open>ERROR_INVALID_DATA\<close> and changes nothing else; a
  command the channel does not know is answered with \<open>E_NOTIMPL\<close>, and the worker is left alone.
\<close>

lemma bad_messages:
  assumes "an_encode an SiteStream"
  shows "case rdpewa_cbor_decode_request (an_lib an) (an_malloc an) data of (ok, rq) \<Rightarrow>
    if \<not> ok then
      ch_worker (fst (rdpewa_on_data_received an data st)) = ch_worker st \<and>
      ch_log (fst (rdpewa_on_data_received an data st)) = ch_log st @ [Reject (ch_next st)] \<and>
      snd (rdpewa_on_data_received an data st) = ERROR_INVALID_DATA
    else rq_command rq \<notin> {5, 6, 7, 8, 9, 12} \<longrightarrow>
      ch_worker (fst (rdpewa_on_data_received an data st)) = ch_worker st \<and>
      ch_log (fst (rdpewa_on_data_received an data st)) =
        ch_log st @ [Accept (ch_next st), Write (ch_next st) (le32 0x80004001)] \<and>
      snd (rdpewa_on_data_received an data st) = an_write an"
  using assms
  by (auto simp: rdpewa_on_data_received_def direct_response_def Let_def E_NOTIMPL_def
      rdpewa_cbor_encode_hresult_response_def split: prod.splits)

lemma bad_messages_witness:
  "snd (rdpewa_on_data_received (plain_answers\<lparr>an_lib := one_item_lib (CArray [])\<rparr>) [1] rdpewa_on_open) = 13"
  using bad_messages [of "plain_answers\<lparr>an_lib := one_item_lib (CArray [])\<rparr>" "[1]" rdpewa_on_open]
  by (simp add: plain_answers_def rdpewa_cbor_decode_request_def one_item_lib_def CBOR_ERR_NONE_def
      decode_fail_def ERROR_INVALID_DATA_def)

end
