(* ===== verification/Queue_Laws.thy ===== *)
theory Queue_Laws
  imports Prelude "HOL-Library.Sublist"
begin

text \<open>
  The contracts the queues of the program offer their users, as locales. A queue has a content (the
  elements in the order they leave), an insertion and a removal; \<open>keep\<close> singles out the elements
  that must never be lost. The guarantees about any history of insertions and removals are proved
  here once; each queue is an interpretation in its own theory.
\<close>

datatype 'e qop = Enq 'e | Deq

primrec enqueued :: "'e qop list \<Rightarrow> 'e list" where
  "enqueued [] = []"
| "enqueued (x # ops) = (case x of Enq e \<Rightarrow> e # enqueued ops | Deq \<Rightarrow> enqueued ops)"

primrec qrun :: "('e \<Rightarrow> 'q \<Rightarrow> 'q) \<Rightarrow> ('q \<Rightarrow> ('e \<times> 'q) option) \<Rightarrow> 'e qop list \<Rightarrow> 'q \<Rightarrow> 'e list \<times> 'q" where
  "qrun enq deq [] q = ([], q)"
| "qrun enq deq (x # ops) q = (case x of
      Enq e \<Rightarrow> qrun enq deq ops (enq e q)
    | Deq \<Rightarrow> (case deq q of
          None \<Rightarrow> qrun enq deq ops q
        | Some (e, q') \<Rightarrow> (case qrun enq deq ops q' of (out, q'') \<Rightarrow> (e # out, q''))))"

locale lossless_queue =
  fixes inv :: "'q \<Rightarrow> bool"
    and content :: "'q \<Rightarrow> 'e list"
    and enq :: "'e \<Rightarrow> 'q \<Rightarrow> 'q"
    and deq :: "'q \<Rightarrow> ('e \<times> 'q) option"
    and keep :: "'e \<Rightarrow> bool"
  assumes enq_inv: "inv q \<Longrightarrow> inv (enq e q)"
    and enq_keep: "inv q \<Longrightarrow> filter keep (content (enq e q)) = filter keep (content q @ [e])"
    and enq_subseq: "inv q \<Longrightarrow> subseq (content (enq e q)) (content q @ [e])"
    and enq_last: "inv q \<Longrightarrow> content (enq e q) \<noteq> [] \<and> last (content (enq e q)) = e"
    and deq_inv: "inv q \<Longrightarrow> deq q = Some (e, q') \<Longrightarrow> inv q'"
    and deq_content: "inv q \<Longrightarrow> (case deq q of None \<Rightarrow> content q = [] | Some (e, q') \<Rightarrow> content q = e # content q')"
begin

lemma deq_Some: "inv q \<Longrightarrow> deq q = Some (e, q') \<Longrightarrow> content q = e # content q' \<and> inv q'"
  using deq_content [of q] deq_inv [of q e q'] by simp

lemma run_inv: "inv q \<Longrightarrow> qrun enq deq ops q = (out, q') \<Longrightarrow> inv q'"
proof (induction ops arbitrary: q out)
  case (Cons x ops)
  then show ?case by (cases x) (auto split: option.splits prod.splits, (blast intro: enq_inv deq_inv)+)
qed simp

text \<open>What leaves, followed by what is still inside, keeps every element that must be kept, in order.\<close>

lemma run_keep:
  "inv q \<Longrightarrow> qrun enq deq ops q = (out, q') \<Longrightarrow>
   filter keep (out @ content q') = filter keep (content q @ enqueued ops)"
proof (induction ops arbitrary: q out)
  case (Cons x ops)
  show ?case
  proof (cases x)
    case (Enq e)
    with Cons show ?thesis using Cons.IH [of "enq e q" out] by (simp add: enq_inv enq_keep)
  next
    case Deq
    with Cons show ?thesis
      by (auto split: option.splits prod.splits dest: deq_Some)
  qed
qed simp

text \<open>Nothing is invented or reordered: what comes out is a subsequence of what went in.\<close>

lemma run_subseq:
  "inv q \<Longrightarrow> qrun enq deq ops q = (out, q') \<Longrightarrow> subseq (out @ content q') (content q @ enqueued ops)"
proof (induction ops arbitrary: q out)
  case (Cons x ops)
  show ?case
  proof (cases x)
    case (Enq e)
    have "subseq (out @ content q') (content (enq e q) @ enqueued ops)"
      using Cons.IH [of "enq e q" out] Cons.prems Enq by (simp add: enq_inv)
    moreover have "subseq (content (enq e q) @ enqueued ops) ((content q @ [e]) @ enqueued ops)"
      using enq_subseq [OF Cons.prems(1)] by (intro list_emb_append_mono) auto
    ultimately show ?thesis using Enq subseq_order.order_trans by auto
  next
    case Deq
    with Cons show ?thesis
      by (auto split: option.splits prod.splits dest: deq_Some)
  qed
qed simp

end

text \<open>A queue that drops nothing.\<close>

locale fifo_queue =
  fixes inv :: "'q \<Rightarrow> bool"
    and content :: "'q \<Rightarrow> 'e list"
    and enq :: "'e \<Rightarrow> 'q \<Rightarrow> 'q"
    and deq :: "'q \<Rightarrow> ('e \<times> 'q) option"
  assumes enq_inv: "inv q \<Longrightarrow> inv (enq e q)"
    and enq_content: "inv q \<Longrightarrow> content (enq e q) = content q @ [e]"
    and deq_inv: "inv q \<Longrightarrow> deq q = Some (e, q') \<Longrightarrow> inv q'"
    and deq_content: "inv q \<Longrightarrow> (case deq q of None \<Rightarrow> content q = [] | Some (e, q') \<Rightarrow> content q = e # content q')"

sublocale fifo_queue \<subseteq> lossless: lossless_queue inv content enq deq "\<lambda>_. True"
  by unfold_locales (auto simp: enq_inv enq_content deq_inv deq_content)

context fifo_queue begin

lemma run_fifo:
  "inv q \<Longrightarrow> qrun enq deq ops q = (out, q') \<Longrightarrow> out @ content q' = content q @ enqueued ops"
  using lossless.run_keep [of q ops out q'] by simp

end

end
