(* ===== verification/Rdp_Input.thy ===== *)
theory Rdp_Input
  imports Queue_Laws
begin

text \<open>
  \<open>rdp/rdp_input_queue.h\<close>: the input path of an RDP session. \<open>RdpInputQueue\<close> holds what the user
  typed and did until the worker sends it, coalescing mouse moves; \<open>RdpFinalPointerQueue\<close> carries
  pointer events to the event-loop thread; \<open>RdpInputGeometryFence\<close> stops pointer events that were
  mapped for an older desktop size. Every operation runs under the object's mutex (or on one
  thread), so each is one function on the state. Counters of type \<open>size_t\<close> and \<open>uint64_t\<close> are
  64-bit words; coordinates and extents are C \<open>int\<close>s.
\<close>

section \<open>Events\<close>

datatype rdp_input_type = EvKey | EvPause | EvTextBatch | EvMouse | EvMouseWheel

record rdp_event =
  ev_type :: rdp_input_type
  ev_flags :: u16
  ev_code :: u16
  ev_x :: int
  ev_y :: int
  ev_isMouseMove :: bool
  ev_geometryEpoch :: u64
  ev_geometryWidth :: int
  ev_geometryHeight :: int
  ev_text :: "u16 list"

definition default_event :: rdp_event where
  "default_event = \<lparr>ev_type = EvKey, ev_flags = 0, ev_code = 0, ev_x = 0, ev_y = 0, ev_isMouseMove = False,
     ev_geometryEpoch = 0, ev_geometryWidth = 0, ev_geometryHeight = 0, ev_text = []\<rparr>"

definition event_Key :: "u16 \<Rightarrow> u16 \<Rightarrow> rdp_event" where
  "event_Key fl cd = default_event\<lparr>ev_type := EvKey, ev_flags := fl, ev_code := cd\<rparr>"

definition event_Pause :: rdp_event where
  "event_Pause = default_event\<lparr>ev_type := EvPause\<rparr>"

definition event_Text :: "u16 list \<Rightarrow> rdp_event" where
  "event_Text t = default_event\<lparr>ev_type := EvTextBatch, ev_text := t\<rparr>"

definition event_Mouse :: "u16 \<Rightarrow> u16 \<Rightarrow> int \<Rightarrow> int \<Rightarrow> bool \<Rightarrow> u64 \<Rightarrow> int \<Rightarrow> int \<Rightarrow> rdp_event" where
  "event_Mouse fl cd x y mv ep gw gh = default_event\<lparr>ev_type := EvMouse, ev_flags := fl, ev_code := cd,
     ev_x := x, ev_y := y, ev_isMouseMove := mv, ev_geometryEpoch := ep,
     ev_geometryWidth := gw, ev_geometryHeight := gh\<rparr>"

definition event_MouseWheel :: "u16 \<Rightarrow> u16 \<Rightarrow> int \<Rightarrow> int \<Rightarrow> u64 \<Rightarrow> int \<Rightarrow> int \<Rightarrow> rdp_event" where
  "event_MouseWheel fl cd x y ep gw gh = default_event\<lparr>ev_type := EvMouseWheel, ev_flags := fl, ev_code := cd,
     ev_x := x, ev_y := y, ev_geometryEpoch := ep, ev_geometryWidth := gw, ev_geometryHeight := gh\<rparr>"

text \<open>\<open>DispatchTextBatch\<close>: the (flags, code) pairs dispatched for a text, in order.\<close>

fun DispatchTextBatch :: "u16 list \<Rightarrow> u16 \<Rightarrow> (u16 \<times> u16) list" where
  "DispatchTextBatch [] releaseFlag = []"
| "DispatchTextBatch (u # us) releaseFlag = (0, u) # (releaseFlag, u) # DispatchTextBatch us releaseFlag"

section \<open>The queue to the event loop\<close>

type_synonym final_queue = "rdp_event list"

definition final_push :: "rdp_event \<Rightarrow> final_queue \<Rightarrow> final_queue" where
  "final_push e q = q @ [e]"

fun final_pop :: "final_queue \<Rightarrow> (rdp_event \<times> final_queue) option" where
  "final_pop [] = None"
| "final_pop (e # q) = Some (e, q)"

definition final_discardNewest :: "final_queue \<Rightarrow> bool \<times> final_queue" where
  "final_discardNewest q = (if q = [] then (False, q) else (True, butlast q))"

interpretation final: fifo_queue "\<lambda>_. True" "\<lambda>q. q" final_push final_pop
  by unfold_locales (auto simp: final_push_def split: option.split elim!: final_pop.elims)

section \<open>The worker's queue\<close>

datatype enqueue_result = Enqueued | ReplacedMouseMove | DroppedMouseMove

record input_queue =
  iq_reliable :: "rdp_event list"
  iq_pending :: "rdp_event option"
  iq_textUnitDepth :: u64
  iq_maxDepth :: nat
  iq_droppedMouseMoves :: u64
  iq_droppedNonDisposable :: u64
  iq_nonDisposableOverflow :: u64

definition new_input_queue :: input_queue where
  "new_input_queue = \<lparr>iq_reliable = [], iq_pending = None, iq_textUnitDepth = 0, iq_maxDepth = 0,
     iq_droppedMouseMoves = 0, iq_droppedNonDisposable = 0, iq_nonDisposableOverflow = 0\<rparr>"

definition kSoftMaxEvents :: nat where
  "kSoftMaxEvents = 256"

definition iq_depth :: "input_queue \<Rightarrow> nat" where
  "iq_depth q = length (iq_reliable q) + (if iq_pending q \<noteq> None then 1 else 0)"

definition updateMaxDepth :: "input_queue \<Rightarrow> input_queue" where
  "updateMaxDepth q = (if iq_depth q > iq_maxDepth q then q\<lparr>iq_maxDepth := iq_depth q\<rparr> else q)"

definition flushPendingMouseMove :: "input_queue \<Rightarrow> input_queue" where
  "flushPendingMouseMove q = (case iq_pending q of
     None \<Rightarrow> q
   | Some m \<Rightarrow> q\<lparr>iq_reliable := iq_reliable q @ [m], iq_pending := None\<rparr>)"

definition enqueueMouseMove :: "rdp_event \<Rightarrow> input_queue \<Rightarrow> enqueue_result \<times> input_queue" where
  "enqueueMouseMove e q =
     (if iq_pending q \<noteq> None
      then (ReplacedMouseMove, q\<lparr>iq_pending := Some e, iq_droppedMouseMoves := iq_droppedMouseMoves q + 1\<rparr>)
      else (Enqueued, updateMaxDepth (q\<lparr>iq_pending := Some e\<rparr>)))"

definition iq_enqueue :: "rdp_event \<Rightarrow> input_queue \<Rightarrow> enqueue_result \<times> input_queue" where
  "iq_enqueue e q =
     (if ev_isMouseMove e then enqueueMouseMove e q
      else let q1 = flushPendingMouseMove q;
               q2 = (if iq_depth q1 \<ge> kSoftMaxEvents
                     then q1\<lparr>iq_nonDisposableOverflow := iq_nonDisposableOverflow q1 + 1\<rparr> else q1);
               q3 = q2\<lparr>iq_textUnitDepth := iq_textUnitDepth q2 + of_nat (length (ev_text e)),
                       iq_reliable := iq_reliable q2 @ [e]\<rparr>
           in (Enqueued, updateMaxDepth q3))"

definition iq_pop :: "input_queue \<Rightarrow> (rdp_event \<times> input_queue) option" where
  "iq_pop q = (case iq_reliable q of
     e # rest \<Rightarrow> Some (e, q\<lparr>iq_reliable := rest,
        iq_textUnitDepth := iq_textUnitDepth q - of_nat (length (ev_text e))\<rparr>)
   | [] \<Rightarrow> (case iq_pending q of
       None \<Rightarrow> None
     | Some m \<Rightarrow> Some (m, q\<lparr>iq_pending := None\<rparr>)))"

definition iq_clear :: "input_queue \<Rightarrow> input_queue" where
  "iq_clear q = q\<lparr>iq_reliable := [], iq_pending := None, iq_textUnitDepth := 0\<rparr>"

definition iq_resetMetrics :: "input_queue \<Rightarrow> input_queue" where
  "iq_resetMetrics q = q\<lparr>iq_maxDepth := iq_depth q, iq_droppedMouseMoves := 0,
     iq_droppedNonDisposable := 0, iq_nonDisposableOverflow := 0\<rparr>"

section \<open>The geometry fence\<close>

record fence =
  fe_requiredEpoch :: u64
  fe_acknowledgedEpoch :: u64
  fe_droppedPointerEvents :: u64
  fe_requiredWidth :: int
  fe_requiredHeight :: int
  fe_acknowledgedWidth :: int
  fe_acknowledgedHeight :: int

definition fence_reset :: "u64 \<Rightarrow> int \<Rightarrow> int \<Rightarrow> fence" where
  "fence_reset ep w h = \<lparr>fe_requiredEpoch = ep, fe_acknowledgedEpoch = ep, fe_droppedPointerEvents = 0,
     fe_requiredWidth = w, fe_requiredHeight = h, fe_acknowledgedWidth = w, fe_acknowledgedHeight = h\<rparr>"

definition beginResize :: "u64 \<Rightarrow> int \<Rightarrow> int \<Rightarrow> fence \<Rightarrow> fence" where
  "beginResize ep w h f =
     (if ep > 0 \<and> w > 0 \<and> h > 0
      then f\<lparr>fe_requiredEpoch := ep, fe_requiredWidth := w, fe_requiredHeight := h\<rparr> else f)"

definition acknowledge :: "u64 \<Rightarrow> int \<Rightarrow> int \<Rightarrow> fence \<Rightarrow> bool \<times> fence" where
  "acknowledge ep w h f =
     (if ep \<noteq> fe_requiredEpoch f \<or> w \<noteq> fe_requiredWidth f \<or> h \<noteq> fe_requiredHeight f then (False, f)
      else (True, f\<lparr>fe_acknowledgedWidth := w, fe_acknowledgedHeight := h, fe_acknowledgedEpoch := ep\<rparr>))"

definition captureGeometry :: "fence \<Rightarrow> u64 \<times> int \<times> int" where
  "captureGeometry f = (fe_acknowledgedEpoch f, fe_acknowledgedWidth f, fe_acknowledgedHeight f)"

text \<open>The division is on non-negative \<open>int64_t\<close> values, where C truncates as \<open>div\<close> does.\<close>

definition remapCoordinate :: "int \<Rightarrow> int \<Rightarrow> int \<Rightarrow> int" where
  "remapCoordinate v sourceExtent targetExtent =
     (if sourceExtent \<le> 1 \<or> targetExtent \<le> 1 then 0
      else let clamped = max 0 (min v (sourceExtent - 1));
               numerator = clamped * (targetExtent - 1) + (sourceExtent - 1) div 2
           in numerator div (sourceExtent - 1))"

definition preparePointer ::
    "u64 \<Rightarrow> int \<Rightarrow> int \<Rightarrow> bool \<Rightarrow> int \<times> int \<Rightarrow> fence \<Rightarrow> bool \<times> (int \<times> int) \<times> fence" where
  "preparePointer eventEpoch sourceWidth sourceHeight buttonRelease xy f =
     (if fe_requiredEpoch f = fe_acknowledgedEpoch f \<and> eventEpoch = fe_requiredEpoch f then (True, xy, f)
      else if buttonRelease \<and> sourceWidth > 0 \<and> sourceHeight > 0 \<and>
              fe_requiredWidth f > 0 \<and> fe_requiredHeight f > 0
           then (True, (remapCoordinate (fst xy) sourceWidth (fe_requiredWidth f),
                        remapCoordinate (snd xy) sourceHeight (fe_requiredHeight f)), f)
           else (False, xy, f\<lparr>fe_droppedPointerEvents := fe_droppedPointerEvents f + 1\<rparr>))"

definition fence_ready :: "fence \<Rightarrow> bool" where
  "fence_ready f \<longleftrightarrow> fe_requiredEpoch f = fe_acknowledgedEpoch f"

section \<open>What the queue keeps\<close>

definition iq_content :: "input_queue \<Rightarrow> rdp_event list" where
  "iq_content q = iq_reliable q @ (case iq_pending q of None \<Rightarrow> [] | Some m \<Rightarrow> [m])"

definition is_barrier :: "rdp_event \<Rightarrow> bool" where
  "is_barrier e \<longleftrightarrow> \<not> ev_isMouseMove e"

definition iq_put :: "rdp_event \<Rightarrow> input_queue \<Rightarrow> input_queue" where
  "iq_put e q = snd (iq_enqueue e q)"

text \<open>No two moves stand next to each other, so a backlog of moves cannot build up.\<close>

fun coalesced :: "rdp_event list \<Rightarrow> bool" where
  "coalesced (a # b # es) \<longleftrightarrow> (is_barrier a \<or> is_barrier b) \<and> coalesced (b # es)"
| "coalesced _ \<longleftrightarrow> True"

definition text_units :: "rdp_event list \<Rightarrow> u64" where
  "text_units es = of_nat (sum_list (map (length \<circ> ev_text) es))"

definition iq_inv :: "input_queue \<Rightarrow> bool" where
  "iq_inv q \<longleftrightarrow> (\<forall>m. iq_pending q = Some m \<longrightarrow> \<not> is_barrier m) \<and> coalesced (iq_content q) \<and>
     (iq_reliable q \<noteq> [] \<longrightarrow> is_barrier (last (iq_reliable q))) \<and> iq_depth q \<le> iq_maxDepth q"

lemma iq_simps [simp]:
  "iq_content (updateMaxDepth q) = iq_content q" "iq_pending (updateMaxDepth q) = iq_pending q"
  "iq_reliable (updateMaxDepth q) = iq_reliable q" "iq_depth (updateMaxDepth q) = iq_depth q"
  "iq_textUnitDepth (updateMaxDepth q) = iq_textUnitDepth q"
  "iq_droppedMouseMoves (updateMaxDepth q) = iq_droppedMouseMoves q"
  "iq_maxDepth (updateMaxDepth q) = max (iq_maxDepth q) (iq_depth q)"
  by (auto simp: updateMaxDepth_def iq_content_def iq_depth_def)

lemma coalesced_snoc:
  "coalesced (es @ [e]) \<longleftrightarrow> coalesced es \<and> (es \<noteq> [] \<longrightarrow> is_barrier (last es) \<or> is_barrier e)"
  by (induction es rule: coalesced.induct) auto

lemma coalesced_Cons: "coalesced (e # es) \<Longrightarrow> coalesced es"
  by (cases es) auto

lemma iq_content_put:
  "iq_inv q \<Longrightarrow> iq_content (iq_put e q) =
     (if is_barrier e \<or> iq_pending q = None then iq_content q @ [e] else iq_reliable q @ [e])"
  by (auto simp: iq_put_def iq_enqueue_def enqueueMouseMove_def flushPendingMouseMove_def is_barrier_def
      iq_content_def Let_def updateMaxDepth_def split: option.split)

lemma iq_inv_put: "iq_inv q \<Longrightarrow> iq_inv (iq_put e q)"
proof (cases "is_barrier e")
  case True
  assume inv: "iq_inv q"
  have "iq_pending (iq_put e q) = None" "iq_reliable (iq_put e q) = iq_content q @ [e]"
      "iq_depth (iq_put e q) \<le> iq_maxDepth (iq_put e q)"
    using True by (auto simp: iq_put_def iq_enqueue_def is_barrier_def Let_def flushPendingMouseMove_def
        iq_content_def split: option.split)
  then show ?thesis
    using inv True iq_content_put [OF inv, of e] by (simp add: iq_inv_def coalesced_snoc)
next
  case False
  assume inv: "iq_inv q"
  have "iq_pending (iq_put e q) = Some e" "iq_reliable (iq_put e q) = iq_reliable q"
      "iq_depth (iq_put e q) \<le> iq_maxDepth (iq_put e q)"
    using False inv by (auto simp: iq_put_def iq_enqueue_def is_barrier_def enqueueMouseMove_def
        iq_inv_def iq_depth_def split: option.split)
  then show ?thesis
    using inv False by (auto simp: iq_inv_def coalesced_snoc iq_content_def split: option.splits)
qed

lemma iq_pop_cases:
  "iq_inv q \<Longrightarrow> case iq_pop q of None \<Rightarrow> iq_content q = []
     | Some (e, q') \<Rightarrow> iq_content q = e # iq_content q' \<and> iq_maxDepth q' = iq_maxDepth q \<and>
         iq_depth q = Suc (iq_depth q') \<and> iq_droppedMouseMoves q' = iq_droppedMouseMoves q"
  by (auto simp: iq_pop_def iq_content_def iq_depth_def split: list.splits option.splits)

lemma iq_inv_pop: "iq_inv q \<Longrightarrow> iq_pop q = Some (e, q') \<Longrightarrow> iq_inv q'"
  by (auto simp: iq_inv_def iq_pop_def iq_content_def iq_depth_def dest: coalesced_Cons
      split: list.splits option.splits if_splits)

interpretation input: lossless_queue iq_inv iq_content iq_put iq_pop is_barrier
proof
  fix q e
  assume inv: "iq_inv q"
  show "iq_inv (iq_put e q)" by (rule iq_inv_put [OF inv])
  have m: "filter is_barrier (iq_content q) = filter is_barrier (iq_reliable q)" if "iq_pending q \<noteq> None"
    using inv that by (auto simp: iq_inv_def iq_content_def)
  show "filter is_barrier (iq_content (iq_put e q)) = filter is_barrier (iq_content q @ [e])"
    using m by (simp add: iq_content_put [OF inv])
  show "subseq (iq_content (iq_put e q)) (iq_content q @ [e])"
  proof -
    have "subseq (iq_reliable q) (iq_content q)"
      unfolding iq_content_def by (rule list_emb_prefix) simp
    then have "subseq (iq_reliable q @ [e]) (iq_content q @ [e])"
      by (intro list_emb_append_mono) simp_all
    then show ?thesis by (simp add: iq_content_put [OF inv])
  qed
  show "iq_content (iq_put e q) \<noteq> [] \<and> last (iq_content (iq_put e q)) = e"
    by (simp add: iq_content_put [OF inv])
next
  fix q e q'
  assume "iq_inv q" "iq_pop q = Some (e, q')"
  then show "iq_inv q'" by (rule iq_inv_pop)
next
  fix q
  assume "iq_inv q"
  then show "case iq_pop q of None \<Rightarrow> iq_content q = [] | Some (e, q') \<Rightarrow> iq_content q = e # iq_content q'"
    using iq_pop_cases [of q] by (auto split: option.splits)
qed

lemma iq_inv_new [simp]: "iq_inv new_input_queue" "iq_content new_input_queue = []"
  by (simp_all add: iq_inv_def new_input_queue_def iq_content_def iq_depth_def)

lemma iq_depth_content: "iq_depth q = length (iq_content q)"
  by (auto simp: iq_depth_def iq_content_def split: option.split)

lemma coalesced_bound:
  "coalesced es \<Longrightarrow> length es \<le> 2 * length (filter is_barrier es) + of_bool (es \<noteq> [] \<and> \<not> is_barrier (hd es))"
  by (induction es rule: coalesced.induct) auto

text \<open>Every event put in is in the output, still inside, or counted as a dropped move.\<close>

lemma put_account:
  "iq_inv q \<Longrightarrow> of_nat (length (iq_content (iq_put e q))) + iq_droppedMouseMoves (iq_put e q) =
     of_nat (Suc (length (iq_content q))) + iq_droppedMouseMoves q"
  by (auto simp: iq_put_def iq_enqueue_def enqueueMouseMove_def flushPendingMouseMove_def is_barrier_def
      iq_content_def Let_def split: option.split)

lemma run_account:
  "iq_inv q \<Longrightarrow> qrun iq_put iq_pop ops q = (out, q') \<Longrightarrow>
   of_nat (length out) + of_nat (iq_depth q') + iq_droppedMouseMoves q' =
     (of_nat (length (enqueued ops)) + of_nat (iq_depth q) + iq_droppedMouseMoves q :: u64)"
proof (induction ops arbitrary: q out)
  case (Cons x ops)
  show ?case
  proof (cases x)
    case (Enq e)
    then show ?thesis
      using Cons.IH [of "iq_put e q" out] Cons.prems iq_inv_put [OF Cons.prems(1)] put_account [OF Cons.prems(1), of e]
      by (simp add: iq_depth_content algebra_simps)
  next
    case Deq
    show ?thesis
    proof (cases "iq_pop q")
      case None
      with Deq Cons show ?thesis by simp
    next
      case (Some p)
      obtain e q1 where p: "iq_pop q = Some (e, q1)" using Some by (cases p) simp
      obtain out1 where r: "qrun iq_put iq_pop ops q1 = (out1, q')" "out = e # out1"
        using Deq p Cons.prems(2) by (auto split: prod.splits)
      have "of_nat (length out1) + of_nat (iq_depth q') + iq_droppedMouseMoves q' =
          (of_nat (length (enqueued ops)) + of_nat (iq_depth q1) + iq_droppedMouseMoves q1 :: u64)"
        by (rule Cons.IH [OF iq_inv_pop [OF Cons.prems(1) p] r(1)])
      moreover have "iq_depth q = Suc (iq_depth q1)" "iq_droppedMouseMoves q1 = iq_droppedMouseMoves q"
        using iq_pop_cases [OF Cons.prems(1)] p by simp_all
      ultimately show ?thesis using Deq r by (simp add: algebra_simps)
    qed
  qed
qed simp

text \<open>The text depth counts the UTF-16 units of the batches inside; moves carry no text.\<close>

definition plain_move :: "rdp_event \<Rightarrow> bool" where
  "plain_move e \<longleftrightarrow> (ev_isMouseMove e \<longrightarrow> ev_text e = [])"

definition text_inv :: "input_queue \<Rightarrow> bool" where
  "text_inv q \<longleftrightarrow> iq_textUnitDepth q = text_units (iq_content q) \<and> list_all plain_move (iq_content q) \<and> iq_inv q"

lemma text_units_simps [simp]:
  "text_units [] = 0" "text_units (e # es) = of_nat (length (ev_text e)) + text_units es"
  "text_units (es @ fs) = text_units es + text_units fs"
  by (simp_all add: text_units_def)

lemma text_inv_put: "text_inv q \<Longrightarrow> plain_move e \<Longrightarrow> text_inv (iq_put e q)"
  by (auto simp: text_inv_def iq_inv_put iq_content_put)
     (auto simp: iq_put_def iq_enqueue_def enqueueMouseMove_def flushPendingMouseMove_def is_barrier_def
      iq_content_def plain_move_def iq_inv_def Let_def split: option.splits)

lemma text_inv_pop: "text_inv q \<Longrightarrow> iq_pop q = Some (e, q') \<Longrightarrow> text_inv q'"
proof -
  assume t: "text_inv q" and p: "iq_pop q = Some (e, q')"
  then have "iq_inv q'" by (auto simp: text_inv_def intro: iq_inv_pop)
  with t p show ?thesis
    by (auto simp: text_inv_def iq_pop_def iq_content_def plain_move_def iq_inv_def is_barrier_def
        split: list.splits option.splits)
qed

lemma text_inv_run:
  "text_inv q \<Longrightarrow> list_all plain_move (enqueued ops) \<Longrightarrow> qrun iq_put iq_pop ops q = (out, q') \<Longrightarrow> text_inv q'"
proof (induction ops arbitrary: q out)
  case (Cons x ops)
  then show ?case
    by (cases x) (auto split: option.splits prod.splits, (blast intro: text_inv_put text_inv_pop)+)
qed simp

section \<open>Coordinates\<close>

lemma int_div_less: "0 < d \<Longrightarrow> x < t * d \<Longrightarrow> x div d < (t :: int)"
proof (rule ccontr)
  assume d: "0 < d" and x: "x < t * d" and n: "\<not> x div d < t"
  then have "t * d \<le> x div d * d" by (intro mult_right_mono) auto
  also have "\<dots> \<le> x" using d by (simp add: minus_mod_eq_div_mult [symmetric])
  finally show False using x by simp
qed

lemma remap_bounds: "0 < targetExtent \<Longrightarrow> 0 \<le> remapCoordinate v s targetExtent \<and> remapCoordinate v s targetExtent < targetExtent"
proof (cases "s \<le> 1 \<or> targetExtent \<le> 1")
  case False
  define c where "c = max 0 (min v (s - 1))"
  have c: "0 \<le> c" "c \<le> s - 1" using False by (auto simp: c_def)
  have lo: "0 \<le> c * (targetExtent - 1) + (s - 1) div 2"
    using c False by (simp add: pos_imp_zdiv_nonneg_iff)
  have "c * (targetExtent - 1) \<le> (s - 1) * (targetExtent - 1)"
    using c False by (simp add: mult_right_mono)
  moreover have "(s - 1) div 2 < s - 1" using False by auto
  moreover have "(s - 1) * (targetExtent - 1) + (s - 1) = targetExtent * (s - 1)" by algebra
  ultimately have "c * (targetExtent - 1) + (s - 1) div 2 < targetExtent * (s - 1)" by linarith
  then have "(c * (targetExtent - 1) + (s - 1) div 2) div (s - 1) < targetExtent"
    using False by (intro int_div_less) auto
  then show ?thesis
    using False lo by (simp add: remapCoordinate_def c_def [symmetric] pos_imp_zdiv_nonneg_iff)
qed (auto simp: remapCoordinate_def)

lemma remap_mono: "v \<le> v' \<Longrightarrow> remapCoordinate v s t \<le> remapCoordinate v' s t"
  by (auto simp: remapCoordinate_def Let_def intro!: zdiv_mono1 mult_right_mono)

lemma remap_ends:
  assumes "1 < s" "1 < t"
  shows "remapCoordinate 0 s t = 0 \<and> remapCoordinate (s - 1) s t = t - 1"
proof -
  have z: "(s - 1) div 2 div (s - 1) = 0" using assms by (intro div_pos_pos_trivial) auto
  then have "((s - 1) div 2 + (t - 1) * (s - 1)) div (s - 1) = t - 1"
    using assms by (subst div_mult_self1) auto
  then have "((s - 1) * (t - 1) + (s - 1) div 2) div (s - 1) = t - 1" by (simp add: ac_simps)
  with z assms show ?thesis by (simp add: remapCoordinate_def Let_def)
qed

section \<open>Properties\<close>

text \<open>
  C9. Input is never lost or reordered: after any history of enqueues and pops, what was sent followed by
  what is still queued has every key, text, button and wheel event in the order it was enqueued,
  invents nothing, and the events missing from it are exactly the counted, replaced mouse moves.
\<close>

theorem input_queue_lossless:
  "case qrun iq_put iq_pop ops new_input_queue of (out, q) \<Rightarrow>
     filter is_barrier (out @ iq_content q) = filter is_barrier (enqueued ops) \<and>
     subseq (out @ iq_content q) (enqueued ops) \<and>
     (of_nat (length (enqueued ops)) :: u64) =
       of_nat (length out) + of_nat (iq_depth q) + iq_droppedMouseMoves q"
proof -
  obtain out q where r: "qrun iq_put iq_pop ops new_input_queue = (out, q)" by fastforce
  have "iq_droppedMouseMoves new_input_queue = 0" by (simp add: new_input_queue_def)
  then show ?thesis
    using input.run_keep [OF iq_inv_new(1) r] input.run_subseq [OF iq_inv_new(1) r]
      run_account [OF iq_inv_new(1) r]
    by (simp add: r iq_depth_content)
qed

text \<open>
  C10. A backlog of mouse moves cannot build up: at any time at most one move stands before, between and
  after the queued barriers, the recorded maximum is an upper bound of the depth, and the text depth
  is the number of UTF-16 units queued.
\<close>

theorem input_queue_bounded:
  assumes "list_all plain_move (enqueued ops)"
  shows "case qrun iq_put iq_pop ops new_input_queue of (out, q) \<Rightarrow>
    iq_depth q \<le> 2 * length (filter is_barrier (iq_content q)) + 1 \<and> iq_depth q \<le> iq_maxDepth q \<and>
    iq_textUnitDepth q = text_units (iq_content q)"
proof -
  obtain out q where r: "qrun iq_put iq_pop ops new_input_queue = (out, q)" by fastforce
  have "text_inv new_input_queue" by (simp add: text_inv_def) (simp add: new_input_queue_def)
  from text_inv_run [OF this assms r] have t: "text_inv q" .
  then have "coalesced (iq_content q)" by (simp add: text_inv_def iq_inv_def)
  from coalesced_bound [OF this] have "iq_depth q \<le> 2 * length (filter is_barrier (iq_content q)) + 1"
    by (simp add: iq_depth_content of_bool_def split: if_splits)
  with t show ?thesis by (simp add: r text_inv_def iq_inv_def)
qed

definition move_to :: "int \<Rightarrow> rdp_event" where
  "move_to x = event_Mouse 0x0800 0 x 0 True 1 800 600"

lemma input_queue_bounded_witness:
  "case qrun iq_put iq_pop [Enq (move_to 1), Enq (move_to 2), Enq (event_Text [104, 105]), Enq (move_to 3)]
      new_input_queue of (out, q) \<Rightarrow>
     iq_depth q \<le> 3 \<and> iq_textUnitDepth q = 2"
proof -
  let ?ops = "[Enq (move_to 1), Enq (move_to 2), Enq (event_Text [104, 105]), Enq (move_to 3)]"
  have p: "list_all plain_move (enqueued ?ops)"
    by (simp add: plain_move_def move_to_def event_Mouse_def event_Text_def default_event_def)
  show ?thesis
    using input_queue_bounded [OF p]
    by (simp add: iq_put_def iq_enqueue_def enqueueMouseMove_def new_input_queue_def updateMaxDepth_def
        iq_depth_def flushPendingMouseMove_def move_to_def event_Mouse_def event_Text_def default_event_def
        iq_content_def is_barrier_def Let_def kSoftMaxEvents_def)
qed

text \<open>
  The queue to the event loop delivers every pointer event once and in order: in any history, what was
  delivered followed by what is queued is what was pushed.
\<close>

lemma final_queue_fifo:
  "case qrun final_push final_pop ops [] of (out, q) \<Rightarrow> out @ q = enqueued ops"
  using final.run_fifo [of ops "[]"] by (simp split: prod.split)

text \<open>
  The geometry fence passes a pointer event only when no resize is pending and the event was mapped for
  the current desktop, unchanged, or when it releases a button, remapped into the required desktop;
  every other event is dropped and counted.
\<close>

lemma geometry_fence:
  "case preparePointer ep sw sh release_button (x, y) f of (ok, (x', y'), f') \<Rightarrow>
     (if fence_ready f \<and> ep = fe_requiredEpoch f then ok \<and> x' = x \<and> y' = y \<and> f' = f
      else if ok then release_button \<and> 0 \<le> x' \<and> x' < fe_requiredWidth f \<and> 0 \<le> y' \<and> y' < fe_requiredHeight f \<and> f' = f
      else x' = x \<and> y' = y \<and> f' = f\<lparr>fe_droppedPointerEvents := fe_droppedPointerEvents f + 1\<rparr> \<and>
        (\<not> release_button \<or> sw \<le> 0 \<or> sh \<le> 0 \<or> fe_requiredWidth f \<le> 0 \<or> fe_requiredHeight f \<le> 0))"
  by (auto simp: preparePointer_def fence_ready_def remap_bounds not_less)

lemma geometry_fence_witness:
  "case preparePointer 1 1920 1080 True (100, 50) (beginResize 2 1280 720 (fence_reset 1 1920 1080)) of
     (ok, (x, y), f) \<Rightarrow> ok \<and> 0 \<le> x \<and> x < 1280 \<and> 0 \<le> y \<and> y < 720 \<and> fe_droppedPointerEvents f = 0"
proof -
  let ?f = "beginResize 2 1280 720 (fence_reset 1 1920 1080)"
  have "\<not> fence_ready ?f" "fst (preparePointer 1 1920 1080 True (100, 50) ?f)"
    by (simp_all add: beginResize_def fence_reset_def fence_ready_def preparePointer_def)
  then show ?thesis
    using geometry_fence [where ep = 1 and sw = 1920 and sh = 1080 and release_button = True and x = 100 and y = 50 and f = ?f]
    by (auto simp: beginResize_def fence_reset_def split: prod.splits)
qed

text \<open>
  Remapping a coordinate keeps it inside the target, keeps the order of points, maps the edges to the
  edges, and does not overflow the 64-bit numerator for any pair of C \<open>int\<close> extents.
\<close>

lemma remap_coordinate:
  assumes "1 < s" "s < 2 ^ 31" "1 < t" "t < 2 ^ 31" "v \<le> v'"
  shows "0 \<le> remapCoordinate v s t \<and> remapCoordinate v s t \<le> remapCoordinate v' s t \<and>
    remapCoordinate v' s t < t \<and> remapCoordinate 0 s t = 0 \<and> remapCoordinate (s - 1) s t = t - 1 \<and>
    max 0 (min v (s - 1)) * (t - 1) + (s - 1) div 2 < 2 ^ 63"
proof -
  have "max 0 (min v (s - 1)) * (t - 1) \<le> (2 ^ 31 - 1) * (2 ^ 31 - 1)"
    using assms by (intro mult_mono) auto
  moreover have "(s - 1) div 2 < 2 ^ 31" using assms by auto
  ultimately have "max 0 (min v (s - 1)) * (t - 1) + (s - 1) div 2 < 2 ^ 63" by simp
  moreover have "0 < t" using assms by simp
  ultimately show ?thesis
    using remap_bounds [of t v s] remap_bounds [of t v' s] remap_mono [OF assms(5), of s t]
      remap_ends [OF assms(1) assms(3)] by blast
qed

lemma remap_coordinate_witness:
  "remapCoordinate 100 1920 1280 \<le> remapCoordinate 101 1920 1280 \<and> remapCoordinate 1919 1920 1280 = 1279"
  using remap_coordinate [of 1920 1280 100 101] by simp

end
