(* ===== verification/Rdp_Negotiation.thy ===== *)
theory Rdp_Negotiation
  imports Prelude
begin

text \<open>
  \<open>rdp/rdp_negotiation_parser.h\<close>: reading a server's X.224 Connection Confirm with its RDP security
  negotiation data. \<open>parseRdpNegotiationResponse\<close> classifies a complete or partial TPKT packet and
  \<open>RdpTpktAccumulator\<close> collects the fragments it arrives in. Byte vectors are lists, the tests are in
  the order of the code, and the error texts are kept.
\<close>

section \<open>The result\<close>

datatype parse_status = NeedMoreData | Complete | Invalid

datatype response_kind = KindInvalid | NoNegotiationData | NegotiationResponse | NegotiationFailure

record parse_result =
  pr_status :: parse_status
  pr_kind :: response_kind
  pr_tpktLength :: u16
  pr_li :: u8
  pr_flags :: u8
  pr_selectedProtocol :: u32
  pr_failureCode :: u32
  pr_error :: string

definition empty_result :: parse_result where
  "empty_result = \<lparr>pr_status = NeedMoreData, pr_kind = KindInvalid, pr_tpktLength = 0, pr_li = 0,
     pr_flags = 0, pr_selectedProtocol = 0, pr_failureCode = 0, pr_error = ''''\<rparr>"

definition readBigEndian16 :: "bytes \<Rightarrow> nat \<Rightarrow> u16" where
  "readBigEndian16 d i = push_bit 8 (ucast (d ! i)) OR ucast (d ! (i + 1))"

definition readLittleEndian16 :: "bytes \<Rightarrow> nat \<Rightarrow> u16" where
  "readLittleEndian16 d i = ucast (d ! i) OR push_bit 8 (ucast (d ! (i + 1)))"

definition readLittleEndian32 :: "bytes \<Rightarrow> nat \<Rightarrow> u32" where
  "readLittleEndian32 d i = ucast (d ! i) OR push_bit 8 (ucast (d ! (i + 1))) OR
     push_bit 16 (ucast (d ! (i + 2))) OR push_bit 24 (ucast (d ! (i + 3)))"

definition selectedProtocolName :: "u32 \<Rightarrow> string" where
  "selectedProtocolName p =
     (if p = 0 then ''RDP'' else if p = 1 then ''SSL'' else if p = 2 then ''HYBRID''
      else if p = 4 then ''RDSTLS'' else if p = 8 then ''HYBRID_EX''
      else if p = 16 then ''RDSAAD'' else ''UNKNOWN'')"

definition isTlsProtocol :: "u32 \<Rightarrow> bool" where
  "isTlsProtocol p \<longleftrightarrow> p = 1 \<or> p = 2 \<or> p = 4"

definition failureCodeName :: "u32 \<Rightarrow> string" where
  "failureCodeName c =
     (if c = 1 then ''SSL_REQUIRED_BY_SERVER'' else if c = 2 then ''SSL_NOT_ALLOWED_BY_SERVER''
      else if c = 3 then ''SSL_CERT_NOT_ON_SERVER'' else if c = 4 then ''INCONSISTENT_FLAGS''
      else if c = 5 then ''HYBRID_REQUIRED_BY_SERVER''
      else if c = 6 then ''SSL_WITH_USER_AUTH_REQUIRED_BY_SERVER'' else ''UNKNOWN'')"

definition invalidResult :: "string \<Rightarrow> parse_result" where
  "invalidResult e = empty_result\<lparr>pr_status := Invalid, pr_error := e\<rparr>"

section \<open>Parsing\<close>

text \<open>From line 145 on: the X.224 header and the negotiation PDU of a packet of the right length.\<close>

definition parse_confirm :: "bytes \<Rightarrow> parse_result \<Rightarrow> parse_result" where
  "parse_confirm d r0 =
     (if length d < 11 \<or> d ! 5 \<noteq> 0xD0
      then invalidResult ''RDP response is not an X.224 Connection Confirm''
      else let li = d ! 4; r1 = r0\<lparr>pr_li := li\<rparr> in
      if li < 6 \<or> unat li + 5 \<noteq> length d
      then invalidResult ''invalid X.224 Connection Confirm length''
      else if li = 6 then r1\<lparr>pr_status := Complete, pr_kind := NoNegotiationData\<rparr>
      else if li \<noteq> 14 \<or> length d \<noteq> 19
      then invalidResult ''unsupported RDP negotiation data length''
      else let ty = d ! 11 in
      if ty \<noteq> 2 \<and> ty \<noteq> 3 then invalidResult ''unsupported RDP negotiation PDU type''
      else let r2 = r1\<lparr>pr_flags := d ! 12\<rparr> in
      if readLittleEndian16 d 13 \<noteq> 8 then invalidResult ''RDP negotiation PDU length is not 8''
      else if ty = 2
      then r2\<lparr>pr_status := Complete, pr_kind := NegotiationResponse,
             pr_selectedProtocol := readLittleEndian32 d 15\<rparr>
      else if pr_flags r2 \<noteq> 0 then invalidResult ''RDP_NEG_FAILURE contains unsupported flags''
      else r2\<lparr>pr_status := Complete, pr_kind := NegotiationFailure,
             pr_failureCode := readLittleEndian32 d 15\<rparr>)"

definition parseRdpNegotiationResponse :: "bytes \<Rightarrow> parse_result" where
  "parseRdpNegotiationResponse d =
     (if length d < 4 then empty_result\<lparr>pr_error := ''TPKT header is incomplete''\<rparr>
      else if d ! 0 \<noteq> 3 \<or> d ! 1 \<noteq> 0 then invalidResult ''invalid TPKT version or reserved byte''
      else let tpktLength = readBigEndian16 d 2; r0 = empty_result\<lparr>pr_tpktLength := tpktLength\<rparr> in
      if tpktLength < 7 then invalidResult ''TPKT length is below the protocol minimum''
      else if length d < unat tpktLength then r0\<lparr>pr_error := ''TPKT payload is incomplete''\<rparr>
      else if length d \<noteq> unat tpktLength then invalidResult ''TPKT contains trailing bytes''
      else parse_confirm d r0)"

section \<open>Accumulating fragments\<close>

record accumulator =
  ac_bytes :: bytes
  ac_invalid :: bool
  ac_error :: string

definition new_accumulator :: accumulator where
  "new_accumulator = \<lparr>ac_bytes = [], ac_invalid = False, ac_error = ''''\<rparr>"

definition kMaxTpktLength :: nat where
  "kMaxTpktLength = 0xFFFF"

definition expectedLength :: "accumulator \<Rightarrow> nat" where
  "expectedLength a = (if length (ac_bytes a) < 4 then 0 else unat (readBigEndian16 (ac_bytes a) 2))"

text \<open>\<open>None\<close> is a null pointer with a size that is not 0.\<close>

definition acc_append :: "bytes option \<Rightarrow> accumulator \<Rightarrow> bool \<times> accumulator" where
  "acc_append chunk a = (case chunk of
     None \<Rightarrow> (False, a\<lparr>ac_invalid := True, ac_error := ''invalid TPKT input''\<rparr>)
   | Some d \<Rightarrow>
       if ac_invalid a then (False, a\<lparr>ac_invalid := True, ac_error := ''invalid TPKT input''\<rparr>)
       else if length d > kMaxTpktLength - length (ac_bytes a)
       then (False, a\<lparr>ac_invalid := True, ac_error := ''TPKT input exceeds maximum length''\<rparr>)
       else let a1 = a\<lparr>ac_bytes := ac_bytes a @ d\<rparr>; expected = expectedLength a1
            in if expected \<noteq> 0 \<and> length (ac_bytes a1) > expected
               then (False, a1\<lparr>ac_invalid := True, ac_error := ''TPKT input contains trailing bytes''\<rparr>)
               else (True, a1))"

definition acc_parse :: "accumulator \<Rightarrow> parse_result" where
  "acc_parse a = (if ac_invalid a then invalidResult (ac_error a)
     else parseRdpNegotiationResponse (ac_bytes a))"

definition acc_complete :: "accumulator \<Rightarrow> bool" where
  "acc_complete a \<longleftrightarrow> pr_status (acc_parse a) = Complete"

section \<open>The packets a server sends\<close>

text \<open>
  A Connection Confirm without and with negotiation data; \<open>refs\<close> is the destination and source
  reference and the class option, which the client does not look at.
\<close>

definition be16 :: "u16 \<Rightarrow> bytes" where
  "be16 w = [ucast (drop_bit 8 w), ucast w]"

definition plain_confirm :: "bytes \<Rightarrow> bytes" where
  "plain_confirm refs = [3, 0, 0, 11, 6, 0xD0] @ refs"

definition nego_confirm :: "bytes \<Rightarrow> u8 \<Rightarrow> u8 \<Rightarrow> u32 \<Rightarrow> bytes" where
  "nego_confirm refs ty fl v = [3, 0, 0, 19, 14, 0xD0] @ refs @ [ty, fl, 8, 0] @ le32 v"

lemma readLE32_read: "i + 4 \<le> length d \<Longrightarrow> readLittleEndian32 d i = read_le32 (drop i d)"
  by (simp add: readLittleEndian32_def read_le32_def)

lemma le32_read_le32: "length d = 4 \<Longrightarrow> le32 (read_le32 d) = d"
proof -
  assume "length d = 4"
  then obtain a b c e where d: "d = [a, b, c, e]"
    by (auto simp: length_Suc_conv numeral_eq_Suc)
  show ?thesis
    unfolding d le32_def read_le32_def
    by (simp add: bit_eq_iff bit_simps) (auto dest: bit_imp_le_length)
qed

lemma be16_read:
  "be16 (push_bit 8 (ucast (hi :: u8)) OR ucast (lo :: u8)) = [hi, lo]"
  unfolding be16_def by (simp add: bit_eq_iff bit_simps) (auto dest: bit_imp_le_length)

lemma be16_inj:
  assumes "push_bit 8 (ucast (hi :: u8)) OR ucast (lo :: u8) = (w :: u16)"
  shows "hi = ucast (drop_bit 8 w) \<and> lo = ucast w"
  using be16_read [of hi lo] assms by (simp add: be16_def)

lemma le16_inj:
  assumes "ucast (lo :: u8) OR push_bit 8 (ucast (hi :: u8)) = (w :: u16)"
  shows "hi = ucast (drop_bit 8 w) \<and> lo = ucast w"
  using be16_inj [of hi lo w] assms by (simp add: or.commute)

lemma unat_u16_eq: "unat (w :: u16) = n \<Longrightarrow> w = of_nat n"
  by (metis of_nat_unat ucast_id)

text \<open>What a packet accepted as complete looks like.\<close>

lemma confirm_form:
  assumes "pr_status (parseRdpNegotiationResponse d) = Complete"
  shows "\<exists>refs. length refs = 5 \<and> (d = plain_confirm refs \<or>
    (\<exists>fl v. d = nego_confirm refs 2 fl v) \<or> (\<exists>v. d = nego_confirm refs 3 0 v))"
proof -
  define t where "t = readBigEndian16 d 2"
  have head: "\<not> length d < 4" "d ! 0 = 3" "d ! 1 = 0" "unat t = length d"
    and conf: "pr_status (parse_confirm d (empty_result\<lparr>pr_tpktLength := t\<rparr>)) = Complete"
    using assms by (auto simp: parseRdpNegotiationResponse_def invalidResult_def empty_result_def t_def Let_def
        split: if_splits)
  have five: "d ! 5 = 0xD0" and len: "length d = unat (d ! 4) + 5" and li: "d ! 4 = 6 \<or> d ! 4 = 14"
    using conf by (auto simp: parse_confirm_def invalidResult_def empty_result_def Let_def split: if_splits)
  show ?thesis
  proof (cases "d ! 4 = 6")
    case True
    then have l: "length d = 11" using len by simp
    then have "t = 11" using head(4) by (metis unat_u16_eq of_nat_numeral)
    then have "d ! 2 = 0" "d ! 3 = 11" using be16_inj [of "d ! 2" "d ! 3" 11] by (simp_all add: t_def readBigEndian16_def)
    moreover have "d = [d ! 0, d ! 1, d ! 2, d ! 3, d ! 4, d ! 5] @ drop 6 d"
      using l by (auto simp: list_eq_iff_nth_eq nth_append nth_Cons' less_Suc_eq numeral_eq_Suc)
    ultimately have "d = plain_confirm (drop 6 d)"
      using head five True by (simp add: plain_confirm_def)
    with l show ?thesis by (intro exI [of _ "drop 6 d"]) simp
  next
    case False
    then have l: "length d = 19" and li14: "d ! 4 = 14" using len li by auto
    then have "t = 19" using head(4) by (metis unat_u16_eq of_nat_numeral)
    then have b23: "d ! 2 = 0" "d ! 3 = 19"
      using be16_inj [of "d ! 2" "d ! 3" 19] by (simp_all add: t_def readBigEndian16_def)
    have "readLittleEndian16 d 13 = 8" and ty: "d ! 11 = 2 \<or> d ! 11 = 3 \<and> d ! 12 = 0"
      using conf l li14 five by (auto simp: parse_confirm_def invalidResult_def empty_result_def Let_def split: if_splits)
    then have b13: "d ! 13 = 8" "d ! 14 = 0"
      using le16_inj [of "d ! 13" "d ! 14" 8] by (simp_all add: readLittleEndian16_def)
    have "d = [d ! 0, d ! 1, d ! 2, d ! 3, d ! 4, d ! 5] @ take 5 (drop 6 d) @ [d ! 11, d ! 12, d ! 13, d ! 14] @ drop 15 d"
      using l by (auto simp: list_eq_iff_nth_eq nth_append nth_Cons' less_Suc_eq numeral_eq_Suc)
    moreover have "le32 (read_le32 (drop 15 d)) = drop 15 d" using l by (intro le32_read_le32) simp
    ultimately have "d = nego_confirm (take 5 (drop 6 d)) (d ! 11) (d ! 12) (read_le32 (drop 15 d))"
      using head five li14 b23 b13 by (simp add: nego_confirm_def)
    with ty l show ?thesis by (intro exI [of _ "take 5 (drop 6 d)"]) auto
  qed
qed

lemma five_bytes: "length refs = 5 \<Longrightarrow> \<exists>a b c d e. refs = [a, b, c, d, e]"
  by (auto simp: length_Suc_conv numeral_eq_Suc)

lemma parse_plain:
  "length refs = 5 \<Longrightarrow> parseRdpNegotiationResponse (plain_confirm refs) =
     empty_result\<lparr>pr_status := Complete, pr_kind := NoNegotiationData, pr_tpktLength := 11, pr_li := 6\<rparr>"
  by (auto dest!: five_bytes simp: parseRdpNegotiationResponse_def plain_confirm_def readBigEndian16_def
      parse_confirm_def empty_result_def)

lemma parse_nego:
  assumes "length refs = 5" and "ty = 2 \<or> ty = 3 \<and> fl = 0"
  shows "parseRdpNegotiationResponse (nego_confirm refs ty fl v) =
     empty_result\<lparr>pr_status := Complete, pr_tpktLength := 19, pr_li := 14, pr_flags := fl,
       pr_kind := (if ty = 2 then NegotiationResponse else NegotiationFailure),
       pr_selectedProtocol := (if ty = 2 then v else 0), pr_failureCode := (if ty = 2 then 0 else v)\<rparr>"
proof -
  obtain a b c d e where r: "refs = [a, b, c, d, e]" using five_bytes [OF assms(1)] by blast
  have v: "readLittleEndian32 (nego_confirm refs ty fl v) 15 = v"
    using read_le32_le32 [of v "[]"] by (simp add: readLE32_read nego_confirm_def r)
  have "readLittleEndian16 (nego_confirm refs ty fl v) 13 = 8"
    by (simp add: readLittleEndian16_def nego_confirm_def r)
  moreover have "length (nego_confirm refs ty fl v) = 19" by (simp add: nego_confirm_def r)
  moreover have "readBigEndian16 (nego_confirm refs ty fl v) 2 = 19"
    by (simp add: readBigEndian16_def nego_confirm_def)
  moreover have "nego_confirm refs ty fl v ! 0 = 3" "nego_confirm refs ty fl v ! 1 = 0"
      "nego_confirm refs ty fl v ! 4 = 14" "nego_confirm refs ty fl v ! 5 = 0xD0"
      "nego_confirm refs ty fl v ! 11 = ty" "nego_confirm refs ty fl v ! 12 = fl"
    by (simp_all add: nego_confirm_def r)
  ultimately show ?thesis
    using assms(2) v by (auto simp: parseRdpNegotiationResponse_def parse_confirm_def empty_result_def Let_def)
qed

section \<open>Fragments\<close>

definition feed :: "bytes list \<Rightarrow> accumulator" where
  "feed chunks = fold (\<lambda>c a. snd (acc_append (Some c) a)) chunks new_accumulator"

lemma feed_snoc: "feed (cs @ [c]) = snd (acc_append (Some c) (feed cs))"
  by (simp add: feed_def)

text \<open>A prefix of an accepted packet is neither accepted nor rejected, and announces its length.\<close>

lemma complete_head:
  assumes "pr_status (parseRdpNegotiationResponse m) = Complete"
  shows "4 \<le> length m \<and> m ! 0 = 3 \<and> m ! 1 = 0 \<and> unat (readBigEndian16 m 2) = length m \<and>
    \<not> readBigEndian16 m 2 < 7"
  using assms
  by (auto simp: parseRdpNegotiationResponse_def invalidResult_def empty_result_def Let_def split: if_splits)

lemma prefix_needs_more:
  assumes "pr_status (parseRdpNegotiationResponse (p @ r)) = Complete" "r \<noteq> []"
  shows "pr_status (parseRdpNegotiationResponse p) = NeedMoreData"
proof (cases "length p < 4")
  case True
  then show ?thesis by (simp add: parseRdpNegotiationResponse_def empty_result_def)
next
  case False
  then have nonempty: "p \<noteq> []" by auto
  with False have "p ! 0 = 3" "p ! 1 = 0" "readBigEndian16 p 2 = readBigEndian16 (p @ r) 2"
    using complete_head [OF assms(1)] nonempty by (auto simp: nth_append readBigEndian16_def)
  then show ?thesis
    using False complete_head [OF assms(1)] assms(2)
    by (simp add: parseRdpNegotiationResponse_def empty_result_def Let_def)
qed

lemma feed_prefix:
  assumes "pr_status (parseRdpNegotiationResponse (concat (cs @ ds))) = Complete"
  shows "feed cs = new_accumulator\<lparr>ac_bytes := concat cs\<rparr>"
  using assms
proof (induction cs arbitrary: ds rule: rev_induct)
  case (snoc c cs)
  let ?m = "concat cs @ c @ concat ds"
  have m: "pr_status (parseRdpNegotiationResponse ?m) = Complete" using snoc.prems by simp
  have f: "feed cs = new_accumulator\<lparr>ac_bytes := concat cs\<rparr>"
    using snoc.IH [of "c # ds"] m by simp
  have lt: "length ?m \<le> 0xFFFF"
  proof -
    have "unat (readBigEndian16 ?m 2) < 2 ^ LENGTH(16)" by (rule unsigned_less)
    then show ?thesis using complete_head [OF m] by simp
  qed
  have "expectedLength (new_accumulator\<lparr>ac_bytes := concat cs @ c\<rparr>) = 0 \<or>
      length (concat cs @ c) \<le> expectedLength (new_accumulator\<lparr>ac_bytes := concat cs @ c\<rparr>)"
  proof (cases "length (concat cs @ c) < 4")
    case False
    then have "readBigEndian16 (concat cs @ c) 2 = readBigEndian16 ?m 2"
      by (auto simp: readBigEndian16_def nth_append)
    then show ?thesis using False complete_head [OF m] by (simp add: expectedLength_def)
  qed (simp add: expectedLength_def)
  then show ?case
    using f lt by (auto simp: feed_snoc acc_append_def new_accumulator_def kMaxTpktLength_def Let_def)
qed (simp add: feed_def new_accumulator_def)

section \<open>Properties\<close>

text \<open>
  C11. The parser accepts exactly the Connection Confirms of the protocol: a packet is complete if and only if
  it is a confirm without negotiation data, with a negotiation response, or with a failure without
  flags, and for those the result has the packet's flags, protocol or failure code.
\<close>

theorem negotiation_parse_exact:
  "(pr_status (parseRdpNegotiationResponse d) = Complete \<longleftrightarrow>
     (\<exists>refs. length refs = 5 \<and> (d = plain_confirm refs \<or> (\<exists>fl v. d = nego_confirm refs 2 fl v) \<or>
        (\<exists>v. d = nego_confirm refs 3 0 v)))) \<and>
   (\<forall>refs fl v. length refs = 5 \<longrightarrow>
      pr_kind (parseRdpNegotiationResponse (plain_confirm refs)) = NoNegotiationData \<and>
      (let r = parseRdpNegotiationResponse (nego_confirm refs 2 fl v) in
         pr_kind r = NegotiationResponse \<and> pr_flags r = fl \<and> pr_selectedProtocol r = v) \<and>
      (let r = parseRdpNegotiationResponse (nego_confirm refs 3 0 v) in
         pr_kind r = NegotiationFailure \<and> pr_failureCode r = v))"
proof -
  have "pr_status (parseRdpNegotiationResponse d) = Complete"
    if "length refs = 5" "d = plain_confirm refs \<or> (\<exists>fl v. d = nego_confirm refs 2 fl v) \<or>
        (\<exists>v. d = nego_confirm refs 3 0 v)" for refs
    using that by (auto simp: parse_plain parse_nego)
  then show ?thesis
    using confirm_form [of d] by (auto simp: parse_plain parse_nego Let_def)
qed

lemma negotiation_parse_exact_witness:
  "pr_selectedProtocol (parseRdpNegotiationResponse (nego_confirm [0, 0, 0, 0, 0] 2 0 2)) = 2"
proof -
  have "length [0, 0, 0, 0, 0 :: u8] = 5" by simp
  then show ?thesis using negotiation_parse_exact [THEN conjunct2] by (simp add: Let_def)
qed

text \<open>
  C12. Fragmentation does not matter: when an acceptable packet arrives in any fragments, no fragment is
  refused, the accumulator asks for more data until the last byte is in, and then its result is that
  of the whole packet.
\<close>

theorem negotiation_fragmentation:
  assumes "pr_status (parseRdpNegotiationResponse (concat (cs @ ds))) = Complete"
  shows "\<not> ac_invalid (feed cs) \<and> ac_bytes (feed cs) = concat cs \<and>
    (if concat ds = [] then acc_parse (feed cs) = parseRdpNegotiationResponse (concat (cs @ ds))
     else pr_status (acc_parse (feed cs)) = NeedMoreData)"
  using feed_prefix [OF assms] prefix_needs_more [of "concat cs" "concat ds"] assms
  by (auto simp: new_accumulator_def acc_parse_def simp del: concat_eq_Nil_conv)

lemma negotiation_fragmentation_witness:
  "pr_status (acc_parse (feed [[3, 0, 0], [19, 14, 0xD0, 0]])) = NeedMoreData"
proof -
  have c: "pr_status (parseRdpNegotiationResponse (concat ([[3, 0, 0], [19, 14, 0xD0, 0]] @
      [[0, 0, 0, 0, 2, 0, 8, 0, 1], [0, 0, 0]]))) = Complete"
    by (simp add: parseRdpNegotiationResponse_def readBigEndian16_def parse_confirm_def empty_result_def
        readLittleEndian16_def)
  show ?thesis using negotiation_fragmentation [OF c] by simp
qed

end
