(* ===== verification/Rustdesk_Continuity.thy ===== *)
theory Rustdesk_Continuity
  imports Prelude
begin

text \<open>
  \<open>rustdesk/rustdesk_connection_continuity_owner.h\<close>: the policy that decides, after a RustDesk
  session loses its transport, when a reconnection is attempted. Every method runs under the
  owner's mutex and is one function on its fields; times are \<open>uint64_t\<close> milliseconds and wrap.
\<close>

section \<open>Classes, events and actions\<close>

datatype continuity_state =
  Idle | Connected | TransportLost | RetryPending | ReauthRequired | Terminal

datatype error_class =
    ErrNone | ErrReset | ErrAborted | ErrTimeout | ErrBrokenPipe | ErrNetworkDown | ErrUnreachable
  | ErrAuth | ErrTwoFactor | ErrApproval | ErrLicense | ErrKey | ErrProtocol | ErrCrypto
  | ErrUserDisconnected | ErrUnknown

definition error_class_from_string :: "string \<Rightarrow> error_class" where
  "error_class_from_string v =
     (if v = ''reset'' then ErrReset
      else if v = ''aborted'' then ErrAborted
      else if v = ''timeout'' \<or> v = ''timedout'' then ErrTimeout
      else if v = ''brokenpipe'' \<or> v = ''broken_pipe'' then ErrBrokenPipe
      else if v = ''networkdown'' \<or> v = ''network_down'' then ErrNetworkDown
      else if v = ''unreachable'' \<or> v = ''networkunreachable'' then ErrUnreachable
      else if v = ''auth'' \<or> v = ''authentication'' then ErrAuth
      else if v = ''2fa'' \<or> v = ''two_factor'' then ErrTwoFactor
      else if v = ''approval'' then ErrApproval
      else if v = ''license'' then ErrLicense
      else if v = ''key'' then ErrKey
      else if v = ''protocol'' then ErrProtocol
      else if v = ''crypto'' then ErrCrypto
      else if v = ''user_disconnected'' \<or> v = ''user'' then ErrUserDisconnected
      else if v = '''' \<or> v = ''none'' \<or> v = ''normal'' then ErrNone
      else ErrUnknown)"

fun error_class_name :: "error_class \<Rightarrow> string" where
  "error_class_name ErrNone = ''none''"
| "error_class_name ErrReset = ''reset''"
| "error_class_name ErrAborted = ''aborted''"
| "error_class_name ErrTimeout = ''timeout''"
| "error_class_name ErrBrokenPipe = ''brokenpipe''"
| "error_class_name ErrNetworkDown = ''networkdown''"
| "error_class_name ErrUnreachable = ''unreachable''"
| "error_class_name ErrAuth = ''auth''"
| "error_class_name ErrTwoFactor = ''2fa''"
| "error_class_name ErrApproval = ''approval''"
| "error_class_name ErrLicense = ''license''"
| "error_class_name ErrKey = ''key''"
| "error_class_name ErrProtocol = ''protocol''"
| "error_class_name ErrCrypto = ''crypto''"
| "error_class_name ErrUserDisconnected = ''user_disconnected''"
| "error_class_name ErrUnknown = ''unknown''"

record transport_event =
  te_error :: bool
  te_class :: error_class
  te_networkGeneration :: u64
  te_userInitiated :: bool
  te_networkAvailable :: bool
  te_monotonicMs :: u64

record continuity_action =
  ca_visibleTransportLost :: bool
  ca_fastQuiesce :: bool
  ca_cancelAttempt :: bool
  ca_startAttempt :: bool
  ca_terminal :: bool
  ca_attempt :: u32
  ca_delayMs :: u64

definition no_action :: continuity_action where
  "no_action = \<lparr>ca_visibleTransportLost = False, ca_fastQuiesce = False, ca_cancelAttempt = False,
     ca_startAttempt = False, ca_terminal = False, ca_attempt = 0, ca_delayMs = 0\<rparr>"

definition IsRetryable :: "error_class \<Rightarrow> bool" where
  "IsRetryable c \<longleftrightarrow> c \<in> {ErrReset, ErrAborted, ErrTimeout, ErrBrokenPipe, ErrNetworkDown, ErrUnreachable}"

section \<open>The owner\<close>

record owner =
  ow_sessionId :: u64
  ow_sessionGeneration :: u64
  ow_networkGeneration :: u64
  ow_windowStartedMs :: u64
  ow_nextRetryMs :: u64
  ow_state :: continuity_state
  ow_attempts :: u32
  ow_networkAvailable :: bool
  ow_cancelled :: bool
  ow_retryScheduled :: bool
  ow_attemptInFlight :: bool
  ow_fastQuiesced :: bool

definition kMaxAttemptsPerWindow :: u32 where "kMaxAttemptsPerWindow = 5"
definition kAttemptWindowMs :: u64 where "kAttemptWindowMs = 60000"

definition new_owner :: owner where
  "new_owner = \<lparr>ow_sessionId = 0, ow_sessionGeneration = 0, ow_networkGeneration = 0, ow_windowStartedMs = 0,
     ow_nextRetryMs = 0, ow_state = Idle, ow_attempts = 0, ow_networkAvailable = True, ow_cancelled = False,
     ow_retryScheduled = False, ow_attemptInFlight = False, ow_fastQuiesced = False\<rparr>"

definition ow_begin :: "u64 \<Rightarrow> u64 \<Rightarrow> u64 \<Rightarrow> owner \<Rightarrow> owner" where
  "ow_begin sessionId sessionGeneration nowMs o' = \<lparr>ow_sessionId = sessionId,
     ow_sessionGeneration = sessionGeneration, ow_networkGeneration = 0, ow_windowStartedMs = nowMs,
     ow_nextRetryMs = 0, ow_state = Connected, ow_attempts = 0, ow_networkAvailable = True,
     ow_cancelled = False, ow_retryScheduled = False, ow_attemptInFlight = False, ow_fastQuiesced = False\<rparr>"

text \<open>The retry window: it starts again when a minute has passed.\<close>

definition window_elapsed :: "u64 \<Rightarrow> owner \<Rightarrow> bool" where
  "window_elapsed nowMs o' \<longleftrightarrow> nowMs - ow_windowStartedMs o' \<ge> kAttemptWindowMs"

definition roll_window :: "u64 \<Rightarrow> owner \<Rightarrow> owner" where
  "roll_window nowMs o' =
     (if window_elapsed nowMs o' then o'\<lparr>ow_windowStartedMs := nowMs, ow_attempts := 0\<rparr> else o')"

definition scheduleFirstAttempt ::
    "u64 \<Rightarrow> continuity_action \<Rightarrow> owner \<Rightarrow> continuity_action \<times> owner" where
  "scheduleFirstAttempt nowMs action o' =
     (if ow_cancelled o' \<or> \<not> ow_networkAvailable o' \<or> ow_retryScheduled o' \<or> ow_attemptInFlight o'
      then (action, o')
      else let o1 = roll_window nowMs o'
           in if ow_attempts o1 \<ge> kMaxAttemptsPerWindow then (action, o1)
              else let o2 = o1\<lparr>ow_attempts := ow_attempts o1 + 1, ow_attemptInFlight := True,
                              ow_state := RetryPending\<rparr>
                   in (action\<lparr>ca_startAttempt := True, ca_attempt := ow_attempts o2\<rparr>, o2))"

text \<open>Lines 155--162 and 164--190 of \<open>onTransportEvent\<close>, after the generation and network updates.\<close>

definition transport_restored :: "owner \<Rightarrow> continuity_action \<times> owner" where
  "transport_restored o' = (no_action, o'\<lparr>ow_state := Connected, ow_retryScheduled := False,
     ow_attemptInFlight := False, ow_nextRetryMs := 0, ow_fastQuiesced := False\<rparr>)"

definition lost_action :: continuity_action where
  "lost_action = no_action\<lparr>ca_visibleTransportLost := True, ca_fastQuiesce := True\<rparr>"

definition transport_failed :: "transport_event \<Rightarrow> owner \<Rightarrow> continuity_action \<times> owner" where
  "transport_failed e o' =
     (let o3 = o'\<lparr>ow_fastQuiesced := True\<rparr>;
          retryable = (\<not> te_userInitiated e \<and> IsRetryable (te_class e))
      in if \<not> retryable
         then (lost_action\<lparr>ca_terminal := True\<rparr>,
               o3\<lparr>ow_state := (if te_class e = ErrAuth \<or> te_class e = ErrTwoFactor \<or>
                                 te_class e = ErrApproval then ReauthRequired else Terminal),
                  ow_cancelled := True, ow_retryScheduled := False, ow_attemptInFlight := False\<rparr>)
         else let o4 = o3\<lparr>ow_state := TransportLost, ow_attemptInFlight := False\<rparr>
              in if ow_networkAvailable o4
                 then scheduleFirstAttempt (te_monotonicMs e) lost_action o4
                 else (lost_action, o4))"

definition with_network :: "u64 \<Rightarrow> bool \<Rightarrow> owner \<Rightarrow> owner" where
  "with_network generation available o' =
     (if generation \<noteq> 0 then o'\<lparr>ow_networkGeneration := generation\<rparr> else o')\<lparr>ow_networkAvailable := available\<rparr>"

definition onTransportEvent :: "transport_event \<Rightarrow> owner \<Rightarrow> continuity_action \<times> owner" where
  "onTransportEvent e o' =
     (if te_networkGeneration e \<noteq> 0 \<and> te_networkGeneration e \<noteq> ow_networkGeneration o' \<and>
         te_networkGeneration e < ow_networkGeneration o'
      then (no_action, o')
      else let o2 = with_network (te_networkGeneration e) (te_networkAvailable e) o'
           in if \<not> te_error e \<and> \<not> te_userInitiated e then transport_restored o2
              else transport_failed e o2)"

definition generation_changed :: "u64 \<Rightarrow> owner \<Rightarrow> bool" where
  "generation_changed generation o' \<longleftrightarrow>
     generation \<noteq> 0 \<and> ow_networkGeneration o' \<noteq> 0 \<and> generation > ow_networkGeneration o'"

text \<open>Lines 210--231 and 233--241 of \<open>onNetworkChanged\<close>.\<close>

definition network_invalidated :: "bool \<Rightarrow> bool \<Rightarrow> u64 \<Rightarrow> owner \<Rightarrow> continuity_action \<times> owner" where
  "network_invalidated generationChanged available nowMs o' =
     (let action = lost_action\<lparr>ca_cancelAttempt := True\<rparr>;
          o3 = o'\<lparr>ow_fastQuiesced := True, ow_state := TransportLost, ow_retryScheduled := False,
                 ow_attemptInFlight := False, ow_nextRetryMs := 0\<rparr>;
          o4 = (if generationChanged then o3\<lparr>ow_attempts := 0, ow_windowStartedMs := nowMs\<rparr> else o3)
      in if available then scheduleFirstAttempt nowMs action o4 else (action, o4))"

definition network_resumed :: "bool \<Rightarrow> bool \<Rightarrow> u64 \<Rightarrow> owner \<Rightarrow> continuity_action \<times> owner" where
  "network_resumed changed available nowMs o' =
     (if \<not> available \<or> (ow_state o' \<noteq> TransportLost \<and> ow_state o' \<noteq> RetryPending) then (no_action, o')
      else if \<not> changed \<and> (ow_retryScheduled o' \<or> ow_attemptInFlight o') then (no_action, o')
      else scheduleFirstAttempt nowMs no_action o')"

definition onNetworkChanged :: "bool \<Rightarrow> u64 \<Rightarrow> u64 \<Rightarrow> owner \<Rightarrow> continuity_action \<times> owner" where
  "onNetworkChanged available generation nowMs o' =
     (if generation \<noteq> 0 \<and> generation < ow_networkGeneration o' then (no_action, o')
      else let generationChanged = generation_changed generation o';
               changed = (ow_networkAvailable o' \<noteq> available);
               o2 = with_network generation available o'
           in if ow_cancelled o2 then (no_action, o2)
              else if generationChanged \<or> (changed \<and> \<not> available)
              then network_invalidated generationChanged available nowMs o2
              else network_resumed changed available nowMs o2)"

definition ow_poll :: "u64 \<Rightarrow> owner \<Rightarrow> continuity_action \<times> owner" where
  "ow_poll nowMs o' =
     (if ow_cancelled o' \<or> \<not> ow_retryScheduled o' \<or> \<not> ow_networkAvailable o' \<or> nowMs < ow_nextRetryMs o'
      then (no_action, o')
      else (no_action\<lparr>ca_startAttempt := True, ca_attempt := ow_attempts o'\<rparr>,
            o'\<lparr>ow_retryScheduled := False, ow_attemptInFlight := True, ow_state := RetryPending\<rparr>))"

text \<open>
  The delay before the next retry: the base of the attempt, 20 percent up or down depending on the
  session. \<open>attempts_ * 17\<close> is \<open>uint32_t\<close> arithmetic, the sum \<open>uint64_t\<close>.
\<close>

definition kBaseDelaysMs :: "int list" where
  "kBaseDelaysMs = [1000, 2000, 5000, 10000]"

definition base_delay :: "u32 \<Rightarrow> int" where
  "base_delay attempts = kBaseDelaysMs ! min (if attempts > 0 then unat (attempts - 1) else 0) 3"

definition jitter_percent :: "u64 \<Rightarrow> u32 \<Rightarrow> int" where
  "jitter_percent generation attempts =
     int (unat (generation + ucast (attempts * 17)) mod 41) - 20"

definition retry_delay :: "u64 \<Rightarrow> u32 \<Rightarrow> int" where
  "retry_delay generation attempts = base_delay attempts * (100 + jitter_percent generation attempts) div 100"

definition recordAttemptResult :: "bool \<Rightarrow> u64 \<Rightarrow> owner \<Rightarrow> owner" where
  "recordAttemptResult succeeded nowMs o' =
     (if succeeded
      then o'\<lparr>ow_state := Connected, ow_retryScheduled := False, ow_nextRetryMs := 0, ow_attempts := 0,
             ow_attemptInFlight := False, ow_fastQuiesced := False\<rparr>
      else let o1 = (roll_window nowMs o')\<lparr>ow_attemptInFlight := False\<rparr>
           in if ow_attempts o1 \<ge> kMaxAttemptsPerWindow \<or> ow_cancelled o1 \<or> \<not> ow_networkAvailable o1
              then o1\<lparr>ow_state := TransportLost, ow_retryScheduled := False, ow_attemptInFlight := False\<rparr>
              else o1\<lparr>ow_attempts := ow_attempts o1 + 1,
                     ow_nextRetryMs := nowMs + of_int (retry_delay (ow_sessionGeneration o1) (ow_attempts o1)),
                     ow_retryScheduled := True, ow_state := RetryPending\<rparr>)"

definition ow_cancel :: "owner \<Rightarrow> owner" where
  "ow_cancel o' = o'\<lparr>ow_cancelled := True, ow_retryScheduled := False, ow_attemptInFlight := False,
     ow_nextRetryMs := 0, ow_state := Terminal\<rparr>"

section \<open>Histories\<close>

datatype owner_op =
    OpBegin u64 u64 u64
  | OpTransport transport_event
  | OpNetwork bool u64 u64
  | OpPoll u64
  | OpResult bool u64
  | OpCancel

fun owner_step :: "owner_op \<Rightarrow> owner \<Rightarrow> continuity_action \<times> owner" where
  "owner_step (OpBegin s g t) o' = (no_action, ow_begin s g t o')"
| "owner_step (OpTransport e) o' = onTransportEvent e o'"
| "owner_step (OpNetwork a g t) o' = onNetworkChanged a g t o'"
| "owner_step (OpPoll t) o' = ow_poll t o'"
| "owner_step (OpResult r t) o' = (no_action, recordAttemptResult r t o')"
| "owner_step OpCancel o' = (no_action, ow_cancel o')"

text \<open>
  The budget is new when a session begins, an attempt succeeded, the network generation changed, or
  the retry window has passed at an operation that reads the clock.
\<close>

fun fresh_budget :: "owner_op \<Rightarrow> owner \<Rightarrow> bool" where
  "fresh_budget (OpBegin _ _ _) o' = True"
| "fresh_budget (OpTransport e) o' = window_elapsed (te_monotonicMs e) o'"
| "fresh_budget (OpNetwork _ g t) o' = (generation_changed g o' \<or> window_elapsed t o')"
| "fresh_budget (OpResult r t) o' = (r \<or> window_elapsed t o')"
| "fresh_budget _ o' = False"

text \<open>\<open>budget\<close> is the count an operation leaves behind: new when \<open>b\<close>, plus the attempt it started.\<close>

definition budget :: "bool \<Rightarrow> nat \<Rightarrow> continuity_action \<Rightarrow> nat" where
  "budget b k a = (if b then 0 else k) + of_bool (ca_startAttempt a)"

text \<open>A history with the number of attempts started on the current budget, and all actions.\<close>

fun owner_run :: "owner_op list \<Rightarrow> nat \<Rightarrow> owner \<Rightarrow> nat \<times> continuity_action list \<times> owner" where
  "owner_run [] k o' = (k, [], o')"
| "owner_run (x # ops) k o' = (case owner_step x o' of (a, o1) \<Rightarrow>
     (case owner_run ops (budget (fresh_budget x o') k a) o1 of
        (k', as, o2) \<Rightarrow> (k', a # as, o2)))"

definition owner_inv :: "nat \<Rightarrow> owner \<Rightarrow> bool" where
  "owner_inv k o' \<longleftrightarrow> unat (ow_attempts o') \<le> 5 \<and> \<not> (ow_retryScheduled o' \<and> ow_attemptInFlight o') \<and>
     (ow_cancelled o' \<longrightarrow> \<not> ow_retryScheduled o' \<and> \<not> ow_attemptInFlight o') \<and>
     (ow_attemptInFlight o' \<longrightarrow> ow_attempts o' \<noteq> 0) \<and>
     k + of_bool (ow_retryScheduled o') \<le> unat (ow_attempts o')"

text \<open>What an operation may answer: an attempt only in a session that is not over, with a network.\<close>

definition action_ok :: "continuity_action \<Rightarrow> owner \<Rightarrow> bool" where
  "action_ok a o' \<longleftrightarrow> (ca_startAttempt a \<longrightarrow> \<not> ow_cancelled o' \<and> ow_networkAvailable o' \<and>
     ow_attemptInFlight o' \<and> ca_attempt a = ow_attempts o' \<and> ca_attempt a \<noteq> 0 \<and> unat (ca_attempt a) \<le> 5 \<and>
     \<not> ca_terminal a)"

lemma less_five:
  "\<not> kMaxAttemptsPerWindow \<le> (w :: u32) \<Longrightarrow> unat (w + 1) = Suc (unat w) \<and> unat w < 5 \<and> w + 1 \<noteq> 0"
proof -
  assume "\<not> kMaxAttemptsPerWindow \<le> w"
  then have u: "unat w < 5" by (simp add: kMaxAttemptsPerWindow_def word_le_nat_alt)
  then have "unat (w + 1) = Suc (unat w)" by (simp add: unat_word_ariths)
  with u show ?thesis by auto
qed

lemma schedule_inv:
  assumes "unat (ow_attempts o') \<le> 5" "\<not> (ow_retryScheduled o' \<and> ow_attemptInFlight o')"
    and "ow_cancelled o' \<longrightarrow> \<not> ow_retryScheduled o' \<and> \<not> ow_attemptInFlight o'"
    and "ow_attemptInFlight o' \<longrightarrow> ow_attempts o' \<noteq> 0"
    and "(if window_elapsed t o' then 0 else k) + of_bool (ow_retryScheduled o') \<le> unat (ow_attempts o')"
    and "\<not> ca_startAttempt a" "\<not> ca_terminal a"
    and "scheduleFirstAttempt t a o' = (a', o1)"
  shows "owner_inv ((if window_elapsed t o' then 0 else k) + of_bool (ca_startAttempt a')) o1 \<and> action_ok a' o1"
  using assms less_five [of "ow_attempts o'"] less_five [of 0]
  by (auto simp: scheduleFirstAttempt_def roll_window_def owner_inv_def action_ok_def Let_def split: if_splits)

text \<open>An operation that starts nothing keeps the invariant when it schedules nothing new.\<close>

lemma quiet_inv:
  assumes "owner_inv k o'" "k' \<le> k" "ow_attempts o1 = ow_attempts o'"
    and "ow_retryScheduled o1 \<longrightarrow> ow_retryScheduled o'" "ow_attemptInFlight o1 \<longrightarrow> ow_attemptInFlight o'"
    and "ow_cancelled o1 \<longrightarrow> ow_cancelled o' \<or> \<not> ow_retryScheduled o1 \<and> \<not> ow_attemptInFlight o1"
  shows "owner_inv k' o1"
  using assms by (auto simp: owner_inv_def of_bool_def split: if_splits)

lemma with_network_simps [simp]:
  "ow_attempts (with_network g a o') = ow_attempts o'" "ow_cancelled (with_network g a o') = ow_cancelled o'"
  "ow_retryScheduled (with_network g a o') = ow_retryScheduled o'"
  "ow_attemptInFlight (with_network g a o') = ow_attemptInFlight o'"
  "ow_windowStartedMs (with_network g a o') = ow_windowStartedMs o'"
  "ow_networkAvailable (with_network g a o') = a" "ow_state (with_network g a o') = ow_state o'"
  by (simp_all add: with_network_def)

lemma with_network_inv: "owner_inv k o' \<Longrightarrow> owner_inv k (with_network g a o')"
  by (simp add: owner_inv_def)

lemma window_elapsed_network [simp]: "window_elapsed t (with_network g a o') = window_elapsed t o'"
  by (simp add: window_elapsed_def)

lemma no_action_ok [simp]: "action_ok no_action o'" "\<not> ca_startAttempt no_action" "\<not> ca_terminal no_action"
    "\<not> ca_startAttempt lost_action" "\<not> ca_terminal lost_action"
  by (simp_all add: action_ok_def no_action_def lost_action_def)

lemma quiet_action_ok: "\<not> ca_startAttempt a \<Longrightarrow> action_ok a o'"
  by (simp add: action_ok_def)

lemma budget_quiet: "\<not> ca_startAttempt a \<Longrightarrow> budget b k a \<le> k"
  by (simp add: budget_def)

lemma schedule_budget:
  assumes inv: "owner_inv k o'" and q: "\<not> ca_startAttempt a" "\<not> ca_terminal a"
    and s: "scheduleFirstAttempt t a o' = (a', o1)"
  shows "owner_inv (budget (window_elapsed t o') k a') o1 \<and> action_ok a' o1"
  unfolding budget_def
  by (rule schedule_inv [OF _ _ _ _ _ q s]) (use inv in \<open>auto simp: owner_inv_def\<close>)

lemma transport_failed_inv:
  assumes inv: "owner_inv k o'" and st: "transport_failed e o' = (a, o1)"
  shows "owner_inv (budget (window_elapsed (te_monotonicMs e) o') k a) o1 \<and> action_ok a o1"
proof -
  define o4 where "o4 = o'\<lparr>ow_fastQuiesced := True, ow_state := TransportLost, ow_attemptInFlight := False\<rparr>"
  have i4: "owner_inv k o4" by (rule quiet_inv [OF inv]) (simp_all add: o4_def)
  have w: "window_elapsed t o4 = window_elapsed t o'" for t by (simp add: o4_def window_elapsed_def)
  show ?thesis
  proof (cases "\<not> te_userInitiated e \<and> IsRetryable (te_class e)")
    case False
    then have "\<not> ca_startAttempt a" "ow_attempts o1 = ow_attempts o'" "\<not> ow_retryScheduled o1" "\<not> ow_attemptInFlight o1"
      using st by (auto simp: transport_failed_def Let_def)
    then show ?thesis using quiet_inv [OF inv budget_quiet] by (simp add: quiet_action_ok)
  next
    case True
    show ?thesis
    proof (cases "ow_networkAvailable o'")
      case True
      then have s: "scheduleFirstAttempt (te_monotonicMs e) lost_action o4 = (a, o1)"
        using st \<open>\<not> te_userInitiated e \<and> IsRetryable (te_class e)\<close> by (simp add: transport_failed_def o4_def Let_def)
      from schedule_budget [OF i4 _ _ s] w show ?thesis by simp
    next
      case False
      then have "a = lost_action" "o1 = o4"
        using st \<open>\<not> te_userInitiated e \<and> IsRetryable (te_class e)\<close> by (simp_all add: transport_failed_def o4_def Let_def)
      then show ?thesis using quiet_inv [OF i4 budget_quiet] by (simp add: quiet_action_ok)
    qed
  qed
qed

lemma transport_inv:
  assumes inv: "owner_inv k o'" and st: "onTransportEvent e o' = (a, o1)"
  shows "owner_inv (budget (window_elapsed (te_monotonicMs e) o') k a) o1 \<and> action_ok a o1"
proof -
  let ?o2 = "with_network (te_networkGeneration e) (te_networkAvailable e) o'"
  have i2: "owner_inv k ?o2" by (rule with_network_inv [OF inv])
  show ?thesis
  proof (cases "te_networkGeneration e \<noteq> 0 \<and> te_networkGeneration e \<noteq> ow_networkGeneration o' \<and>
      te_networkGeneration e < ow_networkGeneration o'")
    case True
    then have "a = no_action" "o1 = o'" using st by (simp_all add: onTransportEvent_def)
    then show ?thesis using quiet_inv [OF inv budget_quiet, of a o1] by simp
  next
    case fresh: False
    show ?thesis
    proof (cases "\<not> te_error e \<and> \<not> te_userInitiated e")
      case True
      then have "transport_restored ?o2 = (a, o1)"
        using st by (simp only: onTransportEvent_def Let_def fresh True if_True if_False simp_thms)
      then show ?thesis using quiet_inv [OF i2 budget_quiet, of a o1]
        by (auto simp: transport_restored_def)
    next
      case False
      then have "transport_failed e ?o2 = (a, o1)"
        using st by (simp only: onTransportEvent_def Let_def fresh False if_True if_False simp_thms)
      from transport_failed_inv [OF i2 this] show ?thesis by simp
    qed
  qed
qed

lemma network_invalidated_inv:
  assumes inv: "owner_inv k o'" and st: "network_invalidated gc av t o' = (a, o1)"
  shows "owner_inv (budget (gc \<or> window_elapsed t o') k a) o1 \<and> action_ok a o1"
proof -
  define o3 where "o3 = o'\<lparr>ow_fastQuiesced := True, ow_state := TransportLost, ow_retryScheduled := False,
      ow_attemptInFlight := False, ow_nextRetryMs := 0\<rparr>"
  define o4 where "o4 = (if gc then o3\<lparr>ow_attempts := 0, ow_windowStartedMs := t\<rparr> else o3)"
  have "owner_inv k o3" by (rule quiet_inv [OF inv]) (simp_all add: o3_def)
  then have i4: "owner_inv (if gc then 0 else k) o4" by (auto simp: o4_def owner_inv_def o3_def)
  have w: "window_elapsed t o4 \<longleftrightarrow> \<not> gc \<and> window_elapsed t o'"
    by (simp add: o4_def o3_def window_elapsed_def kAttemptWindowMs_def)
  have k: "budget (window_elapsed t o4) (if gc then 0 else k) a = budget (gc \<or> window_elapsed t o') k a"
    using w by (auto simp: budget_def)
  show ?thesis
  proof (cases av)
    case True
    then have "scheduleFirstAttempt t (lost_action\<lparr>ca_cancelAttempt := True\<rparr>) o4 = (a, o1)"
      using st by (auto simp: network_invalidated_def o3_def o4_def Let_def split: if_splits)
    from schedule_budget [OF i4 _ _ this] k show ?thesis by (simp add: lost_action_def no_action_def)
  next
    case False
    then have a: "a = lost_action\<lparr>ca_cancelAttempt := True\<rparr>" "o1 = o4"
      using st by (auto simp: network_invalidated_def o3_def o4_def Let_def)
    then have n: "\<not> ca_startAttempt a" by (simp add: lost_action_def no_action_def)
    from quiet_inv [OF i4 budget_quiet [OF n], of o1 "window_elapsed t o4"] a k n show ?thesis
      by (simp add: quiet_action_ok)
  qed
qed

lemma network_inv:
  assumes inv: "owner_inv k o'" and st: "onNetworkChanged av g t o' = (a, o1)"
  shows "owner_inv (budget (generation_changed g o' \<or> window_elapsed t o') k a) o1 \<and> action_ok a o1"
proof -
  let ?o2 = "with_network g av o'" and ?gc = "generation_changed g o'"
  have i2: "owner_inv k ?o2" by (rule with_network_inv [OF inv])
  consider "a = no_action" "o1 = o' \<or> o1 = ?o2" | "network_invalidated ?gc av t ?o2 = (a, o1)"
    | "scheduleFirstAttempt t no_action ?o2 = (a, o1)" "\<not> ?gc"
    using st by (auto simp: onNetworkChanged_def network_resumed_def Let_def split: if_split_asm)
  then show ?thesis
  proof cases
    case 1
    then show ?thesis using quiet_inv [OF inv budget_quiet, of a o1] by auto
  next
    case 2
    from network_invalidated_inv [OF i2 this] show ?thesis by simp
  next
    case 3
    from schedule_budget [OF i2 _ _ 3(1)] 3(2) show ?thesis by simp
  qed
qed

lemma poll_inv:
  "owner_inv k o' \<Longrightarrow> ow_poll t o' = (a, o1) \<Longrightarrow> owner_inv (budget False k a) o1 \<and> action_ok a o1"
  by (auto simp: ow_poll_def owner_inv_def action_ok_def no_action_def budget_def of_bool_def split: if_splits)

lemma result_inv:
  assumes inv: "owner_inv k o'"
  shows "owner_inv (if r \<or> window_elapsed t o' then 0 else k) (recordAttemptResult r t o')"
  using inv less_five [of "ow_attempts o'"] less_five [of 0]
  by (auto simp: recordAttemptResult_def roll_window_def owner_inv_def Let_def of_bool_def split: if_splits)

lemma step_inv:
  assumes inv: "owner_inv k o'" and st: "owner_step x o' = (a, o1)"
  shows "owner_inv (budget (fresh_budget x o') k a) o1 \<and> action_ok a o1"
proof (cases x)
  case (OpTransport e)
  with assms transport_inv show ?thesis by simp
next
  case (OpNetwork av g t)
  with assms network_inv show ?thesis by simp
next
  case (OpResult r t)
  with assms result_inv [OF inv, of r t] show ?thesis by (auto simp: budget_def split: if_splits)
next
  case (OpPoll t)
  with assms poll_inv show ?thesis by simp
next
  case (OpBegin s g t)
  with st show ?thesis by (auto simp: owner_inv_def ow_begin_def budget_def)
next
  case OpCancel
  with assms show ?thesis by (auto simp: owner_inv_def ow_cancel_def budget_def)
qed

lemma run_owner_inv:
  "owner_inv k o' \<Longrightarrow> owner_run ops k o' = (k', as, o1) \<Longrightarrow> owner_inv k' o1"
proof (induction ops arbitrary: k o' as)
  case (Cons x ops)
  obtain a o2 where st: "owner_step x o' = (a, o2)" by fastforce
  show ?case
    using Cons.prems(2) Cons.IH [OF conjunct1 [OF step_inv [OF Cons.prems(1) st]]]
    by (auto simp: st split: prod.splits)
qed simp

lemma owner_inv_new: "owner_inv 0 new_owner"
  by (simp add: owner_inv_def new_owner_def)

definition reopens :: "owner_op \<Rightarrow> bool" where
  "reopens x = (case x of OpBegin _ _ _ \<Rightarrow> True | _ \<Rightarrow> False)"

text \<open>
  What ends a session: the user cancels, or a report of the transport that is not older than the
  network the owner knows says that the user disconnected, or an error of one of the classes
  listed here, which a new connection cannot cure.
\<close>

definition ends_session :: "owner_op \<Rightarrow> owner \<Rightarrow> bool" where
  "ends_session x o' = (case x of
      OpCancel \<Rightarrow> True
    | OpTransport e \<Rightarrow>
        (te_networkGeneration e = 0 \<or> ow_networkGeneration o' \<le> te_networkGeneration e) \<and>
        (te_userInitiated e \<or>
         te_error e \<and> te_class e \<in> {ErrNone, ErrAuth, ErrTwoFactor, ErrApproval, ErrLicense, ErrKey,
           ErrProtocol, ErrCrypto, ErrUserDisconnected, ErrUnknown})
    | _ \<Rightarrow> False)"

text \<open>Once a session is over no operation but a new session changes that.\<close>

lemma transport_failed_cancelled:
  assumes "transport_failed e o' = (a, o1)" "ow_cancelled o'"
  shows "ow_cancelled o1 \<and> \<not> ca_startAttempt a"
  using assms
  by (auto simp: transport_failed_def scheduleFirstAttempt_def Let_def lost_action_def no_action_def
      split: if_split_asm)

lemma step_cancelled:
  assumes "ow_cancelled o'" "\<not> reopens x" "owner_step x o' = (a, o1)"
  shows "ow_cancelled o1 \<and> \<not> ca_startAttempt a"
proof (cases x)
  case (OpTransport e)
  then show ?thesis
    using assms by (auto simp: onTransportEvent_def transport_restored_def Let_def split: if_split_asm
        dest: transport_failed_cancelled)
next
  case (OpNetwork av g t)
  then show ?thesis using assms by (auto simp: onNetworkChanged_def Let_def split: if_split_asm)
next
  case (OpPoll t)
  then show ?thesis using assms by (auto simp: ow_poll_def)
next
  case (OpResult r t)
  then show ?thesis using assms by (auto simp: recordAttemptResult_def roll_window_def Let_def)
qed (use assms in \<open>auto simp: ow_cancel_def reopens_def\<close>)

lemma step_ends:
  assumes "ends_session x o'" "owner_step x o' = (a, o1)"
  shows "ow_cancelled o1 \<and> \<not> ca_startAttempt a \<and> (x \<noteq> OpCancel \<longrightarrow> ca_terminal a)"
proof (cases x)
  case (OpTransport e)
  have n: "\<not> (\<not> te_userInitiated e \<and> IsRetryable (te_class e))" and f: "te_error e \<or> te_userInitiated e"
    using assms(1) by (auto simp: OpTransport ends_session_def IsRetryable_def)
  have "\<not> (te_networkGeneration e \<noteq> 0 \<and> te_networkGeneration e \<noteq> ow_networkGeneration o' \<and>
      te_networkGeneration e < ow_networkGeneration o')"
    using assms(1) by (auto simp: OpTransport ends_session_def)
  then have "transport_failed e (with_network (te_networkGeneration e) (te_networkAvailable e) o') = (a, o1)"
    using assms(2) f by (auto simp: OpTransport onTransportEvent_def Let_def)
  then show ?thesis
    using n by (auto simp: transport_failed_def Let_def lost_action_def no_action_def)
qed (use assms in \<open>auto simp: ends_session_def ow_cancel_def no_action_def\<close>)

lemma run_cancelled:
  "owner_inv k o' \<Longrightarrow> ow_cancelled o' \<Longrightarrow> list_all (Not \<circ> reopens) ops \<Longrightarrow>
   owner_run ops k o' = (k', as, o1) \<Longrightarrow> ow_cancelled o1 \<and> (\<forall>a\<in>set as. \<not> ca_startAttempt a)"
proof (induction ops arbitrary: k o' as)
  case (Cons x ops)
  obtain a o2 where st: "owner_step x o' = (a, o2)" by fastforce
  have c: "ow_cancelled o2 \<and> \<not> ca_startAttempt a"
    using step_cancelled [OF Cons.prems(2) _ st] Cons.prems(3) by simp
  obtain as1 where r: "owner_run ops (budget (fresh_budget x o') k a) o2 = (k', as1, o1)" "as = a # as1"
    using Cons.prems(4) by (auto simp: st split: prod.splits)
  from Cons.IH [OF conjunct1 [OF step_inv [OF Cons.prems(1) st]] _ _ r(1)] c Cons.prems(3) r(2)
  show ?case by simp
qed simp

lemma base_delay_values: "base_delay at \<in> {1000, 2000, 5000, 10000}"
proof -
  define i where "i = min (if at > 0 then unat (at - 1) else 0) 3"
  have "i = 0 \<or> i = 1 \<or> i = 2 \<or> i = 3" by (auto simp: i_def)
  then show ?thesis by (auto simp: base_delay_def kBaseDelaysMs_def i_def [symmetric])
qed

lemma jitter_bounds: "- 20 \<le> jitter_percent g at \<and> jitter_percent g at \<le> 20"
proof -
  have "unat (g + ucast (at * 17)) mod 41 < 41" by simp
  then show ?thesis by (simp add: jitter_percent_def del: of_nat_unat)
qed

lemma retry_delay_bounds:
  "4 * base_delay at \<le> 5 * retry_delay g at \<and> 5 * retry_delay g at \<le> 6 * base_delay at"
proof -
  have "base_delay at * (100 + jitter_percent g at) \<le> base_delay at * 120"
    "base_delay at * 80 \<le> base_delay at * (100 + jitter_percent g at)"
    using jitter_bounds [of g at] base_delay_values [of at] by (auto intro: mult_left_mono)
  then have "retry_delay g at \<le> base_delay at * 120 div 100" "base_delay at * 80 div 100 \<le> retry_delay g at"
    unfolding retry_delay_def by (auto intro: zdiv_mono1)
  then show ?thesis using base_delay_values [of at] by auto
qed

section \<open>Properties\<close>




text \<open>
  C15. An ended session stays ended: after any history, a cancellation or a current report of a user's
  disconnection or of an error outside the six retryable classes (authentication, two factor,
  approval, license, key, protocol, cryptography, user, unknown, none) starts no attempt and, when it
  is a report, announces the end; and no history after it without a new session starts one.
\<close>

theorem no_attempt_after_end:
  assumes "owner_run ops 0 new_owner = (k, as, o1)" and "ends_session x o1"
    and "list_all (Not \<circ> reopens) later" and "owner_run (x # later) k o1 = (k2, as2, o2)"
  shows "(\<forall>a\<in>set as2. \<not> ca_startAttempt a) \<and> (x \<noteq> OpCancel \<longrightarrow> ca_terminal (hd as2))"
proof -
  obtain a o3 where st: "owner_step x o1 = (a, o3)" by fastforce
  have e: "ow_cancelled o3" "\<not> ca_startAttempt a" "x \<noteq> OpCancel \<longrightarrow> ca_terminal a"
    using step_ends [OF assms(2) st] by simp_all
  have inv: "owner_inv (budget (fresh_budget x o1) k a) o3"
    using step_inv [OF run_owner_inv [OF owner_inv_new assms(1)] st] by simp
  obtain as3 where r: "owner_run later (budget (fresh_budget x o1) k a) o3 = (k2, as3, o2)" "as2 = a # as3"
    using assms(4) by (auto simp: st split: prod.splits)
  from run_cancelled [OF inv e(1) assms(3) r(1)] e r(2) show ?thesis by simp
qed

lemma no_attempt_after_end_witness:
  "\<exists>k2 as2 o2. owner_run [OpTransport \<lparr>te_error = True, te_class = ErrAuth, te_networkGeneration = 0,
        te_userInitiated = False, te_networkAvailable = True, te_monotonicMs = 2000\<rparr>,
      OpNetwork True 9 5000, OpPoll 6000, OpResult False 7000, OpPoll 90000] 0
      (ow_begin 1 7 1000 new_owner) = (k2, as2, o2) \<and> (\<forall>a\<in>set as2. \<not> ca_startAttempt a) \<and>
      ca_terminal (hd as2)"
proof -
  let ?x = "OpTransport \<lparr>te_error = True, te_class = ErrAuth, te_networkGeneration = 0,
        te_userInitiated = False, te_networkAvailable = True, te_monotonicMs = 2000\<rparr>"
  let ?later = "[OpNetwork True 9 5000, OpPoll 6000, OpResult False 7000, OpPoll 90000]"
  let ?o = "ow_begin 1 7 1000 new_owner"
  obtain k as where r: "owner_run [OpBegin 1 7 1000] 0 new_owner = (k, as, ?o)" and k: "k = 0"
    by (auto simp: budget_def no_action_def)
  have e: "ends_session ?x ?o" by (simp add: ends_session_def)
  obtain k2 as2 o2 where l: "owner_run (?x # ?later) 0 ?o = (k2, as2, o2)" by (metis prod_cases3)
  have n: "list_all (Not \<circ> reopens) ?later" by (simp add: reopens_def)
  from no_attempt_after_end [OF r e n] l k show ?thesis by blast
qed

text \<open>
  The wait before a retry stays within 20 percent of its base (1, 2, 5 or 10 seconds), whatever the
  session generation: a scheduled retry is due 0.8 to 12 seconds after the failed attempt.
\<close>

lemma retry_delay_range:
  assumes "recordAttemptResult False nowMs o' = o1" and "ow_retryScheduled o1"
  shows "800 \<le> unat (ow_nextRetryMs o1 - nowMs) \<and> unat (ow_nextRetryMs o1 - nowMs) \<le> 12000 \<and>
    (\<exists>b\<in>{1000, 2000, 5000, 10000}. 4 * b \<le> 5 * unat (ow_nextRetryMs o1 - nowMs) \<and>
        5 * unat (ow_nextRetryMs o1 - nowMs) \<le> 6 * b)"
proof -
  obtain g at where d: "ow_nextRetryMs o1 - nowMs = of_int (retry_delay g at)"
    using assms by (auto simp: recordAttemptResult_def Let_def split: if_splits)
  have b: "4 * base_delay at \<le> 5 * retry_delay g at" "5 * retry_delay g at \<le> 6 * base_delay at"
    using retry_delay_bounds by blast+
  obtain n where n: "retry_delay g at = int n"
    using b base_delay_values [of at] by (auto dest: nonneg_int_cases [rotated])
  have "n \<le> 12000" using b base_delay_values [of at] n by auto
  then have "unat (of_int (retry_delay g at) :: u64) = n" by (simp add: n unat_of_nat)
  then show ?thesis using d b base_delay_values [of at] n by auto
qed

lemma retry_delay_range_witness:
  "800 \<le> unat (ow_nextRetryMs (recordAttemptResult False 5000 (ow_begin 1 7 1000 new_owner)) - 5000)"
proof -
  have "ow_retryScheduled (recordAttemptResult False 5000 (ow_begin 1 7 1000 new_owner))"
    by (simp add: recordAttemptResult_def roll_window_def window_elapsed_def ow_begin_def
        kMaxAttemptsPerWindow_def kAttemptWindowMs_def Let_def)
  from retry_delay_range [OF refl this] show ?thesis by blast
qed

end
