(* ===== verification/Rustdesk_Display.thy ===== *)
theory Rustdesk_Display
  imports Prelude
begin

text \<open>
  \<open>rustdesk/rustdesk_display_switch_gate.h\<close>, \<open>rustdesk_ffi_handle_gate.h\<close> and
  \<open>rustdesk_display_control_plane.h\<close>: switching the shown display of a RustDesk session while frames
  and display reports keep arriving, and keeping the FFI client alive while it is in use. A lease of
  the coordinator protects one gate operation, so each gate operation is one function. Callbacks
  into user or FFI code run outside the coordinator's lock and may call the gate again: they are
  arguments that transform the gate. The handle gate's shared and exclusive locks are a step
  relation over the leases held.
\<close>

section \<open>The gate\<close>

record gate =
  g_generation :: u64
  g_readyGeneration :: u64
  g_pendingDisplay :: int
  g_confirmedDisplay :: int
  g_acknowledgementSeen :: bool

record decision =
  d_acceptFrame :: bool
  d_publishDisplay :: bool
  d_display :: int

definition no_decision :: decision where
  "no_decision = \<lparr>d_acceptFrame = False, d_publishDisplay = False, d_display = -1\<rparr>"

definition gate_reset :: gate where
  "gate_reset = \<lparr>g_generation = 0, g_readyGeneration = 0, g_pendingDisplay = -1, g_confirmedDisplay = -1,
     g_acknowledgementSeen = False\<rparr>"

definition gate_begin :: "int \<Rightarrow> gate \<Rightarrow> u64 \<times> gate" where
  "gate_begin d g = (let gen = (if g_generation g = - 1 then 1 else g_generation g + 1)
     in (gen, g\<lparr>g_generation := gen, g_pendingDisplay := d, g_acknowledgementSeen := False\<rparr>))"

definition gate_reject :: "u64 \<Rightarrow> gate \<Rightarrow> gate" where
  "gate_reject generation g =
     (if generation \<noteq> g_generation g \<or> g_pendingDisplay g < 0 then g
      else g\<lparr>g_pendingDisplay := -1, g_acknowledgementSeen := False\<rparr>)"

definition observeDisplay :: "int \<Rightarrow> gate \<Rightarrow> decision \<times> gate" where
  "observeDisplay d g =
     (if d < 0 then (no_decision, g)
      else if g_pendingDisplay g \<ge> 0
      then (no_decision, if d = g_pendingDisplay g then g\<lparr>g_acknowledgementSeen := True\<rparr> else g)
      else (no_decision\<lparr>d_publishDisplay := True, d_display := d\<rparr>, g\<lparr>g_confirmedDisplay := d\<rparr>))"

definition observeFrame :: "int \<Rightarrow> bool \<Rightarrow> gate \<Rightarrow> decision \<times> gate" where
  "observeFrame d keyFrame g =
     (if d < 0 then (no_decision, g)
      else if g_pendingDisplay g \<ge> 0 then
        (if d \<noteq> g_pendingDisplay g \<or> \<not> g_acknowledgementSeen g \<or> \<not> keyFrame then (no_decision, g)
         else (\<lparr>d_acceptFrame = True, d_publishDisplay = True, d_display = g_pendingDisplay g\<rparr>,
               g\<lparr>g_confirmedDisplay := g_pendingDisplay g, g_pendingDisplay := -1,
                 g_acknowledgementSeen := False, g_readyGeneration := g_generation g\<rparr>))
      else let (dec, g1) = (if g_confirmedDisplay g < 0
                 then (no_decision\<lparr>d_publishDisplay := True, d_display := d\<rparr>, g\<lparr>g_confirmedDisplay := d\<rparr>)
                 else (no_decision, g))
           in (dec\<lparr>d_acceptFrame := (d = g_confirmedDisplay g1)\<rparr>, g1))"

definition inputBlocked :: "gate \<Rightarrow> bool" where
  "inputBlocked g \<longleftrightarrow> g_pendingDisplay g \<ge> 0"

section \<open>The control plane\<close>

text \<open>
  \<open>valid i\<close> is the i-th answer of the caller's \<open>isValid\<close>; the result is what is handed to \<open>dispatch\<close>.
\<close>

definition dispatchFrame :: "int \<Rightarrow> bool \<Rightarrow> (nat \<Rightarrow> bool) \<Rightarrow> gate \<Rightarrow> decision option \<times> gate" where
  "dispatchFrame d keyFrame valid g =
     (if \<not> valid 0 then (None, g)
      else case observeFrame d keyFrame g of (dec, g1) \<Rightarrow>
        (if \<not> d_acceptFrame dec \<or> \<not> valid 1 then (None, g1) else (Some dec, g1)))"

definition dispatchDisplay :: "int \<Rightarrow> (nat \<Rightarrow> bool) \<Rightarrow> gate \<Rightarrow> decision option \<times> gate" where
  "dispatchDisplay d valid g =
     (if \<not> valid 0 then (None, g)
      else case observeDisplay d g of (dec, g1) \<Rightarrow>
        (if \<not> d_publishDisplay dec \<or> \<not> valid 1 then (None, g1) else (Some dec, g1)))"

text \<open>\<open>switchDisplay\<close> gets the handle and the display; it may act on the gate before it answers.\<close>

definition beginDisplaySwitchWithHandle ::
    "int \<Rightarrow> nat option \<Rightarrow> (nat \<Rightarrow> int \<Rightarrow> gate \<Rightarrow> bool \<times> gate) \<Rightarrow> gate \<Rightarrow> (bool \<times> u64) \<times> gate" where
  "beginDisplaySwitchWithHandle d handle switchDisplay g =
     (case handle of
        None \<Rightarrow> ((False, 0), g)
      | Some h \<Rightarrow>
          if d < 0 then ((False, 0), g)
          else (case gate_begin d g of (generation, g1) \<Rightarrow>
            (case switchDisplay h d g1 of (accepted, g2) \<Rightarrow>
               ((accepted, generation), if \<not> accepted then gate_reject generation g2 else g2))))"

definition beginDisplaySwitch ::
    "int \<Rightarrow> (nat \<Rightarrow> bool) \<Rightarrow> nat option \<Rightarrow> (nat \<Rightarrow> int \<Rightarrow> gate \<Rightarrow> bool \<times> gate) \<Rightarrow> gate \<Rightarrow> (bool \<times> u64) \<times> gate" where
  "beginDisplaySwitch d valid handle switchDisplay g =
     (if d < 0 \<or> \<not> valid 0 then ((False, 0), g)
      else if handle = None then ((False, 0), g)
      else if \<not> valid 1 then ((False, 0), g)
      else beginDisplaySwitchWithHandle d handle switchDisplay g)"

definition dispatchOutbound :: "(nat \<Rightarrow> bool) \<Rightarrow> nat option \<Rightarrow> (nat \<Rightarrow> bool) \<Rightarrow> bool" where
  "dispatchOutbound allowed handle operation =
     (if \<not> allowed 0 then False
      else case handle of None \<Rightarrow> False
        | Some h \<Rightarrow> if \<not> allowed 1 then False else operation h)"

definition queryDisplayState :: "(nat \<Rightarrow> bool) \<Rightarrow> nat option \<Rightarrow> (nat \<Rightarrow> bool) \<Rightarrow> (gate \<Rightarrow> gate) \<Rightarrow> gate \<Rightarrow> gate option" where
  "queryDisplayState valid handle query beforeSnapshot g =
     (if \<not> valid 0 then None
      else case handle of None \<Rightarrow> None
        | Some h \<Rightarrow> if \<not> valid 1 \<or> \<not> query h then None
                    else let g1 = beforeSnapshot g in if \<not> valid 2 then None else Some g1)"

section \<open>The handle gate\<close>

record ffi_gate =
  fg_handle :: "nat option"
  fg_leases :: "(nat \<times> nat option) list"
  fg_detached :: "nat list"
  fg_freed :: "nat list"

definition handle_attach :: "nat option \<Rightarrow> ffi_gate \<Rightarrow> bool \<times> ffi_gate" where
  "handle_attach p f = (if p = None then (False, f)
     else if fg_handle f \<noteq> None then (False, f) else (True, f\<lparr>fg_handle := p\<rparr>))"

definition handle_detach :: "ffi_gate \<Rightarrow> nat option \<times> ffi_gate" where
  "handle_detach f = (fg_handle f, f\<lparr>fg_handle := None\<rparr>)"

definition handle_detachIf :: "nat option \<Rightarrow> ffi_gate \<Rightarrow> nat option \<times> ffi_gate" where
  "handle_detachIf expected f =
     (if fg_handle f \<noteq> expected then (None, f) else (fg_handle f, f\<lparr>fg_handle := None\<rparr>))"

definition handle_owns :: "nat option \<Rightarrow> ffi_gate \<Rightarrow> bool" where
  "handle_owns expected f \<longleftrightarrow> expected \<noteq> None \<and> fg_handle f = expected"

definition handle_acquire :: "nat \<Rightarrow> ffi_gate \<Rightarrow> ffi_gate" where
  "handle_acquire t f = f\<lparr>fg_leases := (t, fg_handle f) # fg_leases f\<rparr>"

definition handle_release :: "nat \<Rightarrow> ffi_gate \<Rightarrow> ffi_gate" where
  "handle_release t f = f\<lparr>fg_leases := filter (\<lambda>l. fst l \<noteq> t) (fg_leases f)\<rparr>"

text \<open>The result of a detach is owned by the caller, who frees it later.\<close>

definition keep_detached :: "nat option \<times> ffi_gate \<Rightarrow> ffi_gate" where
  "keep_detached r = (case r of (None, f) \<Rightarrow> f | (Some h, f) \<Rightarrow> f\<lparr>fg_detached := h # fg_detached f\<rparr>)"

text \<open>
  What threads may do: shared leases any time, the exclusive operations only while nobody holds a
  lease; a new client is a fresh allocation; only a detached client is freed.
\<close>

inductive ffi_step :: "ffi_gate \<Rightarrow> ffi_gate \<Rightarrow> bool" where
  ffi_acquire: "t \<notin> fst ` set (fg_leases f) \<Longrightarrow> ffi_step f (handle_acquire t f)"
| ffi_release: "ffi_step f (handle_release t f)"
| ffi_attach: "fg_leases f = [] \<Longrightarrow> (\<And>h. p = Some h \<Longrightarrow> h \<notin> set (fg_freed f) \<union> set (fg_detached f)) \<Longrightarrow>
    ffi_step f (snd (handle_attach p f))"
| ffi_detach: "fg_leases f = [] \<Longrightarrow> ffi_step f (keep_detached (handle_detach f))"
| ffi_detachIf: "fg_leases f = [] \<Longrightarrow> ffi_step f (keep_detached (handle_detachIf e f))"
| ffi_free: "h \<in> set (fg_detached f) \<Longrightarrow>
    ffi_step f (f\<lparr>fg_detached := removeAll h (fg_detached f), fg_freed := h # fg_freed f\<rparr>)"

definition ffi_init :: ffi_gate where
  "ffi_init = \<lparr>fg_handle = None, fg_leases = [], fg_detached = [], fg_freed = []\<rparr>"

inductive ffi_reachable :: "ffi_gate \<Rightarrow> bool" where
  reach_init: "ffi_reachable ffi_init"
| reach_step: "ffi_reachable f \<Longrightarrow> ffi_step f f' \<Longrightarrow> ffi_reachable f'"

definition ffi_inv :: "ffi_gate \<Rightarrow> bool" where
  "ffi_inv f \<longleftrightarrow> (\<forall>l\<in>set (fg_leases f). snd l = fg_handle f) \<and>
     (\<forall>h. fg_handle f = Some h \<longrightarrow> h \<notin> set (fg_freed f) \<union> set (fg_detached f)) \<and>
     set (fg_freed f) \<inter> set (fg_detached f) = {}"

lemma ffi_step_inv: "ffi_step f f' \<Longrightarrow> ffi_inv f \<Longrightarrow> ffi_inv f'"
proof (induction rule: ffi_step.induct)
  case (ffi_detach f)
  then show ?case
    by (cases "fg_handle f") (auto simp: ffi_inv_def handle_detach_def keep_detached_def)
next
  case (ffi_detachIf f e)
  then show ?case
    by (cases "fg_handle f") (auto simp: ffi_inv_def handle_detachIf_def keep_detached_def)
qed (auto simp: ffi_inv_def handle_acquire_def handle_release_def handle_attach_def)

lemma ffi_reachable_inv: "ffi_reachable f \<Longrightarrow> ffi_inv f"
  by (induction rule: ffi_reachable.induct) (simp add: ffi_inv_def ffi_init_def, blast intro: ffi_step_inv)

section \<open>Observations after a switch\<close>

datatype gate_obs = ObsDisplay int | ObsFrame int bool

definition observe :: "gate_obs \<Rightarrow> gate \<Rightarrow> decision \<times> gate" where
  "observe x g = (case x of ObsDisplay d \<Rightarrow> observeDisplay d g | ObsFrame d k \<Rightarrow> observeFrame d k g)"

fun gate_run :: "gate_obs list \<Rightarrow> gate \<Rightarrow> decision list \<times> gate" where
  "gate_run [] g = ([], g)"
| "gate_run (x # xs) g = (case observe x g of (dec, g1) \<Rightarrow>
     (case gate_run xs g1 of (ds, g2) \<Rightarrow> (dec # ds, g2)))"

text \<open>The target was acknowledged and produced a key frame after that.\<close>

definition acked_key :: "int \<Rightarrow> gate_obs list \<Rightarrow> bool" where
  "acked_key d xs \<longleftrightarrow> (\<exists>a b c. xs = a @ ObsDisplay d # b @ ObsFrame d True # c)"

lemma acked_key_Nil [simp]: "\<not> acked_key d []"
  by (simp add: acked_key_def)

lemma acked_key_Cons:
  "acked_key d (x # xs) \<longleftrightarrow> x = ObsDisplay d \<and> ObsFrame d True \<in> set xs \<or> acked_key d xs"
proof
  assume "acked_key d (x # xs)"
  then obtain a b c where "x # xs = a @ ObsDisplay d # b @ ObsFrame d True # c" by (auto simp: acked_key_def)
  then show "x = ObsDisplay d \<and> ObsFrame d True \<in> set xs \<or> acked_key d xs"
    by (cases a) (auto simp: acked_key_def)
next
  assume "x = ObsDisplay d \<and> ObsFrame d True \<in> set xs \<or> acked_key d xs"
  then show "acked_key d (x # xs)"
  proof
    assume "x = ObsDisplay d \<and> ObsFrame d True \<in> set xs"
    then obtain b c where "x # xs = [] @ ObsDisplay d # b @ ObsFrame d True # c" by (auto dest: split_list)
    then show ?thesis unfolding acked_key_def by blast
  next
    assume "acked_key d xs"
    then obtain a b c where "x # xs = (x # a) @ ObsDisplay d # b @ ObsFrame d True # c"
      by (auto simp: acked_key_def)
    then show ?thesis unfolding acked_key_def by blast
  qed
qed

lemma settled_run:
  "g_pendingDisplay g < 0 \<Longrightarrow> gate_run xs g = (ds, g2) \<Longrightarrow>
   g_pendingDisplay g2 < 0 \<and> g_readyGeneration g2 = g_readyGeneration g \<and> g_generation g2 = g_generation g"
proof (induction xs arbitrary: g ds)
  case (Cons x xs)
  obtain dec g1 where o1: "observe x g = (dec, g1)" by fastforce
  then have "g_pendingDisplay g1 < 0 \<and> g_readyGeneration g1 = g_readyGeneration g \<and> g_generation g1 = g_generation g"
    using Cons.prems(1) by (cases x) (auto simp: observe_def observeDisplay_def observeFrame_def Let_def split: if_splits)
  then show ?case using Cons.IH [of g1] Cons.prems(2) o1 by (auto split: prod.splits)
qed simp

lemma pending_run:
  assumes "0 \<le> d" "g_pendingDisplay g = d" "gate_run xs g = (ds, g2)"
  shows "(if g_acknowledgementSeen g \<and> ObsFrame d True \<in> set xs \<or> acked_key d xs
     then g_pendingDisplay g2 < 0 \<and> g_readyGeneration g2 = g_generation g \<and> g_generation g2 = g_generation g
     else g_pendingDisplay g2 = d \<and> g_readyGeneration g2 = g_readyGeneration g \<and>
       g_confirmedDisplay g2 = g_confirmedDisplay g \<and> (\<forall>dec\<in>set ds. dec = no_decision))"
  using assms
proof (induction xs arbitrary: g ds)
  case (Cons x xs)
  obtain dec g1 where o1: "observe x g = (dec, g1)" by fastforce
  obtain ds1 where r: "gate_run xs g1 = (ds1, g2)" "ds = dec # ds1"
    using Cons.prems(3) o1 by (auto split: prod.splits)
  show ?case
  proof (cases "x = ObsFrame d True \<and> g_acknowledgementSeen g")
    case True
    then have "g_pendingDisplay g1 = - 1" "g_readyGeneration g1 = g_generation g" "g_generation g1 = g_generation g"
      using o1 Cons.prems(1,2) by (auto simp: observe_def observeFrame_def)
    with settled_run [OF _ r(1)] True show ?thesis by simp
  next
    case False
    then have g1: "g_pendingDisplay g1 = d \<and> dec = no_decision \<and> g_readyGeneration g1 = g_readyGeneration g \<and>
        g_generation g1 = g_generation g \<and> g_confirmedDisplay g1 = g_confirmedDisplay g \<and>
        g_acknowledgementSeen g1 = (g_acknowledgementSeen g \<or> x = ObsDisplay d)"
      using o1 Cons.prems(1,2) by (cases x) (auto simp: observe_def observeDisplay_def observeFrame_def split: if_splits)
    show ?thesis
      using Cons.IH [OF Cons.prems(1) _ r(1)] g1 False r(2) Cons.prems(2)
      by (auto simp: acked_key_Cons split: if_splits)
  qed
qed simp

text \<open>Where a pending switch is committed: the first key frame of the target after its acknowledgement.\<close>

definition commit_decision :: "int \<Rightarrow> decision" where
  "commit_decision d = \<lparr>d_acceptFrame = True, d_publishDisplay = True, d_display = d\<rparr>"

lemma pending_commit:
  assumes "0 \<le> d" "g_pendingDisplay g = d" "gate_run xs g = (ds, g2)"
    and "g_acknowledgementSeen g \<and> ObsFrame d True \<in> set xs \<or> acked_key d xs"
  shows "\<exists>a c. xs = a @ ObsFrame d True # c \<and>
     \<not> (g_acknowledgementSeen g \<and> ObsFrame d True \<in> set a \<or> acked_key d a) \<and>
     (\<forall>dec\<in>set (take (length a) ds). dec = no_decision) \<and> ds ! length a = commit_decision d \<and>
     g_confirmedDisplay (snd (gate_run (a @ [ObsFrame d True]) g)) = d"
  using assms
proof (induction xs arbitrary: g ds)
  case (Cons x xs)
  obtain dec g1 where o1: "observe x g = (dec, g1)" by fastforce
  obtain ds1 where r: "gate_run xs g1 = (ds1, g2)" "ds = dec # ds1"
    using Cons.prems(3) o1 by (auto split: prod.splits)
  show ?case
  proof (cases "x = ObsFrame d True \<and> g_acknowledgementSeen g")
    case True
    then have "dec = commit_decision d" "g_confirmedDisplay g1 = d"
      using o1 Cons.prems(1,2) by (auto simp: observe_def observeFrame_def commit_decision_def)
    then show ?thesis using True o1 r(2) by (intro exI [of _ "[]"] exI [of _ xs]) simp
  next
    case False
    then have g1: "g_pendingDisplay g1 = d" "dec = no_decision"
        "g_acknowledgementSeen g1 = (g_acknowledgementSeen g \<or> x = ObsDisplay d)"
      using o1 Cons.prems(1,2) by (cases x; auto simp: observe_def observeDisplay_def observeFrame_def split: if_splits)+
    have "g_acknowledgementSeen g1 \<and> ObsFrame d True \<in> set xs \<or> acked_key d xs"
      using Cons.prems(4) False g1(3) by (auto simp: acked_key_Cons)
    from Cons.IH [OF Cons.prems(1) g1(1) r(1) this] obtain a c where a: "xs = a @ ObsFrame d True # c"
        "\<not> (g_acknowledgementSeen g1 \<and> ObsFrame d True \<in> set a \<or> acked_key d a)"
        "\<forall>dec\<in>set (take (length a) ds1). dec = no_decision" "ds1 ! length a = commit_decision d"
        "g_confirmedDisplay (snd (gate_run (a @ [ObsFrame d True]) g1)) = d" by blast
    show ?thesis
      using a g1 False o1 r(2)
      by (intro exI [of _ "x # a"] exI [of _ c]) (auto simp: acked_key_Cons split: prod.splits)
  qed
qed simp

text \<open>The display shown after a list of decisions: the one published last.\<close>

fun last_shown :: "int \<Rightarrow> decision list \<Rightarrow> int" where
  "last_shown shown [] = shown"
| "last_shown shown (dec # ds) = last_shown (if d_publishDisplay dec then d_display dec else shown) ds"

lemma observe_shown:
  "observe x g = (dec, g1) \<Longrightarrow>
   g_confirmedDisplay g1 = (if d_publishDisplay dec then d_display dec else g_confirmedDisplay g)"
  by (cases x) (auto simp: observe_def observeDisplay_def observeFrame_def no_decision_def Let_def split: if_splits)

lemma run_shown:
  "gate_run xs g = (ds, g2) \<Longrightarrow> g_confirmedDisplay g2 = last_shown (g_confirmedDisplay g) ds"
proof (induction xs arbitrary: g ds)
  case (Cons x xs)
  obtain dec g1 where o1: "observe x g = (dec, g1)" by fastforce
  show ?case using Cons.IH [of g1] Cons.prems o1 observe_shown [OF o1] by (auto split: prod.splits)
qed simp

section \<open>Properties\<close>

text \<open>
  C16. A display switch is committed exactly when, after it began, the target display was acknowledged and a
  key frame of it came after that. It is committed by the first such frame: that frame is accepted and
  published as the target display, which becomes the confirmed one, the switch's generation becomes
  ready and input is released. Until then input stays blocked, nothing is shown or published and the
  old display stays confirmed, whatever other reports and frames arrive; and always the confirmed
  display is the one published last.
\<close>

theorem switch_commits_iff:
  assumes "0 \<le> d" and "gate_begin d g = (generation, g1)"
  shows "case gate_run xs g1 of (ds, g2) \<Rightarrow>
    g_confirmedDisplay g2 = last_shown (g_confirmedDisplay g) ds \<and>
    (if acked_key d xs
     then \<not> inputBlocked g2 \<and> g_readyGeneration g2 = generation \<and>
       (\<exists>a c. xs = a @ ObsFrame d True # c \<and> \<not> acked_key d a \<and>
          (\<forall>dec\<in>set (take (length a) ds). \<not> d_acceptFrame dec \<and> \<not> d_publishDisplay dec) \<and>
          ds ! length a = \<lparr>d_acceptFrame = True, d_publishDisplay = True, d_display = d\<rparr> \<and>
          g_confirmedDisplay (snd (gate_run (a @ [ObsFrame d True]) g1)) = d)
     else inputBlocked g2 \<and> g_pendingDisplay g2 = d \<and> g_confirmedDisplay g2 = g_confirmedDisplay g \<and>
       g_readyGeneration g2 = g_readyGeneration g \<and>
       (\<forall>dec\<in>set ds. \<not> d_acceptFrame dec \<and> \<not> d_publishDisplay dec))"
proof -
  obtain ds g2 where r: "gate_run xs g1 = (ds, g2)" by fastforce
  have g1: "g_pendingDisplay g1 = d" "\<not> g_acknowledgementSeen g1" "g_generation g1 = generation"
      "g_confirmedDisplay g1 = g_confirmedDisplay g" "g_readyGeneration g1 = g_readyGeneration g"
    using assms(2) by (auto simp: gate_begin_def Let_def)
  note p = pending_run [OF assms(1) g1(1) r] and n = no_decision_def
  show ?thesis
  proof (cases "acked_key d xs")
    case True
    with pending_commit [OF assms(1) g1(1) r] g1(2)
    obtain a c where ac: "xs = a @ ObsFrame d True # c" "\<not> acked_key d a"
        "\<forall>dec\<in>set (take (length a) ds). dec = no_decision" "ds ! length a = commit_decision d"
        "g_confirmedDisplay (snd (gate_run (a @ [ObsFrame d True]) g1)) = d" by auto
    have "\<not> d_acceptFrame dec \<and> \<not> d_publishDisplay dec" if "dec \<in> set (take (length a) ds)" for dec
      using bspec [OF ac(3) that] by (simp add: n)
    with ac have ex: "\<exists>a c. xs = a @ ObsFrame d True # c \<and> \<not> acked_key d a \<and>
        (\<forall>dec\<in>set (take (length a) ds). \<not> d_acceptFrame dec \<and> \<not> d_publishDisplay dec) \<and>
        ds ! length a = \<lparr>d_acceptFrame = True, d_publishDisplay = True, d_display = d\<rparr> \<and>
        g_confirmedDisplay (snd (gate_run (a @ [ObsFrame d True]) g1)) = d"
      unfolding commit_decision_def by blast
    show ?thesis using p True g1 run_shown [OF r] ex by (simp add: r inputBlocked_def)
  next
    case False
    with p g1 run_shown [OF r] assms(1) show ?thesis by (auto simp: r inputBlocked_def n)
  qed
qed

lemma switch_commits_iff_witness:
  "case gate_run [ObsFrame 0 True, ObsFrame 1 True, ObsDisplay 1, ObsFrame 1 False, ObsFrame 1 True]
      (snd (gate_begin 1 gate_reset)) of (ds, g2) \<Rightarrow>
    \<not> inputBlocked g2 \<and> (\<exists>i. ds ! i = \<lparr>d_acceptFrame = True, d_publishDisplay = True, d_display = 1\<rparr>)"
proof -
  let ?xs = "[ObsFrame 0 True, ObsFrame 1 True, ObsDisplay 1, ObsFrame 1 False, ObsFrame 1 True]"
  have k: "acked_key 1 ?xs" by (simp add: acked_key_Cons)
  obtain gen g1 where b: "gate_begin 1 gate_reset = (gen, g1)" by fastforce
  obtain ds g2 where r: "gate_run ?xs g1 = (ds, g2)" by fastforce
  have "0 \<le> (1 :: int)" by simp
  from switch_commits_iff [OF this b, of ?xs] k
  show ?thesis unfolding b snd_conv r prod.case by (auto simp only: if_True simp_thms)
qed

text \<open>
  A refused switch is undone without touching a newer one: when the FFI call refuses, the gate is
  released if this switch is still the latest, and is left exactly as the call made it if another
  switch began meanwhile; a refused or impossible switch never leaves its own display pending.
\<close>

lemma refused_switch_undone:
  assumes "0 \<le> d" and "gate_begin d g = (generation, g1)" and "switchDisplay h d g1 = (False, g2)"
  shows "case beginDisplaySwitchWithHandle d (Some h) switchDisplay g of ((accepted, gen), g3) \<Rightarrow>
    \<not> accepted \<and> gen = generation \<and>
    (if g_generation g2 = generation then \<not> inputBlocked g3 \<and> g_confirmedDisplay g3 = g_confirmedDisplay g2
     else g3 = g2)"
  using assms by (auto simp: beginDisplaySwitchWithHandle_def gate_reject_def inputBlocked_def)

lemma refused_switch_undone_witness:
  "\<not> inputBlocked (snd (beginDisplaySwitchWithHandle 2 (Some 7) (\<lambda>_ _ g. (False, g)) gate_reset))"
proof -
  obtain gen g1 where b: "gate_begin 2 gate_reset = (gen, g1)" by fastforce
  have "g_generation g1 = gen" using b by (auto simp: gate_begin_def Let_def)
  moreover have "0 \<le> (2 :: int)" by simp
  ultimately show ?thesis
    using refused_switch_undone [OF _ b, of "\<lambda>_ _ g. (False, g)" 7 g1] by (auto split: prod.splits)
qed

text \<open>
  C17. No FFI call uses a freed client: in every interleaving of calls holding leases, attaching, detaching
  and freeing, the handle in a lease is the attached one, and neither it nor the attached handle has
  been given up for freeing or freed.
\<close>

theorem no_use_after_free:
  assumes "ffi_reachable f" and "(t, Some h) \<in> set (fg_leases f)"
  shows "fg_handle f = Some h \<and> h \<notin> set (fg_freed f) \<and> h \<notin> set (fg_detached f)"
  using ffi_reachable_inv [OF assms(1)] assms(2) by (auto simp: ffi_inv_def)

lemma no_use_after_free_witness:
  "\<exists>f. ffi_reachable f \<and> fg_freed f = [3] \<and> (1, Some 4) \<in> set (fg_leases f) \<and> fg_handle f = Some 4 \<and>
     4 \<notin> set (fg_freed f)"
proof -
  have r1: "ffi_reachable (ffi_init\<lparr>fg_handle := Some 3\<rparr>)"
    using reach_step [OF reach_init ffi_attach [of ffi_init "Some 3"]]
    by (simp add: ffi_init_def handle_attach_def)
  have r2: "ffi_reachable (ffi_init\<lparr>fg_detached := [3]\<rparr>)"
    using reach_step [OF r1 ffi_detach] by (simp add: ffi_init_def handle_detach_def keep_detached_def)
  have r3: "ffi_reachable (ffi_init\<lparr>fg_freed := [3]\<rparr>)"
    using reach_step [OF r2 ffi_free [of 3]] by (simp add: ffi_init_def)
  have r4: "ffi_reachable (ffi_init\<lparr>fg_freed := [3], fg_handle := Some 4\<rparr>)"
    using reach_step [OF r3 ffi_attach [of _ "Some 4"]] by (simp add: ffi_init_def handle_attach_def)
  have r5: "ffi_reachable (ffi_init\<lparr>fg_freed := [3], fg_handle := Some 4, fg_leases := [(1, Some 4)]\<rparr>)"
    using reach_step [OF r4 ffi_acquire [of 1]] by (simp add: ffi_init_def handle_acquire_def)
  have m: "(1, Some 4) \<in> set (fg_leases (ffi_init\<lparr>fg_freed := [3], fg_handle := Some 4, fg_leases := [(1, Some 4)]\<rparr>))"
    by simp
  from no_use_after_free [OF r5 m] r5 m show ?thesis
    by (intro exI [of _ "ffi_init\<lparr>fg_freed := [3], fg_handle := Some 4, fg_leases := [(1, Some 4)]\<rparr>"]) simp
qed

end
