(* ===== verification/Handle_Registry.thy ===== *)
theory Handle_Registry
  imports Prelude
begin

text \<open>
  \<open>render/opaque_handle_registry.h\<close>: public handles are tokens, never addresses. The registry maps a
  token to an entry that owns the native object and knows the session it belongs to. Registry
  operations run under one mutex and are one function each; a lease is a shared lock on the entry's
  operation mutex, and \<open>destroy\<close> first removes the entry and then waits for the leases, so it is two
  steps of the relation at the end. Objects are numbered; a null object is \<open>None\<close>. Tokens are
  \<open>int64_t\<close> values, the counter is a \<open>uint64_t\<close> that wraps.
\<close>

section \<open>Identities and entries\<close>

record identity =
  id_session :: u64
  id_generation :: u64
  id_owner :: u64

definition id_valid :: "identity \<Rightarrow> bool" where
  "id_valid i \<longleftrightarrow> id_session i \<noteq> 0 \<and> id_generation i \<noteq> 0 \<and> id_owner i \<noteq> 0"

definition SessionOwnerMatches :: "identity \<Rightarrow> identity \<Rightarrow> bool" where
  "SessionOwnerMatches active candidate \<longleftrightarrow> id_valid active \<and> id_valid candidate \<and> active = candidate"

definition no_identity :: identity where
  "no_identity = \<lparr>id_session = 0, id_generation = 0, id_owner = 0\<rparr>"

record entry =
  en_object :: "nat option"
  en_boundOwner :: identity
  en_generation :: u64
  en_active :: bool
  en_detached :: bool
  en_destroying :: bool

definition new_entry :: "nat \<Rightarrow> identity \<Rightarrow> entry" where
  "new_entry obj i = \<lparr>en_object = Some obj, en_boundOwner = i, en_generation = id_generation i,
     en_active = id_valid i, en_detached = \<not> id_valid i, en_destroying = False\<rparr>"

record registry =
  rg_next :: u64
  rg_entries :: "int \<Rightarrow> entry option"

definition new_registry :: registry where
  "new_registry = \<lparr>rg_next = 1, rg_entries = (\<lambda>_. None)\<rparr>"

section \<open>Operations\<close>

text \<open>The search for a token: \<open>fetch_add\<close> until a positive, free 63-bit value comes.\<close>

definition token_usable :: "(int \<Rightarrow> entry option) \<Rightarrow> u64 \<Rightarrow> bool" where
  "token_usable es raw \<longleftrightarrow> \<not> (raw = 0 \<or> raw > 0x7FFFFFFFFFFFFFFF) \<and> es (uint raw) = None"

partial_function (option) find_token :: "(int \<Rightarrow> entry option) \<Rightarrow> u64 \<Rightarrow> u64 option" where
  "find_token es raw = (if token_usable es raw then Some raw else find_token es (raw + 1))"

definition registerObject :: "nat option \<Rightarrow> identity \<Rightarrow> registry \<Rightarrow> (int \<times> registry) option" where
  "registerObject obj owner r = (case obj of
     None \<Rightarrow> Some (0, r)
   | Some b \<Rightarrow> (case find_token (rg_entries r) (rg_next r) of
         None \<Rightarrow> None
       | Some raw \<Rightarrow> Some (uint raw, r\<lparr>rg_next := raw + 1,
             rg_entries := (rg_entries r)(uint raw \<mapsto> new_entry b owner)\<rparr>)))"

definition findLocked :: "int \<Rightarrow> registry \<Rightarrow> entry option" where
  "findLocked token r = (if token \<le> 0 then None else rg_entries r token)"

definition registry_bind :: "int \<Rightarrow> identity \<Rightarrow> registry \<Rightarrow> bool \<times> registry" where
  "registry_bind token owner r =
     (if \<not> id_valid owner then (False, r)
      else case findLocked token r of
        None \<Rightarrow> (False, r)
      | Some e \<Rightarrow>
          if en_destroying e \<or> (id_valid (en_boundOwner e) \<and> en_boundOwner e \<noteq> owner) then (False, r)
          else (True, r\<lparr>rg_entries := (rg_entries r)(token \<mapsto> e\<lparr>en_boundOwner := owner,
                  en_generation := id_generation owner, en_active := True, en_detached := False\<rparr>)\<rparr>))"

definition registry_deactivate :: "int \<Rightarrow> identity \<Rightarrow> registry \<Rightarrow> bool \<times> registry" where
  "registry_deactivate token owner r =
     (if \<not> id_valid owner then (False, r)
      else case findLocked token r of
        None \<Rightarrow> (False, r)
      | Some e \<Rightarrow>
          if en_destroying e \<or> en_boundOwner e \<noteq> owner then (False, r)
          else (True, r\<lparr>rg_entries := (rg_entries r)(token \<mapsto> e\<lparr>en_active := False, en_detached := True\<rparr>)\<rparr>))"

text \<open>The object of the lease, when one is given.\<close>

definition registry_acquire :: "int \<Rightarrow> identity \<Rightarrow> registry \<Rightarrow> nat option" where
  "registry_acquire token owner r =
     (if token \<le> 0 \<or> \<not> id_valid owner then None
      else case findLocked token r of
        None \<Rightarrow> None
      | Some e \<Rightarrow>
          if en_destroying e \<or> \<not> en_active e \<or> en_detached e \<or> en_boundOwner e \<noteq> owner then None
          else en_object e)"

definition registry_retain :: "int \<Rightarrow> registry \<Rightarrow> nat option" where
  "registry_retain token r = (case findLocked token r of
     None \<Rightarrow> None | Some e \<Rightarrow> if en_destroying e then None else en_object e)"

text \<open>\<open>order\<close> is the order in which the unordered map iterates over its tokens.\<close>

fun find_by_owner :: "registry \<Rightarrow> identity \<Rightarrow> int list \<Rightarrow> int \<Rightarrow> int" where
  "find_by_owner r owner [] cand = cand"
| "find_by_owner r owner (token # ts) cand = (case rg_entries r token of
      None \<Rightarrow> find_by_owner r owner ts cand
    | Some e \<Rightarrow>
        if en_destroying e \<or> en_boundOwner e \<noteq> owner then find_by_owner r owner ts cand
        else if en_active e \<and> \<not> en_detached e then token
        else find_by_owner r owner ts (if cand = 0 then token else cand))"

definition findTokenByOwner :: "int list \<Rightarrow> identity \<Rightarrow> registry \<Rightarrow> int" where
  "findTokenByOwner order owner r = (if \<not> id_valid owner then 0 else find_by_owner r owner order 0)"

text \<open>The first half of \<open>destroyInternal\<close>: the entry that was removed, marked.\<close>

definition destroy_begin :: "int \<Rightarrow> identity option \<Rightarrow> registry \<Rightarrow> (entry \<times> registry) option" where
  "destroy_begin token expectedOwner r = (case findLocked token r of
     None \<Rightarrow> None
   | Some e \<Rightarrow>
       if en_destroying e \<or> (case expectedOwner of None \<Rightarrow> False | Some i \<Rightarrow> en_boundOwner e \<noteq> i) then None
       else Some (e\<lparr>en_active := False, en_detached := True, en_destroying := True\<rparr>,
                  r\<lparr>rg_entries := (rg_entries r)(token := None)\<rparr>))"

section \<open>Registration ends\<close>

lemma find_token_step:
  "\<not> token_usable es raw \<Longrightarrow> find_token es raw = find_token es (raw + 1)"
  "token_usable es raw \<Longrightarrow> find_token es raw = Some raw"
  by (subst find_token.simps, simp)+

lemma find_token_Some:
  assumes "token_usable es (raw + of_nat k)"
  shows "\<exists>j\<le>k. find_token es raw = Some (raw + of_nat j) \<and> token_usable es (raw + of_nat j)"
  using assms
proof (induction k arbitrary: raw)
  case 0
  then show ?case by (simp add: find_token_step)
next
  case (Suc k)
  show ?case
  proof (cases "token_usable es raw")
    case True
    then show ?thesis by (intro exI [of _ 0]) (simp add: find_token_step)
  next
    case False
    have "token_usable es (raw + 1 + of_nat k)" using Suc.prems by (simp add: ac_simps)
    from Suc.IH [OF this] obtain j where "j \<le> k" "find_token es (raw + 1) = Some (raw + 1 + of_nat j)"
        "token_usable es (raw + 1 + of_nat j)" by blast
    with False show ?thesis by (intro exI [of _ "Suc j"]) (simp add: find_token_step ac_simps)
  qed
qed

lemma find_token_total:
  assumes "token_usable es t"
  shows "\<exists>raw'. find_token es raw = Some raw' \<and> token_usable es raw'"
proof -
  have "t = raw + of_nat (unat (t - raw))" by (simp add: unat_of_nat)
  then show ?thesis using find_token_Some [of es raw "unat (t - raw)"] assms by auto
qed

lemma find_token_usable: "token_usable es raw \<Longrightarrow> find_token es raw = Some raw"
  by (rule find_token_step(2))

lemma find_token_result: "find_token es raw = Some x \<Longrightarrow> token_usable es x"
  by (rule find_token.raw_induct [of "\<lambda>es raw x. token_usable es x"]) (auto split: if_split_asm)

lemma register_result:
  assumes "registerObject (Some b) i r = Some (token, r')"
  shows "rg_entries r token = None" "rg_entries r' = (rg_entries r)(token \<mapsto> new_entry b i)"
  using assms find_token_result [of "rg_entries r" "rg_next r"]
  by (auto simp: registerObject_def token_usable_def split: option.splits)

section \<open>Leases and destruction\<close>

text \<open>
  Every registration allocates its own entry. A lease and a waiting \<open>destroy\<close> hold a pointer to the
  entry, not its token: the counter wraps, so a token may be given out again while an old entry that
  had it still waits for its leases. The entries are numbered in the order of their allocation:
  \<open>rs_ids\<close> is the entry a token of the map points to, \<open>rs_allocated\<close> (ghost) the number of entries
  allocated, \<open>rs_dying\<close> the entries removed by a \<open>destroy\<close> that still waits for the leases, \<open>rs_given\<close>
  the entries whose object a \<open>destroy\<close> has returned, with that object.
\<close>

record reg_state =
  rs_reg :: registry
  rs_ids :: "int \<Rightarrow> nat"
  rs_allocated :: nat
  rs_leases :: "(nat \<times> nat \<times> nat) list"
  rs_dying :: "(nat \<times> entry) list"
  rs_given :: "(nat \<times> nat) list"

definition reg_init :: reg_state where
  "reg_init = \<lparr>rs_reg = new_registry, rs_ids = (\<lambda>_. 0), rs_allocated = 0, rs_leases = [], rs_dying = [],
     rs_given = []\<rparr>"

definition registered :: "int \<Rightarrow> registry \<Rightarrow> reg_state \<Rightarrow> reg_state" where
  "registered token r' s = s\<lparr>rs_reg := r', rs_ids := (rs_ids s)(token := rs_allocated s),
     rs_allocated := Suc (rs_allocated s)\<rparr>"

text \<open>The second half of \<open>destroyInternal\<close>, when the exclusive lock is granted.\<close>

definition destroy_take :: "nat \<Rightarrow> entry \<Rightarrow> reg_state \<Rightarrow> reg_state" where
  "destroy_take n e s = s\<lparr>rs_dying := filter (\<lambda>p. fst p \<noteq> n) (rs_dying s),
     rs_given := (case en_object e of None \<Rightarrow> rs_given s | Some b \<Rightarrow> (n, b) # rs_given s)\<rparr>"

inductive reg_step :: "reg_state \<Rightarrow> reg_state \<Rightarrow> bool" where
  rs_register: "registerObject (Some b) i (rs_reg s) = Some (token, r') \<Longrightarrow> reg_step s (registered token r' s)"
| rs_bind: "reg_step s (s\<lparr>rs_reg := snd (registry_bind token i (rs_reg s))\<rparr>)"
| rs_deactivate: "reg_step s (s\<lparr>rs_reg := snd (registry_deactivate token i (rs_reg s))\<rparr>)"
| rs_acquire: "registry_acquire token i (rs_reg s) = Some b \<Longrightarrow>
    reg_step s (s\<lparr>rs_leases := (t, rs_ids s token, b) # rs_leases s\<rparr>)"
| rs_release: "reg_step s (s\<lparr>rs_leases := remove1 l (rs_leases s)\<rparr>)"
| rs_destroy: "destroy_begin token ow (rs_reg s) = Some (e, r') \<Longrightarrow>
    reg_step s (s\<lparr>rs_reg := r', rs_dying := (rs_ids s token, e) # rs_dying s\<rparr>)"
| rs_take: "(n, e) \<in> set (rs_dying s) \<Longrightarrow> (\<And>l. l \<in> set (rs_leases s) \<Longrightarrow> fst (snd l) \<noteq> n) \<Longrightarrow>
    reg_step s (destroy_take n e s)"

inductive reg_reachable :: "reg_state \<Rightarrow> bool" where
  reg_start: "reg_reachable reg_init"
| reg_next: "reg_reachable s \<Longrightarrow> reg_step s s' \<Longrightarrow> reg_reachable s'"

text \<open>Entry number \<open>n\<close> is the one \<open>e\<close>, reached through a token or waiting for its leases.\<close>

definition entry_is :: "reg_state \<Rightarrow> nat \<Rightarrow> entry \<Rightarrow> bool" where
  "entry_is s n e \<longleftrightarrow> (\<exists>tok. rg_entries (rs_reg s) tok = Some e \<and> rs_ids s tok = n) \<or> (n, e) \<in> set (rs_dying s)"

definition owns_object :: "reg_state \<Rightarrow> nat \<Rightarrow> nat \<Rightarrow> bool" where
  "owns_object s n b \<longleftrightarrow> (\<exists>e. entry_is s n e \<and> en_object e = Some b)"

definition live_ids :: "reg_state \<Rightarrow> nat set" where
  "live_ids s = rs_ids s ` {tok. rg_entries (rs_reg s) tok \<noteq> None}"

definition ids_inv :: "reg_state \<Rightarrow> bool" where
  "ids_inv s \<longleftrightarrow> inj_on (rs_ids s) {tok. rg_entries (rs_reg s) tok \<noteq> None} \<and>
     live_ids s \<union> fst ` set (rs_dying s) \<union> fst ` set (rs_given s) \<subseteq> {..<rs_allocated s} \<and>
     live_ids s \<inter> fst ` set (rs_dying s) = {} \<and> live_ids s \<inter> fst ` set (rs_given s) = {} \<and>
     fst ` set (rs_dying s) \<inter> fst ` set (rs_given s) = {} \<and>
     distinct (map fst (rs_dying s)) \<and> distinct (map fst (rs_given s))"

lemma ids_invD:
  assumes "ids_inv s"
  shows "inj_on (rs_ids s) {tok. rg_entries (rs_reg s) tok \<noteq> None}"
    "live_ids s \<union> fst ` set (rs_dying s) \<union> fst ` set (rs_given s) \<subseteq> {..<rs_allocated s}"
    "live_ids s \<inter> fst ` set (rs_dying s) = {}" "live_ids s \<inter> fst ` set (rs_given s) = {}"
    "fst ` set (rs_dying s) \<inter> fst ` set (rs_given s) = {}"
    "distinct (map fst (rs_dying s))" "distinct (map fst (rs_given s))"
  using assms by (simp_all only: ids_inv_def)

lemma ids_inv_inj:
  "ids_inv s \<Longrightarrow> rg_entries (rs_reg s) tok1 \<noteq> None \<Longrightarrow> rg_entries (rs_reg s) tok2 \<noteq> None \<Longrightarrow>
   rs_ids s tok1 = rs_ids s tok2 \<Longrightarrow> tok1 = tok2"
  using inj_onD [OF ids_invD(1), of s tok1 tok2] by simp

lemma live_idsI: "rg_entries (rs_reg s) tok = Some e \<Longrightarrow> rs_ids s tok \<in> live_ids s"
  by (auto simp: live_ids_def)

definition lease_inv :: "reg_state \<Rightarrow> bool" where
  "lease_inv s \<longleftrightarrow> (\<forall>l\<in>set (rs_leases s). owns_object s (fst (snd l)) (snd (snd l)))"

lemma bind_effect:
  "rg_next (snd (registry_bind token i r)) = rg_next r"
  "rg_entries (snd (registry_bind token i r)) tok = rg_entries r tok \<or>
   (\<exists>e. rg_entries r tok = Some e \<and> \<not> (id_valid (en_boundOwner e) \<and> en_boundOwner e \<noteq> i) \<and>
     rg_entries (snd (registry_bind token i r)) tok = Some (e\<lparr>en_boundOwner := i,
       en_generation := id_generation i, en_active := True, en_detached := False\<rparr>))"
  by (auto simp: registry_bind_def findLocked_def split: option.split)

lemma deactivate_effect:
  "rg_next (snd (registry_deactivate token i r)) = rg_next r"
  "rg_entries (snd (registry_deactivate token i r)) tok = rg_entries r tok \<or>
   (\<exists>e. rg_entries r tok = Some e \<and>
     rg_entries (snd (registry_deactivate token i r)) tok = Some (e\<lparr>en_active := False, en_detached := True\<rparr>))"
  by (auto simp: registry_deactivate_def findLocked_def split: option.split)

text \<open>Both only change the fields of an entry that exists; the object stays.\<close>

definition same_objects :: "registry \<Rightarrow> registry \<Rightarrow> bool" where
  "same_objects r r' \<longleftrightarrow> rg_next r' = rg_next r \<and>
     (\<forall>tok. map_option en_object (rg_entries r' tok) = map_option en_object (rg_entries r tok))"

lemma same_objects_ops:
  "same_objects r (snd (registry_bind token i r))" "same_objects r (snd (registry_deactivate token i r))"
  by (simp_all add: same_objects_def registry_bind_def registry_deactivate_def findLocked_def
      split: option.split)

lemma same_objects_invs:
  assumes "same_objects (rs_reg s) r'" "ids_inv s" "lease_inv s"
  shows "ids_inv (s\<lparr>rs_reg := r'\<rparr>) \<and> lease_inv (s\<lparr>rs_reg := r'\<rparr>)"
proof -
  have n: "rg_entries r' tok = None \<longleftrightarrow> rg_entries (rs_reg s) tok = None" for tok
    using assms(1) by (metis (no_types) map_option_is_None same_objects_def)
  have o1: "\<exists>e'. rg_entries r' tok = Some e' \<and> en_object e' = en_object e"
    if "rg_entries (rs_reg s) tok = Some e" for tok e
  proof -
    have "map_option en_object (rg_entries r' tok) = Some (en_object e)"
      using assms(1) that by (simp add: same_objects_def)
    then show ?thesis by auto
  qed
  have "owns_object (s\<lparr>rs_reg := r'\<rparr>) m b" if "owns_object s m b" for m b
    using that o1 by (fastforce simp: owns_object_def entry_is_def)
  then show ?thesis
    using assms(2,3) n by (simp add: lease_inv_def ids_inv_def live_ids_def)
qed

lemma registered_invs:
  assumes reg: "registerObject (Some b) i (rs_reg s) = Some (token, r')" and inv: "ids_inv s" "lease_inv s"
  shows "ids_inv (registered token r' s) \<and> lease_inv (registered token r' s)"
proof -
  note r = register_result [OF reg]
  have live: "live_ids (registered token r' s) = insert (rs_allocated s) (live_ids s)"
    using r by (auto simp: live_ids_def registered_def image_iff)
  note i = ids_invD [OF inv(1)]
  have fresh: "rs_allocated s \<notin> live_ids s" "rs_allocated s \<notin> fst ` set (rs_dying s)"
      "rs_allocated s \<notin> fst ` set (rs_given s)"
    using i(2) by blast+
  have "tok1 = tok2" if "rg_entries (rs_reg (registered token r' s)) tok1 \<noteq> None"
      "rg_entries (rs_reg (registered token r' s)) tok2 \<noteq> None"
      "rs_ids (registered token r' s) tok1 = rs_ids (registered token r' s) tok2" for tok1 tok2
  proof -
    have old: "rs_ids s tok \<noteq> rs_allocated s" if "rg_entries (rs_reg s) tok \<noteq> None" for tok
      using that fresh(1) live_idsI [of s tok] by (metis option.exhaust)
    show ?thesis
    proof (cases "tok1 = token")
      case True
      then show ?thesis using that r old [of tok2] by (cases "tok2 = token") (simp_all add: registered_def)
    next
      case False
      then show ?thesis using that r old [of tok1] ids_inv_inj [OF inv(1), of tok1 tok2]
        by (cases "tok2 = token") (simp_all add: registered_def)
    qed
  qed
  then have inj: "inj_on (rs_ids (registered token r' s)) {tok. rg_entries (rs_reg (registered token r' s)) tok \<noteq> None}"
    by (intro inj_onI) simp
  have same: "rs_dying (registered token r' s) = rs_dying s" "rs_given (registered token r' s) = rs_given s"
      "rs_allocated (registered token r' s) = Suc (rs_allocated s)" by (simp_all add: registered_def)
  have "live_ids s \<union> fst ` set (rs_dying s) \<union> fst ` set (rs_given s) \<subseteq> {..<Suc (rs_allocated s)}"
    using i(2) by (force simp: subset_iff)
  then have "ids_inv (registered token r' s)"
    unfolding ids_inv_def live same using i(3-5) fresh by (intro conjI inj i(6,7)) blast+
  moreover have "owns_object (registered token r' s) n c" if o: "owns_object s n c" for n c
  proof -
    obtain e where e: "entry_is s n e" "en_object e = Some c" using o by (auto simp: owns_object_def)
    have "entry_is (registered token r' s) n e"
    proof (cases "(n, e) \<in> set (rs_dying s)")
      case True
      then show ?thesis by (simp add: entry_is_def registered_def)
    next
      case False
      then obtain tok where tok: "rg_entries (rs_reg s) tok = Some e" "rs_ids s tok = n"
        using e(1) by (auto simp: entry_is_def)
      with r(1) have "tok \<noteq> token" by auto
      with tok r(2) have "rg_entries r' tok = Some e" "((rs_ids s)(token := rs_allocated s)) tok = n" by simp_all
      then show ?thesis unfolding entry_is_def registered_def by auto
    qed
    with e(2) show ?thesis unfolding owns_object_def by blast
  qed
  then have "lease_inv (registered token r' s)"
    using inv(2) by (auto simp: lease_inv_def registered_def)
  ultimately show ?thesis ..
qed

lemma destroyed_invs:
  assumes d: "destroy_begin token ow (rs_reg s) = Some (e, r')" and inv: "ids_inv s" "lease_inv s"
  defines "s' \<equiv> s\<lparr>rs_reg := r', rs_dying := (rs_ids s token, e) # rs_dying s\<rparr>"
  shows "ids_inv s' \<and> lease_inv s'"
proof -
  obtain e0 where e0: "rg_entries (rs_reg s) token = Some e0" "en_object e = en_object e0"
      "r' = (rs_reg s)\<lparr>rg_entries := (rg_entries (rs_reg s))(token := None)\<rparr>"
    using d by (auto simp: destroy_begin_def findLocked_def split: option.splits if_splits)
  have t: "rs_ids s token \<in> live_ids s" using e0(1) by (auto simp: live_ids_def)
  have inj: "inj_on (rs_ids s) {tok. rg_entries (rs_reg s) tok \<noteq> None}" using inv(1) by (simp add: ids_inv_def)
  have live: "live_ids s' = live_ids s - {rs_ids s token}"
    using e0 inj by (auto simp: live_ids_def s'_def inj_on_def)
  note i = ids_invD [OF inv(1)]
  have inj': "inj_on (rs_ids s') {tok. rg_entries (rs_reg s') tok \<noteq> None}"
    using inj by (auto simp: s'_def e0(3) inj_on_def)
  have same: "rs_dying s' = (rs_ids s token, e) # rs_dying s" "rs_given s' = rs_given s"
      "rs_allocated s' = rs_allocated s" by (simp_all add: s'_def)
  have "rs_ids s token \<notin> fst ` set (rs_dying s)" "rs_ids s token \<notin> fst ` set (rs_given s)"
    using t i(3,4) by blast+
  then have "ids_inv s'"
    unfolding ids_inv_def live same using i(2-7) t inj' by auto
  moreover have "owns_object s' n c" if o: "owns_object s n c" for n c
  proof -
    obtain e1 where e1: "entry_is s n e1" "en_object e1 = Some c" using o by (auto simp: owns_object_def)
    show ?thesis
    proof (cases "n = rs_ids s token \<and> (n, e1) \<notin> set (rs_dying s)")
      case True
      then obtain tok where "rg_entries (rs_reg s) tok = Some e1" "rs_ids s tok = rs_ids s token"
        using e1(1) by (auto simp: entry_is_def)
      then have "tok = token" using e0(1) by (intro ids_inv_inj [OF inv(1)]) simp_all
      then have "e1 = e0" using \<open>rg_entries (rs_reg s) tok = Some e1\<close> e0(1) by simp
      then have "entry_is s' n e" "en_object e = Some c"
        using True e0(2) e1(2) by (auto simp: entry_is_def s'_def)
      then show ?thesis unfolding owns_object_def by blast
    next
      case False
      then have "entry_is s' n e1" using e1(1) by (auto simp: entry_is_def s'_def e0(3))
      with e1(2) show ?thesis unfolding owns_object_def by blast
    qed
  qed
  then have "lease_inv s'" using inv(2) by (auto simp: lease_inv_def s'_def)
  ultimately show ?thesis ..
qed

lemma taken_invs:
  assumes m: "(n, e) \<in> set (rs_dying s)" and free: "\<And>l. l \<in> set (rs_leases s) \<Longrightarrow> fst (snd l) \<noteq> n"
    and inv: "ids_inv s" "lease_inv s"
  shows "ids_inv (destroy_take n e s) \<and> lease_inv (destroy_take n e s)"
proof -
  let ?s' = "destroy_take n e s"
  have t: "n \<in> fst ` set (rs_dying s)" using m by force
  have same: "live_ids ?s' = live_ids s" "rs_reg ?s' = rs_reg s" "rs_ids ?s' = rs_ids s"
      "rs_allocated ?s' = rs_allocated s" "rs_leases ?s' = rs_leases s"
      "fst ` set (rs_dying ?s') = fst ` set (rs_dying s) - {n}"
    by (auto simp: destroy_take_def live_ids_def split: option.splits)
  note i = ids_invD [OF inv(1)]
  have "n \<notin> fst ` set (rs_given s)" using t i(5) by blast
  then have g: "fst ` set (rs_given ?s') \<subseteq> insert n (fst ` set (rs_given s))" "distinct (map fst (rs_given ?s'))"
    using i(7) by (auto simp: destroy_take_def split: option.splits)
  have d: "distinct (map fst (rs_dying ?s'))"
    using i(6) by (simp add: destroy_take_def distinct_map_filter)
  have "ids_inv ?s'"
    unfolding ids_inv_def same
    using i(2-5) t g(1) by (intro conjI i(1) g(2) d) blast+
  moreover have "owns_object ?s' k c" if "owns_object s k c" "k \<noteq> n" for k c
    using that by (auto simp: owns_object_def entry_is_def destroy_take_def)
  then have "lease_inv ?s'" using inv(2) free by (auto simp: lease_inv_def same)
  ultimately show ?thesis ..
qed

lemma step_invs:
  assumes "reg_step s s'" "ids_inv s" "lease_inv s"
  shows "ids_inv s' \<and> lease_inv s'"
  using assms
proof (induction rule: reg_step.induct)
  case (rs_acquire token i s b t)
  then obtain e where "rg_entries (rs_reg s) token = Some e" "en_object e = Some b"
    by (auto simp: registry_acquire_def findLocked_def split: option.splits if_splits)
  then have "owns_object s (rs_ids s token) b" by (auto simp: owns_object_def entry_is_def)
  then show ?case
    using rs_acquire by (simp add: ids_inv_def lease_inv_def live_ids_def owns_object_def entry_is_def)
next
  case (rs_release s l)
  then show ?case using set_remove1_subset [of l "rs_leases s"]
    by (auto simp: ids_inv_def lease_inv_def live_ids_def owns_object_def entry_is_def)
next
  case (rs_register b i s token r')
  then show ?case by (rule registered_invs)
next
  case (rs_bind s token i)
  then show ?case by (rule same_objects_invs [OF same_objects_ops(1)])
next
  case (rs_deactivate s token i)
  then show ?case by (rule same_objects_invs [OF same_objects_ops(2)])
next
  case (rs_destroy token ow s e r')
  then show ?case by (rule destroyed_invs)
next
  case (rs_take n e s)
  then show ?case by (rule taken_invs)
qed

lemma reachable_invs: "reg_reachable s \<Longrightarrow> ids_inv s \<and> lease_inv s"
proof (induction rule: reg_reachable.induct)
  case reg_start
  show ?case by (simp add: ids_inv_def lease_inv_def live_ids_def reg_init_def new_registry_def)
next
  case (reg_next s s')
  then show ?case using step_invs by blast
qed

section \<open>Properties\<close>

text \<open>
  C18. A lease keeps its object: in every interleaving of registrations, bindings, leases and
  destructions, also across the wrap of the token counter, the object of a held lease still belongs to
  the entry the lease was taken on, and that entry's object has not been handed to a destroyer; two
  tokens never lead to the same entry, a token in the map never to one that is being destroyed, and
  the object of an entry is handed to a destroyer at most once.
\<close>

theorem lease_keeps_object:
  assumes "reg_reachable s"
  shows "(\<forall>t n b. (t, n, b) \<in> set (rs_leases s) \<longrightarrow> owns_object s n b \<and> n \<notin> fst ` set (rs_given s)) \<and>
    (\<forall>tok1 tok2. rg_entries (rs_reg s) tok1 \<noteq> None \<longrightarrow> rg_entries (rs_reg s) tok2 \<noteq> None \<longrightarrow>
       rs_ids s tok1 = rs_ids s tok2 \<longrightarrow> tok1 = tok2) \<and>
    (\<forall>tok. rg_entries (rs_reg s) tok \<noteq> None \<longrightarrow>
       rs_ids s tok \<notin> fst ` set (rs_dying s) \<union> fst ` set (rs_given s)) \<and>
    distinct (map fst (rs_given s))"
proof -
  have i: "ids_inv s" "lease_inv s" using reachable_invs [OF assms] by blast+
  note d = ids_invD [OF i(1)]
  have o1: "n \<notin> fst ` set (rs_given s)" if "owns_object s n b" for n b
  proof -
    have "n \<in> live_ids s \<or> n \<in> fst ` set (rs_dying s)"
      using that by (force simp: owns_object_def entry_is_def live_ids_def)
    then show ?thesis using d(4,5) by blast
  qed
  have o2: "rs_ids s tok \<notin> fst ` set (rs_dying s) \<union> fst ` set (rs_given s)"
    if "rg_entries (rs_reg s) tok \<noteq> None" for tok
  proof -
    have "rs_ids s tok \<in> live_ids s" using that live_idsI by blast
    then show ?thesis using d(3,4) by blast
  qed
  have "owns_object s n b" if "(t, n, b) \<in> set (rs_leases s)" for t n b
    using i(2) that by (auto simp: lease_inv_def)
  then show ?thesis using o1 o2 ids_inv_inj [OF i(1)] d(7) by blast
qed

definition owner_a :: identity where
  "owner_a = \<lparr>id_session = 1, id_generation = 2, id_owner = 3\<rparr>"

lemma lease_keeps_object_witness:
  "\<exists>s. reg_reachable s \<and> (7, 0, 5) \<in> set (rs_leases s) \<and> rg_entries (rs_reg s) 1 = None \<and> owns_object s 0 5"
proof -
  define r1 where "r1 = \<lparr>rg_next = 2, rg_entries = [1 \<mapsto> new_entry 5 owner_a]\<rparr>"
  have reg: "registerObject (Some 5) owner_a new_registry = Some (1, r1)"
    by (simp add: registerObject_def find_token_usable token_usable_def new_registry_def r1_def)
  define s1 where "s1 = registered 1 r1 reg_init"
  have s1: "reg_reachable s1"
    using reg_next [OF reg_start rs_register [of 5 owner_a reg_init 1 r1]] reg
    by (simp add: reg_init_def s1_def)
  have acq: "registry_acquire 1 owner_a r1 = Some 5"
    by (simp add: registry_acquire_def findLocked_def r1_def new_entry_def id_valid_def owner_a_def)
  define s2 where "s2 = s1\<lparr>rs_leases := [(7, 0, 5)]\<rparr>"
  have s2: "reg_reachable s2"
    using reg_next [OF s1 rs_acquire [of 1 owner_a s1 5 7]] acq
    by (simp add: s2_def s1_def registered_def reg_init_def)
  obtain e r2 where d: "destroy_begin 1 None r1 = Some (e, r2)" "rg_entries r2 1 = None"
    by (simp add: destroy_begin_def findLocked_def r1_def new_entry_def)
  define s3 where "s3 = s2\<lparr>rs_reg := r2, rs_dying := [(0, e)]\<rparr>"
  have s3: "reg_reachable s3"
    using reg_next [OF s2 rs_destroy [of 1 None s2 e r2]] d
    by (simp add: s3_def s2_def s1_def registered_def reg_init_def)
  have "(7, 0, 5) \<in> set (rs_leases s3)" "rg_entries (rs_reg s3) 1 = None"
    using d(2) by (simp_all add: s3_def s2_def)
  with lease_keeps_object [OF s3] s3 show ?thesis by blast
qed

text \<open>
  C19. A token's owner never changes once it is bound to a session: whatever happens, as long as the token
  exists its entry keeps that identity, so no other session can lease, deactivate or rebind it.
\<close>

theorem bound_owner_immutable:
  assumes "reg_reachable s" "reg_step s s'"
    and "rg_entries (rs_reg s) tok = Some e" "id_valid (en_boundOwner e)"
  shows "case rg_entries (rs_reg s') tok of
      None \<Rightarrow> True
    | Some e' \<Rightarrow> en_boundOwner e' = en_boundOwner e \<and>
        (\<forall>i. i \<noteq> en_boundOwner e \<longrightarrow> registry_acquire tok i (rs_reg s') = None \<and>
           \<not> fst (registry_bind tok i (rs_reg s')) \<and> \<not> fst (registry_deactivate tok i (rs_reg s')))"
proof -
  have keep: "rg_entries (rs_reg s') tok = None \<or>
      (\<exists>e'. rg_entries (rs_reg s') tok = Some e' \<and> en_boundOwner e' = en_boundOwner e)"
    using assms(2,1,3,4)
  proof (induction rule: reg_step.induct)
    case (rs_register b i s token r')
    note r = register_result [OF rs_register(1)]
    have "tok \<noteq> token" using r(1) rs_register(3) by auto
    then show ?case using r rs_register(3) by (simp add: registered_def)
  next
    case (rs_bind s token i)
    then show ?case using bind_effect(2) [of token i "rs_reg s" tok] by auto
  next
    case (rs_deactivate s token i)
    then show ?case using deactivate_effect(2) [of token i "rs_reg s" tok] by auto
  qed (auto simp: destroy_begin_def findLocked_def destroy_take_def split: option.splits if_splits)
  then show ?thesis
    using assms(4)
    by (auto simp: registry_acquire_def registry_bind_def registry_deactivate_def findLocked_def split: option.split)
qed

lemma bound_owner_immutable_witness:
  "\<exists>s. reg_reachable s \<and> \<not> fst (registry_bind 1 (owner_a\<lparr>id_session := 9\<rparr>)
     (snd (registry_bind 1 (owner_a\<lparr>id_session := 9\<rparr>) (rs_reg s)))) \<and> rg_entries (rs_reg s) 1 \<noteq> None"
proof -
  define r1 where "r1 = \<lparr>rg_next = 2, rg_entries = [1 \<mapsto> new_entry 5 owner_a]\<rparr>"
  define s1 where "s1 = registered 1 r1 reg_init"
  have reg: "registerObject (Some 5) owner_a new_registry = Some (1, r1)"
    by (simp add: registerObject_def find_token_usable token_usable_def new_registry_def r1_def)
  have s1: "reg_reachable s1"
    using reg_next [OF reg_start rs_register [of 5 owner_a reg_init 1 r1]] reg
    by (simp add: reg_init_def s1_def)
  have e: "rg_entries (rs_reg s1) 1 = Some (new_entry 5 owner_a)" by (simp add: s1_def r1_def registered_def)
  have v: "id_valid (en_boundOwner (new_entry 5 owner_a))"
    by (simp add: new_entry_def id_valid_def owner_a_def)
  have ne: "owner_a\<lparr>id_session := 9\<rparr> \<noteq> en_boundOwner (new_entry 5 owner_a)"
    by (simp add: new_entry_def owner_a_def)
  have eq: "rs_reg (s1\<lparr>rs_reg := snd (registry_bind 1 (owner_a\<lparr>id_session := 9\<rparr>) (rs_reg s1))\<rparr>) =
      snd (registry_bind 1 (owner_a\<lparr>id_session := 9\<rparr>) (rs_reg s1))" by simp
  have "rg_entries (snd (registry_bind 1 (owner_a\<lparr>id_session := 9\<rparr>) (rs_reg s1))) 1 \<noteq> None"
    using bind_effect(2) [of 1 "owner_a\<lparr>id_session := 9\<rparr>" "rs_reg s1" 1] e by auto
  then show ?thesis
    using bound_owner_immutable [OF s1 rs_bind [of s1 1 "owner_a\<lparr>id_session := 9\<rparr>"] e v] ne s1 e eq
    by (intro exI [of _ s1]) (auto split: option.splits)
qed

text \<open>
  C20. Registration always ends: as long as one positive token is free, the search over the wrapping
  counter finds a token, and it is positive, fits the public \<open>int64_t\<close> and was not in use; no other
  entry changes.
\<close>

theorem registration_ends:
  assumes "token_usable (rg_entries r) free"
  shows "\<exists>token r'. registerObject (Some b) i r = Some (token, r') \<and> 0 < token \<and> token < 2 ^ 63 \<and>
    rg_entries r token = None \<and> rg_entries r' = (rg_entries r)(token \<mapsto> new_entry b i)"
proof -
  obtain raw where raw: "find_token (rg_entries r) (rg_next r) = Some raw" "token_usable (rg_entries r) raw"
    using find_token_total [OF assms] by blast
  then have le: "raw \<le> 0x7FFFFFFFFFFFFFFF" and "raw \<noteq> 0" by (auto simp: token_usable_def)
  then have "uint raw \<noteq> 0" by (simp add: uint_0_iff)
  then have "0 < uint raw" using uint_ge_0 [of raw] by linarith
  moreover have "uint raw < 2 ^ 63" using le by (simp add: word_le_def)
  ultimately show ?thesis using raw by (auto simp: registerObject_def token_usable_def)
qed

lemma registration_ends_witness:
  "\<exists>token r'. registerObject (Some 8) owner_a \<lparr>rg_next = - 1, rg_entries = [1 \<mapsto> new_entry 5 owner_a]\<rparr> =
     Some (token, r') \<and> 0 < token \<and> token \<noteq> 1"
proof -
  have "token_usable (rg_entries \<lparr>rg_next = - 1, rg_entries = [1 \<mapsto> new_entry 5 owner_a]\<rparr>) 2"
    by (simp add: token_usable_def)
  from registration_ends [OF this, of 8 owner_a] show ?thesis by (auto split: if_splits)
qed

end
