(* ===== verification/Vnc_Pixel.thy ===== *)
theory Vnc_Pixel
  imports Prelude
begin

text \<open>
  Pixels of the VNC client (\<open>vnc/vnc_pixel_format.h\<close> and the pixel part of
  \<open>vnc/vnc_rfb_protocol.cpp\<close>): the negotiated true-colour format, the reader over a buffer, the
  plain decoder \<open>decodePixel\<close> and the table-driven \<open>CompactPixelDecoder\<close> the rectangles are decoded
  with. The theorems show that the second computes what the first does, and that the three bytes of
  a compact pixel carry the whole colour of a four-byte pixel.

  A \<open>ByteReader\<close> is the bytes from its offset to its end; its \<open>position\<close> is what was read before.
  Both readers of the source are built on a non-null buffer.
\<close>

section \<open>Format\<close>

record pixel_format =
  pf_bitsPerPixel :: u8
  pf_depth :: u8
  pf_bigEndian :: bool
  pf_trueColor :: bool
  pf_redMax :: u16
  pf_greenMax :: u16
  pf_blueMax :: u16
  pf_redShift :: u8
  pf_greenShift :: u8
  pf_blueShift :: u8

definition default_format :: pixel_format where
  "default_format = \<lparr>pf_bitsPerPixel = 32, pf_depth = 24, pf_bigEndian = False, pf_trueColor = True,
     pf_redMax = 255, pf_greenMax = 255, pf_blueMax = 255,
     pf_redShift = 16, pf_greenShift = 8, pf_blueShift = 0\<rparr>"

function valueBits :: "u16 \<Rightarrow> nat" where
  "valueBits v = (if v = 0 then 0 else Suc (valueBits (drop_bit 1 v)))"
  by pat_completeness auto

lemma half_less: "v \<noteq> 0 \<Longrightarrow> unat (drop_bit 1 v) < unat (v :: u16)"
proof -
  assume "v \<noteq> 0"
  then have "0 < unat v" by (simp add: unat_gt_0)
  moreover have "unat (drop_bit 1 v) = unat v div 2"
    by (simp add: unat_drop_bit_eq drop_bit_eq_div unat_div)
  ultimately show ?thesis by simp
qed

termination valueBits
  by (relation "measure unat") (simp_all add: half_less del: drop_bit_Suc One_nat_def)

declare valueBits.simps [simp del]

definition redEnd :: "pixel_format \<Rightarrow> nat" where
  "redEnd f = unat (pf_redShift f) + valueBits (pf_redMax f)"

definition greenEnd :: "pixel_format \<Rightarrow> nat" where
  "greenEnd f = unat (pf_greenShift f) + valueBits (pf_greenMax f)"

definition blueEnd :: "pixel_format \<Rightarrow> nat" where
  "blueEnd f = unat (pf_blueShift f) + valueBits (pf_blueMax f)"

definition validPixelFormat :: "pixel_format \<Rightarrow> bool" where
  "validPixelFormat f \<longleftrightarrow>
     pf_trueColor f \<and> (pf_bitsPerPixel f = 8 \<or> pf_bitsPerPixel f = 16 \<or> pf_bitsPerPixel f = 32) \<and>
     pf_redMax f \<noteq> 0 \<and> pf_greenMax f \<noteq> 0 \<and> pf_blueMax f \<noteq> 0 \<and>
     redEnd f \<le> unat (pf_bitsPerPixel f) \<and> greenEnd f \<le> unat (pf_bitsPerPixel f) \<and>
     blueEnd f \<le> unat (pf_bitsPerPixel f)"

definition compactUsesHighBytes :: "pixel_format \<Rightarrow> bool" where
  "compactUsesHighBytes f \<longleftrightarrow> pf_bitsPerPixel f = 32 \<and> pf_depth f \<le> 24 \<and>
     pf_redShift f \<ge> 8 \<and> pf_greenShift f \<ge> 8 \<and> pf_blueShift f \<ge> 8"

definition compactPixelBytes :: "pixel_format \<Rightarrow> nat" where
  "compactPixelBytes f =
     (if \<not> validPixelFormat f then 0
      else if pf_bitsPerPixel f \<noteq> 32 \<or> pf_depth f > 24 then unat (pf_bitsPerPixel f div 8)
      else let lowThree = redEnd f \<le> 24 \<and> greenEnd f \<le> 24 \<and> blueEnd f \<le> 24;
               highThree = pf_redShift f \<ge> 8 \<and> pf_greenShift f \<ge> 8 \<and> pf_blueShift f \<ge> 8 \<and>
                 redEnd f \<le> 32 \<and> greenEnd f \<le> 32 \<and> blueEnd f \<le> 32
           in if lowThree \<or> highThree then 3 else 4)"

section \<open>Reader\<close>

type_synonym reader = bytes

definition readU8 :: "reader \<Rightarrow> (u8 \<times> reader) option" where
  "readU8 r = (case r of [] \<Rightarrow> None | b # r' \<Rightarrow> Some (b, r'))"

definition readBytes :: "nat \<Rightarrow> reader \<Rightarrow> (bytes \<times> reader) option" where
  "readBytes n r = (if n > length r then None else Some (take n r, drop n r))"

definition reader_skip :: "nat \<Rightarrow> reader \<Rightarrow> reader option" where
  "reader_skip n r = map_option snd (readBytes n r)"

section \<open>Plain decoding\<close>

text \<open>The two loops that assemble a pixel value from its bytes.\<close>

definition be_value :: "bytes \<Rightarrow> u32" where
  "be_value bs = foldl (\<lambda>v b. push_bit 8 v OR ucast b) 0 bs"

definition le_value :: "bytes \<Rightarrow> u32" where
  "le_value bs = foldl (\<lambda>v (i, b). v OR push_bit (i * 8) (ucast b)) 0 (enumerate 0 bs)"

definition component :: "u32 \<Rightarrow> u8 \<Rightarrow> u16 \<Rightarrow> u32" where
  "component v sh mx = drop_bit (unat sh) v AND ucast mx"

definition decodePixel :: "pixel_format \<Rightarrow> bytes option \<Rightarrow> bool \<Rightarrow> bytes option" where
  "decodePixel f buf compact = (case buf of
     None \<Rightarrow> None
   | Some bs \<Rightarrow>
       (if \<not> validPixelFormat f then None
        else let n = (if compact then compactPixelBytes f else unat (pf_bitsPerPixel f div 8)) in
          if n = 0 \<or> length bs < n then None
          else let v0 = (if pf_bigEndian f then be_value (take n bs) else le_value (take n bs));
                   v = (if compact \<and> n = 3 \<and> compactUsesHighBytes f then push_bit 8 v0 else v0)
               in Some [ucast (component v (pf_redShift f) (pf_redMax f) * 255 div ucast (pf_redMax f)),
                        ucast (component v (pf_greenShift f) (pf_greenMax f) * 255 div ucast (pf_greenMax f)),
                        ucast (component v (pf_blueShift f) (pf_blueMax f) * 255 div ucast (pf_blueMax f)),
                        255]))"

section \<open>Table-driven decoding\<close>

record pixel_decoder =
  pd_format :: pixel_format
  pd_bytes :: nat
  pd_packedPixels :: "u32 list"
  pd_allocationFailed :: bool
  pd_blueFirst :: bool

definition scale :: "u32 \<Rightarrow> u16 \<Rightarrow> u32" where
  "scale v mx = v * 255 div ucast mx"

definition pack :: "pixel_format \<Rightarrow> bool \<Rightarrow> u32 \<Rightarrow> u32 \<Rightarrow> u32 \<Rightarrow> u32" where
  "pack f blueFirst red green blue =
     (let r = scale red (pf_redMax f); g = scale green (pf_greenMax f); b = scale blue (pf_blueMax f)
      in if blueFirst then b OR push_bit 8 g OR push_bit 16 r OR 0xFF000000
         else r OR push_bit 8 g OR push_bit 16 b OR 0xFF000000)"

definition pack_value :: "pixel_format \<Rightarrow> bool \<Rightarrow> u32 \<Rightarrow> u32" where
  "pack_value f blueFirst v = pack f blueFirst (component v (pf_redShift f) (pf_redMax f))
     (component v (pf_greenShift f) (pf_greenMax f)) (component v (pf_blueShift f) (pf_blueMax f))"

text \<open>The constructor; \<open>alloc\<close> tells whether the table, where one is used, could be allocated.\<close>

definition compactPixelDecoder :: "bool \<Rightarrow> pixel_format \<Rightarrow> bool \<Rightarrow> pixel_decoder" where
  "compactPixelDecoder alloc f blueFirst =
     (let n = compactPixelBytes f in
      \<lparr>pd_format = f, pd_bytes = n,
       pd_packedPixels = (if n \<le> 2 \<and> alloc
          then map (\<lambda>v. pack_value f blueFirst (of_nat v)) [0..<2 ^ (n * 8)] else []),
       pd_allocationFailed = (n \<le> 2 \<and> \<not> alloc), pd_blueFirst = blueFirst\<rparr>)"

definition decoder_ready :: "pixel_decoder \<Rightarrow> bool" where
  "decoder_ready d \<longleftrightarrow> \<not> pd_allocationFailed d"

lemma decoder_ready_True [simp]: "decoder_ready (compactPixelDecoder True f blueFirst)"
  by (simp add: decoder_ready_def compactPixelDecoder_def Let_def)

definition readPacked :: "pixel_decoder \<Rightarrow> reader \<Rightarrow> (u32 \<times> reader) option" where
  "readPacked d r =
     (if pd_bytes d = 0 then None
      else case readBytes (pd_bytes d) r of
        None \<Rightarrow> None
      | Some (src, r') \<Rightarrow>
          let f = pd_format d in
          if pd_bytes d = 2
          then let v = (if pf_bigEndian f then push_bit 8 (ucast (src ! 0)) OR ucast (src ! 1)
                        else ucast (src ! 0) OR push_bit 8 (ucast (src ! 1))) :: u32
               in Some (pd_packedPixels d ! unat v, r')
          else let v0 = (if pf_bigEndian f then be_value src else le_value src);
                   v = (if pd_bytes d = 3 \<and> compactUsesHighBytes f then push_bit 8 v0 else v0)
               in if pd_bytes d \<le> 2 then Some (pd_packedPixels d ! unat v, r')
                  else Some (pack_value f (pd_blueFirst d) v, r'))"

text \<open>The four bytes \<open>writePixel\<close> stores, at the place it advances past.\<close>

definition writePixel :: "u32 \<Rightarrow> bytes" where
  "writePixel p = [ucast (p AND 0xFF), ucast (drop_bit 8 p AND 0xFF),
     ucast (drop_bit 16 p AND 0xFF), ucast (drop_bit 24 p AND 0xFF)]"

lemma length_writePixel [simp]: "length (writePixel p) = 4"
  by (simp add: writePixel_def)

section \<open>Colours\<close>

lemma unat_widen [simp]: "unat (ucast (m :: u16) :: u32) = unat m"
proof -
  have "unat m < 2 ^ LENGTH(16)" by (rule unsigned_less)
  then show ?thesis by (simp add: unsigned_ucast_eq take_bit_nat_eq_self)
qed

lemma component_le: "unat (component v sh mx) \<le> unat mx"
proof -
  have "component v sh mx \<le> ucast mx" unfolding component_def by (rule word_and_le1)
  then show ?thesis by (simp add: word_le_nat_alt)
qed

lemma scale_less: "mx \<noteq> 0 \<Longrightarrow> unat (scale (component v sh mx) mx) < 256"
proof -
  assume "mx \<noteq> 0"
  then have pos: "0 < unat mx" by (simp add: unat_gt_0)
  have "unat mx < 2 ^ LENGTH(16)" by (rule unsigned_less)
  then have "unat (component v sh mx * 255) = unat (component v sh mx) * 255"
    using component_le [of v sh mx] by (simp add: unat_word_ariths)
  then have "unat (scale (component v sh mx) mx) = unat (component v sh mx) * 255 div unat mx"
    by (simp add: scale_def unat_div)
  also have "\<dots> \<le> unat mx * 255 div unat mx"
    by (intro div_le_mono mult_le_mono1 component_le)
  finally show ?thesis using pos by simp
qed

lemma byte_consts: "(0xFF :: u32) = mask 8" "(0xFF000000 :: u32) = push_bit 24 (mask 8)"
    "(255 :: u8) = mask 8"
  by (simp_all add: mask_eq_exp_minus_1 push_bit_eq_mult)

lemma writePixel_bytes:
  "writePixel (ucast a OR push_bit 8 (ucast b) OR push_bit 16 (ucast c) OR 0xFF000000) = [a, b, c, 255]"
  unfolding writePixel_def byte_consts
  by (auto simp: bit_eq_iff bit_simps dest: bit_imp_le_length)

lemma small_ucast: "unat (x :: u32) < 256 \<Longrightarrow> ucast (ucast x :: u8) = x"
  by (rule word_unat_eq_iff [THEN iffD2]) (simp add: unsigned_ucast_eq unsigned_take_bit_eq take_bit_nat_eq_self)

lemma writePixel_pack:
  assumes "unat r < 256" "unat g < 256" "unat b < 256"
  shows "writePixel (r OR push_bit 8 g OR push_bit 16 b OR 0xFF000000) = [ucast r, ucast g, ucast b, 255]"
  using writePixel_bytes [of "ucast r" "ucast g" "ucast b"] assms by (simp only: small_ucast)

definition rgba_order :: "bool \<Rightarrow> bytes \<Rightarrow> bytes" where
  "rgba_order blueFirst p = (if blueFirst then [p ! 2, p ! 1, p ! 0, p ! 3] else p)"

definition colour :: "pixel_format \<Rightarrow> u32 \<Rightarrow> bytes" where
  "colour f v = [ucast (scale (component v (pf_redShift f) (pf_redMax f)) (pf_redMax f)),
     ucast (scale (component v (pf_greenShift f) (pf_greenMax f)) (pf_greenMax f)),
     ucast (scale (component v (pf_blueShift f) (pf_blueMax f)) (pf_blueMax f)), 255]"

lemma writePixel_pack_value:
  assumes "validPixelFormat f"
  shows "writePixel (pack_value f blueFirst v) = rgba_order blueFirst (colour f v)"
proof -
  have "pf_redMax f \<noteq> 0" "pf_greenMax f \<noteq> 0" "pf_blueMax f \<noteq> 0"
    using assms by (simp_all add: validPixelFormat_def)
  then show ?thesis
    by (simp add: pack_value_def pack_def Let_def rgba_order_def colour_def writePixel_pack scale_less)
qed

section \<open>The table decoder computes the plain one\<close>

definition cpixel_value :: "pixel_format \<Rightarrow> bytes \<Rightarrow> u32" where
  "cpixel_value f bs =
     (let v = (if pf_bigEndian f then be_value bs else le_value bs)
      in if length bs = 3 \<and> compactUsesHighBytes f then push_bit 8 v else v)"

lemma be_value_simps:
  "be_value [a] = ucast a" "be_value [a, b] = push_bit 8 (ucast a) OR ucast b"
  by (simp_all add: be_value_def)

lemma le_value_simps:
  "le_value [a] = ucast a" "le_value [a, b] = ucast a OR push_bit 8 (ucast b)"
  by (simp_all add: le_value_def)

lemma small_take_bit: "take_bit n (x :: u32) = x \<Longrightarrow> unat x < 2 ^ n"
proof -
  assume "take_bit n x = x"
  then have "unat x = take_bit n (unat x)" by (metis unsigned_take_bit_eq)
  also have "\<dots> < 2 ^ n" by simp
  finally show ?thesis .
qed

lemma byte_bit: "bit (a :: u8) n \<Longrightarrow> n < 8"
  using bit_imp_le_length by fastforce

lemma take_bit_bytes:
  "take_bit 8 (ucast a :: u32) = ucast (a :: u8)"
  "take_bit 16 (push_bit 8 (ucast a) OR ucast b :: u32) = push_bit 8 (ucast (a :: u8)) OR ucast (b :: u8)"
  by (auto intro!: bit_word_eqI simp: bit_simps simp del: take_bit_or) (auto dest!: byte_bit)

lemma two_bytes: "length xs = 2 \<Longrightarrow> \<exists>a b. xs = [a, b]"
  by (auto simp: length_Suc_conv numeral_2_eq_2)

lemma short_value_less:
  assumes "length bs = n" "n = 1 \<or> n = 2"
  shows "unat (cpixel_value f bs) < 2 ^ (n * 8)"
proof (rule small_take_bit)
  consider a where "bs = [a]" "n = 1" | a b where "bs = [a, b]" "n = 2"
    using assms two_bytes [of bs] by (auto simp: length_Suc_conv)
  then show "take_bit (n * 8) (cpixel_value f bs) = cpixel_value f bs"
    by cases (simp_all add: cpixel_value_def be_value_simps le_value_simps take_bit_bytes
        or.commute [of "ucast _"] del: take_bit_or)
qed

lemma compactPixelBytes_cases:
  "compactPixelBytes f = 0 \<and> \<not> validPixelFormat f \<or>
   validPixelFormat f \<and> compactPixelBytes f \<in> {1, 2, 3, 4}"
  by (auto simp: compactPixelBytes_def validPixelFormat_def Let_def)

lemma readPacked_eq:
  assumes "decoder_ready (compactPixelDecoder alloc f bf)"
  shows "readPacked (compactPixelDecoder alloc f bf) r =
    (let n = compactPixelBytes f in
     if n = 0 \<or> length r < n then None
     else Some (pack_value f bf (cpixel_value f (take n r)), drop n r))"
proof (cases "compactPixelBytes f = 0 \<or> length r < compactPixelBytes f")
  case True
  then show ?thesis
    by (auto simp: readPacked_def compactPixelDecoder_def readBytes_def Let_def)
next
  case False
  define n where "n = compactPixelBytes f"
  have n: "n \<in> {1, 2, 3, 4}" and len: "length (take n r) = n"
    using compactPixelBytes_cases [of f] False by (auto simp: n_def)
  have alloc: "n \<le> 2 \<Longrightarrow> alloc"
    using assms by (simp add: decoder_ready_def compactPixelDecoder_def n_def Let_def)
  have table: "map (\<lambda>v. pack_value f bf (of_nat v)) [0..<2 ^ (n * 8)] ! unat (cpixel_value f (take n r)) =
      pack_value f bf (cpixel_value f (take n r))" if "n \<le> 2"
    using short_value_less [OF len] n that by auto
  consider "n = 2" | "n = 1" | "n = 3" | "n = 4" using n by blast
  then show ?thesis
  proof cases
    case 1
    then obtain a b where "take n r = [a, b]" using len two_bytes by metis
    then show ?thesis using table 1 False alloc
      by (cases "pf_bigEndian f") (simp_all add: readPacked_def compactPixelDecoder_def readBytes_def Let_def n_def [symmetric]
          cpixel_value_def be_value_simps le_value_simps del: upt_rec_numeral map_upt_Suc)
  qed (use table False alloc len in
      \<open>simp_all add: readPacked_def compactPixelDecoder_def readBytes_def Let_def n_def [symmetric] cpixel_value_def
        del: upt_rec_numeral\<close>)
qed

lemma decodePixel_compact:
  "decodePixel f (Some r) True =
    (let n = compactPixelBytes f in
     if n = 0 \<or> length r < n then None else Some (colour f (cpixel_value f (take n r))))"
proof -
  have "compactPixelBytes f \<noteq> 0 \<Longrightarrow> validPixelFormat f" using compactPixelBytes_cases [of f] by auto
  then show ?thesis
    by (auto simp: decodePixel_def colour_def scale_def cpixel_value_def Let_def min_def)
qed

section \<open>What a server sends\<close>

text \<open>
  The bytes of a pixel value in the negotiated byte order, and the CPIXEL of RFC 6143: for a format
  that needs three bytes, the most significant three when the colours start at bit 8, else the least
  significant three.
\<close>

definition pixel_bytes :: "bool \<Rightarrow> nat \<Rightarrow> u32 \<Rightarrow> bytes" where
  "pixel_bytes be n v = (let bs = map (\<lambda>i. ucast (drop_bit (8 * i) v)) [0..<n] in if be then rev bs else bs)"

definition sent_pixel :: "pixel_format \<Rightarrow> u32 \<Rightarrow> bytes" where
  "sent_pixel f v = pixel_bytes (pf_bigEndian f) (unat (pf_bitsPerPixel f div 8)) v"

definition sent_cpixel :: "pixel_format \<Rightarrow> u32 \<Rightarrow> bytes" where
  "sent_cpixel f v = pixel_bytes (pf_bigEndian f) (compactPixelBytes f)
     (if compactPixelBytes f = 3 \<and> compactUsesHighBytes f then drop_bit 8 v else v)"

lemma length_pixel_bytes [simp]: "length (pixel_bytes be n v) = n"
  by (simp add: pixel_bytes_def Let_def)

lemma pixel_bytes_simps:
  "pixel_bytes False 1 v = [ucast v]"
  "pixel_bytes False 2 v = [ucast v, ucast (drop_bit 8 v)]"
  "pixel_bytes False 3 v = [ucast v, ucast (drop_bit 8 v), ucast (drop_bit 16 v)]"
  "pixel_bytes False 4 v = [ucast v, ucast (drop_bit 8 v), ucast (drop_bit 16 v), ucast (drop_bit 24 v)]"
  "pixel_bytes True n v = rev (pixel_bytes False n v)"
  by (simp_all add: pixel_bytes_def upt_rec)

lemma byte_eqI:
  fixes v w :: u32
  assumes "\<And>i. i < 8 \<Longrightarrow> bit v i = bit w i" "\<And>i. i < 8 \<Longrightarrow> bit v (8 + i) = bit w (8 + i)"
    "\<And>i. i < 8 \<Longrightarrow> bit v (16 + i) = bit w (16 + i)" "\<And>i. i < 8 \<Longrightarrow> bit v (24 + i) = bit w (24 + i)"
  shows "v = w"
proof (rule bit_word_eqI)
  fix i :: nat
  assume "i < LENGTH(32)"
  then have "i div 8 < 4" by simp
  then have "i div 8 = 0 \<or> i div 8 = 1 \<or> i div 8 = 2 \<or> i div 8 = 3" by linarith
  then have "i = i mod 8 \<or> i = 8 + i mod 8 \<or> i = 16 + i mod 8 \<or> i = 24 + i mod 8"
    using div_mult_mod_eq [of i 8] by linarith
  then show "bit v i = bit w i" using assms [of "i mod 8"] by auto
qed

lemma narrow_widen: "ucast (ucast (v :: u32) :: u8) = take_bit 8 v"
  by (rule byte_eqI; simp add: bit_simps)

lemma le_bytes_value:
  fixes v :: u32
  shows "le_value (pixel_bytes False 1 v) = take_bit 8 v" "le_value (pixel_bytes False 2 v) = take_bit 16 v"
    "le_value (pixel_bytes False 3 v) = take_bit 24 v" "le_value (pixel_bytes False 4 v) = v"
  unfolding pixel_bytes_simps
  by (rule byte_eqI; simp add: le_value_def narrow_widen bit_simps)+

lemma be_bytes_value:
  fixes v :: u32
  shows "be_value (pixel_bytes True 1 v) = take_bit 8 v" "be_value (pixel_bytes True 2 v) = take_bit 16 v"
    "be_value (pixel_bytes True 3 v) = take_bit 24 v" "be_value (pixel_bytes True 4 v) = v"
  unfolding pixel_bytes_simps
  by (rule byte_eqI; simp add: be_value_def narrow_widen bit_simps)+

lemma pixel_bytes_value:
  assumes "n \<in> {1, 2, 3, 4}"
  shows "(if be then be_value (pixel_bytes be n v) else le_value (pixel_bytes be n v)) = take_bit (8 * n) v"
proof -
  have four: "take_bit 32 v = v" by (rule take_bit_word_eq_self) simp
  show ?thesis
    using assms le_bytes_value [of v] be_bytes_value [of v] four by (cases be) auto
qed

lemma bit_valueBits: "bit mx i \<Longrightarrow> i < valueBits mx"
proof (induction mx arbitrary: i rule: valueBits.induct)
  case (1 v)
  then show ?case
    by (cases i) (auto simp: valueBits.simps [of v] bit_simps)
qed

lemma component_cong:
  assumes "\<And>i. unat sh \<le> i \<Longrightarrow> i < unat sh + valueBits mx \<Longrightarrow> bit v i = bit w i"
  shows "component v sh mx = component w sh mx"
proof (rule bit_word_eqI)
  fix n :: nat
  have "bit mx n \<Longrightarrow> bit v (unat sh + n) = bit w (unat sh + n)"
    by (rule assms) (simp_all add: bit_valueBits)
  then show "bit (component v sh mx) n = bit (component w sh mx) n"
    by (auto simp: component_def bit_simps)
qed

lemma colour_cong:
  assumes "\<And>i. a \<le> i \<Longrightarrow> i < b \<Longrightarrow> bit v i = bit w i"
    and "\<forall>sh\<in>{pf_redShift f, pf_greenShift f, pf_blueShift f}. a \<le> unat sh"
    and "redEnd f \<le> b" "greenEnd f \<le> b" "blueEnd f \<le> b"
  shows "colour f v = colour f w"
  using assms
  by (simp add: colour_def redEnd_def greenEnd_def blueEnd_def component_cong [of _ _ v w])

text \<open>
  C25. The table-driven decoder the rectangles are decoded with is equivalent to the plain one: for
  every format, byte order and buffer both accept or both refuse, they read the same bytes, and the
  four bytes stored for a pixel are the plain decoder's, in the order of the destination.
\<close>

theorem compact_decoder_equivalent:
  assumes "decoder_ready (compactPixelDecoder alloc f blueFirst)"
  shows "map_option (\<lambda>(p, r'). (writePixel p, r')) (readPacked (compactPixelDecoder alloc f blueFirst) r) =
    map_option (\<lambda>q. (rgba_order blueFirst q, drop (compactPixelBytes f) r)) (decodePixel f (Some r) True)"
  using compactPixelBytes_cases [of f]
  by (auto simp: readPacked_eq [OF assms] decodePixel_compact Let_def writePixel_pack_value)

lemma compact_decoder_equivalent_witness:
  "map_option (\<lambda>(p, r'). (writePixel p, r')) (readPacked (compactPixelDecoder True default_format True) [1, 2, 3, 4]) =
    Some ([1, 2, 3, 255], [4])"
proof -
  have valid: "valueBits 255 = 8" by (simp add: valueBits.simps)
  have ready: "decoder_ready (compactPixelDecoder True default_format True)"
    by (simp add: decoder_ready_def compactPixelDecoder_def Let_def)
  have "decodePixel default_format (Some [1, 2, 3, 4]) True = Some [3, 2, 1, 255]"
    by (simp add: decodePixel_def default_format_def compactPixelBytes_def validPixelFormat_def redEnd_def greenEnd_def
        blueEnd_def valid compactUsesHighBytes_def le_value_def component_def)
  moreover have "compactPixelBytes default_format = 3"
    by (simp add: default_format_def compactPixelBytes_def validPixelFormat_def redEnd_def greenEnd_def
        blueEnd_def valid)
  ultimately show ?thesis
    using compact_decoder_equivalent [OF ready, of "[1, 2, 3, 4]"] by (simp add: rgba_order_def)
qed

lemma sent_cpixel_value:
  assumes "validPixelFormat f"
  shows "cpixel_value f (sent_cpixel f v) =
    (if compactPixelBytes f = 3 \<and> compactUsesHighBytes f then push_bit 8 (take_bit 24 (drop_bit 8 v))
     else take_bit (8 * compactPixelBytes f) v)"
proof -
  have "compactPixelBytes f \<in> {1, 2, 3, 4}" using assms compactPixelBytes_cases [of f] by auto
  from pixel_bytes_value [OF this, of "pf_bigEndian f"] show ?thesis
    by (auto simp: cpixel_value_def sent_cpixel_def)
qed

lemma ends_le_bits:
  "validPixelFormat f \<Longrightarrow> redEnd f \<le> unat (pf_bitsPerPixel f) \<and> greenEnd f \<le> unat (pf_bitsPerPixel f) \<and>
     blueEnd f \<le> unat (pf_bitsPerPixel f)"
  by (simp add: validPixelFormat_def)

lemma three_low:
  "compactPixelBytes f = 3 \<Longrightarrow> \<not> compactUsesHighBytes f \<Longrightarrow>
     redEnd f \<le> 24 \<and> greenEnd f \<le> 24 \<and> blueEnd f \<le> 24"
  by (auto simp: compactPixelBytes_def compactUsesHighBytes_def validPixelFormat_def Let_def split: if_splits)

lemma other_bytes:
  "validPixelFormat f \<Longrightarrow> compactPixelBytes f \<noteq> 3 \<Longrightarrow> 8 * compactPixelBytes f = unat (pf_bitsPerPixel f)"
  by (auto simp: compactPixelBytes_def validPixelFormat_def Let_def split: if_splits)

lemma cpixel_colour:
  assumes "validPixelFormat f"
  shows "colour f (cpixel_value f (sent_cpixel f v)) = colour f v"
proof (cases "compactPixelBytes f = 3 \<and> compactUsesHighBytes f")
  case True
  have "colour f (push_bit 8 (take_bit 24 (drop_bit 8 v))) = colour f v"
  proof (rule colour_cong [where a = 8 and b = 32])
    show "\<forall>sh\<in>{pf_redShift f, pf_greenShift f, pf_blueShift f}. 8 \<le> unat sh"
      using True by (simp add: compactUsesHighBytes_def word_le_nat_alt)
  qed (use True ends_le_bits [OF assms] in \<open>auto simp: bit_simps compactUsesHighBytes_def\<close>)
  then show ?thesis using True by (simp add: sent_cpixel_value [OF assms])
next
  case False
  have "colour f (take_bit (8 * compactPixelBytes f) v) = colour f v"
    by (rule colour_cong [where a = 0 and b = "8 * compactPixelBytes f"])
      (use False ends_le_bits [OF assms] three_low [of f] other_bytes [OF assms] in
        \<open>cases "compactPixelBytes f = 3"; auto simp: bit_simps\<close>)+
  then show ?thesis using False by (auto simp: sent_cpixel_value [OF assms])
qed

lemma sent_colour:
  assumes "validPixelFormat f"
  shows "decodePixel f (Some (sent_pixel f v @ r)) False = Some (colour f v)"
    "decodePixel f (Some (sent_cpixel f v @ r)) True = Some (colour f v)"
proof -
  define n where "n = unat (pf_bitsPerPixel f div 8)"
  have n: "n \<in> {1, 2, 3, 4}" "n \<noteq> 0" "8 * n = unat (pf_bitsPerPixel f)"
    using assms by (auto simp: n_def validPixelFormat_def)
  have "colour f (take_bit (8 * n) v) = colour f v"
    by (rule colour_cong [where a = 0 and b = "8 * n"]) (use n ends_le_bits [OF assms] in \<open>auto simp: bit_simps\<close>)
  moreover have "decodePixel f (Some (sent_pixel f v @ r)) False = Some (colour f (take_bit (8 * n) v))"
    using assms n(2) pixel_bytes_value [OF n(1), of "pf_bigEndian f" v, symmetric]
    by (cases "pf_bigEndian f")
      (simp_all add: decodePixel_def n_def [symmetric] sent_pixel_def colour_def scale_def Let_def)
  ultimately show "decodePixel f (Some (sent_pixel f v @ r)) False = Some (colour f v)" by simp
  have "compactPixelBytes f \<noteq> 0" using compactPixelBytes_cases [of f] assms by auto
  then have "decodePixel f (Some (sent_cpixel f v @ r)) True = Some (colour f (cpixel_value f (sent_cpixel f v)))"
    by (simp add: decodePixel_compact sent_cpixel_def Let_def)
  then show "decodePixel f (Some (sent_cpixel f v @ r)) True = Some (colour f v)"
    by (simp add: cpixel_colour [OF assms])
qed

text \<open>
  Dropping the unused byte loses nothing: for every accepted format and every pixel value, the compact
  pixel a server sends decodes to the colour its full pixel decodes to.
\<close>

lemma compact_pixel_complete:
  assumes "validPixelFormat f"
  shows "decodePixel f (Some (sent_cpixel f v @ r)) True = decodePixel f (Some (sent_pixel f v @ r)) False"
  by (simp add: sent_colour [OF assms])

lemma compact_pixel_complete_witness:
  "validPixelFormat default_format \<and>
   decodePixel default_format (Some (sent_cpixel default_format 0x112233 @ [7])) True =
   decodePixel default_format (Some (sent_pixel default_format 0x112233 @ [7])) False"
proof -
  have "validPixelFormat default_format"
    by (simp add: validPixelFormat_def default_format_def redEnd_def greenEnd_def blueEnd_def valueBits.simps)
  then show ?thesis using compact_pixel_complete by blast
qed

end
