(* ===== verification/Vnc_Zrle.thy ===== *)
theory Vnc_Zrle
  imports Vnc_Pixel
begin

text \<open>
  ZRLE rectangles of the VNC client (\<open>vnc/vnc_rfb_protocol.cpp\<close>). A rectangle is a stream of
  64 by 64 tiles. The client reads it in two passes: \<open>buildZrleTileJobs\<close> measures every tile with
  \<open>scanZrleTile\<close>, then up to four workers take tiles from a shared counter, decode each from its
  own slice (\<open>decodeZrleTile\<close>) and copy its rows into the framebuffer. This theory has the tile
  decoder and the scanner and shows that they agree; \<open>Vnc_Framebuffer\<close> has the workers.

  \<open>size_t\<close> values are naturals below \<open>2 ^ 64\<close>, with the checked operations as the code has them; tile
  dimensions are at most 64. The decoder writes the pixels of a tile in order from its start, so a
  tile is the list of pixels written.
\<close>

definition checkedMultiply :: "nat \<Rightarrow> nat \<Rightarrow> nat option" where
  "checkedMultiply l r = (if l \<noteq> 0 \<and> r > size_max div l then None else Some (l * r))"

definition checkedAdd :: "nat \<Rightarrow> nat \<Rightarrow> nat option" where
  "checkedAdd l r = (if r > size_max - l then None else Some (l + r))"

lemma checkedMultiply_iff: "checkedMultiply l r = (if l * r \<le> size_max then Some (l * r) else None)"
proof (cases "l = 0")
  case False
  then have "r > size_max div l \<longleftrightarrow> \<not> l * r \<le> size_max"
    by (simp add: div_less_iff_less_mult mult.commute not_le)
  then show ?thesis by (simp add: checkedMultiply_def)
qed (simp add: checkedMultiply_def)

lemma checkedAdd_iff: "l \<le> size_max \<Longrightarrow> checkedAdd l r = (if l + r \<le> size_max then Some (l + r) else None)"
  by (auto simp: checkedAdd_def)

section \<open>Run lengths\<close>

text \<open>
  The loop of \<open>readRunLength\<close>, with the length so far. It is only entered with a pixel left to
  write, and the length never passes \<open>remaining\<close>, so the subtraction does not wrap.
\<close>

fun run_loop :: "nat \<Rightarrow> nat \<Rightarrow> reader \<Rightarrow> (nat \<times> reader) option" where
  "run_loop remaining run [] = None"
| "run_loop remaining run (v # r) =
     (if unat v > remaining - run then None
      else if v \<noteq> 255 then Some (run + unat v, r)
      else run_loop remaining (run + unat v) r)"

definition readRunLength :: "nat \<Rightarrow> reader \<Rightarrow> (nat \<times> reader) option" where
  "readRunLength remaining r = run_loop remaining 1 r"

lemma run_loop_bounds: "run_loop rem run r = Some (n, r') \<Longrightarrow> run \<le> rem \<Longrightarrow> run \<le> n \<and> n \<le> rem"
proof (induction rem run r rule: run_loop.induct)
  case (2 remaining run v r)
  then show ?case by (cases "v = 255") (fastforce split: if_splits)+
qed simp

lemma readRunLength_bounds: "readRunLength rem r = Some (n, r') \<Longrightarrow> 0 < rem \<Longrightarrow> 1 \<le> n \<and> n \<le> rem"
  unfolding readRunLength_def by (drule run_loop_bounds) auto

lemma readRunLength_pos: "readRunLength rem r = Some (n, r') \<Longrightarrow> 0 < n"
proof -
  have "run_loop rem run r = Some (n, r') \<Longrightarrow> run \<le> n" for run
    by (induction rem run r rule: run_loop.induct) (auto split: if_splits)
  then show "readRunLength rem r = Some (n, r') \<Longrightarrow> 0 < n" unfolding readRunLength_def by fastforce
qed

section \<open>The tile decoder\<close>

fun read_pixels :: "pixel_decoder \<Rightarrow> string \<Rightarrow> nat \<Rightarrow> reader \<Rightarrow> string + (u32 list \<times> reader)" where
  "read_pixels d e 0 r = Inr ([], r)"
| "read_pixels d e (Suc n) r =
     andThen (or_error (readPacked d r) e) (\<lambda>(p, r1).
     andThen (read_pixels d e n r1) (\<lambda>(ps, r2). Inr (p # ps, r2)))"

definition bitsPerIndex :: "nat \<Rightarrow> nat" where
  "bitsPerIndex paletteSize = (if paletteSize = 2 then 1 else if paletteSize \<le> 4 then 2 else 4)"

definition packed_index :: "nat \<Rightarrow> bytes \<Rightarrow> nat \<Rightarrow> nat" where
  "packed_index bpi packed column =
     (let bitOffset = column * bpi;
          sh = 8 - bpi - bitOffset mod 8;
          mask = 2 ^ bpi - 1 :: u8
      in unat (drop_bit sh (packed ! (bitOffset div 8)) AND mask))"

definition packed_row :: "u32 list \<Rightarrow> nat \<Rightarrow> nat \<Rightarrow> bytes \<Rightarrow> u32 list option" where
  "packed_row palette bpi tileWidth packed =
     those (map (\<lambda>column. let i = packed_index bpi packed column in
       if i \<ge> length palette then None else Some (palette ! i)) [0..<tileWidth])"

fun packed_rows :: "u32 list \<Rightarrow> nat \<Rightarrow> nat \<Rightarrow> nat \<Rightarrow> nat \<Rightarrow> reader \<Rightarrow> string + (u32 list \<times> reader)" where
  "packed_rows palette bpi rowBytes tileWidth 0 r = Inr ([], r)"
| "packed_rows palette bpi rowBytes tileWidth (Suc rows) r =
     andThen (or_error (readBytes rowBytes r) ''VNC ZRLE packed palette indexes are truncated'') (\<lambda>(packed, r1).
     andThen (or_error (packed_row palette bpi tileWidth packed)
       ''VNC ZRLE packed palette index is out of range'') (\<lambda>ps.
     andThen (packed_rows palette bpi rowBytes tileWidth rows r1) (\<lambda>(qs, r2). Inr (ps @ qs, r2))))"

text \<open>The two run-length loops; the argument is the number of pixels still to write.\<close>

function plain_rle :: "pixel_decoder \<Rightarrow> nat \<Rightarrow> reader \<Rightarrow> string + (u32 list \<times> reader)" where
  "plain_rle d n r =
     (if n = 0 then Inr ([], r)
      else case readPacked d r of
        None \<Rightarrow> Inl ''VNC ZRLE plain RLE pixel is truncated''
      | Some (p, r1) \<Rightarrow> (case readRunLength n r1 of
          None \<Rightarrow> Inl ''VNC ZRLE plain RLE length is invalid''
        | Some (run, r2) \<Rightarrow>
            andThen (plain_rle d (n - run) r2) (\<lambda>(ps, r3). Inr (replicate run p @ ps, r3))))"
  by pat_completeness auto

termination plain_rle
  by (relation "measure (\<lambda>(d, n, r). n)") (auto dest: readRunLength_pos)

definition indexed_run :: "u8 \<Rightarrow> nat \<Rightarrow> reader \<Rightarrow> (nat \<times> reader) option" where
  "indexed_run encodedIndex n r = (if encodedIndex AND 0x80 \<noteq> 0 then readRunLength n r else Some (1, r))"

lemma indexed_run_pos: "indexed_run c n r = Some (k, r') \<Longrightarrow> 0 < k"
  by (auto simp: indexed_run_def dest: readRunLength_pos split: if_splits)

function palette_rle :: "u32 list \<Rightarrow> nat \<Rightarrow> reader \<Rightarrow> string + (u32 list \<times> reader)" where
  "palette_rle palette n r =
     (if n = 0 then Inr ([], r)
      else case readU8 r of
        None \<Rightarrow> Inl ''VNC ZRLE palette RLE index is truncated''
      | Some (c, r1) \<Rightarrow>
          (if unat (c AND 0x7F) \<ge> length palette then Inl ''VNC ZRLE palette RLE index is out of range''
           else case indexed_run c n r1 of
             None \<Rightarrow> Inl ''VNC ZRLE palette RLE length is invalid''
           | Some (run, r2) \<Rightarrow> andThen (palette_rle palette (n - run) r2)
               (\<lambda>(ps, r3). Inr (replicate run (palette ! unat (c AND 0x7F)) @ ps, r3))))"
  by pat_completeness auto

termination palette_rle
  by (relation "measure (\<lambda>(palette, n, r). n)") (auto dest: indexed_run_pos)

definition decodeZrleTile :: "pixel_decoder \<Rightarrow> nat \<Rightarrow> nat \<Rightarrow> reader \<Rightarrow> string + (u32 list \<times> reader)" where
  "decodeZrleTile d tileWidth tileHeight r =
     andThen (or_error (readU8 r) ''VNC ZRLE tile is missing its subencoding'') (\<lambda>(sub, r1).
     let s = unat sub; pixelCount = tileWidth * tileHeight in
     if 17 \<le> s \<and> s \<le> 127 \<or> s = 129
       then Inl ''VNC ZRLE tile uses an invalid or palette-reuse subencoding''
     else if s = 0 then read_pixels d ''VNC ZRLE raw tile is truncated'' pixelCount r1
     else if s = 1 then
       andThen (or_error (readPacked d r1) ''VNC ZRLE solid tile is truncated'') (\<lambda>(p, r2).
       Inr (replicate pixelCount p, r2))
     else if 2 \<le> s \<and> s \<le> 16 then
       andThen (read_pixels d ''VNC ZRLE packed palette is truncated'' s r1) (\<lambda>(palette, r2).
       packed_rows palette (bitsPerIndex s) ((tileWidth * bitsPerIndex s + 7) div 8) tileWidth tileHeight r2)
     else if s = 128 then plain_rle d pixelCount r1
     else if s - 128 < 2 \<or> s - 128 > 127 then Inl ''VNC ZRLE palette RLE size is invalid''
     else
       andThen (read_pixels d ''VNC ZRLE palette RLE palette is truncated'' (s - 128) r1) (\<lambda>(palette, r2).
       palette_rle palette pixelCount r2))"

section \<open>The scanner\<close>

function scan_plain_rle :: "nat \<Rightarrow> nat \<Rightarrow> reader \<Rightarrow> string + reader" where
  "scan_plain_rle cb n r =
     (if n = 0 then Inr r
      else case reader_skip cb r of
        None \<Rightarrow> Inl ''VNC ZRLE plain RLE pixel is truncated''
      | Some r1 \<Rightarrow> (case readRunLength n r1 of
          None \<Rightarrow> Inl ''VNC ZRLE plain RLE length is invalid''
        | Some (run, r2) \<Rightarrow> scan_plain_rle cb (n - run) r2))"
  by pat_completeness auto

termination scan_plain_rle
  by (relation "measure (\<lambda>(cb, n, r). n)") (auto dest: readRunLength_pos)

function scan_palette_rle :: "nat \<Rightarrow> nat \<Rightarrow> reader \<Rightarrow> string + reader" where
  "scan_palette_rle paletteSize n r =
     (if n = 0 then Inr r
      else case readU8 r of
        None \<Rightarrow> Inl ''VNC ZRLE palette RLE index is truncated''
      | Some (c, r1) \<Rightarrow>
          (if unat (c AND 0x7F) \<ge> paletteSize then Inl ''VNC ZRLE palette RLE index is out of range''
           else case indexed_run c n r1 of
             None \<Rightarrow> Inl ''VNC ZRLE palette RLE length is invalid''
           | Some (run, r2) \<Rightarrow> scan_palette_rle paletteSize (n - run) r2))"
  by pat_completeness auto

termination scan_palette_rle
  by (relation "measure (\<lambda>(paletteSize, n, r). n)") (auto dest: indexed_run_pos)

definition skip_product :: "nat \<Rightarrow> nat \<Rightarrow> reader \<Rightarrow> reader option" where
  "skip_product l k r = (case checkedMultiply l k of None \<Rightarrow> None | Some n \<Rightarrow> reader_skip n r)"

definition scanZrleTile :: "nat \<Rightarrow> nat \<Rightarrow> nat \<Rightarrow> reader \<Rightarrow> string + reader" where
  "scanZrleTile compactBytes tileWidth tileHeight r =
     andThen (or_error (readU8 r) ''VNC ZRLE tile is missing its subencoding'') (\<lambda>(sub, r1).
     let s = unat sub; pixelCount = tileWidth * tileHeight in
     if 17 \<le> s \<and> s \<le> 127 \<or> s = 129
       then Inl ''VNC ZRLE tile uses an invalid or palette-reuse subencoding''
     else if s = 0 then or_error (skip_product pixelCount compactBytes r1) ''VNC ZRLE raw tile is truncated''
     else if s = 1 then or_error (reader_skip compactBytes r1) ''VNC ZRLE solid tile is truncated''
     else if 2 \<le> s \<and> s \<le> 16 then
       andThen (or_error (skip_product s compactBytes r1) ''VNC ZRLE packed palette is truncated'') (\<lambda>r2.
       or_error (skip_product ((tileWidth * bitsPerIndex s + 7) div 8) tileHeight r2)
         ''VNC ZRLE packed palette indexes are truncated'')
     else if s = 128 then scan_plain_rle compactBytes pixelCount r1
     else if s - 128 < 2 \<or> s - 128 > 127 then Inl ''VNC ZRLE palette RLE size is invalid''
     else
       andThen (or_error (skip_product (s - 128) compactBytes r1) ''VNC ZRLE palette RLE palette is truncated'')
         (\<lambda>r2. scan_palette_rle (s - 128) pixelCount r2))"

declare plain_rle.simps [simp del] palette_rle.simps [simp del]
declare scan_plain_rle.simps [simp del] scan_palette_rle.simps [simp del]

section \<open>Reading is local\<close>

text \<open>What a routine reads is a prefix of its input, and the rest of the input does not matter to it.\<close>

definition local_read :: "(reader \<Rightarrow> string + ('a \<times> reader)) \<Rightarrow> bool" where
  "local_read f \<longleftrightarrow> (\<forall>r a r'. f r = Inr (a, r') \<longrightarrow> (\<exists>s. r = s @ r' \<and> (\<forall>t. f (s @ t) = Inr (a, t))))"

lemma local_readD: "local_read f \<Longrightarrow> f r = Inr (a, r') \<Longrightarrow> \<exists>s. r = s @ r' \<and> (\<forall>t. f (s @ t) = Inr (a, t))"
  unfolding local_read_def by blast

lemma local_andThen [intro]:
  assumes "local_read f" "\<And>r a r'. f r = Inr (a, r') \<Longrightarrow> local_read (g a)"
  shows "local_read (\<lambda>r. andThen (f r) (\<lambda>(a, r'). g a r'))"
  unfolding local_read_def
proof (intro allI impI)
  fix r b r2
  assume "andThen (f r) (\<lambda>(a, r'). g a r') = Inr (b, r2)"
  then obtain a r1 where fg: "f r = Inr (a, r1)" "g a r1 = Inr (b, r2)" by (auto simp: andThen_Inr_iff)
  obtain s1 where "r = s1 @ r1" "\<forall>t. f (s1 @ t) = Inr (a, t)"
    using local_readD [OF assms(1) fg(1)] by blast
  moreover obtain s2 where "r1 = s2 @ r2" "\<forall>t. g a (s2 @ t) = Inr (b, t)"
    using local_readD [OF assms(2) [OF fg(1)] fg(2)] by blast
  ultimately show "\<exists>s. r = s @ r2 \<and> (\<forall>t. andThen (f (s @ t)) (\<lambda>(a, r'). g a r') = Inr (b, t))"
    by (intro exI [of _ "s1 @ s2"]) simp
qed

lemma local_return [intro]: "local_read (\<lambda>r. Inr (a, r))"
  by (simp add: local_read_def)

lemma local_fail [intro]: "local_read (\<lambda>r. Inl e)"
  by (simp add: local_read_def)

lemma local_if [intro]: "local_read f \<Longrightarrow> local_read g \<Longrightarrow> local_read (\<lambda>r. if b then f r else g r)"
  by (cases b) simp_all

lemma local_readBytes: "local_read (\<lambda>r. or_error (readBytes n r) e)"
  unfolding local_read_def
proof (intro allI impI)
  fix r a r'
  assume "or_error (readBytes n r) e = Inr (a, r')"
  then have "n \<le> length r" "a = take n r" "r' = drop n r" by (auto simp: readBytes_def split: if_splits)
  then show "\<exists>s. r = s @ r' \<and> (\<forall>t. or_error (readBytes n (s @ t)) e = Inr (a, t))"
    by (intro exI [of _ "take n r"]) (simp add: readBytes_def)
qed

lemma local_readU8: "local_read (\<lambda>r. or_error (readU8 r) e)"
  unfolding local_read_def readU8_def
  by (auto split: list.splits)

lemma local_run_loop: "local_read (\<lambda>r. or_error (run_loop rem run r) e)"
  unfolding local_read_def
proof (intro allI impI)
  fix r n r'
  assume "or_error (run_loop rem run r) e = Inr (n, r')"
  then have "run_loop rem run r = Some (n, r')" by simp
  then show "\<exists>s. r = s @ r' \<and> (\<forall>t. or_error (run_loop rem run (s @ t)) e = Inr (n, t))"
  proof (induction rem run r rule: run_loop.induct)
    case (2 remaining run v r)
    show ?case
    proof (cases "v = 255")
      case True
      then obtain s where "r = s @ r'" "\<forall>t. run_loop remaining (run + unat v) (s @ t) = Some (n, t)"
        using 2 by (auto split: if_splits)
      then show ?thesis using 2 True by (intro exI [of _ "v # s"]) (auto split: if_splits)
    qed (use 2 in \<open>auto intro!: exI [of _ "[v]"] split: if_splits\<close>)
  qed simp
qed

lemma local_readRunLength: "local_read (\<lambda>r. or_error (readRunLength n r) e)"
  unfolding readRunLength_def by (rule local_run_loop)

lemma local_indexed_run: "local_read (\<lambda>r. or_error (indexed_run c n r) e)"
  unfolding indexed_run_def by (cases "c AND 0x80 \<noteq> 0") (simp_all add: local_readRunLength local_return)

text \<open>A decoder that reads \<open>cb\<close> bytes for a pixel: every ready decoder of a valid format is one.\<close>

definition pixel_reads :: "pixel_decoder \<Rightarrow> nat \<Rightarrow> bool" where
  "pixel_reads d cb \<longleftrightarrow> 0 < cb \<and>
     (\<exists>g. \<forall>r. readPacked d r = (if length r < cb then None else Some (g (take cb r), drop cb r)))"

lemma pixel_reads_decoder:
  assumes "decoder_ready (compactPixelDecoder alloc f bf)" "validPixelFormat f"
  shows "pixel_reads (compactPixelDecoder alloc f bf) (compactPixelBytes f)"
proof -
  have pos: "0 < compactPixelBytes f" using compactPixelBytes_cases [of f] assms(2) by auto
  then show ?thesis
    unfolding pixel_reads_def
    by (auto simp: readPacked_eq [OF assms(1)] Let_def intro!: exI [of _ "\<lambda>b. pack_value f bf (cpixel_value f b)"])
qed

lemma pixel_readsD: "pixel_reads d cb \<Longrightarrow> readPacked d r = Some (p, r') \<Longrightarrow> cb \<le> length r \<and> r' = drop cb r"
proof -
  assume "pixel_reads d cb" and r: "readPacked d r = Some (p, r')"
  then obtain g where "readPacked d r = (if length r < cb then None else Some (g (take cb r), drop cb r))"
    unfolding pixel_reads_def by blast
  then show ?thesis using r by (simp split: if_splits)
qed

lemma local_readPacked: "pixel_reads d cb \<Longrightarrow> local_read (\<lambda>r. or_error (readPacked d r) e)"
  unfolding local_read_def
proof (intro allI impI)
  fix r p r'
  assume d: "pixel_reads d cb" and "or_error (readPacked d r) e = Inr (p, r')"
  then have r: "readPacked d r = Some (p, r')" "cb \<le> length r" "r' = drop cb r" using pixel_readsD by auto
  obtain g where "\<And>r. readPacked d r = (if length r < cb then None else Some (g (take cb r), drop cb r))"
    using d unfolding pixel_reads_def by blast
  then show "\<exists>s. r = s @ r' \<and> (\<forall>t. or_error (readPacked d (s @ t)) e = Inr (p, t))"
    using r by (intro exI [of _ "take cb r"]) auto
qed

lemma local_read_pixels:
  assumes "pixel_reads d cb"
  shows "local_read (read_pixels d e n)"
proof (induction n)
  case (Suc n)
  have "local_read (\<lambda>r. andThen (or_error (readPacked d r) e) (\<lambda>(p, r1).
      andThen (read_pixels d e n r1) (\<lambda>(ps, r2). Inr (p # ps, r2))))"
    by (intro local_andThen local_readPacked [OF assms] Suc local_return)
  then show ?case by (simp add: local_read_def)
qed (simp add: local_read_def)

lemma local_packed_rows: "local_read (packed_rows palette bpi rowBytes tileWidth rows)"
proof (induction rows)
  case (Suc rows)
  have "local_read (\<lambda>r. andThen (or_error (readBytes rowBytes r) ''VNC ZRLE packed palette indexes are truncated'')
      (\<lambda>(packed, r1). (\<lambda>packed r1. andThen (or_error (packed_row palette bpi tileWidth packed)
         ''VNC ZRLE packed palette index is out of range'') (\<lambda>ps.
       andThen (packed_rows palette bpi rowBytes tileWidth rows r1) (\<lambda>(qs, r2). Inr (ps @ qs, r2)))) packed r1))"
  proof (intro local_andThen local_readBytes)
    fix packed
    show "local_read (\<lambda>r1. andThen (or_error (packed_row palette bpi tileWidth packed)
        ''VNC ZRLE packed palette index is out of range'') (\<lambda>ps.
      andThen (packed_rows palette bpi rowBytes tileWidth rows r1) (\<lambda>(qs, r2). Inr (ps @ qs, r2))))"
      by (cases "packed_row palette bpi tileWidth packed") (auto intro!: local_andThen Suc)
  qed
  then show ?case by (simp add: local_read_def)
qed (simp add: local_read_def)

lemma plain_rle_steps:
  "plain_rle d 0 r = Inr ([], r)"
  "0 < n \<Longrightarrow> plain_rle d n r =
     andThen (or_error (readPacked d r) ''VNC ZRLE plain RLE pixel is truncated'') (\<lambda>(p, r1).
     andThen (or_error (readRunLength n r1) ''VNC ZRLE plain RLE length is invalid'') (\<lambda>(run, r2).
     andThen (plain_rle d (n - run) r2) (\<lambda>(ps, r3). Inr (replicate run p @ ps, r3))))"
  by (simp_all add: plain_rle.simps [of d n r] plain_rle.simps [of d 0 r] split: option.split)

lemma palette_rle_steps:
  "palette_rle palette 0 r = Inr ([], r)"
  "0 < n \<Longrightarrow> palette_rle palette n r =
     andThen (or_error (readU8 r) ''VNC ZRLE palette RLE index is truncated'') (\<lambda>(c, r1).
     if unat (c AND 0x7F) \<ge> length palette then Inl ''VNC ZRLE palette RLE index is out of range''
     else andThen (or_error (indexed_run c n r1) ''VNC ZRLE palette RLE length is invalid'') (\<lambda>(run, r2).
       andThen (palette_rle palette (n - run) r2)
         (\<lambda>(ps, r3). Inr (replicate run (palette ! unat (c AND 0x7F)) @ ps, r3))))"
  by (simp_all add: palette_rle.simps [of palette n r] palette_rle.simps [of palette 0 r] split: option.split)

lemma local_plain_rle:
  assumes "pixel_reads d cb"
  shows "local_read (plain_rle d n)"
proof (induction n rule: less_induct)
  case (less n)
  show ?case
  proof (cases "n = 0")
    case False
    have "local_read (\<lambda>r. andThen (or_error (readPacked d r) ''VNC ZRLE plain RLE pixel is truncated'') (\<lambda>(p, r1).
        (\<lambda>p r1. andThen (or_error (readRunLength n r1) ''VNC ZRLE plain RLE length is invalid'') (\<lambda>(run, r2).
        (\<lambda>run r2. andThen (plain_rle d (n - run) r2) (\<lambda>(ps, r3). Inr (replicate run p @ ps, r3))) run r2)) p r1))"
    proof (intro local_andThen local_readPacked [OF assms] local_readRunLength local_return)
      fix r run r' assume "or_error (readRunLength n r) ''VNC ZRLE plain RLE length is invalid'' = Inr (run, r')"
      then have "0 < run" by (auto dest: readRunLength_pos)
      then show "local_read (plain_rle d (n - run))" using False by (intro less) simp
    qed
    then show ?thesis using False by (simp add: plain_rle_steps)
  qed (simp add: plain_rle_steps local_read_def)
qed

lemma local_palette_rle: "local_read (palette_rle palette n)"
proof (induction n rule: less_induct)
  case (less n)
  show ?case
  proof (cases "n = 0")
    case False
    have "local_read (\<lambda>r. andThen (or_error (readU8 r) ''VNC ZRLE palette RLE index is truncated'') (\<lambda>(c, r1).
        (\<lambda>c r1. if unat (c AND 0x7F) \<ge> length palette then Inl ''VNC ZRLE palette RLE index is out of range''
         else andThen (or_error (indexed_run c n r1) ''VNC ZRLE palette RLE length is invalid'') (\<lambda>(run, r2).
           (\<lambda>run r2. andThen (palette_rle palette (n - run) r2)
             (\<lambda>(ps, r3). Inr (replicate run (palette ! unat (c AND 0x7F)) @ ps, r3))) run r2)) c r1))"
    proof (intro local_andThen local_if local_fail local_readU8 local_indexed_run local_return)
      fix c r run r' assume "or_error (indexed_run c n r) ''VNC ZRLE palette RLE length is invalid'' = Inr (run, r')"
      then have "0 < run" by (auto dest: indexed_run_pos)
      then show "local_read (palette_rle palette (n - run))" using False by (intro less) simp
    qed
    then show ?thesis using False by (simp add: palette_rle_steps)
  qed (simp add: palette_rle_steps local_read_def)
qed

lemma local_decodeZrleTile:
  assumes "pixel_reads d cb"
  shows "local_read (decodeZrleTile d tw th)"
proof -
  have "local_read (\<lambda>r. andThen (or_error (readU8 r) ''VNC ZRLE tile is missing its subencoding'')
      (\<lambda>(sub, r1). (\<lambda>sub r1.
     let s = unat sub; pixelCount = tw * th in
     if 17 \<le> s \<and> s \<le> 127 \<or> s = 129
       then Inl ''VNC ZRLE tile uses an invalid or palette-reuse subencoding''
     else if s = 0 then read_pixels d ''VNC ZRLE raw tile is truncated'' pixelCount r1
     else if s = 1 then
       andThen (or_error (readPacked d r1) ''VNC ZRLE solid tile is truncated'') (\<lambda>(p, r2).
       Inr (replicate pixelCount p, r2))
     else if 2 \<le> s \<and> s \<le> 16 then
       andThen (read_pixels d ''VNC ZRLE packed palette is truncated'' s r1) (\<lambda>(palette, r2).
       packed_rows palette (bitsPerIndex s) ((tw * bitsPerIndex s + 7) div 8) tw th r2)
     else if s = 128 then plain_rle d pixelCount r1
     else if s - 128 < 2 \<or> s - 128 > 127 then Inl ''VNC ZRLE palette RLE size is invalid''
     else
       andThen (read_pixels d ''VNC ZRLE palette RLE palette is truncated'' (s - 128) r1) (\<lambda>(palette, r2).
       palette_rle palette pixelCount r2)) sub r1))"
    unfolding Let_def
    by (intro local_andThen local_readU8 local_if local_fail local_return local_read_pixels [OF assms]
        local_readPacked [OF assms] local_packed_rows local_plain_rle [OF assms] local_palette_rle)
  then show ?thesis
    unfolding decodeZrleTile_def [abs_def] by simp
qed

section \<open>The scanner measures what the decoder reads\<close>

text \<open>The scanner does not look at packed palette indexes, so it cannot report one out of range.\<close>

definition scans_as :: "string + ('a \<times> reader) \<Rightarrow> string + reader \<Rightarrow> bool" where
  "scans_as decoded scanned \<longleftrightarrow> (case decoded of
     Inr (_, r') \<Rightarrow> scanned = Inr r'
   | Inl e \<Rightarrow> scanned = Inl e \<or> e = ''VNC ZRLE packed palette index is out of range'')"

lemma scans_as_simps [simp]:
  "scans_as (Inr (a, r)) m \<longleftrightarrow> m = Inr r"
  "scans_as (Inl e) (Inl e)"
  by (simp_all add: scans_as_def)

lemma scans_as_bind:
  assumes "scans_as m n" "\<And>a r. m = Inr (a, r) \<Longrightarrow> scans_as (g a r) (h r)"
  shows "scans_as (andThen m (\<lambda>(a, r). g a r)) (andThen n h)"
proof (cases m)
  case (Inl e)
  then show ?thesis using assms(1) by (auto simp: scans_as_def)
next
  case (Inr ar)
  then show ?thesis using assms by (cases ar) (simp add: scans_as_def)
qed

lemma scans_as_map:
  "scans_as m n \<Longrightarrow> scans_as (andThen m (\<lambda>(a, r). Inr (f a, r))) n"
  by (cases m) (auto simp: scans_as_def)

lemma reader_skip_eq: "reader_skip n r = (if n \<le> length r then Some (drop n r) else None)"
  by (simp add: reader_skip_def readBytes_def)

lemma scans_readBytes: "scans_as (or_error (readBytes n r) e) (or_error (reader_skip n r) e)"
  by (simp add: reader_skip_def readBytes_def)

lemma scans_readPacked:
  assumes "pixel_reads d cb"
  shows "scans_as (or_error (readPacked d r) e) (or_error (reader_skip cb r) e)"
proof -
  obtain g where "readPacked d r = (if length r < cb then None else Some (g (take cb r), drop cb r))"
    using assms unfolding pixel_reads_def by blast
  then show ?thesis by (simp add: reader_skip_eq)
qed

lemma skip_add:
  "or_error (reader_skip (m + n) r) e = andThen (or_error (reader_skip m r) e) (\<lambda>r1. or_error (reader_skip n r1) e)"
  by (auto simp: reader_skip_eq add.commute)

lemma scans_read_pixels:
  assumes "pixel_reads d cb"
  shows "scans_as (read_pixels d e n r) (or_error (reader_skip (n * cb) r) e)"
proof (induction n arbitrary: r)
  case (Suc n)
  show ?case
    unfolding read_pixels.simps mult_Suc skip_add
    by (intro scans_as_bind scans_readPacked [OF assms] scans_as_map Suc)
qed (simp add: reader_skip_eq)

lemma scans_packed_rows:
  "scans_as (packed_rows palette bpi rowBytes tileWidth rows r)
     (or_error (reader_skip (rows * rowBytes) r) ''VNC ZRLE packed palette indexes are truncated'')"
proof (induction rows arbitrary: r)
  case (Suc rows)
  have "scans_as (andThen (or_error (packed_row palette bpi tileWidth packed)
        ''VNC ZRLE packed palette index is out of range'')
      (\<lambda>ps. andThen (packed_rows palette bpi rowBytes tileWidth rows r1) (\<lambda>(qs, r2). Inr (ps @ qs, r2))))
     (or_error (reader_skip (rows * rowBytes) r1) ''VNC ZRLE packed palette indexes are truncated'')" for packed r1
  proof (cases "packed_row palette bpi tileWidth packed")
    case (Some ps)
    then show ?thesis using scans_as_map [OF Suc] by simp
  qed (simp add: scans_as_def)
  then show ?case
    unfolding packed_rows.simps mult_Suc skip_add
    by (intro scans_as_bind scans_readBytes)
qed (simp add: reader_skip_eq)

lemma scan_plain_rle_steps:
  "scan_plain_rle cb 0 r = Inr r"
  "0 < n \<Longrightarrow> scan_plain_rle cb n r =
     andThen (or_error (reader_skip cb r) ''VNC ZRLE plain RLE pixel is truncated'') (\<lambda>r1.
     andThen (or_error (readRunLength n r1) ''VNC ZRLE plain RLE length is invalid'') (\<lambda>(run, r2).
     scan_plain_rle cb (n - run) r2))"
  by (simp_all add: scan_plain_rle.simps [of cb n r] scan_plain_rle.simps [of cb 0 r] split: option.split)

lemma scan_palette_rle_steps:
  "scan_palette_rle sz 0 r = Inr r"
  "0 < n \<Longrightarrow> scan_palette_rle sz n r =
     andThen (or_error (readU8 r) ''VNC ZRLE palette RLE index is truncated'') (\<lambda>(c, r1).
     if unat (c AND 0x7F) \<ge> sz then Inl ''VNC ZRLE palette RLE index is out of range''
     else andThen (or_error (indexed_run c n r1) ''VNC ZRLE palette RLE length is invalid'') (\<lambda>(run, r2).
       scan_palette_rle sz (n - run) r2))"
  by (simp_all add: scan_palette_rle.simps [of sz n r] scan_palette_rle.simps [of sz 0 r] split: option.split)

text \<open>Where both passes run the same reading function, its result carries over.\<close>

lemma scans_as_same:
  assumes "\<And>a r. m = Inr (a, r) \<Longrightarrow> scans_as (g a r) (h a r)"
  shows "scans_as (andThen m (\<lambda>(a, r). g a r)) (andThen m (\<lambda>(a, r). h a r))"
  using assms by (cases m) auto

lemma scans_plain_rle:
  assumes "pixel_reads d cb"
  shows "scans_as (plain_rle d n r) (scan_plain_rle cb n r)"
proof (induction n arbitrary: r rule: less_induct)
  case (less n)
  show ?case
  proof (cases "n = 0")
    case False
    have "scans_as (plain_rle d (n - run) r2) (scan_plain_rle cb (n - run) r2)"
      if "or_error (readRunLength n r1) e = Inr (run, r2)" for run r1 r2 e
      using that False by (intro less) (auto dest: readRunLength_pos)
    then show ?thesis
      using False unfolding plain_rle_steps(2) [OF False [unfolded neq0_conv]] scan_plain_rle_steps(2) [OF False [unfolded neq0_conv]]
      by (intro scans_as_bind scans_readPacked [OF assms] scans_as_same scans_as_map)
  qed (simp add: plain_rle_steps scan_plain_rle_steps)
qed

lemma scans_palette_rle:
  "scans_as (palette_rle palette n r) (scan_palette_rle (length palette) n r)"
proof (induction n arbitrary: r rule: less_induct)
  case (less n)
  show ?case
  proof (cases "n = 0")
    case False
    have "scans_as (palette_rle palette (n - run) r2) (scan_palette_rle (length palette) (n - run) r2)"
      if "or_error (indexed_run c n r1) e = Inr (run, r2)" for c run r1 r2 e
      using that False by (intro less) (auto dest: indexed_run_pos)
    then have "scans_as (andThen (or_error (indexed_run c n r1) e) (\<lambda>(run, r2).
          andThen (palette_rle palette (n - run) r2) (\<lambda>(ps, r3). Inr (replicate run p @ ps, r3))))
        (andThen (or_error (indexed_run c n r1) e) (\<lambda>(run, r2). scan_palette_rle (length palette) (n - run) r2))"
      for c p r1 e
      by (intro scans_as_same scans_as_map)
    then show ?thesis
      unfolding palette_rle_steps(2) [OF False [unfolded neq0_conv]] scan_palette_rle_steps(2) [OF False [unfolded neq0_conv]]
      by (intro scans_as_same) simp
  qed (simp add: palette_rle_steps scan_palette_rle_steps)
qed

lemma skip_product_eq: "l * k \<le> size_max \<Longrightarrow> skip_product l k r = reader_skip (l * k) r"
  by (simp add: skip_product_def checkedMultiply_iff)

lemma read_pixels_length: "read_pixels d e n r = Inr (ps, r') \<Longrightarrow> length ps = n"
  by (induction n arbitrary: r ps) (auto simp: andThen_Inr_iff)

lemma scans_decodeZrleTile:
  assumes d: "pixel_reads d cb" and dim: "tw \<le> 64" "th \<le> 64" "cb \<le> 4"
  shows "scans_as (decodeZrleTile d tw th r) (scanZrleTile cb tw th r)"
proof -
  have "tw * th * cb \<le> 64 * 64 * 4" by (rule mult_le_mono [OF mult_le_mono [OF dim(1,2)] dim(3)])
  then have raw: "tw * th * cb \<le> size_max" by (simp add: size_max_def)
  have pal: "unat (sub :: u8) * cb \<le> size_max" "(unat sub - 128) * cb \<le> size_max" for sub
  proof -
    have "unat sub < 2 ^ LENGTH(8)" by (rule unsigned_less)
    then have "unat sub * cb \<le> 256 * 4" using dim(3) by (intro mult_le_mono) auto
    then show "unat sub * cb \<le> size_max" by (simp add: size_max_def)
    moreover have "(unat sub - 128) * cb \<le> unat sub * cb" by simp
    ultimately show "(unat sub - 128) * cb \<le> size_max" by (rule order.trans [rotated])
  qed
  have rows: "(tw * bitsPerIndex s + 7) div 8 * th \<le> size_max" for s
  proof -
    have "tw * bitsPerIndex s \<le> 64 * 4" using dim(1) by (intro mult_le_mono) (auto simp: bitsPerIndex_def)
    then have "(tw * bitsPerIndex s + 7) div 8 * th \<le> 40 * 64" using dim(2) by (intro mult_le_mono) auto
    then show ?thesis by (simp add: size_max_def)
  qed
  have palette: "scans_as (andThen (read_pixels d e (s - 128) r1) (\<lambda>(palette, r2). palette_rle palette (tw * th) r2))
      (andThen (or_error (reader_skip ((s - 128) * cb) r1) e) (\<lambda>r2. scan_palette_rle (s - 128) (tw * th) r2))" for s e r1
    by (intro scans_as_bind scans_read_pixels [OF d]) (metis read_pixels_length scans_palette_rle)
  have packed: "scans_as (packed_rows palette bpi rb tw th r2)
      (or_error (reader_skip (rb * th) r2) ''VNC ZRLE packed palette indexes are truncated'')" for palette bpi rb r2
    using scans_packed_rows [of palette bpi rb tw th r2] by (simp add: mult.commute)
  have solid: "scans_as (andThen (or_error (readPacked d r1) e) (\<lambda>(p, r2). Inr (replicate k p, r2)))
      (or_error (reader_skip cb r1) e)" for r1 e k
    by (rule scans_as_map [OF scans_readPacked [OF d]])
  show ?thesis
    unfolding decodeZrleTile_def scanZrleTile_def Let_def skip_product_eq [OF raw] skip_product_eq [OF pal(1)]
      skip_product_eq [OF pal(2)] skip_product_eq [OF rows]
    by (intro scans_as_same)
      (auto simp: palette solid scans_plain_rle [OF d] scans_read_pixels [OF d]
        intro!: scans_as_bind [OF scans_read_pixels [OF d]] packed)
qed

section \<open>Every pixel is written, and a rectangle is bounded\<close>

lemma packed_rows_length: "packed_rows palette bpi rb tw rows r = Inr (ps, r') \<Longrightarrow> length ps = tw * rows"
  by (induction rows arbitrary: r ps) (auto simp: andThen_Inr_iff packed_row_def dest!: those_length)

lemma indexed_run_le: "indexed_run c n r = Some (k, r') \<Longrightarrow> 0 < n \<Longrightarrow> k \<le> n"
  by (auto simp: indexed_run_def dest: readRunLength_bounds split: if_splits)

lemma plain_rle_InrE:
  assumes "plain_rle d n r = Inr (ps, r')" "0 < n"
  obtains p r1 run r2 qs where "readPacked d r = Some (p, r1)" "readRunLength n r1 = Some (run, r2)"
    "plain_rle d (n - run) r2 = Inr (qs, r')" "ps = replicate run p @ qs"
proof -
  note assms(1) [unfolded plain_rle_steps(2) [OF assms(2)] andThen_Inr_iff]
  then show ?thesis by (clarsimp simp: andThen_Inr_iff) (rule that, assumption+)
qed

lemma palette_rle_InrE:
  assumes "palette_rle palette n r = Inr (ps, r')" "0 < n"
  obtains c r1 run r2 qs where "readU8 r = Some (c, r1)" "indexed_run c n r1 = Some (run, r2)"
    "palette_rle palette (n - run) r2 = Inr (qs, r')" "ps = replicate run (palette ! unat (c AND 0x7F)) @ qs"
proof -
  note assms(1) [unfolded palette_rle_steps(2) [OF assms(2)] andThen_Inr_iff]
  then show ?thesis
    by (clarsimp simp: andThen_Inr_iff split: if_splits) (rule that, assumption+)
qed

lemma plain_rle_length: "plain_rle d n r = Inr (ps, r') \<Longrightarrow> length ps = n"
proof (induction n arbitrary: r ps rule: less_induct)
  case (less n)
  show ?case
  proof (cases "n = 0")
    case False
    then have "0 < n" by simp
    from less.prems this obtain p r1 run r2 qs where "readPacked d r = Some (p, r1)" "readRunLength n r1 = Some (run, r2)"
      "plain_rle d (n - run) r2 = Inr (qs, r')" "ps = replicate run p @ qs"
      by (rule plain_rle_InrE)
    then show ?thesis
      using less.IH [of "n - run" r2 qs] readRunLength_bounds [of n r1 run r2] False by simp
  qed (use less.prems in \<open>simp add: plain_rle_steps\<close>)
qed

lemma palette_rle_length: "palette_rle palette n r = Inr (ps, r') \<Longrightarrow> length ps = n"
proof (induction n arbitrary: r ps rule: less_induct)
  case (less n)
  show ?case
  proof (cases "n = 0")
    case False
    then have "0 < n" by simp
    from less.prems this obtain c r1 run r2 qs where "readU8 r = Some (c, r1)" "indexed_run c n r1 = Some (run, r2)"
      "palette_rle palette (n - run) r2 = Inr (qs, r')" "ps = replicate run (palette ! unat (c AND 0x7F)) @ qs"
      by (rule palette_rle_InrE)
    then show ?thesis
      using less.IH [of "n - run" r2 qs] indexed_run_le [of c n r1 run r2] indexed_run_pos [of c n r1 run r2] False
      by simp
  qed (use less.prems in \<open>simp add: palette_rle_steps\<close>)
qed

lemma decodeZrleTile_length: "decodeZrleTile d tw th r = Inr (px, r') \<Longrightarrow> length px = tw * th"
  by (auto simp: decodeZrleTile_def andThen_Inr_iff Let_def
      dest: read_pixels_length plain_rle_length palette_rle_length packed_rows_length split: if_splits)

lemma run_loop_cost: "run_loop rem run r = Some (n, r') \<Longrightarrow> length r + run \<le> length r' + n + 1"
  by (induction rem run r rule: run_loop.induct) (fastforce split: if_splits)+

lemma readRunLength_cost: "readRunLength n r = Some (k, r') \<Longrightarrow> length r \<le> length r' + k"
  unfolding readRunLength_def by (drule run_loop_cost) simp

lemma indexed_run_cost: "indexed_run c n r = Some (k, r') \<Longrightarrow> length r \<le> length r' + k"
  by (auto simp: indexed_run_def dest: readRunLength_cost split: if_splits)

lemma readU8_cost: "readU8 r = Some (v, r') \<Longrightarrow> length r = length r' + 1"
  by (auto simp: readU8_def split: list.splits)

lemma scans_cost:
  "scans_as (Inr (a, r')) (or_error (reader_skip n r) e) \<Longrightarrow> length r = length r' + n"
  by (auto simp: reader_skip_eq split: if_splits)

lemma plain_rle_cost:
  assumes "pixel_reads d cb"
  shows "plain_rle d n r = Inr (ps, r') \<Longrightarrow> length r \<le> length r' + n * (cb + 1)"
proof (induction n arbitrary: r ps rule: less_induct)
  case (less n)
  show ?case
  proof (cases "n = 0")
    case False
    then have "0 < n" by simp
    from less.prems this obtain p r1 run r2 qs where e: "readPacked d r = Some (p, r1)" "readRunLength n r1 = Some (run, r2)"
      "plain_rle d (n - run) r2 = Inr (qs, r')" "ps = replicate run p @ qs"
      by (rule plain_rle_InrE)
    have run: "1 \<le> run" "run \<le> n" using readRunLength_bounds [OF e(2)] \<open>0 < n\<close> by simp_all
    have "length r2 \<le> length r' + (n - run) * (cb + 1)" using less.IH [OF _ e(3)] run by simp
    moreover have "length r \<le> length r1 + cb" using pixel_readsD [OF assms e(1)] by simp
    moreover have "length r1 \<le> length r2 + run" by (rule readRunLength_cost [OF e(2)])
    moreover have "cb \<le> run * cb" using run by simp
    moreover have "n * (cb + 1) = (n - run) * (cb + 1) + (run * cb + run)"
      using run by (metis add_mult_distrib add_mult_distrib2 le_add_diff_inverse2 mult.right_neutral)
    ultimately show ?thesis by linarith
  qed (use less.prems in \<open>simp add: plain_rle_steps\<close>)
qed

lemma palette_rle_cost:
  assumes "0 < cb"
  shows "palette_rle palette n r = Inr (ps, r') \<Longrightarrow> length r \<le> length r' + n * (cb + 1)"
proof (induction n arbitrary: r ps rule: less_induct)
  case (less n)
  show ?case
  proof (cases "n = 0")
    case False
    then have "0 < n" by simp
    from less.prems this obtain c r1 run r2 qs where e: "readU8 r = Some (c, r1)" "indexed_run c n r1 = Some (run, r2)"
      "palette_rle palette (n - run) r2 = Inr (qs, r')" "ps = replicate run (palette ! unat (c AND 0x7F)) @ qs"
      by (rule palette_rle_InrE)
    have run: "1 \<le> run" "run \<le> n" using indexed_run_pos [OF e(2)] indexed_run_le [OF e(2)] \<open>0 < n\<close> by simp_all
    have "length r2 \<le> length r' + (n - run) * (cb + 1)" using less.IH [OF _ e(3)] run by simp
    moreover have "length r = length r1 + 1" by (rule readU8_cost [OF e(1)])
    moreover have "length r1 \<le> length r2 + run" by (rule indexed_run_cost [OF e(2)])
    moreover have "1 \<le> run * cb" using run assms by simp
    moreover have "n * (cb + 1) = (n - run) * (cb + 1) + (run * cb + run)"
      using run by (metis add_mult_distrib add_mult_distrib2 le_add_diff_inverse2 mult.right_neutral)
    ultimately show ?thesis by linarith
  qed (use less.prems in \<open>simp add: palette_rle_steps\<close>)
qed

lemma read_pixels_cost:
  "pixel_reads d cb \<Longrightarrow> read_pixels d e n r = Inr (ps, r') \<Longrightarrow> length r = length r' + n * cb"
  using scans_read_pixels [of d cb e n r] scans_cost by metis

lemma packed_rows_cost:
  "packed_rows palette bpi rb tw rows r = Inr (ps, r') \<Longrightarrow> length r = length r' + rows * rb"
  using scans_packed_rows [of palette bpi rb tw rows r] scans_cost [of ps r' "rows * rb" r] by simp

lemma packed_row_bytes: "(tw * bitsPerIndex s + 7) div 8 \<le> tw"
  by (auto simp: bitsPerIndex_def)

lemma decodeZrleTile_cost:
  assumes d: "pixel_reads d cb" and ok: "decodeZrleTile d tw th r = Inr (px, r')"
  shows "length r \<le> length r' + (1 + 127 * cb) + tw * th * (cb + 1)"
proof -
  have cb: "0 < cb" using d by (simp add: pixel_reads_def)
  obtain sub r1 where u8: "readU8 r = Some (sub, r1)" using ok by (auto simp: decodeZrleTile_def andThen_Inr_iff)
  define s where "s = unat sub"
  have r: "length r = length r1 + 1" by (rule readU8_cost [OF u8])
  note t = ok [unfolded decodeZrleTile_def u8 or_error_simps andThen_simps case_prod_conv Let_def, folded s_def]
  consider "s = 0" | "s = 1" | "2 \<le> s" "s \<le> 16" | "s = 128" | "130 \<le> s"
    using t by (auto split: if_splits)
  then have "length r1 \<le> length r' + 127 * cb + tw * th * (cb + 1)"
  proof cases
    case 1
    then show ?thesis using t read_pixels_cost [OF d] by fastforce
  next
    case 2
    then show ?thesis using t pixel_readsD [OF d] by (fastforce simp: andThen_Inr_iff)
  next
    case 3
    then obtain palette r2 where p: "read_pixels d ''VNC ZRLE packed palette is truncated'' s r1 = Inr (palette, r2)"
      "packed_rows palette (bitsPerIndex s) ((tw * bitsPerIndex s + 7) div 8) tw th r2 = Inr (px, r')"
      using t by (auto simp: andThen_Inr_iff)
    have "s * cb \<le> 127 * cb" "th * ((tw * bitsPerIndex s + 7) div 8) \<le> th * tw"
      using 3 packed_row_bytes by (intro mult_le_mono; simp)+
    moreover have "th * tw \<le> tw * th * (cb + 1)" by simp
    ultimately show ?thesis using read_pixels_cost [OF d p(1)] packed_rows_cost [OF p(2)] by linarith
  next
    case 4
    then show ?thesis using t plain_rle_cost [OF d] by fastforce
  next
    case 5
    then obtain palette r2 where p: "read_pixels d ''VNC ZRLE palette RLE palette is truncated'' (s - 128) r1 = Inr (palette, r2)"
      "palette_rle palette (tw * th) r2 = Inr (px, r')"
      using t by (auto simp: andThen_Inr_iff split: if_splits)
    have "s < 2 ^ LENGTH(8)" unfolding s_def by (rule unsigned_less)
    then have "(s - 128) * cb \<le> 127 * cb" by (intro mult_le_mono) auto
    then show ?thesis using read_pixels_cost [OF d p(1)] palette_rle_cost [OF cb p(2)] by linarith
  qed
  then show ?thesis using r by linarith
qed

end
