(* ===== verification/Vnc_Framebuffer.thy ===== *)
theory Vnc_Framebuffer
  imports Vnc_Zrle "HOL-Library.Sublist"
begin

text \<open>
  A ZRLE rectangle into a framebuffer (\<open>buildZrleTileJobs\<close>, \<open>decodeZrleTilesInto\<close> and its two
  wrappers in \<open>vnc/vnc_rfb_protocol.cpp\<close>). The workers are a step relation: every worker is at one of
  the points between its accesses to the shared counter, the failure flag and the framebuffer, and any
  worker may move. Allocations and the number of threads that could be started are arguments.

  The reference is the sequential reading of RFC 6143: the tiles one after the other from one reader.
  The theorems show that the two-pass parallel decoder implements it in every interleaving, and that
  \<open>maxZrleDecodedBytes\<close> bounds every rectangle the reference accepts.
\<close>

section \<open>Tiles of a rectangle\<close>

text \<open>The two nested loops over \<open>tileY\<close> and \<open>tileX\<close> in steps of 64: \<open>(x, y, width, height)\<close>.\<close>

type_synonym rect = "nat \<times> nat \<times> nat \<times> nat"

definition tile_at :: "nat \<Rightarrow> nat \<Rightarrow> nat \<Rightarrow> nat \<Rightarrow> rect" where
  "tile_at w h row col = (64 * col, 64 * row, min 64 (w - 64 * col), min 64 (h - 64 * row))"

definition tile_rects :: "nat \<Rightarrow> nat \<Rightarrow> rect list" where
  "tile_rects w h = concat (map (\<lambda>row. map (tile_at w h row) [0..<(w + 63) div 64]) [0..<(h + 63) div 64])"

record tile_job =
  tj_rect :: rect
  tj_offset :: nat
  tj_size :: nat

fun scan_tiles :: "nat \<Rightarrow> nat \<Rightarrow> rect list \<Rightarrow> reader \<Rightarrow> string + (tile_job list \<times> reader)" where
  "scan_tiles cb sz [] r = Inr ([], r)"
| "scan_tiles cb sz (q # qs) r =
     andThen (case q of (x, y, tw, th) \<Rightarrow> scanZrleTile cb tw th r) (\<lambda>r1.
     andThen (scan_tiles cb sz qs r1) (\<lambda>(js, r2).
     Inr (\<lparr>tj_rect = q, tj_offset = sz - length r, tj_size = length r - length r1\<rparr> # js, r2)))"

definition buildZrleTileJobs :: "bool \<Rightarrow> nat \<Rightarrow> nat \<Rightarrow> nat \<Rightarrow> bytes \<Rightarrow> string + tile_job list" where
  "buildZrleTileJobs alloc w h cb data =
     (case checkedMultiply ((w + 63) div 64) ((h + 63) div 64) of
        None \<Rightarrow> Inl ''VNC ZRLE tile count overflows''
      | Some tileCount \<Rightarrow>
          (if \<not> alloc then Inl ''VNC ZRLE tile index allocation failed''
           else andThen (scan_tiles cb (length data) (tile_rects w h) data) (\<lambda>(jobs, r).
             if length r \<noteq> 0 then Inl ''VNC ZRLE rectangle has trailing decompressed data'' else Inr jobs)))"

section \<open>The worker pool\<close>

record zrle_work =
  zw_decoder :: pixel_decoder
  zw_jobs :: "tile_job list"
  zw_data :: bytes
  zw_stride :: nat

text \<open>
  Where a worker is: before it looks at the flag, before it takes a number, before it decodes a job,
  before it copies a row of a decoded tile, or at its end.
\<close>

datatype worker = Check | Fetch | Decode nat | Copy nat bytes nat | Done

record pool =
  pl_nextJob :: nat
  pl_failed :: bool
  pl_error :: string
  pl_destination :: bytes

definition pool_fail :: "string \<Rightarrow> pool \<Rightarrow> pool" where
  "pool_fail e p = (if pl_failed p then p else p\<lparr>pl_failed := True, pl_error := e\<rparr>)"

definition decode_job :: "zrle_work \<Rightarrow> tile_job \<Rightarrow> string + bytes" where
  "decode_job W j = (case tj_rect j of (x, y, tw, th) \<Rightarrow>
     case decodeZrleTile (zw_decoder W) tw th (take (tj_size j) (drop (tj_offset j) (zw_data W))) of
       Inl e \<Rightarrow> Inl e
     | Inr (px, r) \<Rightarrow> if length r \<noteq> 0 then Inl ''VNC ZRLE tile decoder did not consume its bounded input''
                      else Inr (concat (map writePixel px)))"

definition copy_row :: "zrle_work \<Rightarrow> rect \<Rightarrow> bytes \<Rightarrow> nat \<Rightarrow> bytes \<Rightarrow> bytes" where
  "copy_row W q tile row dst = (case q of (x, y, tw, th) \<Rightarrow>
     memcpy_at dst ((y + row) * zw_stride W + x * 4) (take (tw * 4) (drop (row * (tw * 4)) tile)))"

fun worker_step :: "zrle_work \<Rightarrow> bool \<Rightarrow> worker \<Rightarrow> pool \<Rightarrow> worker \<times> pool" where
  "worker_step W alloc Check p = (if pl_failed p then Done else Fetch, p)"
| "worker_step W alloc Fetch p =
     (if pl_nextJob p \<ge> length (zw_jobs W) then Done else Decode (pl_nextJob p),
      p\<lparr>pl_nextJob := pl_nextJob p + 1\<rparr>)"
| "worker_step W alloc (Decode n) p =
     (if \<not> alloc then (Done, pool_fail ''VNC ZRLE tile decode allocation failed'' p)
      else case decode_job W (zw_jobs W ! n) of
        Inl e \<Rightarrow> (Done, pool_fail e p)
      | Inr tile \<Rightarrow> (Copy n tile 0, p))"
| "worker_step W alloc (Copy n tile row) p =
     (case tj_rect (zw_jobs W ! n) of (x, y, tw, th) \<Rightarrow>
        if row < th
        then (Copy n tile (row + 1),
              p\<lparr>pl_destination := copy_row W (tj_rect (zw_jobs W ! n)) tile row (pl_destination p)\<rparr>)
        else (Check, p))"
| "worker_step W alloc Done p = (Done, p)"

inductive pool_step :: "zrle_work \<Rightarrow> worker list \<times> pool \<Rightarrow> worker list \<times> pool \<Rightarrow> bool" for W where
  move: "i < length ws \<Longrightarrow> ws ! i \<noteq> Done \<Longrightarrow> worker_step W alloc (ws ! i) p = (w', p') \<Longrightarrow>
    pool_step W (ws, p) (ws[i := w'], p')"

definition new_pool :: "bytes \<Rightarrow> pool" where
  "new_pool dst = \<lparr>pl_nextJob = 0, pl_failed = False, pl_error = [], pl_destination = dst\<rparr>"

section \<open>Decoding a rectangle\<close>

record allocations =
  al_jobs :: bool
  al_table :: bool

text \<open>Everything before the threads: the checks, the tile jobs, the decoder.\<close>

definition zrle_prepare ::
    "allocations \<Rightarrow> pixel_format \<Rightarrow> int \<Rightarrow> int \<Rightarrow> bytes option \<Rightarrow> bytes option \<Rightarrow> nat \<Rightarrow> bool \<Rightarrow> string + zrle_work" where
  "zrle_prepare al f width height data dst stride blueFirst =
     (if width \<le> 0 \<or> height \<le> 0 \<or> data = None \<or> data = Some [] \<or> dst = None \<or> \<not> validPixelFormat f
      then Inl ''VNC ZRLE rectangle input is invalid''
      else let cb = compactPixelBytes f; bs = the data; too_small = ''VNC ZRLE destination is too small'' in
        if cb = 0 then Inl too_small
        else andThen (or_error (checkedMultiply (nat width) 4) too_small) (\<lambda>rowBytes.
          if stride < rowBytes then Inl too_small
          else andThen (or_error (checkedMultiply (nat (height - 1)) stride) too_small) (\<lambda>lastRowOffset.
            andThen (or_error (checkedAdd lastRowOffset rowBytes) too_small) (\<lambda>requiredBytes.
            if length (the dst) < requiredBytes then Inl too_small
            else andThen (buildZrleTileJobs (al_jobs al) (nat width) (nat height) cb bs) (\<lambda>jobs.
              let decoder = compactPixelDecoder (al_table al) f blueFirst in
              if \<not> decoder_ready decoder then Inl ''VNC ZRLE pixel lookup allocation failed''
              else andThen (or_error (checkedMultiply (nat width) (nat height)) ''VNC ZRLE rectangle size overflows'')
                (\<lambda>pixelCount. Inr \<lparr>zw_decoder = decoder, zw_jobs = jobs, zw_data = bs, zw_stride = stride\<rparr>))))))"

definition workerCount :: "nat \<Rightarrow> nat \<Rightarrow> nat \<Rightarrow> nat" where
  "workerCount hardwareWorkers pixelCount jobs =
     (if pixelCount \<ge> 256 * 1024 \<and> jobs \<ge> 8
      then min 4 (min (if hardwareWorkers = 0 then 2 else hardwareWorkers) jobs) else 1)"

text \<open>
  The calling thread is a worker, and up to \<open>workerCount - 1\<close> more could be started. The result is
  read when every worker has ended: \<open>Inl\<close> the error or \<open>Inr ()\<close>, and the framebuffer.
\<close>

inductive decodeZrleTilesInto ::
    "allocations \<Rightarrow> nat \<Rightarrow> pixel_format \<Rightarrow> int \<Rightarrow> int \<Rightarrow> bytes option \<Rightarrow> bytes option \<Rightarrow> nat \<Rightarrow> bool \<Rightarrow>
     string + unit \<Rightarrow> bytes option \<Rightarrow> bool" where
  refused: "zrle_prepare al f width height data dst stride blueFirst = Inl e \<Longrightarrow>
    decodeZrleTilesInto al hw f width height data dst stride blueFirst (Inl e) dst"
| ran: "zrle_prepare al f width height data (Some dst) stride blueFirst = Inr W \<Longrightarrow>
    1 \<le> m \<Longrightarrow> m \<le> workerCount hw (nat width * nat height) (length (zw_jobs W)) \<Longrightarrow>
    (pool_step W)\<^sup>*\<^sup>* (replicate m Check, new_pool dst) (ws, p) \<Longrightarrow> \<forall>w\<in>set ws. w = Done \<Longrightarrow>
    decodeZrleTilesInto al hw f width height data (Some dst) stride blueFirst
      (if pl_failed p then Inl (pl_error p) else Inr ()) (Some (pl_destination p))"

text \<open>The two entry points: into a new RGBA image, which is emptied on a failure, and into a BGRA framebuffer.\<close>

inductive decodeZrleTiles ::
    "allocations \<Rightarrow> bool \<Rightarrow> nat \<Rightarrow> pixel_format \<Rightarrow> int \<Rightarrow> int \<Rightarrow> bytes option \<Rightarrow> string + unit \<Rightarrow> bytes \<Rightarrow> bool" where
  invalid: "width \<le> 0 \<or> height \<le> 0 \<or> data = None \<or> data = Some [] \<or> \<not> validPixelFormat f \<or> compactPixelBytes f = 0 \<Longrightarrow>
    decodeZrleTiles al imageAlloc hw f width height data (Inl ''VNC ZRLE rectangle input is invalid'') []"
| overflow: "0 < width \<Longrightarrow> 0 < height \<Longrightarrow> data \<noteq> None \<Longrightarrow> data \<noteq> Some [] \<Longrightarrow> validPixelFormat f \<Longrightarrow> compactPixelBytes f \<noteq> 0 \<Longrightarrow>
    Option.bind (checkedMultiply (nat width) (nat height)) (\<lambda>n. checkedMultiply n 4) = None \<Longrightarrow>
    decodeZrleTiles al imageAlloc hw f width height data (Inl ''VNC ZRLE rectangle size overflows'') []"
| no_image: "0 < width \<Longrightarrow> 0 < height \<Longrightarrow> data \<noteq> None \<Longrightarrow> data \<noteq> Some [] \<Longrightarrow> validPixelFormat f \<Longrightarrow> compactPixelBytes f \<noteq> 0 \<Longrightarrow>
    Option.bind (checkedMultiply (nat width) (nat height)) (\<lambda>n. checkedMultiply n 4) = Some rgbaBytes \<Longrightarrow> \<not> imageAlloc \<Longrightarrow>
    decodeZrleTiles al imageAlloc hw f width height data (Inl ''VNC ZRLE rectangle allocation failed'') []"
| decoded: "0 < width \<Longrightarrow> 0 < height \<Longrightarrow> data \<noteq> None \<Longrightarrow> data \<noteq> Some [] \<Longrightarrow> validPixelFormat f \<Longrightarrow> compactPixelBytes f \<noteq> 0 \<Longrightarrow>
    Option.bind (checkedMultiply (nat width) (nat height)) (\<lambda>n. checkedMultiply n 4) = Some rgbaBytes \<Longrightarrow> imageAlloc \<Longrightarrow>
    decodeZrleTilesInto al hw f width height data (Some (replicate rgbaBytes 0)) (nat width * 4) False res (Some rgba) \<Longrightarrow>
    decodeZrleTiles al imageAlloc hw f width height data res (case res of Inl e \<Rightarrow> [] | Inr _ \<Rightarrow> rgba)"

definition decodeZrleTilesToBgra ::
    "allocations \<Rightarrow> nat \<Rightarrow> pixel_format \<Rightarrow> int \<Rightarrow> int \<Rightarrow> bytes option \<Rightarrow> bytes option \<Rightarrow> nat \<Rightarrow> string + unit \<Rightarrow> bytes option \<Rightarrow> bool" where
  "decodeZrleTilesToBgra al hw f width height data dst stride res fb \<longleftrightarrow>
     decodeZrleTilesInto al hw f width height data dst stride True res fb"

text \<open>The largest decompressed stream a rectangle may have.\<close>

definition maxZrleDecodedBytes :: "int \<Rightarrow> int \<Rightarrow> pixel_format \<Rightarrow> nat option" where
  "maxZrleDecodedBytes width height f =
     (if width \<le> 0 \<or> height \<le> 0 \<or> \<not> validPixelFormat f then None
      else Option.bind (checkedMultiply (nat width) (nat height)) (\<lambda>pixels.
        let compactBytes = compactPixelBytes f in
        Option.bind (checkedAdd compactBytes 1) (\<lambda>perPixelBytes.
        Option.bind (checkedMultiply pixels perPixelBytes) (\<lambda>runBytes.
        Option.bind (checkedMultiply ((nat width + 63) div 64) ((nat height + 63) div 64)) (\<lambda>tileCount.
        Option.bind (checkedMultiply 127 compactBytes) (\<lambda>paletteBytes.
        Option.bind (checkedAdd 1 paletteBytes) (\<lambda>perTileBytes.
        Option.bind (checkedMultiply tileCount perTileBytes) (\<lambda>overheadBytes.
        checkedAdd runBytes overheadBytes))))))))"

section \<open>The reference: tiles in sequence\<close>

fun reference_tiles :: "pixel_decoder \<Rightarrow> rect list \<Rightarrow> reader \<Rightarrow> string + u32 list list" where
  "reference_tiles d [] r = (if r = [] then Inr [] else Inl ''VNC ZRLE rectangle has trailing decompressed data'')"
| "reference_tiles d (q # qs) r =
     andThen (case q of (x, y, tw, th) \<Rightarrow> decodeZrleTile d tw th r) (\<lambda>(px, r1).
     andThen (reference_tiles d qs r1) (\<lambda>ts. Inr (px # ts)))"

definition small_rect :: "rect \<Rightarrow> bool" where
  "small_rect q \<longleftrightarrow> (case q of (x, y, tw, th) \<Rightarrow> tw \<le> 64 \<and> th \<le> 64)"

definition job_slice :: "bytes \<Rightarrow> tile_job \<Rightarrow> bytes" where
  "job_slice data j = take (tj_size j) (drop (tj_offset j) data)"

lemma run_loop_suffix: "run_loop rem run r = Some (n, r') \<Longrightarrow> suffix r' r"
  by (induction rem run r rule: run_loop.induct) (auto split: if_splits intro: suffix_ConsI)

lemma indexed_run_suffix: "indexed_run c n r = Some (k, r') \<Longrightarrow> suffix r' r"
  by (auto simp: indexed_run_def readRunLength_def dest: run_loop_suffix split: if_splits)

lemma reader_skip_suffix: "reader_skip n r = Some r' \<Longrightarrow> suffix r' r"
  by (auto simp: reader_skip_eq suffix_drop split: if_splits)

lemma skip_product_suffix: "skip_product l k r = Some r' \<Longrightarrow> suffix r' r"
  by (auto simp: skip_product_def dest: reader_skip_suffix split: option.splits)

lemma readU8_suffix: "readU8 r = Some (c, r') \<Longrightarrow> suffix r' r"
  by (auto simp: readU8_def intro: suffix_ConsI split: list.splits)

lemma scan_plain_rle_suffix: "scan_plain_rle cb n r = Inr r' \<Longrightarrow> suffix r' r"
proof (induction n arbitrary: r rule: less_induct)
  case (less n)
  show ?case
  proof (cases "n = 0")
    case False
    then obtain r1 run r2 where e: "reader_skip cb r = Some r1" "readRunLength n r1 = Some (run, r2)"
        "scan_plain_rle cb (n - run) r2 = Inr r'"
      using less.prems by (auto simp: scan_plain_rle_steps andThen_Inr_iff)
    have "suffix r' r2" using less.IH [OF _ e(3)] readRunLength_pos [OF e(2)] False by simp
    moreover have "suffix r2 r1" using e(2) run_loop_suffix by (simp add: readRunLength_def)
    ultimately show ?thesis using reader_skip_suffix [OF e(1)] suffix_order.trans by blast
  qed (use less.prems in \<open>simp add: scan_plain_rle_steps\<close>)
qed

lemma scan_palette_rle_suffix: "scan_palette_rle k n r = Inr r' \<Longrightarrow> suffix r' r"
proof (induction n arbitrary: r rule: less_induct)
  case (less n)
  show ?case
  proof (cases "n = 0")
    case False
    then obtain c r1 run r2 where e: "readU8 r = Some (c, r1)" "indexed_run c n r1 = Some (run, r2)"
        "scan_palette_rle k (n - run) r2 = Inr r'"
      using less.prems by (auto simp: scan_palette_rle_steps andThen_Inr_iff split: if_splits)
    have "suffix r' r2" using less.IH [OF _ e(3)] indexed_run_pos [OF e(2)] False by simp
    then show ?thesis
      using readU8_suffix [OF e(1)] indexed_run_suffix [OF e(2)] suffix_order.trans by blast
  qed (use less.prems in \<open>simp add: scan_palette_rle_steps\<close>)
qed

lemma scanZrleTile_suffix:
  assumes "scanZrleTile cb tw th r = Inr r'"
  shows "suffix r' r"
proof -
  obtain sub r1 where u8: "readU8 r = Some (sub, r1)" using assms by (auto simp: scanZrleTile_def andThen_Inr_iff)
  have "suffix r' r1"
    using assms u8
    by (auto simp: scanZrleTile_def andThen_Inr_iff Let_def
        dest!: skip_product_suffix reader_skip_suffix scan_plain_rle_suffix scan_palette_rle_suffix split: if_splits
        intro: suffix_order.trans)
  then show ?thesis using readU8_suffix [OF u8] suffix_order.trans by blast
qed

section \<open>Two passes read what the reference reads\<close>

lemma job_slice_at: "job_slice (pre @ s @ r) \<lparr>tj_rect = q, tj_offset = length pre, tj_size = length s\<rparr> = s"
  by (simp add: job_slice_def)

lemma reference_scans:
  assumes d: "pixel_reads d cb" and cb: "cb \<le> 4"
  shows "reference_tiles d qs r = Inr ts \<Longrightarrow> \<forall>q\<in>set qs. small_rect q \<Longrightarrow> data = pre @ r \<Longrightarrow>
    \<exists>js. scan_tiles cb (length data) qs r = Inr (js, []) \<and> map tj_rect js = qs \<and> length ts = length qs \<and>
      (\<forall>i<length js. case js ! i of j \<Rightarrow> case tj_rect j of (x, y, tw, th) \<Rightarrow>
         decodeZrleTile d tw th (job_slice data j) = Inr (ts ! i, []))"
proof (induction qs arbitrary: r ts pre)
  case (Cons q qs)
  obtain x y tw th where q: "q = (x, y, tw, th)" by (metis prod_cases4)
  then have dim: "tw \<le> 64" "th \<le> 64" using Cons.prems(2) by (simp_all add: small_rect_def)
  obtain px r1 ts' where e: "decodeZrleTile d tw th r = Inr (px, r1)" "reference_tiles d qs r1 = Inr ts'" "ts = px # ts'"
    using Cons.prems(1) q by (auto simp: andThen_Inr_iff)
  obtain s where s: "r = s @ r1" "\<And>t. decodeZrleTile d tw th (s @ t) = Inr (px, t)"
    using local_readD [OF local_decodeZrleTile [OF d] e(1)] by blast
  have scan: "scanZrleTile cb tw th r = Inr r1"
    using scans_decodeZrleTile [OF d dim cb, of r] e(1) by simp
  obtain js where js: "scan_tiles cb (length data) qs r1 = Inr (js, [])" "map tj_rect js = qs" "length ts' = length qs"
      "\<forall>i<length js. case js ! i of j \<Rightarrow> case tj_rect j of (x, y, tw, th) \<Rightarrow>
         decodeZrleTile d tw th (job_slice data j) = Inr (ts' ! i, [])"
    using Cons.IH [OF e(2), of "pre @ s"] Cons.prems s(1) by auto
  let ?j = "\<lparr>tj_rect = q, tj_offset = length pre, tj_size = length s\<rparr>"
  have "scan_tiles cb (length data) (q # qs) r = Inr (?j # js, [])"
    using scan js(1) q s(1) Cons.prems(3) by simp
  moreover have "decodeZrleTile d tw th (job_slice data ?j) = Inr (px, [])"
    using s(2) [of "[]"] s(1) Cons.prems(3) job_slice_at [of pre s r1 q] by simp
  ultimately show ?case
    using js q e(3) by (intro exI [of _ "?j # js"]) (auto simp: nth_Cons split: nat.split)
qed (auto split: if_splits)

lemma scans_reference:
  assumes d: "pixel_reads d cb"
  shows "scan_tiles cb (length data) qs r = Inr (js, []) \<Longrightarrow> data = pre @ r \<Longrightarrow>
    \<forall>j\<in>set js. case tj_rect j of (x, y, tw, th) \<Rightarrow> \<exists>px. decodeZrleTile d tw th (job_slice data j) = Inr (px, []) \<Longrightarrow>
    \<exists>ts. reference_tiles d qs r = Inr ts"
proof (induction qs arbitrary: r js pre)
  case (Cons q qs)
  obtain x y tw th where q: "q = (x, y, tw, th)" by (metis prod_cases4)
  obtain r1 js' where e: "scanZrleTile cb tw th r = Inr r1" "scan_tiles cb (length data) qs r1 = Inr (js', [])"
      "js = \<lparr>tj_rect = q, tj_offset = length data - length r, tj_size = length r - length r1\<rparr> # js'"
    using Cons.prems(1) q by (auto simp: andThen_Inr_iff)
  obtain s where s: "r = s @ r1" using scanZrleTile_suffix [OF e(1)] by (auto simp: suffix_def)
  obtain px where "decodeZrleTile d tw th s = Inr (px, [])"
    using Cons.prems(2,3) e(3) q s job_slice_at [of pre s r1 q] by auto
  then have "decodeZrleTile d tw th r = Inr (px, r1)"
    using local_readD [OF local_decodeZrleTile [OF d]] s by fastforce
  moreover obtain ts where "reference_tiles d qs r1 = Inr ts"
    using Cons.IH [OF e(2), of "pre @ s"] Cons.prems(2,3) s e(3) by auto
  ultimately show ?case using q by simp
qed auto

section \<open>Where a tile is\<close>

definition covers :: "rect \<Rightarrow> nat \<Rightarrow> nat \<Rightarrow> bool" where
  "covers q stride p \<longleftrightarrow> (case q of (x, y, tw, th) \<Rightarrow>
     y \<le> p div stride \<and> p div stride < y + th \<and> x * 4 \<le> p mod stride \<and> p mod stride < (x + tw) * 4)"

definition tile_byte :: "rect \<Rightarrow> nat \<Rightarrow> bytes \<Rightarrow> nat \<Rightarrow> u8" where
  "tile_byte q stride tile p = (case q of (x, y, tw, th) \<Rightarrow>
     tile ! ((p div stride - y) * (tw * 4) + (p mod stride - x * 4)))"

text \<open>A rectangle the checks have accepted: its rows fit the stride and the last row fits the buffer.\<close>

definition rect_fits :: "rect \<Rightarrow> nat \<Rightarrow> nat \<Rightarrow> bool" where
  "rect_fits q stride len \<longleftrightarrow> (case q of (x, y, tw, th) \<Rightarrow> 0 < stride \<and> (x + tw) * 4 \<le> stride \<and>
     (\<forall>row<th. (y + row) * stride + (x + tw) * 4 \<le> len))"

lemma copy_row_in_bounds:
  assumes "rect_fits (x, y, tw, th) (zw_stride W) (length dst)" "row < th" "length tile = tw * th * 4"
  shows "(y + row) * zw_stride W + x * 4 + tw * 4 \<le> length dst \<and> row * (tw * 4) + tw * 4 \<le> length tile"
proof
  show "(y + row) * zw_stride W + x * 4 + tw * 4 \<le> length dst"
    using assms(1,2) by (auto simp: rect_fits_def algebra_simps)
  have "(row + 1) * (tw * 4) \<le> th * (tw * 4)" using assms(2) by (intro mult_le_mono1) simp
  then show "row * (tw * 4) + tw * 4 \<le> length tile" using assms(3) by (simp add: algebra_simps)
qed

lemma copy_row_effect:
  assumes fits: "rect_fits q (zw_stride W) (length dst)" and q: "q = (x, y, tw, th)"
    and row: "row < th" and tile: "length tile = tw * th * 4"
  shows "length (copy_row W q tile row dst) = length dst"
    and "p < length dst \<Longrightarrow> copy_row W q tile row dst ! p =
      (if covers q (zw_stride W) p \<and> p div zw_stride W = y + row then tile_byte q (zw_stride W) tile p else dst ! p)"
proof -
  note b = copy_row_in_bounds [OF fits [unfolded q] row tile]
  have "tw * 4 \<le> length tile - row * (tw * 4)" using b by linarith
  then have len: "length (take (tw * 4) (drop (row * (tw * 4)) tile)) = tw * 4" by simp
  then show "length (copy_row W q tile row dst) = length dst"
    using b by (simp add: copy_row_def q del: length_take)
  have stride: "0 < zw_stride W" "x * 4 + tw * 4 \<le> zw_stride W"
    using fits q by (auto simp: rect_fits_def algebra_simps)
  assume "p < length dst"
  then have "copy_row W q tile row dst ! p =
      (if (y + row) * zw_stride W + x * 4 \<le> p \<and> p < (y + row) * zw_stride W + x * 4 + tw * 4
       then take (tw * 4) (drop (row * (tw * 4)) tile) ! (p - ((y + row) * zw_stride W + x * 4)) else dst ! p)"
    using b len by (simp add: copy_row_def q nth_memcpy_at del: length_take)
  moreover have "(y + row) * zw_stride W + x * 4 \<le> p \<and> p < (y + row) * zw_stride W + x * 4 + tw * 4 \<longleftrightarrow>
      covers q (zw_stride W) p \<and> p div zw_stride W = y + row"
    using row_position [OF stride, of "y + row" p] row by (auto simp: covers_def q algebra_simps)
  moreover have "take (tw * 4) (drop (row * (tw * 4)) tile) ! (p - ((y + row) * zw_stride W + x * 4)) =
      tile_byte q (zw_stride W) tile p" if "covers q (zw_stride W) p" "p div zw_stride W = y + row"
  proof -
    have "p = (y + row) * zw_stride W + p mod zw_stride W" using that(2) by (metis div_mult_mod_eq)
    moreover have c: "x * 4 \<le> p mod zw_stride W" "p mod zw_stride W < x * 4 + tw * 4"
      using that(1) by (auto simp: covers_def q algebra_simps)
    ultimately have "p - ((y + row) * zw_stride W + x * 4) = p mod zw_stride W - x * 4" by linarith
    then show ?thesis using c b that(2) by (simp add: tile_byte_def q add.commute)
  qed
  ultimately show "copy_row W q tile row dst ! p =
      (if covers q (zw_stride W) p \<and> p div zw_stride W = y + row then tile_byte q (zw_stride W) tile p else dst ! p)"
    by simp
qed

lemma div_64: "r = m div 64 \<longleftrightarrow> 64 * r \<le> m \<and> m < 64 * r + (64 :: nat)"
  by linarith

lemma tile_rows: "64 * r \<le> m \<and> m < 64 * r + min 64 (h - 64 * r) \<longleftrightarrow> r = m div 64 \<and> m < (h :: nat)"
  unfolding div_64 by linarith

lemma tile_columns: "64 * c * 4 \<le> m \<and> m < (64 * c + min 64 (w - 64 * c)) * 4 \<longleftrightarrow> c = m div 4 div 64 \<and> m < 4 * (w :: nat)"
proof -
  have "64 * c * 4 \<le> m \<longleftrightarrow> 64 * c \<le> m div 4" by linarith
  moreover have "m < k * 4 \<longleftrightarrow> m div 4 < k" for k by linarith
  moreover have "m < 4 * w \<longleftrightarrow> m div 4 < w" by linarith
  ultimately show ?thesis using tile_rows [of c "m div 4" w] by presburger
qed

lemma covers_tile_at:
  "covers (tile_at w h r c) stride p \<longleftrightarrow>
     p div stride < h \<and> p mod stride < 4 * w \<and> r = p div stride div 64 \<and> c = p mod stride div 4 div 64"
  using tile_columns [of c "p mod stride" w] tile_rows [of r "p div stride" h]
  by (auto simp: covers_def tile_at_def)

lemma length_grid: "length (concat (map (\<lambda>i. map (f i) [0..<c]) [0..<r])) = r * c"
  by (induction r) auto

lemma nth_grid:
  "k < r * c \<Longrightarrow> concat (map (\<lambda>i. map (f i) [0..<c]) [0..<r]) ! k = f (k div c) (k mod c)"
proof (induction r)
  case (Suc r)
  show ?case
  proof (cases "k < r * c")
    case False
    then obtain j where j: "k = j + r * c" "j < c" using Suc.prems by (metis add_diff_inverse_nat add.commute less_diff_conv2 mult_Suc not_less)
    then have "k div c = r" "k mod c = j" by simp_all
    then show ?thesis using j False by (simp add: nth_append length_grid)
  qed (use Suc in \<open>simp add: nth_append length_grid\<close>)
qed simp

section \<open>Every interleaving of the workers\<close>

definition job_rect :: "zrle_work \<Rightarrow> nat \<Rightarrow> rect" where
  "job_rect W n = tj_rect (zw_jobs W ! n)"

definition job_covers :: "zrle_work \<Rightarrow> nat \<Rightarrow> nat \<Rightarrow> bool" where
  "job_covers W n p \<longleftrightarrow> covers (job_rect W n) (zw_stride W) p"

definition job_byte :: "zrle_work \<Rightarrow> nat \<Rightarrow> bytes \<Rightarrow> nat \<Rightarrow> u8" where
  "job_byte W n tile p = tile_byte (job_rect W n) (zw_stride W) tile p"

definition job_top :: "zrle_work \<Rightarrow> nat \<Rightarrow> nat" where
  "job_top W n = (case job_rect W n of (x, y, tw, th) \<Rightarrow> y)"

definition job_rows :: "zrle_work \<Rightarrow> nat \<Rightarrow> nat" where
  "job_rows W n = (case job_rect W n of (x, y, tw, th) \<Rightarrow> th)"

definition job_result :: "zrle_work \<Rightarrow> nat \<Rightarrow> string + bytes" where
  "job_result W n = decode_job W (zw_jobs W ! n)"

text \<open>The jobs fit a destination of \<open>len\<close> bytes and no two of them share a byte.\<close>

definition work_ok :: "zrle_work \<Rightarrow> nat \<Rightarrow> bool" where
  "work_ok W len \<longleftrightarrow> (\<forall>n<length (zw_jobs W). rect_fits (job_rect W n) (zw_stride W) len) \<and>
     (\<forall>n<length (zw_jobs W). \<forall>m<length (zw_jobs W). \<forall>p. job_covers W n p \<and> job_covers W m p \<longrightarrow> n = m)"

definition written :: "zrle_work \<Rightarrow> nat \<Rightarrow> bytes \<Rightarrow> nat \<Rightarrow> bytes \<Rightarrow> bool" where
  "written W n tile rows dst \<longleftrightarrow> (\<forall>p<length dst. job_covers W n p \<and> p div zw_stride W < job_top W n + rows \<longrightarrow>
     dst ! p = job_byte W n tile p)"

lemma tile_bytes_length: "length (concat (map writePixel px)) = 4 * length px"
  by (induction px) auto

lemma job_result_length:
  "job_result W n = Inr tile \<Longrightarrow> job_rect W n = (x, y, tw, th) \<Longrightarrow> length tile = tw * th * 4"
  by (auto simp: job_result_def decode_job_def job_rect_def tile_bytes_length dest!: decodeZrleTile_length
      split: sum.splits if_splits)

lemma copy_row_job:
  assumes "work_ok W (length dst)" "n < length (zw_jobs W)" "job_result W n = Inr tile" "row < job_rows W n"
  shows "length (copy_row W (job_rect W n) tile row dst) = length dst"
    and "p < length dst \<Longrightarrow> copy_row W (job_rect W n) tile row dst ! p =
      (if job_covers W n p \<and> p div zw_stride W = job_top W n + row then job_byte W n tile p else dst ! p)"
proof -
  obtain x y tw th where q: "job_rect W n = (x, y, tw, th)" by (metis prod_cases4)
  have f: "rect_fits (job_rect W n) (zw_stride W) (length dst)" using assms(1,2) by (simp add: work_ok_def)
  have r: "row < th" using assms(4) by (simp add: job_rows_def q)
  note e = copy_row_effect [OF f q r job_result_length [OF assms(3) q]]
  show "length (copy_row W (job_rect W n) tile row dst) = length dst" by (rule e(1))
  assume "p < length dst"
  from e(2) [OF this] show "copy_row W (job_rect W n) tile row dst ! p =
      (if job_covers W n p \<and> p div zw_stride W = job_top W n + row then job_byte W n tile p else dst ! p)"
    by (simp add: job_covers_def job_byte_def job_top_def q)
qed

lemma written_copy:
  assumes "work_ok W (length dst)" "n < length (zw_jobs W)" "job_result W n = Inr tile" "row < job_rows W n"
    and "m < length (zw_jobs W)" "job_result W m = Inr tile'" "written W m tile' rows dst"
  shows "written W m tile' rows (copy_row W (job_rect W n) tile row dst)"
proof -
  note e = copy_row_job [OF assms(1-4)]
  show ?thesis
  proof (cases "m = n")
    case True
    then have "tile' = tile" using assms(3,6) by simp
    then show ?thesis using assms(7) True by (auto simp: written_def e)
  next
    case False
    then have "\<not> job_covers W n p" if "job_covers W m p" for p
      using assms(1,2,5) that by (auto simp: work_ok_def)
    then show ?thesis using assms(7) by (auto simp: written_def e)
  qed
qed

lemma written_copy_next:
  assumes "work_ok W (length dst)" "n < length (zw_jobs W)" "job_result W n = Inr tile" "row < job_rows W n"
    and "written W n tile row dst"
  shows "written W n tile (row + 1) (copy_row W (job_rect W n) tile row dst)"
  using assms(5) by (auto simp: written_def copy_row_job [OF assms(1-4)] less_Suc_eq)

text \<open>Before any row is copied nothing is claimed, and a tile has no row above its top.\<close>

lemma written_none: "written W n tile 0 dst"
  by (auto simp: written_def job_covers_def job_top_def covers_def split: prod.splits)

fun worker_inv :: "zrle_work \<Rightarrow> pool \<Rightarrow> worker \<Rightarrow> bool" where
  "worker_inv W p Done \<longleftrightarrow> pl_failed p \<or> length (zw_jobs W) \<le> pl_nextJob p"
| "worker_inv W p (Decode n) \<longleftrightarrow> n < length (zw_jobs W)"
| "worker_inv W p (Copy n tile row) \<longleftrightarrow> n < length (zw_jobs W) \<and> job_result W n = Inr tile \<and>
     written W n tile row (pl_destination p)"
| "worker_inv W p _ \<longleftrightarrow> True"

definition busy_with :: "nat \<Rightarrow> worker \<Rightarrow> bool" where
  "busy_with n w \<longleftrightarrow> (case w of Decode m \<Rightarrow> m = n | Copy m _ _ \<Rightarrow> m = n | _ \<Rightarrow> False)"

definition job_done :: "zrle_work \<Rightarrow> nat \<Rightarrow> bytes \<Rightarrow> bool" where
  "job_done W n dst \<longleftrightarrow> (\<exists>tile. job_result W n = Inr tile \<and> written W n tile (job_rows W n) dst)"

definition frame_inv :: "zrle_work \<Rightarrow> bytes \<Rightarrow> pool \<Rightarrow> bool" where
  "frame_inv W dst0 p \<longleftrightarrow> length (pl_destination p) = length dst0 \<and>
     (\<forall>a<length dst0. (\<forall>n<length (zw_jobs W). \<not> job_covers W n a) \<longrightarrow> pl_destination p ! a = dst0 ! a)"

definition claims_inv :: "zrle_work \<Rightarrow> worker list \<Rightarrow> pool \<Rightarrow> bool" where
  "claims_inv W ws p \<longleftrightarrow> (\<forall>n<length (zw_jobs W). n < pl_nextJob p \<longrightarrow>
     pl_failed p \<or> (\<exists>w\<in>set ws. busy_with n w) \<or> job_done W n (pl_destination p))"

definition error_inv :: "zrle_work \<Rightarrow> pool \<Rightarrow> bool" where
  "error_inv W p \<longleftrightarrow> (pl_failed p \<longrightarrow> pl_error p = ''VNC ZRLE tile decode allocation failed'' \<or>
     (\<exists>n<length (zw_jobs W). job_result W n = Inl (pl_error p)))"

definition pool_inv :: "zrle_work \<Rightarrow> bytes \<Rightarrow> worker list \<times> pool \<Rightarrow> bool" where
  "pool_inv W dst0 c \<longleftrightarrow> (case c of (ws, p) \<Rightarrow>
     frame_inv W dst0 p \<and> (\<forall>w\<in>set ws. worker_inv W p w) \<and> claims_inv W ws p \<and> error_inv W p)"

lemma worker_step_copy:
  "worker_step W alloc (Copy n tile row) p =
     (if row < job_rows W n
      then (Copy n tile (row + 1), p\<lparr>pl_destination := copy_row W (job_rect W n) tile row (pl_destination p)\<rparr>)
      else (Check, p))"
  by (auto simp: job_rows_def job_rect_def split: prod.splits)

lemma worker_step_decode:
  "worker_step W alloc (Decode n) p =
     (if \<not> alloc then (Done, pool_fail ''VNC ZRLE tile decode allocation failed'' p)
      else case job_result W n of Inl e \<Rightarrow> (Done, pool_fail e p) | Inr tile \<Rightarrow> (Copy n tile 0, p))"
  by (simp add: job_result_def)

declare worker_step.simps(3,4) [simp del]

lemma pool_fail_simps [simp]:
  "pl_failed (pool_fail e p)" "pl_destination (pool_fail e p) = pl_destination p"
  "pl_nextJob (pool_fail e p) = pl_nextJob p"
  "pl_error (pool_fail e p) = (if pl_failed p then pl_error p else e)"
  by (simp_all add: pool_fail_def)

text \<open>A step leaves the framebuffer as it is, or copies one row of a decoded tile.\<close>

lemma worker_step_cases:
  assumes "worker_step W alloc w p = (w', p')"
  obtains "pl_destination p' = pl_destination p"
  | n tile row where "w = Copy n tile row" "row < job_rows W n" "w' = Copy n tile (row + 1)"
      "p' = p\<lparr>pl_destination := copy_row W (job_rect W n) tile row (pl_destination p)\<rparr>"
proof (cases w)
  case (Copy n tile row)
  then show thesis using assms that by (auto simp: worker_step_copy split: if_splits)
qed (use assms that in \<open>auto simp: worker_step_decode split: if_splits sum.splits\<close>)

lemma worker_step_mono:
  assumes "worker_step W alloc w p = (w', p')"
  shows "pl_failed p \<Longrightarrow> pl_failed p'" "pl_nextJob p \<le> pl_nextJob p'"
  using assms
  by (cases w; auto simp: worker_step_copy worker_step_decode split: if_splits sum.splits)+

text \<open>A worker that keeps the invariants moves.\<close>

definition moves :: "zrle_work \<Rightarrow> bytes \<Rightarrow> pool \<Rightarrow> worker \<Rightarrow> worker \<Rightarrow> pool \<Rightarrow> bool" where
  "moves W dst0 p w w' p' \<longleftrightarrow> work_ok W (length dst0) \<and> frame_inv W dst0 p \<and> worker_inv W p w \<and>
     (\<exists>alloc. worker_step W alloc w p = (w', p'))"

lemma movesE:
  assumes "moves W dst0 p w w' p'"
  obtains alloc where "work_ok W (length dst0)" "frame_inv W dst0 p" "worker_inv W p w"
    "worker_step W alloc w p = (w', p')"
  using assms unfolding moves_def by blast

lemma step_work_ok: "moves W dst0 p w w' p' \<Longrightarrow> work_ok W (length (pl_destination p))"
  by (simp add: moves_def frame_inv_def)

lemma step_written:
  assumes m: "moves W dst0 p w w' p'"
    and "n < length (zw_jobs W)" "job_result W n = Inr t" "written W n t rows (pl_destination p)"
  shows "written W n t rows (pl_destination p')"
proof -
  from m obtain alloc where w: "worker_inv W p w" and step: "worker_step W alloc w p = (w', p')" by (rule movesE)
  from step show ?thesis
  proof (cases rule: worker_step_cases)
    case (2 k tile row)
    then show ?thesis using w written_copy [OF step_work_ok [OF m] _ _ _ assms(2-4)] by simp
  qed (use assms in simp)
qed

lemma step_frame:
  assumes m: "moves W dst0 p w w' p'"
  shows "frame_inv W dst0 p'"
proof -
  from m obtain alloc where frame: "frame_inv W dst0 p" and w: "worker_inv W p w"
    and step: "worker_step W alloc w p = (w', p')" by (rule movesE)
  from step show ?thesis
  proof (cases rule: worker_step_cases)
    case (2 n tile row)
    then have n: "n < length (zw_jobs W)" "job_result W n = Inr tile" using w by simp_all
    note e = copy_row_job [OF step_work_ok [OF m] n 2(2)]
    show ?thesis using frame n 2(4) by (auto simp: frame_inv_def e)
  qed (use frame in \<open>simp add: frame_inv_def\<close>)
qed

lemma step_other:
  assumes m: "moves W dst0 p w w' p'" and v: "worker_inv W p v"
  shows "worker_inv W p' v"
proof -
  from m obtain alloc where step: "worker_step W alloc w p = (w', p')" by (rule movesE)
  show ?thesis using v worker_step_mono [OF step] step_written [OF m] by (cases v) auto
qed

lemma step_done:
  "moves W dst0 p w w' p' \<Longrightarrow> n < length (zw_jobs W) \<Longrightarrow> job_done W n (pl_destination p) \<Longrightarrow>
     job_done W n (pl_destination p')"
  using step_written by (auto simp: job_done_def)

lemma step_self:
  assumes m: "moves W dst0 p w w' p'"
  shows "worker_inv W p' w'"
proof -
  from m obtain alloc where w: "worker_inv W p w" and step: "worker_step W alloc w p = (w', p')" by (rule movesE)
  show ?thesis
  proof (cases w)
    case (Copy n tile row)
    then show ?thesis
      using step w written_copy_next [OF step_work_ok [OF m], of n tile row]
      by (auto simp: worker_step_copy split: if_splits)
  qed (use step w written_none in \<open>auto simp: worker_step_decode split: if_splits sum.splits\<close>)
qed

lemma step_error:
  assumes m: "moves W dst0 p w w' p'" and e: "error_inv W p"
  shows "error_inv W p'"
proof -
  from m obtain alloc where w: "worker_inv W p w" and step: "worker_step W alloc w p = (w', p')" by (rule movesE)
  show ?thesis using step w e
    by (cases w) (auto simp: error_inv_def worker_step_copy worker_step_decode split: if_splits sum.splits)
qed

text \<open>The worker that moved keeps its job, or has finished or failed it.\<close>

lemma step_busy:
  assumes m: "moves W dst0 p w w' p'" and busy: "busy_with n w"
  shows "pl_failed p' \<or> busy_with n w' \<or> job_done W n (pl_destination p')"
proof -
  from m obtain alloc where w: "worker_inv W p w" and step: "worker_step W alloc w p = (w', p')" by (rule movesE)
  show ?thesis
  proof (cases w)
    case (Copy k tile row)
    then have "k = n" using busy by (simp add: busy_with_def)
    have "job_done W n (pl_destination p)" if "\<not> row < job_rows W n"
      using that w Copy \<open>k = n\<close> by (auto simp: job_done_def written_def)
    then show ?thesis using step Copy \<open>k = n\<close> by (auto simp: worker_step_copy busy_with_def split: if_splits)
  qed (use step busy in \<open>auto simp: busy_with_def worker_step_decode split: if_splits sum.splits\<close>)
qed

text \<open>A job that became numbered is the one just taken.\<close>

lemma step_claim:
  assumes m: "moves W dst0 p w w' p'" and "n < pl_nextJob p'" "n < length (zw_jobs W)"
  shows "n < pl_nextJob p \<or> busy_with n w'"
proof -
  from m obtain alloc where step: "worker_step W alloc w p = (w', p')" by (rule movesE)
  show ?thesis using step assms(2,3)
    by (cases w) (auto simp: busy_with_def worker_step_copy worker_step_decode split: if_splits sum.splits)
qed

lemma step_claims:
  assumes m: "moves W dst0 p (ws ! i) w' p'" and i: "i < length ws" and inv: "claims_inv W ws p"
  shows "claims_inv W (ws[i := w']) p'"
  unfolding claims_inv_def
proof (intro allI impI)
  fix n assume n: "n < length (zw_jobs W)" "n < pl_nextJob p'"
  have self: "w' \<in> set (ws[i := w'])" using i by (rule set_update_memI)
  have mono: "pl_failed p \<Longrightarrow> pl_failed p'" using m worker_step_mono(1) by (auto elim: movesE)
  consider "busy_with n w'" | "n < pl_nextJob p" using step_claim [OF m n(2,1)] by blast
  then show "pl_failed p' \<or> (\<exists>w\<in>set (ws[i := w']). busy_with n w) \<or> job_done W n (pl_destination p')"
  proof cases
    case 2
    then consider "pl_failed p" | v where "v \<in> set ws" "busy_with n v" | "job_done W n (pl_destination p)"
      using inv n(1) by (auto simp: claims_inv_def)
    then show ?thesis
    proof cases
      case (2 v)
      then obtain k where k: "k < length ws" "v = ws ! k" by (metis in_set_conv_nth)
      show ?thesis
      proof (cases "k = i")
        case True
        then show ?thesis using step_busy [OF m] 2 k self by blast
      next
        case False
        then have "v \<in> set (ws[i := w'])" using k by (metis length_list_update nth_list_update_neq nth_mem)
        then show ?thesis using 2 by blast
      qed
    qed (use mono step_done [OF m n(1)] in blast)+
  qed (use self in blast)
qed

lemma pool_inv_step:
  assumes ok: "work_ok W (length dst0)" and inv: "pool_inv W dst0 c" and step: "pool_step W c c'"
  shows "pool_inv W dst0 c'"
  using step
proof cases
  case (move i ws alloc p w' p')
  have m: "moves W dst0 p (ws ! i) w' p'"
    using inv ok move by (auto simp: moves_def pool_inv_def)
  have "\<forall>w\<in>set (ws[i := w']). worker_inv W p' w"
    using set_update_subset_insert [of ws i w'] step_self [OF m] step_other [OF m] inv move(1)
    by (auto simp: pool_inv_def)
  then show ?thesis
    using inv move step_frame [OF m] step_claims [OF m] step_error [OF m] by (simp add: pool_inv_def)
qed

lemma pool_inv_init: "pool_inv W dst (replicate m Check, new_pool dst)"
  by (auto simp: pool_inv_def frame_inv_def claims_inv_def error_inv_def new_pool_def)

lemma pool_inv_reachable:
  assumes "work_ok W (length dst)" "(pool_step W)\<^sup>*\<^sup>* (replicate m Check, new_pool dst) c"
  shows "pool_inv W dst c"
  using assms(2) by (induction rule: rtranclp_induct) (auto intro: pool_inv_init pool_inv_step [OF assms(1)])

text \<open>When every worker has ended without a failure, every tile is decoded and in the framebuffer.\<close>

lemma pool_end:
  assumes "pool_inv W dst0 (ws, p)" "ws \<noteq> []" "\<forall>w\<in>set ws. w = Done" "\<not> pl_failed p" "n < length (zw_jobs W)"
  shows "job_done W n (pl_destination p)"
proof -
  have "length (zw_jobs W) \<le> pl_nextJob p"
    using assms(1-4) by (cases ws) (auto simp: pool_inv_def)
  then show ?thesis
    using assms by (fastforce simp: pool_inv_def claims_inv_def busy_with_def)
qed

section \<open>What the checks establish\<close>

lemma scan_tiles_rects: "scan_tiles cb sz qs r = Inr (js, r') \<Longrightarrow> map tj_rect js = qs"
  by (induction qs arbitrary: r js) (auto simp: andThen_Inr_iff)

lemma tile_rects_length: "length (tile_rects w h) = (h + 63) div 64 * ((w + 63) div 64)"
  unfolding tile_rects_def by (rule length_grid)

lemma tile_rects_nth:
  "n < length (tile_rects w h) \<Longrightarrow>
     tile_rects w h ! n = tile_at w h (n div ((w + 63) div 64)) (n mod ((w + 63) div 64))"
  unfolding tile_rects_length unfolding tile_rects_def by (rule nth_grid)

lemma tile_rects_small: "q \<in> set (tile_rects w h) \<Longrightarrow> small_rect q"
  by (auto simp: tile_rects_def small_rect_def tile_at_def)

lemma tile_inside:
  "c < (w + 63) div 64 \<Longrightarrow> 64 * c + min 64 (w - 64 * c) \<le> (w :: nat)"
  by linarith

lemma tile_at_fits:
  assumes "r < (h + 63) div 64" "c < (w + 63) div 64" "0 < w" "4 * w \<le> stride" "(h - 1) * stride + 4 * w \<le> len"
  shows "rect_fits (tile_at w h r c) stride len"
proof -
  have x: "64 * c + min 64 (w - 64 * c) \<le> w" by (rule tile_inside [OF assms(2)])
  have "(64 * r + row) * stride + (64 * c + min 64 (w - 64 * c)) * 4 \<le> len" if "row < min 64 (h - 64 * r)" for row
  proof -
    have "64 * r + row \<le> h - 1" using that assms(1) by linarith
    then have "(64 * r + row) * stride \<le> (h - 1) * stride" by (rule mult_le_mono1)
    moreover have "(64 * c + min 64 (w - 64 * c)) * 4 \<le> 4 * w"
      unfolding mult.commute [of 4 w] by (rule mult_le_mono1 [OF x])
    ultimately have "(64 * r + row) * stride + (64 * c + min 64 (w - 64 * c)) * 4 \<le> (h - 1) * stride + 4 * w"
      by (rule add_mono)
    then show ?thesis using assms(5) by (rule order.trans)
  qed
  then show ?thesis using x assms(3,4) by (simp add: rect_fits_def tile_at_def)
qed

lemma covers_tile_rect:
  assumes "n < length (tile_rects w h)"
  shows "covers (tile_rects w h ! n) stride p \<longleftrightarrow>
    p div stride < h \<and> p mod stride < 4 * w \<and>
    n = p div stride div 64 * ((w + 63) div 64) + p mod stride div 4 div 64"
proof -
  let ?c = "(w + 63) div 64"
  have "0 < ?c" using assms by (cases "?c = 0") (simp_all add: tile_rects_length)
  moreover have "p mod stride div 4 div 64 < ?c" if "p mod stride < 4 * w" using that by linarith
  ultimately show ?thesis
    unfolding tile_rects_nth [OF assms] covers_tile_at using div_mult_mod_eq [of n ?c] by auto
qed

lemma prepare_Inr:
  assumes "zrle_prepare al f width height (Some bs) (Some dst) stride bf = Inr W"
  defines "w \<equiv> nat width" and "h \<equiv> nat height"
  shows "0 < w" "4 * w \<le> stride" "(h - 1) * stride + 4 * w \<le> length dst"
    and "validPixelFormat f" "decoder_ready (compactPixelDecoder (al_table al) f bf)"
    and "zw_decoder W = compactPixelDecoder (al_table al) f bf" "zw_data W = bs" "zw_stride W = stride"
    and "scan_tiles (compactPixelBytes f) (length bs) (tile_rects w h) bs = Inr (zw_jobs W, [])"
proof -
  have a: "0 < width" "0 < height" and v: "validPixelFormat f"
    using assms(1) by (auto simp: zrle_prepare_def split: if_splits)
  have h: "nat (height - 1) = h - 1" by (simp add: h_def nat_diff_distrib)
  note p = assms(1) [unfolded zrle_prepare_def Let_def]
  obtain rb lr rq jobs where e: "checkedMultiply w 4 = Some rb" "\<not> stride < rb"
      "checkedMultiply (h - 1) stride = Some lr" "checkedAdd lr rb = Some rq" "\<not> length dst < rq"
      "buildZrleTileJobs (al_jobs al) w h (compactPixelBytes f) bs = Inr jobs"
      "decoder_ready (compactPixelDecoder (al_table al) f bf)"
      "W = \<lparr>zw_decoder = compactPixelDecoder (al_table al) f bf, zw_jobs = jobs, zw_data = bs, zw_stride = stride\<rparr>"
    using p h by (auto simp: andThen_Inr_iff w_def h_def split: if_splits)
  show "0 < w" using a by (simp add: w_def)
  show "validPixelFormat f" by (rule v)
  show "decoder_ready (compactPixelDecoder (al_table al) f bf)" by (rule e(7))
  show "zw_decoder W = compactPixelDecoder (al_table al) f bf" "zw_data W = bs" "zw_stride W = stride" using e(8) by simp_all
  have rb: "rb = 4 * w" and lr: "lr = (h - 1) * stride"
    using e(1,3) by (auto simp: checkedMultiply_iff split: if_splits)
  show "4 * w \<le> stride" using rb e(2) by simp
  have "rq = lr + rb" using e(4) by (auto simp: checkedAdd_def split: if_splits)
  then show "(h - 1) * stride + 4 * w \<le> length dst" using rb lr e(5) by simp
  show "scan_tiles (compactPixelBytes f) (length bs) (tile_rects w h) bs = Inr (zw_jobs W, [])"
    using e(6,8) by (auto simp: buildZrleTileJobs_def andThen_Inr_iff split: option.splits if_splits)
qed

lemma prepared_rects:
  assumes "zrle_prepare al f width height (Some bs) (Some dst) stride bf = Inr W"
  shows "length (zw_jobs W) = length (tile_rects (nat width) (nat height))"
    and "n < length (zw_jobs W) \<Longrightarrow> job_rect W n = tile_rects (nat width) (nat height) ! n"
  using scan_tiles_rects [OF prepare_Inr(9) [OF assms]]
  by (metis length_map) (metis scan_tiles_rects [OF prepare_Inr(9) [OF assms]] job_rect_def nth_map)

lemma prepared_work_ok:
  assumes "zrle_prepare al f width height (Some bs) (Some dst) stride bf = Inr W"
  shows "work_ok W (length dst)"
proof -
  note p = prepare_Inr [OF assms] and r = prepared_rects [OF assms]
  have fits: "rect_fits (job_rect W n) stride (length dst)" if n: "n < length (zw_jobs W)" for n
  proof -
    let ?c = "(nat width + 63) div 64"
    have t: "n < length (tile_rects (nat width) (nat height))" using n r(1) by simp
    then have l: "n < (nat height + 63) div 64 * ?c" by (simp only: tile_rects_length)
    then have "n div ?c < (nat height + 63) div 64" by (rule less_mult_imp_div_less)
    moreover have "n mod ?c < ?c" using l by (intro mod_less_divisor) (cases ?c; simp)
    ultimately show ?thesis
      unfolding r(2) [OF n] tile_rects_nth [OF t] by (rule tile_at_fits [OF _ _ p(1-3)])
  qed
  have where_covered: "n = a div stride div 64 * ((nat width + 63) div 64) + a mod stride div 4 div 64"
    if n: "n < length (zw_jobs W)" "job_covers W n a" for n a
  proof -
    have t: "n < length (tile_rects (nat width) (nat height))" using n(1) r(1) by simp
    show ?thesis using n(2) unfolding job_covers_def r(2) [OF n(1)] p(8) covers_tile_rect [OF t] by (elim conjE)
  qed
  show ?thesis
    unfolding work_ok_def p(8) using fits where_covered by metis
qed

section \<open>The picture of a rectangle\<close>

text \<open>The pixel at column \<open>x\<close> and row \<open>y\<close> among the tiles of a rectangle of width \<open>w\<close>.\<close>

definition image_pixel :: "nat \<Rightarrow> u32 list list \<Rightarrow> nat \<Rightarrow> nat \<Rightarrow> u32" where
  "image_pixel w ts x y = ts ! (y div 64 * ((w + 63) div 64) + x div 64) !
     (y mod 64 * min 64 (w - 64 * (x div 64)) + x mod 64)"

text \<open>The framebuffer with the rectangle painted into it: every other byte stays.\<close>

definition painted :: "nat \<Rightarrow> nat \<Rightarrow> nat \<Rightarrow> u32 list list \<Rightarrow> bytes \<Rightarrow> bytes" where
  "painted w h stride ts dst = map (\<lambda>p. let y = p div stride; c = p mod stride in
     if y < h \<and> c < 4 * w then writePixel (image_pixel w ts (c div 4) y) ! (c mod 4) else dst ! p) [0..<length dst]"

lemma nth_tile_bytes:
  "k < length px \<Longrightarrow> j < 4 \<Longrightarrow> concat (map writePixel px) ! (4 * k + j) = writePixel (px ! k) ! j"
proof (induction px arbitrary: k)
  case (Cons p px)
  then show ?case by (cases k) (simp_all add: nth_append)
qed simp

lemma column_bytes: "x * 4 \<le> c \<Longrightarrow> c - x * 4 = 4 * (c div 4 - x) + c mod (4 :: nat)"
  by presburger

lemma pixel_offset: "a * (t * 4) + (4 * b + m) = 4 * (a * t + b) + (m :: nat)"
  by simp

lemma tile_byte_pixel:
  assumes q: "tile_rects w h ! n = (x, y, tw, th)" and n: "n < length (tile_rects w h)"
    and c: "covers (tile_rects w h ! n) stride p" and px: "length (ts ! n) = tw * th"
  shows "tile_byte (tile_rects w h ! n) stride (concat (map writePixel (ts ! n))) p =
    writePixel (image_pixel w ts (p mod stride div 4) (p div stride)) ! (p mod stride mod 4)"
proof -
  let ?row = "p div stride" and ?c = "p mod stride"
  note cov = c [unfolded covers_tile_rect [OF n]]
  have idx: "n = ?row div 64 * ((w + 63) div 64) + ?c div 4 div 64" using cov by blast
  have "?c div 4 div 64 < (w + 63) div 64" using cov by linarith
  then have "(x, y, tw, th) = tile_at w h (?row div 64) (?c div 4 div 64)"
    using tile_rects_nth [OF n] q idx by simp
  then have e: "x = 64 * (?c div 4 div 64)" "y = 64 * (?row div 64)" "tw = min 64 (w - 64 * (?c div 4 div 64))"
    by (simp_all add: tile_at_def)
  have in_tile: "?row - y < th" "?c div 4 - x < tw"
    using c q by (auto simp: covers_def)
  define k where "k = (?row - y) * tw + (?c div 4 - x)"
  have "k < tw * th"
  proof -
    have "(?row - y + 1) * tw \<le> th * tw" using in_tile(1) by (intro mult_le_mono1) simp
    then show ?thesis using in_tile(2) by (simp add: k_def algebra_simps)
  qed
  have "x * 4 \<le> ?c" using c q by (simp add: covers_def)
  then have "(?row - y) * (tw * 4) + (?c - x * 4) = 4 * k + ?c mod 4"
    unfolding k_def by (simp only: column_bytes pixel_offset)
  then have "tile_byte (tile_rects w h ! n) stride (concat (map writePixel (ts ! n))) p =
      writePixel (ts ! n ! k) ! (?c mod 4)"
    using nth_tile_bytes [of k "ts ! n" "?c mod 4"] \<open>k < tw * th\<close> px by (simp add: tile_byte_def q)
  moreover have "k = ?row mod 64 * tw + ?c div 4 mod 64"
    unfolding k_def e(1,2) by (simp add: modulo_nat_def mult.commute)
  ultimately show ?thesis by (simp only: image_pixel_def idx [symmetric] e(3) [symmetric])
qed

lemma pool_length: "(pool_step W)\<^sup>*\<^sup>* c c' \<Longrightarrow> length (fst c') = length (fst c)"
  by (induction rule: rtranclp_induct) (auto elim!: pool_step.cases)

text \<open>The jobs' results are the tiles of the reference, and a failed job is a failure of the reference.\<close>

lemma prepared_reference:
  assumes prep: "zrle_prepare al f width height (Some bs) (Some dst) stride bf = Inr W"
    and ref: "reference_tiles (zw_decoder W) (tile_rects (nat width) (nat height)) bs = Inr ts"
    and n: "n < length (zw_jobs W)"
  shows "job_result W n = Inr (concat (map writePixel (ts ! n)))"
    and "job_rect W n = (x, y, tw, th) \<Longrightarrow> length (ts ! n) = tw * th"
proof -
  note p = prepare_Inr [OF prep]
  have d: "pixel_reads (zw_decoder W) (compactPixelBytes f)" unfolding p(6) by (rule pixel_reads_decoder [OF p(5,4)])
  have cb: "compactPixelBytes f \<le> 4" using compactPixelBytes_cases [of f] by auto
  obtain js where js: "scan_tiles (compactPixelBytes f) (length bs) (tile_rects (nat width) (nat height)) bs = Inr (js, [])"
      "\<forall>i<length js. case js ! i of j \<Rightarrow> case tj_rect j of (x, y, tw, th) \<Rightarrow>
         decodeZrleTile (zw_decoder W) tw th (job_slice bs j) = Inr (ts ! i, [])"
    using reference_scans [OF d cb ref _, of bs "[]"] tile_rects_small by auto
  then have "js = zw_jobs W" using p(9) by simp
  then have j: "case job_rect W n of (x, y, tw, th) \<Rightarrow>
      decodeZrleTile (zw_decoder W) tw th (job_slice bs (zw_jobs W ! n)) = Inr (ts ! n, [])"
    using js(2) n by (simp add: job_rect_def)
  then show "job_result W n = Inr (concat (map writePixel (ts ! n)))"
    by (auto simp: job_result_def decode_job_def job_rect_def job_slice_def p(7) split: prod.splits)
  show "job_rect W n = (x, y, tw, th) \<Longrightarrow> length (ts ! n) = tw * th"
    using j decodeZrleTile_length by (auto split: prod.splits)
qed

lemma jobs_reference:
  assumes prep: "zrle_prepare al f width height (Some bs) (Some dst) stride bf = Inr W"
    and ok: "\<forall>n<length (zw_jobs W). \<exists>tile. job_result W n = Inr tile"
  shows "\<exists>ts. reference_tiles (zw_decoder W) (tile_rects (nat width) (nat height)) bs = Inr ts"
proof -
  note p = prepare_Inr [OF prep]
  have d: "pixel_reads (zw_decoder W) (compactPixelBytes f)" unfolding p(6) by (rule pixel_reads_decoder [OF p(5,4)])
  have job: "case tj_rect j of (x, y, tw, th) \<Rightarrow> \<exists>px. decodeZrleTile (zw_decoder W) tw th (job_slice bs j) = Inr (px, [])"
    if "decode_job W j = Inr tile" for j tile
    using that by (auto simp: decode_job_def job_slice_def p(7) split: sum.splits prod.splits if_splits)
  have "\<forall>j\<in>set (zw_jobs W). \<exists>tile. decode_job W j = Inr tile"
    using ok by (simp add: job_result_def all_set_conv_all_nth)
  have "\<forall>j\<in>set (zw_jobs W). case tj_rect j of (x, y, tw, th) \<Rightarrow>
      \<exists>px. decodeZrleTile (zw_decoder W) tw th (job_slice bs j) = Inr (px, [])"
  proof
    fix j assume j: "j \<in> set (zw_jobs W)"
    then obtain tile where "decode_job W j = Inr tile"
      using \<open>\<forall>j\<in>set (zw_jobs W). \<exists>tile. decode_job W j = Inr tile\<close> by blast
    then show "case tj_rect j of (x, y, tw, th) \<Rightarrow> \<exists>px. decodeZrleTile (zw_decoder W) tw th (job_slice bs j) = Inr (px, [])"
      by (rule job)
  qed
  then show ?thesis using scans_reference [OF d p(9), of "[]"] by simp
qed

lemma grid_index:
  assumes "row < h" "c < 4 * (w :: nat)"
  shows "row div 64 * ((w + 63) div 64) + c div 4 div 64 < (h + 63) div 64 * ((w + 63) div 64)"
proof -
  have col: "c div 4 div 64 < (w + 63) div 64" using assms(2) by linarith
  have "row div 64 + 1 \<le> (h + 63) div 64" using assms(1) by linarith
  then have "(row div 64 + 1) * ((w + 63) div 64) \<le> (h + 63) div 64 * ((w + 63) div 64)"
    by (rule mult_le_mono1)
  moreover have "(row div 64 + 1) * ((w + 63) div 64) = row div 64 * ((w + 63) div 64) + (w + 63) div 64"
    by (simp only: add_mult_distrib mult_1)
  ultimately show ?thesis using col by (simp only:)
qed

lemma painted_by_jobs:
  assumes prep: "zrle_prepare al f width height (Some bs) (Some dst) stride bf = Inr W"
    and ref: "reference_tiles (zw_decoder W) (tile_rects (nat width) (nat height)) bs = Inr ts"
    and frame: "frame_inv W dst p" and jobs: "\<forall>n<length (zw_jobs W). job_done W n (pl_destination p)"
  shows "pl_destination p = painted (nat width) (nat height) stride ts dst"
proof (rule nth_equalityI)
  note q = prepare_Inr [OF prep] and r = prepared_rects [OF prep]
  show len: "length (pl_destination p) = length (painted (nat width) (nat height) stride ts dst)"
    using frame by (simp add: frame_inv_def painted_def)
  fix a assume a: "a < length (pl_destination p)"
  let ?row = "a div stride" and ?c = "a mod stride" and ?w = "nat width" and ?h = "nat height"
  let ?n = "?row div 64 * ((?w + 63) div 64) + ?c div 4 div 64"
  have painted: "painted ?w ?h stride ts dst ! a = (if ?row < ?h \<and> ?c < 4 * ?w
      then writePixel (image_pixel ?w ts (?c div 4) ?row) ! (?c mod 4) else dst ! a)"
    using a len by (simp add: painted_def Let_def)
  have cov: "n < length (zw_jobs W) \<Longrightarrow> job_covers W n a \<longleftrightarrow> ?row < ?h \<and> ?c < 4 * ?w \<and> n = ?n" for n
    using covers_tile_rect [of n ?w ?h stride a] r q(8) by (simp only: job_covers_def)
  show "pl_destination p ! a = painted ?w ?h stride ts dst ! a"
  proof (cases "?row < ?h \<and> ?c < 4 * ?w")
    case False
    then show ?thesis
      unfolding painted using frame a cov by (auto simp: frame_inv_def)
  next
    case True
    then have n: "?n < length (zw_jobs W)" unfolding r(1) tile_rects_length by (intro grid_index) auto
    have covered: "job_covers W ?n a" using cov [OF n] True by simp
    note t = prepared_reference [OF prep ref n]
    obtain x y tw th where xy: "job_rect W ?n = (x, y, tw, th)" by (metis prod_cases4)
    have "written W ?n (concat (map writePixel (ts ! ?n))) (job_rows W ?n) (pl_destination p)"
      using jobs n t(1) unfolding job_done_def by (metis sum.inject(2))
    moreover have "?row < job_top W ?n + job_rows W ?n"
      using covered unfolding job_covers_def covers_def job_top_def job_rows_def xy q(8) case_prod_conv by blast
    ultimately have "pl_destination p ! a = job_byte W ?n (concat (map writePixel (ts ! ?n))) a"
      using a covered unfolding written_def q(8) by blast
    also have "\<dots> = writePixel (image_pixel ?w ts (?c div 4) ?row) ! (?c mod 4)"
      using tile_byte_pixel [of ?w ?h ?n x y tw th stride a ts] covered xy t(2) n r q(8)
      by (simp only: job_byte_def job_covers_def)
    finally show ?thesis using painted True by simp
  qed
qed

lemma prepare_accepts:
  assumes args: "0 < width" "width < 2 ^ 31" "0 < height" "height < 2 ^ 31" "data \<noteq> []" "validPixelFormat f"
    and dest: "4 * nat width \<le> stride" "(nat height - 1) * stride + 4 * nat width \<le> length dst" "length dst \<le> size_max"
    and memory: "al_jobs al" "al_table al"
    and ref: "reference_tiles (compactPixelDecoder True f bf) (tile_rects (nat width) (nat height)) data = Inr ts"
  shows "\<exists>W. zrle_prepare al f width height (Some data) (Some dst) stride bf = Inr W"
proof -
  have ready: "decoder_ready (compactPixelDecoder True f bf)" by simp
  have d: "pixel_reads (compactPixelDecoder True f bf) (compactPixelBytes f)"
    by (rule pixel_reads_decoder [OF ready args(6)])
  have cb: "compactPixelBytes f \<le> 4" "compactPixelBytes f \<noteq> 0" using compactPixelBytes_cases [of f] args(6) by auto
  obtain js where js: "scan_tiles (compactPixelBytes f) (length data) (tile_rects (nat width) (nat height)) data = Inr (js, [])"
    using reference_scans [OF d cb(1) ref _, of data "[]"] tile_rects_small by auto
  have w: "nat width < 2 ^ 31" "nat height < 2 ^ 31" using args by simp_all
  have "nat width * nat height \<le> 2 ^ 31 * 2 ^ 31" using w by (intro mult_le_mono) simp_all
  then have pixels: "nat width * nat height \<le> size_max" by (simp add: size_max_def)
  have "(nat width + 63) div 64 * ((nat height + 63) div 64) \<le> 2 ^ 31 * 2 ^ 31" using w by (intro mult_le_mono) simp_all
  then have tiles: "(nat width + 63) div 64 * ((nat height + 63) div 64) \<le> size_max" by (simp add: size_max_def)
  have row: "checkedMultiply (nat width) 4 = Some (4 * nat width)"
    using dest by (simp add: checkedMultiply_iff mult.commute)
  have last: "checkedMultiply (nat (height - 1)) stride = Some ((nat height - 1) * stride)"
  proof -
    have "nat (height - 1) = nat height - 1" using args by (simp add: nat_diff_distrib)
    then show ?thesis using dest by (simp add: checkedMultiply_iff)
  qed
  have req: "checkedAdd ((nat height - 1) * stride) (4 * nat width) = Some ((nat height - 1) * stride + 4 * nat width)"
    using dest by (subst checkedAdd_iff) auto
  have jobs: "buildZrleTileJobs True (nat width) (nat height) (compactPixelBytes f) data = Inr js"
    using js tiles by (simp add: buildZrleTileJobs_def checkedMultiply_iff)
  show ?thesis
    using args dest memory cb(2) ready pixels
    by (simp add: zrle_prepare_def Let_def row last req [unfolded One_nat_def] jobs checkedMultiply_iff [of "nat width" "nat height"])
qed

section \<open>The properties\<close>

text \<open>
  C21. The two-pass parallel decoder refines the sequential reading of the stream. Whatever the number of
  threads and their interleaving, if memory lasts: when the reference accepts the rectangle, the call
  succeeds and the framebuffer is the old one with exactly the reference's picture painted into it;
  when the reference refuses it, the call fails.
\<close>

theorem zrle_refines_reference:
  assumes run: "decodeZrleTilesInto al hw f width height (Some data) (Some dst) stride blueFirst res fb"
    and args: "0 < width" "width < 2 ^ 31" "0 < height" "height < 2 ^ 31" "data \<noteq> []" "validPixelFormat f"
    and dest: "4 * nat width \<le> stride" "(nat height - 1) * stride + 4 * nat width \<le> length dst" "length dst \<le> size_max"
    and memory: "al_jobs al" "al_table al" "res \<noteq> Inl ''VNC ZRLE tile decode allocation failed''"
  shows "case reference_tiles (compactPixelDecoder True f blueFirst) (tile_rects (nat width) (nat height)) data of
      Inr ts \<Rightarrow> res = Inr () \<and> fb = Some (painted (nat width) (nat height) stride ts dst)
    | Inl _ \<Rightarrow> \<exists>e. res = Inl e"
  using run
proof cases
  case (ran W m ws p)
  note prep = prepare_Inr [OF ran(3)]
  have d: "zw_decoder W = compactPixelDecoder True f blueFirst" using prep(6) memory(2) by simp
  have inv: "pool_inv W dst (ws, p)" by (rule pool_inv_reachable [OF prepared_work_ok [OF ran(3)] ran(6)])
  have ws: "ws \<noteq> []" using pool_length [OF ran(6)] ran(4) by (cases ws) simp_all
  show ?thesis
  proof (cases "pl_failed p")
    case False
    have jobs: "\<forall>n<length (zw_jobs W). job_done W n (pl_destination p)"
      using pool_end [OF inv ws ran(7) False] by blast
    then obtain ts where ref: "reference_tiles (zw_decoder W) (tile_rects (nat width) (nat height)) data = Inr ts"
      using jobs_reference [OF ran(3)] unfolding job_done_def by blast
    have "pl_destination p = painted (nat width) (nat height) stride ts dst"
      by (rule painted_by_jobs [OF ran(3) ref _ jobs]) (use inv in \<open>simp add: pool_inv_def\<close>)
    then show ?thesis using ref ran(1,2) False by (simp add: d)
  next
    case True
    then obtain n where n: "n < length (zw_jobs W)" "job_result W n = Inl (pl_error p)"
      using inv memory(3) ran(1) by (auto simp: pool_inv_def error_inv_def)
    have "reference_tiles (zw_decoder W) (tile_rects (nat width) (nat height)) data \<noteq> Inr ts" for ts
      using prepared_reference(1) [OF ran(3) _ n(1)] n(2) by auto
    then show ?thesis using ran(1) True by (auto simp: d split: sum.split)
  qed
next
  case (refused e)
  have "reference_tiles (compactPixelDecoder True f blueFirst) (tile_rects (nat width) (nat height)) data \<noteq> Inr ts" for ts
    using prepare_accepts [OF args dest memory(1,2), of blueFirst ts] refused(3) by auto
  then show ?thesis using refused(1) by (auto split: sum.split)
qed

text \<open>One black-and-blue pixel through the whole decoder, with a single worker.\<close>

lemma default_valid: "validPixelFormat default_format"
  by (simp add: validPixelFormat_def default_format_def redEnd_def greenEnd_def blueEnd_def valueBits.simps)

lemma default_cpixel: "compactPixelBytes default_format = 3"
  using default_valid
  by (simp add: compactPixelBytes_def) (simp add: default_format_def redEnd_def greenEnd_def blueEnd_def valueBits.simps Let_def)

lemma default_read:
  "readPacked (compactPixelDecoder True default_format bf) (a # b # c # r) =
    Some (pack_value default_format bf (cpixel_value default_format [a, b, c]), r)"
  by (simp add: readPacked_eq [OF decoder_ready_True] default_cpixel Let_def)

lemma one_pixel_reference:
  "reference_tiles (compactPixelDecoder True default_format bf) (tile_rects 1 1) [1, a, b, c] =
     Inr [[pack_value default_format bf (cpixel_value default_format [a, b, c])]]"
  by (simp add: tile_rects_def tile_at_def decodeZrleTile_def readU8_def default_read Let_def)

lemma one_pixel_steps:
  obtains W tile p1 p3 where
    "zrle_prepare \<lparr>al_jobs = True, al_table = True\<rparr> default_format 1 1 (Some [1, a, b, c]) (Some [9, 9, 9, 9, 9]) 4 True = Inr W"
    "job_rect W 0 = (0, 0, 1, 1)"
    "(pool_step W)\<^sup>*\<^sup>* (replicate 1 Check, new_pool [9, 9, 9, 9, 9]) ([Copy 0 tile 0], p1)"
    "(pool_step W)\<^sup>*\<^sup>* ([Copy 0 tile 0], p1) ([Done], p3)" "\<not> pl_failed p3"
proof -
  let ?al = "\<lparr>al_jobs = True, al_table = True\<rparr>" and ?dst = "[9, 9, 9, 9, 9] :: bytes"
  obtain W where W: "zrle_prepare ?al default_format 1 1 (Some [1, a, b, c]) (Some ?dst) 4 True = Inr W"
    using prepare_accepts [of 1 1 "[1, a, b, c]" default_format 4 ?dst ?al True, OF _ _ _ _ _ default_valid] one_pixel_reference
    by (auto simp: size_max_def)
  have jobs: "length (zw_jobs W) = 1"
    using prepared_rects(1) [OF W] by (simp add: tile_rects_length)
  have rect: "job_rect W 0 = (0, 0, 1, 1)"
    using prepared_rects(2) [OF W, of 0] jobs by (simp add: tile_rects_def tile_at_def)
  have "zw_decoder W = compactPixelDecoder True default_format True" using prepare_Inr(6) [OF W] by simp
  then obtain tile where tile: "job_result W 0 = Inr tile"
    using prepared_reference(1) [OF W] one_pixel_reference jobs by simp
  let ?p0 = "new_pool ?dst"
  let ?p1 = "?p0\<lparr>pl_nextJob := 1\<rparr>"
  let ?p2 = "?p1\<lparr>pl_destination := copy_row W (0, 0, 1, 1) tile 0 ?dst\<rparr>"
  let ?p3 = "?p2\<lparr>pl_nextJob := 2\<rparr>"
  have move: "pool_step W ([w], p) ([w'], p')" if "w \<noteq> Done" "worker_step W True w p = (w', p')" for w w' p p'
    using pool_step.move [of 0 "[w]" W True p w' p'] that by simp
  have copy: "worker_step W True (Copy 0 tile r) p = (if r < 1
      then (Copy 0 tile (r + 1), p\<lparr>pl_destination := copy_row W (0, 0, 1, 1) tile r (pl_destination p)\<rparr>) else (Check, p))" for r p
    by (simp add: worker_step_copy job_rows_def rect)
  have steps:
    "pool_step W ([Check], ?p0) ([Fetch], ?p0)" "pool_step W ([Fetch], ?p0) ([Decode 0], ?p1)"
    "pool_step W ([Decode 0], ?p1) ([Copy 0 tile 0], ?p1)" "pool_step W ([Copy 0 tile 0], ?p1) ([Copy 0 tile 1], ?p2)"
    "pool_step W ([Copy 0 tile 1], ?p2) ([Check], ?p2)" "pool_step W ([Check], ?p2) ([Fetch], ?p2)"
    "pool_step W ([Fetch], ?p2) ([Done], ?p3)"
    by (rule move; simp add: new_pool_def jobs worker_step_decode tile copy)+
  show thesis
  proof (rule that [OF W rect])
    show "(pool_step W)\<^sup>*\<^sup>* (replicate 1 Check, new_pool ?dst) ([Copy 0 tile 0], ?p1)"
      using steps(1-3) by (auto intro!: converse_rtranclp_into_rtranclp)
    show "(pool_step W)\<^sup>*\<^sup>* ([Copy 0 tile 0], ?p1) ([Done], ?p3)"
      using steps(4-7) by (auto intro!: converse_rtranclp_into_rtranclp)
  qed (simp add: new_pool_def)
qed

lemma one_pixel_run:
  "\<exists>fb. decodeZrleTilesInto \<lparr>al_jobs = True, al_table = True\<rparr> 0 default_format 1 1 (Some [1, a, b, c]) (Some [9, 9, 9, 9, 9]) 4 True
     (Inr ()) fb"
proof (rule one_pixel_steps [of a b c])
  fix W tile p1 p3
  assume W: "zrle_prepare \<lparr>al_jobs = True, al_table = True\<rparr> default_format 1 1 (Some [1, a, b, c]) (Some [9, 9, 9, 9, 9]) 4 True = Inr W"
    and run: "(pool_step W)\<^sup>*\<^sup>* (replicate 1 Check, new_pool [9, 9, 9, 9, 9]) ([Copy 0 tile 0], p1)"
      "(pool_step W)\<^sup>*\<^sup>* ([Copy 0 tile 0], p1) ([Done], p3)" and "\<not> pl_failed p3"
  have "(pool_step W)\<^sup>*\<^sup>* (replicate 1 Check, new_pool [9, 9, 9, 9, 9]) ([Done], p3)"
    using run by (rule rtranclp_trans)
  from decodeZrleTilesInto.ran [OF W _ _ this, of 0] show ?thesis
    using \<open>\<not> pl_failed p3\<close> by (auto simp: workerCount_def)
qed

lemma one_pixel_copy:
  "\<exists>W tile ws p. zrle_prepare \<lparr>al_jobs = True, al_table = True\<rparr> default_format 1 1 (Some [1, a, b, c]) (Some [9, 9, 9, 9, 9]) 4 True = Inr W \<and>
     job_rect W 0 = (0, 0, 1, 1) \<and> (pool_step W)\<^sup>*\<^sup>* (replicate 1 Check, new_pool [9, 9, 9, 9, 9]) (ws, p) \<and> Copy 0 tile 0 \<in> set ws"
  by (rule one_pixel_steps [of a b c]) (metis list.set_intros(1))

lemma zrle_refines_reference_witness:
  "\<exists>fb. decodeZrleTilesInto \<lparr>al_jobs = True, al_table = True\<rparr> 0 default_format 1 1 (Some [1, 1, 2, 3]) (Some [9, 9, 9, 9, 9]) 4 True
     (Inr ()) fb \<and> fb = Some (painted 1 1 4 [[pack_value default_format True (cpixel_value default_format [1, 2, 3])]] [9, 9, 9, 9, 9])"
proof -
  obtain fb where run: "decodeZrleTilesInto \<lparr>al_jobs = True, al_table = True\<rparr> 0 default_format 1 1 (Some [1, 1, 2, 3])
      (Some [9, 9, 9, 9, 9]) 4 True (Inr ()) fb"
    using one_pixel_run by blast
  have "fb = Some (painted 1 1 4 [[pack_value default_format True (cpixel_value default_format [1, 2, 3])]] [9, 9, 9, 9, 9])"
    using zrle_refines_reference [OF run _ _ _ _ _ default_valid] one_pixel_reference [of True 1 2 3]
    by (simp add: size_max_def)
  then show ?thesis using run by blast
qed

subsection \<open>The size limit\<close>

lemma checkedMultiply_SomeD: "checkedMultiply l r = Some n \<Longrightarrow> n = l * r"
  by (simp add: checkedMultiply_def split: if_splits)

lemma checkedAdd_SomeD: "checkedAdd l r = Some n \<Longrightarrow> n = l + r"
  by (simp add: checkedAdd_def split: if_splits)

lemma option_if_SomeE: "(if b then None else m) = Some x \<Longrightarrow> (m = Some x \<Longrightarrow> P) \<Longrightarrow> P"
  by (simp split: if_splits)

lemma sum_columns: "sum_list (map (\<lambda>c. min 64 (w - 64 * c)) [0..<n]) = min (64 * n) (w :: nat)"
  by (induction n) auto

definition rect_area :: "rect \<Rightarrow> nat" where
  "rect_area q = (case q of (x, y, tw, th) \<Rightarrow> tw * th)"

lemma row_area:
  "sum_list (map rect_area (map (tile_at w h r) [0..<n])) = min (64 * n) w * min 64 (h - 64 * r)"
proof -
  have "sum_list (map rect_area (map (tile_at w h r) [0..<n])) =
      sum_list (map (\<lambda>c. min 64 (w - 64 * c) * min 64 (h - 64 * r)) [0..<n])"
    by (simp add: rect_area_def tile_at_def comp_def)
  then show ?thesis by (simp only: sum_list_mult_const sum_columns)
qed

lemma tiles_area: "sum_list (map rect_area (tile_rects w h)) = w * h"
proof -
  let ?F = "\<lambda>r. map (tile_at w h r) [0..<(w + 63) div 64]"
  have w: "min (64 * ((w + 63) div 64)) w = w" and h: "min (64 * ((h + 63) div 64)) h = h" by linarith+
  have "sum_list (map rect_area (concat (map ?F [0..<n]))) = w * min (64 * n) h" for n
  proof (induction n)
    case (Suc n)
    have "min (64 * n) h + min 64 (h - 64 * n) = min (64 * Suc n) h" by auto
    moreover have "sum_list (map rect_area (concat (map ?F [0..<Suc n]))) =
        sum_list (map rect_area (concat (map ?F [0..<n]))) + sum_list (map rect_area (?F n))" by simp
    ultimately show ?case unfolding Suc row_area w by (simp only: distrib_left [symmetric])
  qed simp
  then show ?thesis unfolding tile_rects_def by (simp only: h)
qed

lemma reference_cost:
  assumes "pixel_reads d cb"
  shows "reference_tiles d qs r = Inr ts \<Longrightarrow>
    length r \<le> length qs * (1 + 127 * cb) + sum_list (map rect_area qs) * (cb + 1)"
proof (induction qs arbitrary: r ts)
  case (Cons q qs)
  obtain x y tw th where q: "q = (x, y, tw, th)" by (metis prod_cases4)
  obtain px r1 ts' where e: "decodeZrleTile d tw th r = Inr (px, r1)" "reference_tiles d qs r1 = Inr ts'"
    using Cons.prems q by (auto simp: andThen_Inr_iff)
  have "length r \<le> length r1 + (1 + 127 * cb) + tw * th * (cb + 1)" by (rule decodeZrleTile_cost [OF assms e(1)])
  then show ?case using Cons.IH [OF e(2)] by (simp add: q rect_area_def algebra_simps)
qed (simp split: if_splits)

text \<open>
  C24. The limit put on the decompressed stream of a rectangle is never too small: every rectangle the
  reference accepts is within it, so the limit refuses no valid update.
\<close>

theorem zrle_limit_complete:
  assumes "maxZrleDecodedBytes width height f = Some limit"
    and "reference_tiles (compactPixelDecoder True f blueFirst) (tile_rects (nat width) (nat height)) data = Inr ts"
  shows "length data \<le> limit"
proof -
  have "validPixelFormat f" using assms(1) by (auto simp: maxZrleDecodedBytes_def split: if_splits)
  then have d: "pixel_reads (compactPixelDecoder True f blueFirst) (compactPixelBytes f)"
    by (rule pixel_reads_decoder [OF decoder_ready_True])
  have "limit = nat width * nat height * (compactPixelBytes f + 1) +
      (nat width + 63) div 64 * ((nat height + 63) div 64) * (1 + 127 * compactPixelBytes f)"
    using assms(1) unfolding maxZrleDecodedBytes_def Let_def
    by (elim option_if_SomeE, unfold bind_eq_Some_conv)
      (elim exE conjE, (drule checkedMultiply_SomeD | drule checkedAdd_SomeD)+, simp only: mult.assoc)
  then show ?thesis
    using reference_cost [OF d assms(2)] by (simp only: tiles_area tile_rects_length mult.commute add.commute)
qed

lemma zrle_limit_complete_witness:
  "maxZrleDecodedBytes 1 1 default_format = Some 386 \<and> length [1, 1, 2, 3 :: u8] \<le> 386"
proof -
  have "maxZrleDecodedBytes 1 1 default_format = Some 386"
    by (simp add: maxZrleDecodedBytes_def default_valid default_cpixel checkedMultiply_def checkedAdd_def size_max_def)
  then show ?thesis
    using zrle_limit_complete [of 1 1 default_format 386 True "[1, 1, 2, 3]"] one_pixel_reference [of True 1 2 3] by simp
qed

subsection \<open>The workers end\<close>

definition job_work :: "zrle_work \<Rightarrow> nat \<Rightarrow> nat" where
  "job_work W n = job_rows W n + 5"

fun worker_work :: "zrle_work \<Rightarrow> worker \<Rightarrow> nat" where
  "worker_work W Done = 0"
| "worker_work W Fetch = 1"
| "worker_work W Check = 2"
| "worker_work W (Copy n tile row) = 3 + (job_rows W n - row)"
| "worker_work W (Decode n) = 4 + job_rows W n"

definition pool_work :: "zrle_work \<Rightarrow> worker list \<times> pool \<Rightarrow> nat" where
  "pool_work W c = (case c of (ws, p) \<Rightarrow>
     sum_list (map (worker_work W) ws) + sum_list (map (job_work W) [pl_nextJob p..<length (zw_jobs W)]))"

lemma worker_work_less:
  assumes "worker_step W alloc w p = (w', p')" "w \<noteq> Done"
  shows "worker_work W w' + sum_list (map (job_work W) [pl_nextJob p'..<length (zw_jobs W)]) <
    worker_work W w + sum_list (map (job_work W) [pl_nextJob p..<length (zw_jobs W)])"
proof (cases w)
  case Fetch
  then show ?thesis using assms
    by (cases "pl_nextJob p < length (zw_jobs W)") (auto simp: upt_conv_Cons job_work_def)
qed (use assms in \<open>auto simp: worker_step_copy worker_step_decode split: if_splits sum.splits\<close>)

lemma sum_list_update_less:
  "i < length ws \<Longrightarrow> sum_list (map f (ws[i := w'])) + f (ws ! i) = sum_list (map f ws) + (f w' :: nat)"
  by (induction ws arbitrary: i) (auto split: nat.split simp: nth_Cons)

lemma pool_work_less: "pool_step W c c' \<Longrightarrow> pool_work W c' < pool_work W c"
proof (induction rule: pool_step.induct)
  case (move i ws alloc p w' p')
  show ?case
    using worker_work_less [OF move(3,2)] sum_list_update_less [OF move(1), of "worker_work W" w']
    by (simp add: pool_work_def)
qed

text \<open>
  C23. The decoder always returns: a pool of \<open>m\<close> workers makes at most \<open>2 * m\<close> steps and five steps and
  one per row for every tile, and until every worker has ended one of them can move.
\<close>

theorem zrle_workers_end:
  assumes "(pool_step W ^^ n) (replicate m Check, new_pool dst) (ws, p)"
  shows "n \<le> 2 * m + sum_list (map (\<lambda>j. job_rows W j + 5) [0..<length (zw_jobs W)]) \<and>
    ((\<forall>w\<in>set ws. w = Done) \<or> (\<exists>c. pool_step W (ws, p) c))"
proof
  have "pool_work W c + n \<le> pool_work W (replicate m Check, new_pool dst)"
    if "(pool_step W ^^ n) (replicate m Check, new_pool dst) c" for n c
    using that
  proof (induction n arbitrary: c)
    case (Suc n)
    then obtain c1 where "(pool_step W ^^ n) (replicate m Check, new_pool dst) c1" "pool_step W c1 c" by auto
    then show ?case using Suc.IH [of c1] pool_work_less [of W c1 c] by linarith
  qed simp
  from this [OF assms] show "n \<le> 2 * m + sum_list (map (\<lambda>j. job_rows W j + 5) [0..<length (zw_jobs W)])"
    by (simp add: pool_work_def new_pool_def sum_list_replicate job_work_def [abs_def] mult.commute)
  have "\<exists>c. pool_step W (ws, p) c" if left: "\<not> (\<forall>w\<in>set ws. w = Done)"
  proof -
    obtain i where i: "i < length ws" "ws ! i \<noteq> Done" 
      using left by (auto simp: all_set_conv_all_nth)
    obtain w' p' where "worker_step W True (ws ! i) p = (w', p')" by (cases "worker_step W True (ws ! i) p")
    from pool_step.move [OF i this] show ?thesis by (rule exI)
  qed
  then show "(\<forall>w\<in>set ws. w = Done) \<or> (\<exists>c. pool_step W (ws, p) c)" by blast
qed

lemma zrle_workers_end_witness:
  "\<exists>c. pool_step \<lparr>zw_decoder = compactPixelDecoder True default_format True, zw_jobs = [], zw_data = [], zw_stride = 4\<rparr>
     (replicate 2 Check, new_pool []) c"
proof -
  let ?W = "\<lparr>zw_decoder = compactPixelDecoder True default_format True, zw_jobs = [], zw_data = [], zw_stride = 4\<rparr>"
  have "(pool_step ?W ^^ 0) (replicate 2 Check, new_pool []) (replicate 2 Check, new_pool [])"
    by (simp only: relpowp.simps)
  from zrle_workers_end [OF this, THEN conjunct2] show ?thesis by (auto simp: numeral_2_eq_2)
qed

subsection \<open>Memory safety\<close>

text \<open>
  C22. No worker writes outside the framebuffer or reads outside its tile: in every reachable state the next
  row a worker copies lies in the destination, inside the rectangle's columns and rows, and in its
  decoded tile.
\<close>

theorem zrle_copies_in_bounds:
  assumes "zrle_prepare al f width height (Some data) (Some dst) stride blueFirst = Inr W"
    and "(pool_step W)\<^sup>*\<^sup>* (replicate m Check, new_pool dst) (ws, p)"
    and "Copy n tile row \<in> set ws" "job_rect W n = (x, y, tw, th)" "row < th"
  shows "(y + row) * stride + x * 4 + tw * 4 \<le> length (pl_destination p) \<and> row * (tw * 4) + tw * 4 \<le> length tile \<and>
    x + tw \<le> nat width \<and> y + row < nat height"
proof -
  note prep = prepare_Inr [OF assms(1)] and r = prepared_rects [OF assms(1)]
  have ok: "work_ok W (length dst)" by (rule prepared_work_ok [OF assms(1)])
  have inv: "pool_inv W dst (ws, p)" by (rule pool_inv_reachable [OF ok assms(2)])
  then have n: "n < length (zw_jobs W)" "job_result W n = Inr tile" and len: "length (pl_destination p) = length dst"
    using assms(3) by (auto simp: pool_inv_def frame_inv_def)
  have "rect_fits (x, y, tw, th) (zw_stride W) (length (pl_destination p))"
    using ok n(1) assms(4) len by (auto simp: work_ok_def)
  note b = copy_row_in_bounds [OF this assms(5) job_result_length [OF n(2) assms(4)]]
  have t: "n < length (tile_rects (nat width) (nat height))" using n(1) r(1) by simp
  let ?c = "(nat width + 63) div 64"
  have e: "(x, y, tw, th) = tile_at (nat width) (nat height) (n div ?c) (n mod ?c)"
    using r(2) [OF n(1)] tile_rects_nth [OF t] assms(4) by simp
  have "0 < ?c" using prep(1) by simp
  then have "x + tw \<le> nat width" using tile_inside [of "n mod ?c" "nat width"] e by (simp add: tile_at_def)
  moreover have "th \<le> nat height - y" using e unfolding tile_at_def prod.inject by (elim conjE) (simp only: min.cobounded2)
  then have "y + row < nat height" using assms(5) by linarith
  ultimately show ?thesis using b prep(8) by simp
qed

lemma zrle_copies_in_bounds_witness:
  "\<exists>W ws p tile. (pool_step W)\<^sup>*\<^sup>* (replicate 1 Check, new_pool [9, 9, 9, 9, 9]) (ws, p) \<and> Copy 0 tile 0 \<in> set ws \<and>
     job_rect W 0 = (0, 0, 1, 1) \<and> 4 \<le> length (pl_destination p) \<and> 4 \<le> length tile"
proof -
  obtain W tile ws p where e: "zrle_prepare \<lparr>al_jobs = True, al_table = True\<rparr> default_format 1 1 (Some [1, 1, 2, 3])
      (Some [9, 9, 9, 9, 9]) 4 True = Inr W" "job_rect W 0 = (0, 0, 1, 1)"
      "(pool_step W)\<^sup>*\<^sup>* (replicate 1 Check, new_pool [9, 9, 9, 9, 9]) (ws, p)" "Copy 0 tile 0 \<in> set ws"
    using one_pixel_copy by blast
  show ?thesis using zrle_copies_in_bounds [OF e(1,3,4,2)] e by fastforce
qed

end
