(* ===== verification/Vnc_Messages.thy ===== *)
theory Vnc_Messages
  imports Vnc_Pixel
begin

text \<open>
  The messages of the VNC client (\<open>vnc/vnc_rfb_protocol.cpp\<close>): protocol negotiation, the requests
  it builds, keyboard text as key events, the UltraVNC repeater field and the zlib stream of a
  connection. zlib is a parameter: a function from the stream, the input left and the room in the
  output buffer to the result code, the number of bytes consumed, the bytes produced and the stream.
\<close>

section \<open>Negotiation\<close>

definition digit :: "u8 \<Rightarrow> bool" where
  "digit b \<longleftrightarrow> 0x30 \<le> b \<and> b \<le> 0x39"

definition protocolBannerIsSupported :: "bytes option \<Rightarrow> bool" where
  "protocolBannerIsSupported buf = (case buf of
     None \<Rightarrow> False
   | Some d \<Rightarrow>
       (if length d \<noteq> 12 \<or> take 4 d \<noteq> ascii ''RFB '' \<or> d ! 11 \<noteq> 0x0A \<or>
           d ! 4 \<noteq> 0x30 \<or> d ! 5 \<noteq> 0x30 \<or> d ! 6 \<noteq> 0x33 \<or> d ! 7 \<noteq> 0x2E then False
        else if \<not> (digit (d ! 8) \<and> digit (d ! 9) \<and> digit (d ! 10)) then False
        else (unat (d ! 8) - 0x30) * 100 + (unat (d ! 9) - 0x30) * 10 + (unat (d ! 10) - 0x30) \<ge> 3))"

definition clientInitSharedFlag :: u8 where
  "clientInitSharedFlag = 1"

definition normalizeRfbMinor :: "int \<Rightarrow> int" where
  "normalizeRfbMinor advertisedMinor =
     (if advertisedMinor = 7 then 7 else if advertisedMinor = 8 then 8 else 3)"

definition keepsLocalCursorDuringBootstrap :: "int \<Rightarrow> bool" where
  "keepsLocalCursorDuringBootstrap negotiatedMinor \<longleftrightarrow> negotiatedMinor \<le> 3"

definition securityResultExpected :: "int \<Rightarrow> u8 \<Rightarrow> bool" where
  "securityResultExpected negotiatedMinor selectedSecurityType =
     (if selectedSecurityType \<noteq> 1 then True else negotiatedMinor = 8)"

section \<open>Requests\<close>

definition buildFramebufferUpdateRequest :: "bool \<Rightarrow> u16 \<Rightarrow> u16 \<Rightarrow> bytes" where
  "buildFramebufferUpdateRequest incremental w h =
     [3, if incremental then 1 else 0, 0, 0, 0, 0,
      ucast (drop_bit 8 w), ucast w, ucast (drop_bit 8 h), ucast h]"

definition kMaxWheelBurstSteps :: int where
  "kMaxWheelBurstSteps = 128"

definition pointer_event :: "int \<Rightarrow> int \<Rightarrow> int \<Rightarrow> bytes" where
  "pointer_event buttons x y = [5, of_int buttons, of_int (drop_bit 8 x), of_int x, of_int (drop_bit 8 y), of_int y]"

definition buildPointerWheelBurst :: "int \<Rightarrow> int \<Rightarrow> int \<Rightarrow> int \<Rightarrow> int \<Rightarrow> int \<Rightarrow> bytes" where
  "buildPointerWheelBurst buttonMask x y delta framebufferWidth framebufferHeight =
     (if delta = 0 then []
      else let magnitude = (if delta > 0 then delta else - delta);
               steps = min kMaxWheelBurstSteps magnitude;
               preservedButtons = buttonMask AND 0x07;
               wheelBit = (if delta > 0 then 8 else 16);
               maxX = max 0 (framebufferWidth - 1);
               maxY = max 0 (framebufferHeight - 1);
               clampedX = max 0 (min x maxX);
               clampedY = max 0 (min y maxY)
           in concat (replicate (nat steps)
                (pointer_event (preservedButtons OR wheelBit) clampedX clampedY @
                 pointer_event preservedButtons clampedX clampedY)))"

definition effectiveTrueColorDepth :: "string \<Rightarrow> string \<Rightarrow> u64 \<Rightarrow> int \<Rightarrow> int" where
  "effectiveTrueColorDepth requestedDepth qualityPreset desktopPixels negotiatedMinor =
     (let requested = (if requestedDepth = ''8'' then 8
        else if requestedDepth = ''16'' then 16
        else if requestedDepth = ''32'' \<or> qualityPreset = ''quality'' then 32
        else if qualityPreset = ''speed'' \<or> desktopPixels > 4 * 1024 * 1024 then 8
        else 32)
      in if negotiatedMinor \<le> 3 \<and> requested = 8 then 16 else requested)"

definition buildSetPixelFormat :: "int \<Rightarrow> bytes" where
  "buildSetPixelFormat colorDepth =
     (if colorDepth = 8 then [0, 0, 0, 0,  8, 8, 0, 1,  0, 7, 0, 7, 0, 3,  5, 2, 0,  0, 0, 0]
      else if colorDepth = 16 then [0, 0, 0, 0,  16, 16, 0, 1,  0, 31, 0, 63, 0, 31,  11, 5, 0,  0, 0, 0]
      else [0, 0, 0, 0,  32, 24, 0, 1,  0, 255, 0, 255, 0, 255,  16, 8, 0,  0, 0, 0])"

definition be32 :: "u32 \<Rightarrow> bytes" where
  "be32 v = [ucast (drop_bit 24 v), ucast (drop_bit 16 v), ucast (drop_bit 8 v), ucast v]"

definition requested_encodings :: "string \<Rightarrow> int list" where
  "requested_encodings preferredEncoding =
     (if preferredEncoding \<noteq> ''raw'' then [16] else []) @ [1, 0, -239, -223, -224, -32763]"

definition buildSetEncodings :: "string \<Rightarrow> bytes" where
  "buildSetEncodings preferredEncoding =
     (let requested = requested_encodings preferredEncoding; n = length requested
      in [2, 0, of_nat (n div 256), of_nat n] @ concat (map (\<lambda>e. be32 (of_int e)) requested))"

definition buildUltraVncSetMonitor :: "u8 \<Rightarrow> bytes" where
  "buildUltraVncSetMonitor monitor = [254, monitor, 0, 0]"

definition parseUltraVncMonitorInfo :: "bytes option \<Rightarrow> u8 option" where
  "parseUltraVncMonitorInfo buf = (case buf of
     None \<Rightarrow> None
   | Some d \<Rightarrow> if length d \<noteq> 3 then None else Some (d ! 0))"

definition canSendTextInput :: "bool \<Rightarrow> bool \<Rightarrow> bool \<Rightarrow> bool" where
  "canSendTextInput viewOnly clipboardEnabled connected \<longleftrightarrow> \<not> viewOnly \<and> connected"

definition normalizeFrameRateLimit :: "int \<Rightarrow> int" where
  "normalizeFrameRateLimit frameRateLimit =
     (if frameRateLimit = 0 \<or> frameRateLimit = 15 \<or> frameRateLimit = 60 then frameRateLimit else 30)"

definition framebufferRequestIntervalMs :: "int \<Rightarrow> u64" where
  "framebufferRequestIntervalMs frameRateLimit =
     (let normalized = normalizeFrameRateLimit frameRateLimit
      in if normalized \<le> 0 then 0 else of_int ((1000 + normalized - 1) div normalized))"

section \<open>Text as key events\<close>

text \<open>The first byte of a sequence: the number of bytes that follow, its payload and the least value.\<close>

definition utf8_lead :: "u8 \<Rightarrow> (nat \<times> u32 \<times> u32) option" where
  "utf8_lead first =
     (if 0xC2 \<le> first \<and> first \<le> 0xDF then Some (1, ucast (first AND 0x1F), 0x80)
      else if 0xE0 \<le> first \<and> first \<le> 0xEF then Some (2, ucast (first AND 0x0F), 0x800)
      else if 0xF0 \<le> first \<and> first \<le> 0xF4 then Some (3, ucast (first AND 0x07), 0x10000)
      else None)"

fun utf8_continue :: "u32 \<Rightarrow> bytes \<Rightarrow> u32 option" where
  "utf8_continue v [] = Some v"
| "utf8_continue v (c # cs) =
     (if c AND 0xC0 \<noteq> 0x80 then None else utf8_continue (push_bit 6 v OR ucast (c AND 0x3F)) cs)"

text \<open>The text from the offset on, and the code point with the text after it.\<close>

definition decodeNextUtf8Codepoint :: "bytes \<Rightarrow> (u32 \<times> bytes) option" where
  "decodeNextUtf8Codepoint txt = (case txt of
     [] \<Rightarrow> None
   | first # r \<Rightarrow>
       (if first \<le> 0x7F then Some (ucast first, r)
        else case utf8_lead first of
          None \<Rightarrow> None
        | Some (count, v0, least) \<Rightarrow>
            (if count > length r then None
             else case utf8_continue v0 (take count r) of
               None \<Rightarrow> None
             | Some v \<Rightarrow>
                 (if v < least \<or> v > 0x10FFFF \<or> (0xD800 \<le> v \<and> v \<le> 0xDFFF) then None
                  else Some (v, drop count r)))))"

definition codepointToKeysym :: "u32 \<Rightarrow> u32 option" where
  "codepointToKeysym c =
     (if c = 0x08 then Some 0xFF08 else if c = 0x09 then Some 0xFF09
      else if c = 0x0A \<or> c = 0x0D then Some 0xFF0D else if c = 0x1B then Some 0xFF1B
      else if c = 0x7F then Some 0xFFFF
      else if c < 0x20 then None
      else if c \<le> 0xFF then Some c
      else if c \<le> 0x10FFFF then Some (0x01000000 OR c)
      else None)"

definition appendKeyEvent :: "bytes \<Rightarrow> u32 \<Rightarrow> bool \<Rightarrow> bytes" where
  "appendKeyEvent packet keysym pressed = packet @ [4, if pressed then 1 else 0, 0, 0] @ be32 keysym"

definition kMaxTextInputCodepoints :: nat where
  "kMaxTextInputCodepoints = 4096"

lemma utf8_decode_shorter: "decodeNextUtf8Codepoint txt = Some (c, r) \<Longrightarrow> length r < length txt"
  by (auto simp: decodeNextUtf8Codepoint_def split: list.splits if_splits option.splits)

text \<open>The loop over the text, with the number of code points read so far and the packet so far.\<close>

function text_loop :: "nat \<Rightarrow> bytes \<Rightarrow> bytes \<Rightarrow> string + bytes" where
  "text_loop count txt candidate =
     (if txt = [] then Inr candidate
      else if count + 1 > kMaxTextInputCodepoints then Inl ''VNC text input exceeds the safe codepoint limit''
      else case decodeNextUtf8Codepoint txt of
        None \<Rightarrow> Inl ''VNC text input is not valid UTF-8''
      | Some (c, r) \<Rightarrow> (case codepointToKeysym c of
          None \<Rightarrow> Inl ''VNC text input contains an unsupported control character''
        | Some k \<Rightarrow> text_loop (count + 1) r (appendKeyEvent (appendKeyEvent candidate k True) k False)))"
  by pat_completeness auto

termination text_loop
  by (relation "measure (\<lambda>(count, txt, candidate). length txt)") (auto dest: utf8_decode_shorter)

declare text_loop.simps [simp del]

text \<open>\<open>alloc\<close>: the one reservation of the packet; the appends stay within it.\<close>

definition buildTextKeyEvents :: "bool \<Rightarrow> bytes \<Rightarrow> string + bytes" where
  "buildTextKeyEvents alloc txt =
     (if txt = [] then Inr [] else if \<not> alloc then Inl ''VNC text input allocation failed'' else text_loop 0 txt [])"

section \<open>UltraVNC repeater\<close>

definition isUltraVncRepeaterBanner :: "bytes option \<Rightarrow> bool" where
  "isUltraVncRepeaterBanner buf = (case buf of
     None \<Rightarrow> False
   | Some d \<Rightarrow> length d = 12 \<and> d = ascii ''RFB 000.000'' @ [0x0A])"

definition isPrintableTargetByte :: "u8 \<Rightarrow> bool" where
  "isPrintableTargetByte v \<longleftrightarrow> v \<ge> 0x21 \<and> v \<le> 0x7E"

definition buildRepeaterTargetField :: "bytes \<Rightarrow> string + bytes" where
  "buildRepeaterTargetField target =
     (if target = [] then Inl ''UltraVNC Repeater target ID is empty''
      else if length target > 250 - 3 then Inl ''UltraVNC Repeater target ID is too long''
      else if \<not> list_all isPrintableTargetByte target
        then Inl ''UltraVNC Repeater target ID contains a non-printable character''
      else Inr (memcpy_at (memcpy_at (replicate 250 0) 0 (ascii ''ID:'')) 3 target))"

definition parseRepeaterTargetField :: "bytes option \<Rightarrow> string + bytes" where
  "parseRepeaterTargetField buf = (case buf of
     None \<Rightarrow> Inl ''UltraVNC Repeater display field must be exactly 250 bytes''
   | Some d \<Rightarrow>
       (if length d \<noteq> 250 then Inl ''UltraVNC Repeater display field must be exactly 250 bytes''
        else let e = length (takeWhile (\<lambda>b. b \<noteq> 0) d) in
          if list_ex (\<lambda>b. b \<noteq> 0) (drop e d)
            then Inl ''UltraVNC Repeater display field has non-zero bytes after padding''
          else if e < 3 \<or> d ! 0 \<noteq> of_char (CHR ''I'') \<or> d ! 1 \<noteq> of_char (CHR ''D'') \<or> d ! 2 \<noteq> of_char (CHR '':'')
            then Inl ''UltraVNC Repeater display field must start with ID:''
          else if e = 3 then Inl ''UltraVNC Repeater target ID is empty''
          else if \<not> list_all isPrintableTargetByte (take (e - 3) (drop 3 d))
            then Inl ''UltraVNC Repeater target ID contains a non-printable character''
          else Inr (take (e - 3) (drop 3 d))))"

section \<open>The zlib stream of a connection\<close>

definition Z_OK :: int where "Z_OK = 0"
definition Z_STREAM_END :: int where "Z_STREAM_END = 1"
definition Z_BUF_ERROR :: int where "Z_BUF_ERROR = - 5"

definition kInflateChunkBytes :: nat where
  "kInflateChunkBytes = 65536"

text \<open>
  One round of the loop of \<open>inflateChunk\<close>: \<open>Inr (Inl (avail, out))\<close> goes on and \<open>Inr (Inr (avail, out))\<close>
  leaves it. The vector was reserved to its largest size before, so the insertion does not allocate.
\<close>

definition inflate_round ::
    "('z \<Rightarrow> bytes \<Rightarrow> nat \<Rightarrow> int \<times> nat \<times> bytes \<times> 'z) \<Rightarrow> nat \<Rightarrow> 'z \<Rightarrow> bytes \<Rightarrow> bytes \<Rightarrow>
     (string + (bytes \<times> bytes + bytes \<times> bytes)) \<times> 'z" where
  "inflate_round inflate maxOutputBytes st avail out =
     (case inflate st avail kInflateChunkBytes of (result, consumed, produced, st') \<Rightarrow>
       let avail' = drop consumed avail; out' = out @ produced;
           inputConsumed = (length avail' = 0); outputRoom = (length produced < kInflateChunkBytes)
       in (if length produced > maxOutputBytes - length out
             then Inl ''VNC ZRLE decompressed output exceeds the safe limit''
           else if result = Z_STREAM_END then Inl ''VNC ZRLE stream ended before the RFB connection''
           else if result \<noteq> Z_OK \<and> result \<noteq> Z_BUF_ERROR then Inl ''VNC ZRLE compressed stream is malformed''
           else if inputConsumed \<and> (outputRoom \<or> result = Z_BUF_ERROR) then Inr (Inr (avail', out'))
           else if length avail = length avail' \<and> length produced = 0 then Inl ''VNC ZRLE inflater made no progress''
           else if length out' = maxOutputBytes \<and> (\<not> inputConsumed \<or> \<not> outputRoom)
             then Inl ''VNC ZRLE decompressed output reaches an unsafe boundary''
           else Inr (Inl (avail', out')), st'))"

lemma inflate_round_progress:
  assumes "inflate_round inflate m st avail out = (Inr (Inl (avail', out')), st')"
  shows "length avail' + (m - length out') < length avail + (m - length out) \<and>
    length out' - length out \<le> m - length out \<and> length out \<le> length out'"
proof -
  obtain result consumed produced st1 where i: "inflate st avail kInflateChunkBytes = (result, consumed, produced, st1)"
    by (metis prod_cases4)
  have "length produced \<le> m - length out" "avail' = drop consumed avail" "out' = out @ produced"
      "length avail' < length avail \<or> 0 < length produced"
    using assms unfolding inflate_round_def i by (auto simp: Let_def split: if_splits)
  moreover have "length avail' \<le> length avail" using calculation(2) by simp
  moreover have "length out' = length out + length produced" using calculation(3) by simp
  ultimately show ?thesis by linarith
qed

function inflate_loop ::
    "('z \<Rightarrow> bytes \<Rightarrow> nat \<Rightarrow> int \<times> nat \<times> bytes \<times> 'z) \<Rightarrow> nat \<Rightarrow> 'z \<Rightarrow> bytes \<Rightarrow> bytes \<Rightarrow>
     (string + bytes \<times> bytes) \<times> 'z" where
  "inflate_loop inflate m st avail out =
     (case inflate_round inflate m st avail out of
        (Inl e, st') \<Rightarrow> (Inl e, st')
      | (Inr (Inr fin), st') \<Rightarrow> (Inr fin, st')
      | (Inr (Inl (avail', out')), st') \<Rightarrow> inflate_loop inflate m st' avail' out')"
  by pat_completeness auto

termination inflate_loop
  by (relation "measure (\<lambda>(inflate, m, st, avail, out). length avail + (m - length out))")
    (auto dest!: sym [where t = "inflate_round _ _ _ _ _"] inflate_round_progress)

declare inflate_loop.simps [simp del]

text \<open>
  \<open>inflateChunk\<close>: the stream of the connection is \<open>None\<close> until its first rectangle; \<open>alloc\<close> is the one
  reservation. A failure empties the output.
\<close>

definition inflateChunk ::
    "'z option \<Rightarrow> ('z \<Rightarrow> bytes \<Rightarrow> nat \<Rightarrow> int \<times> nat \<times> bytes \<times> 'z) \<Rightarrow> bool \<Rightarrow> bytes option \<Rightarrow> nat \<Rightarrow> 'z option \<Rightarrow>
     (string + bytes) \<times> 'z option" where
  "inflateChunk init inflate alloc compressed maxOutputBytes impl =
     (case compressed of
        None \<Rightarrow> (Inl ''VNC ZRLE compressed input is invalid'', impl)
      | Some c \<Rightarrow>
          (if length c = 0 \<or> length c > 2 ^ 32 - 1 \<or> maxOutputBytes = 0
             then (Inl ''VNC ZRLE compressed input is invalid'', impl)
           else if length c < 4 \<or> drop (length c - 4) c \<noteq> [0, 0, 0xFF, 0xFF]
             then (Inl ''VNC ZRLE rectangle lacks the required zlib flush marker'', impl)
           else case (case impl of None \<Rightarrow> init | Some st \<Rightarrow> Some st) of
             None \<Rightarrow> (Inl ''VNC ZRLE zlib initialization failed'', None)
           | Some st \<Rightarrow>
               (if \<not> alloc then (Inl ''VNC ZRLE decompressed allocation failed'', Some st)
                else case inflate_loop inflate maxOutputBytes st c [] of
                  (Inl e, st') \<Rightarrow> (Inl e, Some st')
                | (Inr (avail, out), st') \<Rightarrow>
                    (if length avail \<noteq> 0 \<or> out = [] then Inl ''VNC ZRLE compressed rectangle is truncated''
                     else Inr out, Some st'))))"

section \<open>Repeater field\<close>

lemma repeater_field:
  "length target \<le> 247 \<Longrightarrow>
     memcpy_at (memcpy_at (replicate 250 0) 0 (ascii ''ID:'')) 3 target =
     ascii ''ID:'' @ target @ replicate (247 - length target) 0"
  by (simp add: memcpy_at_def ascii_def drop_Cons' del: replicate.simps)

lemma printable_nonzero: "list_all isPrintableTargetByte t \<Longrightarrow> 0 \<notin> set t"
  by (induction t) (auto simp: isPrintableTargetByte_def)

lemma zeros: "list_ex (\<lambda>b. b \<noteq> 0) d \<longleftrightarrow> d \<noteq> replicate (length d) (0 :: u8)"
  by (induction d) auto

text \<open>
  The repeater field and its parser are exact inverses: a field parses to a target exactly when it
  is the field built for that target, so nothing but well-formed fields is accepted.
\<close>

lemma repeater_field_roundtrip:
  "parseRepeaterTargetField (Some d) = Inr target \<longleftrightarrow> buildRepeaterTargetField target = Inr d"
proof
  assume b: "buildRepeaterTargetField target = Inr d"
  then have t: "target \<noteq> []" "length target \<le> 247" "list_all isPrintableTargetByte target"
    and d: "d = ascii ''ID:'' @ target @ replicate (247 - length target) 0"
    by (auto simp: buildRepeaterTargetField_def repeater_field split: if_splits)
  have tw: "takeWhile (\<lambda>b. b \<noteq> 0) d = ascii ''ID:'' @ target"
    using printable_nonzero [OF t(3)] c_str_id [of target]
    by (cases "247 - length target") (auto simp: d ascii_def c_str_def takeWhile_append2)
  show "parseRepeaterTargetField (Some d) = Inr target"
    using t by (simp add: parseRepeaterTargetField_def tw Let_def) (simp add: d ascii_def zeros)
next
  assume p: "parseRepeaterTargetField (Some d) = Inr target"
  define e where "e = length (takeWhile (\<lambda>b. b \<noteq> 0) d)"
  have d: "length d = 250" "\<not> list_ex (\<lambda>b. b \<noteq> 0) (drop e d)" "3 < e"
      "d ! 0 = of_char (CHR ''I'')" "d ! 1 = of_char (CHR ''D'')" "d ! 2 = of_char (CHR '':'')"
      "target = take (e - 3) (drop 3 d)" "list_all isPrintableTargetByte target"
    using p by (auto simp: parseRepeaterTargetField_def Let_def e_def split: if_splits)
  have e: "e \<le> 250" using length_takeWhile_le [of "\<lambda>b. b \<noteq> 0" d] d(1) by (simp add: e_def)
  have "take 3 d = ascii ''ID:''"
    using d(1,4-6) by (auto simp: ascii_def list_eq_iff_nth_eq nth_Cons numeral_3_eq_3 less_Suc_eq numeral_2_eq_2 split: nat.split)
  moreover have "d = take 3 d @ take (e - 3) (drop 3 d) @ drop e d"
    using d(3) by (metis append_take_drop_id drop_drop le_add_diff_inverse2 less_imp_le)
  moreover have "drop e d = replicate (247 - length target) 0"
    using d(1,2,3,7) e zeros by auto
  ultimately have "d = ascii ''ID:'' @ target @ replicate (247 - length target) 0" using d(7) by simp
  then show "buildRepeaterTargetField target = Inr d"
    using d e by (auto simp: buildRepeaterTargetField_def repeater_field)
qed

section \<open>UTF-8\<close>

text \<open>The reference encoding of a Unicode scalar value (RFC 3629).\<close>

definition scalar_value :: "nat \<Rightarrow> bool" where
  "scalar_value c \<longleftrightarrow> c \<le> 0x10FFFF \<and> \<not> (0xD800 \<le> c \<and> c \<le> 0xDFFF)"

definition utf8 :: "nat \<Rightarrow> bytes" where
  "utf8 c =
     (if c < 0x80 then [of_nat c]
      else if c < 0x800 then [of_nat (0xC0 + c div 64), of_nat (0x80 + c mod 64)]
      else if c < 0x10000 then [of_nat (0xE0 + c div 4096), of_nat (0x80 + c div 64 mod 64), of_nat (0x80 + c mod 64)]
      else [of_nat (0xF0 + c div 262144), of_nat (0x80 + c div 4096 mod 64), of_nat (0x80 + c div 64 mod 64),
            of_nat (0x80 + c mod 64)])"

lemma mask_bytes:
  fixes b :: u8
  shows "unat (b AND 0x3F) = unat b mod 64" "unat (b AND 0x1F) = unat b mod 32"
    "unat (b AND 0x0F) = unat b mod 16" "unat (b AND 0x07) = unat b mod 8"
proof -
  have m: "unat (b AND mask n) = unat b mod 2 ^ n" for n
  proof -
    have "unat (b AND mask n) = take_bit n (unat b)"
      by (simp only: take_bit_eq_mask [symmetric] unsigned_take_bit_eq)
    then show ?thesis by (simp only: take_bit_eq_mod)
  qed
  show "unat (b AND 0x3F) = unat b mod 64" using m [of 6] by (simp add: mask_eq_exp_minus_1)
  show "unat (b AND 0x1F) = unat b mod 32" using m [of 5] by (simp add: mask_eq_exp_minus_1)
  show "unat (b AND 0x0F) = unat b mod 16" using m [of 4] by (simp add: mask_eq_exp_minus_1)
  show "unat (b AND 0x07) = unat b mod 8" using m [of 3] by (simp add: mask_eq_exp_minus_1)
qed

lemma widen_unat: "unat (ucast (b :: u8) :: u32) = unat b"
proof -
  have "unat b < 2 ^ LENGTH(8)" by (rule unsigned_less)
  then show ?thesis by (simp add: unsigned_ucast_eq take_bit_nat_eq_self)
qed

lemma continuation_byte: "b AND 0xC0 = 0x80 \<longleftrightarrow> 128 \<le> unat (b :: u8) \<and> unat b < 192"
proof -
  have "b AND 0xC0 = push_bit 6 (drop_bit 6 b)"
  proof (rule bit_word_eqI)
    fix n assume "n < LENGTH(8)"
    then have n: "n < 8" by simp
    have c: "(0xC0 :: u8) = push_bit 6 (mask 2)" by (simp add: mask_eq_exp_minus_1 push_bit_eq_mult)
    show "bit (b AND 0xC0) n = bit (push_bit 6 (drop_bit 6 b)) n"
      unfolding c using n by (auto simp: bit_simps)
  qed
  moreover have "push_bit 6 (drop_bit 6 b) = 0x80 \<longleftrightarrow> unat b div 64 = 2"
  proof -
    have "unat b < 2 ^ LENGTH(8)" by (rule unsigned_less)
    have "unat (push_bit 6 (drop_bit 6 b)) = unat b div 64 * 64"
      using \<open>unat b < 2 ^ LENGTH(8)\<close> by (simp add: push_bit_eq_mult drop_bit_eq_div unat_word_ariths unat_div)
    then show ?thesis by (auto simp: word_unat_eq_iff)
  qed
  moreover have "unat b div 64 = 2 \<longleftrightarrow> 128 \<le> unat b \<and> unat b < 192" by linarith
  ultimately show ?thesis by simp
qed

lemma continue_value:
  assumes "unat (v :: u32) < 2 ^ 20"
  shows "unat (push_bit 6 v OR ucast ((b :: u8) AND 0x3F)) = unat v * 64 + unat b mod 64"
proof -
  have "push_bit 6 v OR ucast (b AND 0x3F) = push_bit 6 v + (ucast (b AND 0x3F) :: u32)"
  proof (rule disjunctive_add_eq_or [symmetric])
    have c: "(0x3F :: u8) = mask 6" by (simp add: mask_eq_exp_minus_1)
    show "push_bit 6 v AND ucast (b AND 0x3F) = 0"
      unfolding c by (auto intro!: bit_word_eqI simp: bit_simps)
  qed
  moreover have "unat (push_bit 6 v) = unat v * 64"
    using assms by (simp add: push_bit_eq_mult unat_word_ariths)
  ultimately show ?thesis
    using assms by (simp add: unat_word_ariths widen_unat mask_bytes)
qed

definition continued :: "nat \<Rightarrow> bytes \<Rightarrow> nat" where
  "continued a bs = foldl (\<lambda>a b. a * 64 + unat b mod 64) a bs"

lemma utf8_continue_value:
  "(unat v + 1) * 64 ^ length bs \<le> 2 ^ 26 \<Longrightarrow>
     utf8_continue v bs = Some w \<longleftrightarrow>
       (\<forall>b\<in>set bs. 128 \<le> unat b \<and> unat b < 192) \<and> unat w = continued (unat v) bs"
proof (induction bs arbitrary: v)
  case Nil
  then show ?case by (auto simp: continued_def word_unat_eq_iff)
next
  case (Cons b bs)
  let ?v = "push_bit 6 v OR ucast (b AND 0x3F)"
  have one: "(1 :: nat) \<le> 64 ^ length bs" by simp
  have "(unat v + 1) * 64 * 1 \<le> (unat v + 1) * 64 * 64 ^ length bs" by (rule mult_le_mono2 [OF one])
  moreover have prems: "(unat v + 1) * 64 * 64 ^ length bs \<le> 2 ^ 26"
    using Cons.prems by (simp only: list.size(4) add_Suc_right add_0_right power_Suc mult.assoc)
  ultimately have "(unat v + 1) * 64 \<le> 2 ^ 26" by linarith
  then have "unat v < 2 ^ 20" by simp
  then have val: "unat ?v = unat v * 64 + unat b mod 64" by (rule continue_value)
  then have "unat ?v + 1 \<le> (unat v + 1) * 64" using mod_less_divisor [of 64 "unat b"] val by simp
  then have "(unat ?v + 1) * 64 ^ length bs \<le> (unat v + 1) * 64 * 64 ^ length bs" by (rule mult_le_mono1)
  then have "(unat ?v + 1) * 64 ^ length bs \<le> 2 ^ 26" using prems by linarith
  from Cons.IH [OF this] show ?case
    by (auto simp: continuation_byte continued_def val)
qed

lemma unat_small_byte: "n < 256 \<Longrightarrow> unat (of_nat n :: u8) = n"
  by (simp add: unat_of_nat)

lemma lead_byte_unat:
  "0xC2 \<le> f \<longleftrightarrow> 0xC2 \<le> unat (f :: u8)" "f \<le> 0xDF \<longleftrightarrow> unat f \<le> 0xDF"
  "0xE0 \<le> f \<longleftrightarrow> 0xE0 \<le> unat f" "f \<le> 0xEF \<longleftrightarrow> unat f \<le> 0xEF"
  "0xF0 \<le> f \<longleftrightarrow> 0xF0 \<le> unat f" "f \<le> 0xF4 \<longleftrightarrow> unat f \<le> 0xF4" "f \<le> 0x7F \<longleftrightarrow> unat f \<le> 0x7F"
  by (simp_all add: word_le_nat_alt)

lemma range_unat:
  "v < 0x80 \<longleftrightarrow> unat (v :: u32) < 0x80" "v < 0x800 \<longleftrightarrow> unat v < 0x800" "v < 0x10000 \<longleftrightarrow> unat v < 0x10000"
  "v > 0x10FFFF \<longleftrightarrow> unat v > 0x10FFFF" "0xD800 \<le> v \<longleftrightarrow> 0xD800 \<le> unat v" "v \<le> 0xDFFF \<longleftrightarrow> unat v \<le> 0xDFFF"
  by (simp_all add: word_le_nat_alt word_less_nat_alt)

lemma decode_ascii: "unat f \<le> 0x7F \<Longrightarrow> decodeNextUtf8Codepoint (f # r) = Some (ucast f, r)"
  by (simp add: decodeNextUtf8Codepoint_def lead_byte_unat)

lemma decode_multi:
  assumes "utf8_lead f = Some (k, v0, least)" "\<not> unat f \<le> 0x7F" "unat v0 < 32" "k \<le> 3"
  shows "decodeNextUtf8Codepoint (f # r) = Some (v, r') \<longleftrightarrow>
     k \<le> length r \<and> r' = drop k r \<and> (\<forall>b\<in>set (take k r). 128 \<le> unat b \<and> unat b < 192) \<and>
     unat v = continued (unat v0) (take k r) \<and> unat least \<le> unat v \<and> scalar_value (unat v)"
proof -
  have "length (take k r) \<le> 3" using assms(4) by simp
  then have "(64 :: nat) ^ length (take k r) \<le> 64 ^ 3" by (intro power_increasing) auto
  then have "(unat v0 + 1) * 64 ^ length (take k r) \<le> 32 * 64 ^ 3"
    using assms(3) by (intro mult_le_mono) auto
  then have "(unat v0 + 1) * 64 ^ length (take k r) \<le> 2 ^ 26" by simp
  note cont = utf8_continue_value [OF this]
  show ?thesis
    using assms(1,2) cont
    by (auto simp: decodeNextUtf8Codepoint_def lead_byte_unat scalar_value_def range_unat word_less_nat_alt not_less
        split: option.splits if_splits intro: word_unat_eq_iff [THEN iffD2])
qed

lemma mod_above:
  fixes n a m :: nat
  assumes "a \<le> n" "n < a + m" "m dvd a"
  shows "n mod m = n - a"
proof -
  have "n mod m = (n - a + a) mod m" using assms(1) by simp
  also have "\<dots> = (n - a) mod m" using assms(3) by (metis mod_add_right_eq dvd_imp_mod_0 add_0_right)
  also have "\<dots> = n - a" using assms(1,2) by simp
  finally show ?thesis .
qed

lemma payload:
  "0xC2 \<le> n \<Longrightarrow> n \<le> 0xDF \<Longrightarrow> n mod 32 = n - (0xC0 :: nat)"
  "0xE0 \<le> n \<Longrightarrow> n \<le> 0xEF \<Longrightarrow> n mod 16 = n - (0xE0 :: nat)"
  "0xF0 \<le> n \<Longrightarrow> n \<le> 0xF4 \<Longrightarrow> n mod 8 = n - (0xF0 :: nat)"
  by (rule mod_above; simp)+

lemma lead_two: "0xC2 \<le> unat f \<Longrightarrow> unat f \<le> 0xDF \<Longrightarrow>
    \<exists>v0. utf8_lead f = Some (1, v0, 0x80) \<and> unat v0 = unat f - 0xC0 \<and> unat v0 < 32"
  by (simp add: utf8_lead_def lead_byte_unat widen_unat mask_bytes payload; linarith)

lemma lead_three: "0xE0 \<le> unat f \<Longrightarrow> unat f \<le> 0xEF \<Longrightarrow>
    \<exists>v0. utf8_lead f = Some (2, v0, 0x800) \<and> unat v0 = unat f - 0xE0 \<and> unat v0 < 32"
  by (simp add: utf8_lead_def lead_byte_unat widen_unat mask_bytes payload; linarith)

lemma lead_four: "0xF0 \<le> unat f \<Longrightarrow> unat f \<le> 0xF4 \<Longrightarrow>
    \<exists>v0. utf8_lead f = Some (3, v0, 0x10000) \<and> unat v0 = unat f - 0xF0 \<and> unat v0 < 32"
  by (simp add: utf8_lead_def lead_byte_unat widen_unat mask_bytes payload; linarith)

lemma lead_none: "\<not> (0xC2 \<le> unat f \<and> unat f \<le> 0xDF) \<Longrightarrow> \<not> (0xE0 \<le> unat f \<and> unat f \<le> 0xF4) \<Longrightarrow> utf8_lead f = None"
  by (auto simp: utf8_lead_def lead_byte_unat)

lemma unat_of_byte: "n < 256 \<Longrightarrow> (of_nat n :: u8) = b \<longleftrightarrow> unat b = n"
  by (auto simp: unat_small_byte)

lemma tag_mod: "(128 + c) mod 64 = c mod (64 :: nat)"
  using mod_mult_self2 [of c 64 2] by (simp add: add.commute)

lemma base_64:
  fixes c :: nat
  shows "c div 64 * 64 + c mod 64 = c"
    "(c div 4096 * 64 + c div 64 mod 64) * 64 + c mod 64 = c"
    "((c div 262144 * 64 + c div 4096 mod 64) * 64 + c div 64 mod 64) * 64 + c mod 64 = c"
proof -
  have one: "n div 64 * 64 + n mod 64 = n" for n :: nat by simp
  have d: "c div 64 div 64 = c div 4096" "c div 4096 div 64 = c div 262144" by (simp_all add: div_mult2_eq [symmetric])
  have two: "c div 4096 * 64 + c div 64 mod 64 = c div 64" using one [of "c div 64"] d(1) by simp
  have three: "c div 262144 * 64 + c div 4096 mod 64 = c div 4096" using one [of "c div 4096"] d(2) by simp
  show "c div 64 * 64 + c mod 64 = c" by (rule one)
  show "(c div 4096 * 64 + c div 64 mod 64) * 64 + c mod 64 = c" unfolding two by (rule one)
  show "((c div 262144 * 64 + c div 4096 mod 64) * 64 + c div 64 mod 64) * 64 + c mod 64 = c"
    unfolding three two by (rule one)
qed

lemma unat_tail: "unat (of_nat (128 + x mod 64) :: u8) = 128 + x mod 64"
proof -
  have "x mod 64 < 64" by simp
  then show ?thesis by (intro unat_small_byte) linarith
qed

lemma decode_utf8:
  assumes "scalar_value c"
  shows "decodeNextUtf8Codepoint (utf8 c @ r) = Some (of_nat c, r)"
proof -
  have c: "unat (of_nat c :: u32) = c" using assms by (simp add: scalar_value_def unat_of_nat)
  consider "c < 0x80" | "0x80 \<le> c" "c < 0x800" | "0x800 \<le> c" "c < 0x10000" | "0x10000 \<le> c" by linarith
  then show ?thesis
  proof cases
    case 1
    then have "ucast (of_nat c :: u8) = (of_nat c :: u32)"
      by (simp add: word_unat_eq_iff widen_unat unat_small_byte c)
    then show ?thesis using 1 decode_ascii [of "of_nat c"] by (simp add: utf8_def unat_small_byte)
  next
    case 2
    then have "2 \<le> c div 64" "c div 64 \<le> 31" by linarith+
    then obtain v0 where "utf8_lead (of_nat (0xC0 + c div 64)) = Some (1, v0, 0x80)" "unat v0 = c div 64" "unat v0 < 32"
      using lead_two [of "of_nat (0xC0 + c div 64)"] by (auto simp: unat_small_byte simp del: of_nat_add)
    then show ?thesis
      using 2 assms base_64(1) [of c] decode_multi [of "of_nat (0xC0 + c div 64)" 1 v0 "0x80" "of_nat (0x80 + c mod 64) # r" "of_nat c" r]
      by (simp add: utf8_def unat_small_byte continued_def c tag_mod del: of_nat_add)
  next
    case 3
    then have "c div 4096 \<le> 15" by linarith
    then obtain v0 where "utf8_lead (of_nat (0xE0 + c div 4096)) = Some (2, v0, 0x800)" "unat v0 = c div 4096" "unat v0 < 32"
      using lead_three [of "of_nat (0xE0 + c div 4096)"] by (auto simp: unat_small_byte simp del: of_nat_add)
    then show ?thesis
      using 3 assms base_64(2) [of c] decode_multi [of "of_nat (0xE0 + c div 4096)" 2 v0 "0x800"
          "of_nat (0x80 + c div 64 mod 64) # of_nat (0x80 + c mod 64) # r" "of_nat c" r]
      by (simp add: utf8_def unat_small_byte continued_def c tag_mod del: of_nat_add)
  next
    case 4
    have four: "c div 262144 \<le> 4" using assms unfolding scalar_value_def by linarith
    then have head: "unat (of_nat (240 + c div 262144) :: u8) = 240 + c div 262144" by (intro unat_small_byte) linarith
    then obtain v0 where "utf8_lead (of_nat (0xF0 + c div 262144)) = Some (3, v0, 0x10000)" "unat v0 = c div 262144" "unat v0 < 32"
      using lead_four [of "of_nat (0xF0 + c div 262144)"] four head by (auto simp del: of_nat_add)
    then show ?thesis
      using 4 assms base_64(3) [of c] decode_multi [of "of_nat (0xF0 + c div 262144)" 3 v0 "0x10000"
          "of_nat (0x80 + c div 4096 mod 64) # of_nat (0x80 + c div 64 mod 64) # of_nat (0x80 + c mod 64) # r" "of_nat c" r]
      by (simp add: utf8_def unat_tail head continued_def c tag_mod del: of_nat_add)
  qed
qed

lemma tail_byte:
  assumes "128 \<le> unat (b :: u8)" "unat b < 192"
  shows "unat b mod 64 < 64" "of_nat (128 + unat b mod 64) = b"
proof -
  have "unat b mod 64 = unat b - 128" using assms by (intro mod_above) simp_all
  then show "unat b mod 64 < 64" "of_nat (128 + unat b mod 64) = b"
    using assms by (auto simp: unat_of_byte simp del: of_nat_add)
qed

lemma head_byte: "a \<le> unat (f :: u8) \<Longrightarrow> of_nat (a + (unat f - a)) = f"
proof -
  assume "a \<le> unat f"
  moreover have "unat f < 256" using unsigned_less [of f] by simp
  ultimately show ?thesis by (simp add: unat_of_byte del: of_nat_add)
qed

lemma digits_64:
  fixes a b c d :: nat
  assumes "b < 64" "c < 64" "d < 64"
  shows "(a * 64 + b) div 64 = a" "(a * 64 + b) mod 64 = b"
    "((a * 64 + b) * 64 + c) div 4096 = a" "((a * 64 + b) * 64 + c) div 64 mod 64 = b"
    "(((a * 64 + b) * 64 + c) * 64 + d) div 262144 = a" "(((a * 64 + b) * 64 + c) * 64 + d) div 4096 mod 64 = b"
proof -
  have one: "(x * 64 + y) div 64 = x" "(x * 64 + y) mod 64 = y" if "y < 64" for x y :: nat using that by simp_all
  have d: "n div 4096 = n div 64 div 64" "n div 262144 = n div 64 div 64 div 64" for n :: nat
    by (simp_all add: div_mult2_eq [symmetric])
  show "(a * 64 + b) div 64 = a" "(a * 64 + b) mod 64 = b" using one assms by simp_all
  show "((a * 64 + b) * 64 + c) div 4096 = a" "((a * 64 + b) * 64 + c) div 64 mod 64 = b"
    by (simp_all only: d one assms)
  show "(((a * 64 + b) * 64 + c) * 64 + d) div 262144 = a" "(((a * 64 + b) * 64 + c) * 64 + d) div 4096 mod 64 = b"
    by (simp_all only: d one assms)
qed

lemma utf8_two:
  "b < 64 \<Longrightarrow> 0x80 \<le> a * 64 + b \<Longrightarrow> a * 64 + b < 0x800 \<Longrightarrow> utf8 (a * 64 + b) = [of_nat (0xC0 + a), of_nat (0x80 + b)]"
  by (simp add: utf8_def)

lemma utf8_three:
  assumes "b < 64" "c < 64" "0x800 \<le> (a * 64 + b) * 64 + c" "(a * 64 + b) * 64 + c < 0x10000"
  shows "utf8 ((a * 64 + b) * 64 + c) = [of_nat (0xE0 + a), of_nat (0x80 + b), of_nat (0x80 + c)]"
  using assms(3,4) unfolding utf8_def digits_64(3,4) [OF assms(1,2,1)] digits_64(2) [OF assms(2,1,1)]
  by (simp del: of_nat_add)

lemma utf8_four:
  assumes "b < 64" "c < 64" "d < 64" "0x10000 \<le> ((a * 64 + b) * 64 + c) * 64 + d"
  shows "utf8 (((a * 64 + b) * 64 + c) * 64 + d) = [of_nat (0xF0 + a), of_nat (0x80 + b), of_nat (0x80 + c), of_nat (0x80 + d)]"
  using assms(4)
  unfolding utf8_def digits_64(5,6) [OF assms(1-3)] digits_64(2,4) [OF assms(3,1,1)] digits_64(4) [OF assms(2,3,1)]
  by (simp del: of_nat_add)

lemma three_digits: "x \<le> 15 \<Longrightarrow> y < 64 \<Longrightarrow> z < 64 \<Longrightarrow> (x * 64 + y) * 64 + z < (0x10000 :: nat)"
  by simp

lemma narrow_byte: "ucast (ucast (f :: u8) :: u32) = f"
  by (rule bit_word_eqI) (simp add: bit_simps)

lemma utf8_decode:
  assumes "decodeNextUtf8Codepoint txt = Some (v, r')"
  shows "txt = utf8 (unat v) @ r' \<and> scalar_value (unat v)"
proof (cases "txt")
  case (Cons f r)
  have f: "unat f < 256" using unsigned_less [of f] by simp
  consider "unat f \<le> 0x7F" | "0xC2 \<le> unat f" "unat f \<le> 0xDF" | "0xE0 \<le> unat f" "unat f \<le> 0xEF"
    | "0xF0 \<le> unat f" "unat f \<le> 0xF4" | "utf8_lead f = None" "\<not> f \<le> 0x7F"
    using lead_none [of f] lead_byte_unat(7) [of f] by linarith
  then show ?thesis
  proof cases
    case 1
    then show ?thesis using assms Cons
      by (auto simp: decode_ascii widen_unat utf8_def scalar_value_def unat_of_byte narrow_byte)
  next
    case 2
    obtain v0 where v0: "utf8_lead f = Some (1, v0, 0x80)" "unat v0 = unat f - 0xC0" "unat v0 < 32"
      using lead_two [OF 2] by blast
    from assms [unfolded Cons] obtain b where b: "r = b # r'" "128 \<le> unat b" "unat b < 192"
        "unat v = (unat f - 0xC0) * 64 + unat b mod 64" "0x80 \<le> unat v" "scalar_value (unat v)"
      using decode_multi [OF v0(1) _ v0(3), of r v r'] 2 v0(2)
      by (cases r) (auto simp: continued_def)
    have "unat v < 0x800" using b(4) tail_byte(1) [OF b(2,3)] 2 by linarith
    then have "utf8 (unat v) = [f, b]"
      using utf8_two [OF tail_byte(1) [OF b(2,3)], of "unat f - 0xC0"] b(4,5) head_byte [OF order.trans [OF _ 2(1)]]
        tail_byte(2) [OF b(2,3)] by (simp del: of_nat_add)
    then show ?thesis using b Cons by simp
  next
    case 3
    obtain v0 where v0: "utf8_lead f = Some (2, v0, 0x800)" "unat v0 = unat f - 0xE0" "unat v0 < 32"
      using lead_three [OF 3] by blast
    from assms [unfolded Cons] obtain b c where b: "r = b # c # r'" "128 \<le> unat b" "unat b < 192" "128 \<le> unat c" "unat c < 192"
        "unat v = ((unat f - 0xE0) * 64 + unat b mod 64) * 64 + unat c mod 64" "0x800 \<le> unat v" "scalar_value (unat v)"
      using decode_multi [OF v0(1) _ v0(3), of r v r'] 3 v0(2)
      by (cases r; cases "tl r") (auto simp: continued_def)
    have "unat f - 0xE0 \<le> 15" using 3 by linarith
    then have "unat v < 0x10000"
      unfolding b(6) by (rule three_digits [OF _ tail_byte(1) [OF b(2,3)] tail_byte(1) [OF b(4,5)]])
    then have "utf8 (unat v) = [f, b, c]"
      using utf8_three [OF tail_byte(1) [OF b(2,3)] tail_byte(1) [OF b(4,5)], of "unat f - 0xE0"] b(6,7) head_byte [OF 3(1)]
        tail_byte(2) [OF b(2,3)] tail_byte(2) [OF b(4,5)] by (simp only:)
    then show ?thesis using b Cons by simp
  next
    case 4
    obtain v0 where v0: "utf8_lead f = Some (3, v0, 0x10000)" "unat v0 = unat f - 0xF0" "unat v0 < 32"
      using lead_four [OF 4] by blast
    from assms [unfolded Cons] obtain b c d where b: "r = b # c # d # r'" "128 \<le> unat b" "unat b < 192" "128 \<le> unat c" "unat c < 192"
        "128 \<le> unat d" "unat d < 192"
        "unat v = (((unat f - 0xF0) * 64 + unat b mod 64) * 64 + unat c mod 64) * 64 + unat d mod 64" "0x10000 \<le> unat v" "scalar_value (unat v)"
      using decode_multi [OF v0(1) _ v0(3), of r v r'] 4 v0(2)
      by (cases r; cases "tl r"; cases "tl (tl r)") (auto simp: continued_def)
    have "utf8 (unat v) = [f, b, c, d]"
      using utf8_four [OF tail_byte(1) [OF b(2,3)] tail_byte(1) [OF b(4,5)] tail_byte(1) [OF b(6,7)], of "unat f - 0xF0"] b(8,9)
        head_byte [OF 4(1)] tail_byte(2) [OF b(2,3)] tail_byte(2) [OF b(4,5)] tail_byte(2) [OF b(6,7)] by (simp only:)
    then show ?thesis using b Cons by simp
  next
    case 5
    then show ?thesis using assms Cons by (simp add: decodeNextUtf8Codepoint_def)
  qed
qed (use assms in \<open>simp add: decodeNextUtf8Codepoint_def\<close>)

section \<open>Typed text\<close>

definition supported :: "nat \<Rightarrow> bool" where
  "supported c \<longleftrightarrow> scalar_value c \<and> codepointToKeysym (of_nat c) \<noteq> None"

text \<open>The two key events of a code point: pressed and released.\<close>

definition key_click :: "nat \<Rightarrow> bytes" where
  "key_click c = (let k = the (codepointToKeysym (of_nat c))
     in [4, 1, 0, 0] @ be32 k @ [4, 0, 0, 0] @ be32 k)"

lemma text_loop_steps:
  "text_loop n [] p = Inr p"
  "t \<noteq> [] \<Longrightarrow> text_loop n t p =
     (if n + 1 > kMaxTextInputCodepoints then Inl ''VNC text input exceeds the safe codepoint limit''
      else case decodeNextUtf8Codepoint t of
        None \<Rightarrow> Inl ''VNC text input is not valid UTF-8''
      | Some (c, r) \<Rightarrow> (case codepointToKeysym c of
          None \<Rightarrow> Inl ''VNC text input contains an unsupported control character''
        | Some k \<Rightarrow> text_loop (n + 1) r (appendKeyEvent (appendKeyEvent p k True) k False)))"
  by (simp_all add: text_loop.simps [of n t p] text_loop.simps [of n "[]" p])

lemma utf8_nonempty: "utf8 c \<noteq> []"
  by (simp add: utf8_def)

lemma text_loop_encoded:
  "\<forall>c\<in>set cs. supported c \<Longrightarrow> n + length cs \<le> kMaxTextInputCodepoints \<Longrightarrow>
     text_loop n (concat (map utf8 cs)) p = Inr (p @ concat (map key_click cs))"
proof (induction cs arbitrary: n p)
  case (Cons c cs)
  then obtain k where k: "codepointToKeysym (of_nat c) = Some k" and c: "scalar_value c"
    by (auto simp: supported_def)
  have "utf8 c @ concat (map utf8 cs) \<noteq> []" using utf8_nonempty by simp
  then have "text_loop n (concat (map utf8 (c # cs))) p =
      text_loop (n + 1) (concat (map utf8 cs)) (appendKeyEvent (appendKeyEvent p k True) k False)"
    using Cons.prems k by (simp add: text_loop_steps(2) decode_utf8 [OF c])
  then show ?case using Cons k by (simp add: appendKeyEvent_def key_click_def)
qed (simp add: text_loop_steps)

lemma text_loop_accepts:
  "text_loop n t p = Inr q \<Longrightarrow>
     \<exists>cs. t = concat (map utf8 cs) \<and> (\<forall>c\<in>set cs. supported c) \<and> (cs = [] \<or> n + length cs \<le> kMaxTextInputCodepoints)"
proof (induction n t p rule: text_loop.induct)
  case (1 n t p)
  show ?case
  proof (cases "t = []")
    case False
    with 1(2) obtain c r k where e: "\<not> n + 1 > kMaxTextInputCodepoints" "decodeNextUtf8Codepoint t = Some (c, r)"
        "codepointToKeysym c = Some k" "text_loop (n + 1) r (appendKeyEvent (appendKeyEvent p k True) k False) = Inr q"
      by (auto simp: text_loop_steps(2) split: if_splits option.splits)
    obtain cs where "r = concat (map utf8 cs)" "\<forall>c\<in>set cs. supported c"
        "cs = [] \<or> n + 1 + length cs \<le> kMaxTextInputCodepoints"
      using 1(1) [OF False e(1,2) _ e(3,4)] by auto
    then show ?thesis
      using utf8_decode [OF e(2)] e(1,3) by (intro exI [of _ "unat c # cs"]) (auto simp: supported_def)
  qed (auto intro: exI [of _ "[]"])
qed

text \<open>
  C26. Typed text survives the way into key events: the packet built for the UTF-8 of any sequence of up
  to 4096 supported code points has exactly the press and release of each of them in order, and every
  other byte string is refused, so no malformed or overlong UTF-8 reaches the server.
\<close>

theorem typed_text_exact:
  "buildTextKeyEvents True t = Inr packet \<longleftrightarrow>
     (\<exists>cs. t = concat (map utf8 cs) \<and> list_all supported cs \<and> length cs \<le> kMaxTextInputCodepoints \<and>
        packet = concat (map key_click cs))"
proof (cases "t = []")
  case True
  have "concat (map utf8 cs) = [] \<longleftrightarrow> cs = []" for cs using utf8_nonempty by (cases cs) simp_all
  then show ?thesis using True by (auto simp: buildTextKeyEvents_def)
next
  case False
  then have b: "buildTextKeyEvents True t = text_loop 0 t []" by (simp add: buildTextKeyEvents_def)
  show ?thesis
  proof
    assume "buildTextKeyEvents True t = Inr packet"
    then have l: "text_loop 0 t [] = Inr packet" by (simp add: b)
    then obtain cs where cs: "t = concat (map utf8 cs)" "\<forall>c\<in>set cs. supported c" "length cs \<le> kMaxTextInputCodepoints"
      using text_loop_accepts [OF l] False by auto
    then show "\<exists>cs. t = concat (map utf8 cs) \<and> list_all supported cs \<and> length cs \<le> kMaxTextInputCodepoints \<and>
        packet = concat (map key_click cs)"
      using l text_loop_encoded [OF cs(2), of 0 "[]"] by (intro exI [of _ cs]) (auto simp: list_all_iff)
  next
    assume "\<exists>cs. t = concat (map utf8 cs) \<and> list_all supported cs \<and> length cs \<le> kMaxTextInputCodepoints \<and>
        packet = concat (map key_click cs)"
    then show "buildTextKeyEvents True t = Inr packet"
      using text_loop_encoded [of _ 0 "[]"] by (auto simp: b list_all_iff)
  qed
qed

section \<open>Decompression\<close>

lemma inflate_loop_out:
  "inflate_loop inflate m st avail out = (Inr (avail', out'), st') \<Longrightarrow> length out \<le> m \<Longrightarrow> length out' \<le> m \<and> avail' = []"
proof (induction inflate m st avail out rule: inflate_loop.induct)
  case (1 inflate m st avail out)
  show ?case
  proof (cases "inflate_round inflate m st avail out")
    case (Pair res st1)
    show ?thesis
    proof (cases res)
      case (Inr go)
      show ?thesis
      proof (cases go)
        case (Inl ao)
        then obtain a o' where go: "go = Inl (a, o')" by (cases ao) auto
        then have "length o' - length out \<le> m - length out" "length out \<le> length o'"
          using Pair Inr inflate_round_progress [of inflate m st avail out a o' st1] by simp_all
        then have "length o' \<le> m" using 1(3) by linarith
        then show ?thesis
          using 1 Pair Inr go by (simp add: inflate_loop.simps [of inflate m st avail out])
      next
        case (Inr ao)
        then have "inflate_round inflate m st avail out = (Inr (Inr ao), st1)" using Pair \<open>res = Inr go\<close> by simp
        then show ?thesis
          using 1(2,3)
          by (auto simp: inflate_loop.simps [of inflate m st avail out] inflate_round_def Let_def split: prod.splits if_splits)
      qed
    qed (use 1 Pair in \<open>simp add: inflate_loop.simps [of inflate m st avail out]\<close>)
  qed
qed

text \<open>
  A rectangle cannot blow up: whatever zlib does, decompression ends, and a chunk that is accepted was
  consumed to its end at the flush marker and gives at least one and at most the permitted number of bytes.
\<close>

lemma inflate_chunk_bounded:
  assumes "inflateChunk init inflate alloc compressed maxOutputBytes impl = (Inr out, impl')"
  shows "out \<noteq> [] \<and> length out \<le> maxOutputBytes \<and> impl' \<noteq> None \<and>
    (\<exists>c st st'. compressed = Some (c @ [0, 0, 0xFF, 0xFF]) \<and> (impl = Some st \<or> impl = None \<and> init = Some st) \<and>
       inflate_loop inflate maxOutputBytes st (c @ [0, 0, 0xFF, 0xFF]) [] = (Inr ([], out), st') \<and> impl' = Some st')"
proof -
  from assms obtain c st avail st' where e: "compressed = Some c" "drop (length c - 4) c = [0, 0, 0xFF, 0xFF]"
      "impl = Some st \<or> impl = None \<and> init = Some st" "inflate_loop inflate maxOutputBytes st c [] = (Inr (avail, out), st')"
      "impl' = Some st'" "out \<noteq> []"
    by (auto simp: inflateChunk_def split: option.splits if_splits prod.splits sum.splits)
  have c: "c = take (length c - 4) c @ [0, 0, 0xFF, 0xFF]" using e(2) by (metis append_take_drop_id)
  have "length out \<le> maxOutputBytes \<and> avail = []" by (rule inflate_loop_out [OF e(4)]) simp
  then show ?thesis using e c by (metis option.distinct(1))
qed

text \<open>A stored stream: a round copies the input before the marker.\<close>

lemma inflate_chunk_bounded_witness:
  "fst (inflateChunk (Some ()) (\<lambda>st avail room. (0, length avail, take (length avail - 4) avail, st)) True
     (Some [7, 8, 0, 0, 0xFF, 0xFF]) 2 None) = Inr [7, 8] \<and> length [7, 8 :: u8] \<le> 2"
proof -
  let ?z = "\<lambda>(st :: unit) avail (room :: nat). (0 :: int, length avail, take (length avail - 4) avail, st)"
  have run: "inflateChunk (Some ()) ?z True (Some [7, 8, 0, 0, 0xFF, 0xFF]) 2 None = (Inr [7, 8], Some ())"
    by (simp add: inflateChunk_def inflate_loop.simps inflate_round_def kInflateChunkBytes_def
        Z_OK_def Z_STREAM_END_def Z_BUF_ERROR_def)
  then show ?thesis using inflate_chunk_bounded [OF run] by simp
qed

section \<open>Pixel formats asked for\<close>

text \<open>The format a SetPixelFormat message describes, as the server reads it (RFC 6143, 7.4).\<close>

definition packet_format :: "bytes \<Rightarrow> pixel_format" where
  "packet_format p =
     \<lparr>pf_bitsPerPixel = p ! 4, pf_depth = p ! 5, pf_bigEndian = (p ! 6 \<noteq> 0), pf_trueColor = (p ! 7 \<noteq> 0),
      pf_redMax = push_bit 8 (ucast (p ! 8)) OR ucast (p ! 9), pf_greenMax = push_bit 8 (ucast (p ! 10)) OR ucast (p ! 11),
      pf_blueMax = push_bit 8 (ucast (p ! 12)) OR ucast (p ! 13),
      pf_redShift = p ! 14, pf_greenShift = p ! 15, pf_blueShift = p ! 16\<rparr>"

lemma requested_formats:
  "packet_format (buildSetPixelFormat 8) = \<lparr>pf_bitsPerPixel = 8, pf_depth = 8, pf_bigEndian = False, pf_trueColor = True,
     pf_redMax = 7, pf_greenMax = 7, pf_blueMax = 3, pf_redShift = 5, pf_greenShift = 2, pf_blueShift = 0\<rparr>"
  "packet_format (buildSetPixelFormat 16) = \<lparr>pf_bitsPerPixel = 16, pf_depth = 16, pf_bigEndian = False, pf_trueColor = True,
     pf_redMax = 31, pf_greenMax = 63, pf_blueMax = 31, pf_redShift = 11, pf_greenShift = 5, pf_blueShift = 0\<rparr>"
  "packet_format (buildSetPixelFormat 32) = \<lparr>pf_bitsPerPixel = 32, pf_depth = 24, pf_bigEndian = False, pf_trueColor = True,
     pf_redMax = 255, pf_greenMax = 255, pf_blueMax = 255, pf_redShift = 16, pf_greenShift = 8, pf_blueShift = 0\<rparr>"
  by (simp_all add: buildSetPixelFormat_def packet_format_def)

text \<open>The pixel value that stands for a colour, as the standard composes it (RFC 6143, 7.4).\<close>

definition wire_colour :: "pixel_format \<Rightarrow> u16 \<Rightarrow> u16 \<Rightarrow> u16 \<Rightarrow> u32" where
  "wire_colour f r g b = push_bit (unat (pf_redShift f)) (ucast r) OR
     push_bit (unat (pf_greenShift f)) (ucast g) OR push_bit (unat (pf_blueShift f)) (ucast b)"

lemma le_mask_take:
  assumes "(r :: u16) \<le> mask k"
  shows "take_bit k r = r"
proof -
  have "unat r \<le> unat (mask k :: u16)" using assms by (simp add: word_le_nat_alt)
  also have "(mask k :: u16) = of_nat (mask k)" by (simp only: of_nat_mask_eq)
  also have "unat (of_nat (mask k) :: u16) \<le> mask k" by (simp only: unat_of_nat mod_less_eq_dividend)
  also have "mask k < (2 :: nat) ^ k" by (simp add: mask_eq_exp_minus_1)
  finally have "take_bit k (unat r) = unat r" by (simp add: take_bit_nat_eq_self_iff)
  then show ?thesis by (metis unsigned_take_bit_eq unsigned_word_eqI)
qed

lemma le_mask_bit: "(r :: u16) \<le> mask k \<Longrightarrow> bit r i \<Longrightarrow> i < k"
  using le_mask_take [of r k] bit_take_bit_iff [of k r i] by simp

lemma wire_components:
  fixes r g b :: u16
  assumes "r \<le> mask kr" "g \<le> mask kg" "b \<le> mask kb"
    and "unat bs = 0" "unat gs = kb" "unat rs = kb + kg" "kr + kg + kb \<le> 24"
  defines "v \<equiv> push_bit (unat rs) (ucast r) OR push_bit (unat gs) (ucast g) OR push_bit (unat bs) (ucast b) :: u32"
  shows "component v rs (mask kr) = ucast r" "component v gs (mask kg) = ucast g" "component v bs (mask kb) = ucast b"
proof -
  note r = le_mask_bit [OF assms(1)] and g = le_mask_bit [OF assms(2)] and b = le_mask_bit [OF assms(3)]
  show "component v rs (mask kr) = ucast r"
  proof (rule bit_word_eqI)
    fix n :: nat
    assume "n < LENGTH(32)"
    then show "bit (component v rs (mask kr)) n = bit (ucast r :: u32) n"
      using assms(4-7) r [of n] g [of "kg + n"] b [of "kb + kg + n"]
      by (simp add: v_def component_def bit_simps) (auto dest: bit_imp_le_length)
  qed
  show "component v gs (mask kg) = ucast g"
  proof (rule bit_word_eqI)
    fix n :: nat
    assume "n < LENGTH(32)"
    then show "bit (component v gs (mask kg)) n = bit (ucast g :: u32) n"
      using assms(4-7) g [of n] b [of "kb + n"]
      by (simp add: v_def component_def bit_simps) (auto dest: bit_imp_le_length)
  qed
  show "component v bs (mask kb) = ucast b"
  proof (rule bit_word_eqI)
    fix n :: nat
    assume "n < LENGTH(32)"
    then show "bit (component v bs (mask kb)) n = bit (ucast b :: u32) n"
      using assms(4-7) b [of n]
      by (simp add: v_def component_def bit_simps) (auto dest: bit_imp_le_length)
  qed
qed

lemma scale_byte: "r \<le> mx \<Longrightarrow> ucast (scale (ucast r) mx) = (of_nat (unat r * 255 div unat mx) :: u8)"
proof -
  assume "r \<le> mx"
  have lt: "unat r < 2 ^ LENGTH(16)" by (rule unsigned_less)
  have u: "unat (ucast r :: u32) = unat r" "unat (ucast mx :: u32) = unat mx"
    by (simp_all add: unsigned_ucast_eq take_bit_nat_eq_self)
  then have "unat (ucast r * 255 :: u32) = unat r * 255"
    using lt by (simp add: unat_word_ariths)
  then have "unat (scale (ucast r) mx) = unat r * 255 div unat mx"
    by (simp add: scale_def unat_div u)
  then have "of_nat (unat (scale (ucast r) mx)) = (of_nat (unat r * 255 div unat mx) :: u8)" by (rule arg_cong)
  then show ?thesis by (simp only: of_nat_unat)
qed

lemma packed_colours:
  assumes "validPixelFormat f" "pf_redMax f = mask kr" "pf_greenMax f = mask kg" "pf_blueMax f = mask kb"
    and "unat (pf_blueShift f) = 0" "unat (pf_greenShift f) = kb" "unat (pf_redShift f) = kb + kg"
    and "kr + kg + kb \<le> 24" and "r \<le> pf_redMax f" "g \<le> pf_greenMax f" "b \<le> pf_blueMax f"
  shows "colour f (wire_colour f r g b) =
    [of_nat (unat r * 255 div unat (pf_redMax f)), of_nat (unat g * 255 div unat (pf_greenMax f)),
     of_nat (unat b * 255 div unat (pf_blueMax f)), 255]"
  using wire_components [of r kr g kg b kb "pf_blueShift f" "pf_greenShift f" "pf_redShift f"] assms
  by (simp add: colour_def wire_colour_def scale_byte)

text \<open>
  C27. The colours of the desktop survive the pixel format the client asks for. For all settings and
  desktops: the depth is 16 when asked for, 8 when asked for or chosen for speed or a desktop over 4
  megapixels, 32 otherwise, and 16 in place of 8 for a server of RFB 3.3; the request is a 20-byte
  message describing a valid format whose blue, green and red lie next to each other from bit 0 on
  and fill 8, 16 or 24 bits; and every colour the format can name, composed as the standard says, in
  full or compact pixels, decodes to that colour scaled to 255.
\<close>

theorem requested_colours_survive:
  "let depth = effectiveTrueColorDepth requestedDepth qualityPreset desktopPixels minor;
       packet = buildSetPixelFormat depth; f = packet_format packet;
       small = (requestedDepth = ''8'' \<or> requestedDepth \<noteq> ''16'' \<and> requestedDepth \<noteq> ''32'' \<and>
          qualityPreset \<noteq> ''quality'' \<and> (qualityPreset = ''speed'' \<or> unat desktopPixels > 4194304))
   in depth = (if requestedDepth = ''16'' \<or> small \<and> minor \<le> 3 then 16 else if small then 8 else 32) \<and>
      length packet = 20 \<and> validPixelFormat f \<and> unat (pf_bitsPerPixel f) = nat depth \<and>
      unat (pf_blueShift f) = 0 \<and> unat (pf_greenShift f) = blueEnd f \<and> unat (pf_redShift f) = greenEnd f \<and>
      redEnd f = min 24 (nat depth) \<and> compactPixelBytes f = redEnd f div 8 \<and>
      (\<forall>r g b rest. r \<le> pf_redMax f \<and> g \<le> pf_greenMax f \<and> b \<le> pf_blueMax f \<longrightarrow>
         (let sent = Some [of_nat (unat r * 255 div unat (pf_redMax f)), of_nat (unat g * 255 div unat (pf_greenMax f)),
                of_nat (unat b * 255 div unat (pf_blueMax f)), 255]
          in decodePixel f (Some (sent_pixel f (wire_colour f r g b) @ rest)) False = sent \<and>
             decodePixel f (Some (sent_cpixel f (wire_colour f r g b) @ rest)) True = sent))"
proof -
  have v: "valueBits 7 = 3" "valueBits 3 = 2" "valueBits 31 = 5" "valueBits 63 = 6" "valueBits 255 = 8"
    by (simp_all add: valueBits.simps)
  have m: "(7 :: u16) = mask 3" "(3 :: u16) = mask 2" "(31 :: u16) = mask 5" "(63 :: u16) = mask 6"
      "(255 :: u16) = mask 8"
    by (simp_all add: mask_eq_exp_minus_1)
  define small where "small \<longleftrightarrow> (requestedDepth = ''8'' \<or> requestedDepth \<noteq> ''16'' \<and> requestedDepth \<noteq> ''32'' \<and>
          qualityPreset \<noteq> ''quality'' \<and> (qualityPreset = ''speed'' \<or> unat desktopPixels > 4194304))"
  define depth where "depth = effectiveTrueColorDepth requestedDepth qualityPreset desktopPixels minor"
  have depth: "depth = (if requestedDepth = ''16'' \<or> small \<and> minor \<le> 3 then 16 else if small then 8 else 32)"
    by (simp add: depth_def effectiveTrueColorDepth_def small_def Let_def word_less_nat_alt)
  define f where "f = packet_format (buildSetPixelFormat depth)"
  have cases: "depth = 8 \<or> depth = 16 \<or> depth = 32" using depth by (simp split: if_splits)
  then have format: "length (buildSetPixelFormat depth) = 20 \<and> validPixelFormat f \<and>
      unat (pf_bitsPerPixel f) = nat depth \<and>
      unat (pf_blueShift f) = 0 \<and> unat (pf_greenShift f) = blueEnd f \<and> unat (pf_redShift f) = greenEnd f \<and>
      redEnd f = min 24 (nat depth) \<and> compactPixelBytes f = redEnd f div 8"
    by (elim disjE; simp add: f_def requested_formats)
      (simp_all add: buildSetPixelFormat_def validPixelFormat_def compactPixelBytes_def redEnd_def
        greenEnd_def blueEnd_def v)
  have packed: "colour f (wire_colour f r g b) =
      [of_nat (unat r * 255 div unat (pf_redMax f)), of_nat (unat g * 255 div unat (pf_greenMax f)),
       of_nat (unat b * 255 div unat (pf_blueMax f)), 255]"
    if "r \<le> pf_redMax f" "g \<le> pf_greenMax f" "b \<le> pf_blueMax f" for r g b
  proof -
    have k: "pf_redMax f = mask (valueBits (pf_redMax f))" "pf_greenMax f = mask (valueBits (pf_greenMax f))"
      "pf_blueMax f = mask (valueBits (pf_blueMax f))"
      "valueBits (pf_redMax f) + valueBits (pf_greenMax f) + valueBits (pf_blueMax f) \<le> 24"
      using cases
      by (elim disjE; simp add: f_def requested_formats v; simp add: m)+
    show ?thesis
      using format that by (intro packed_colours [OF _ k(1-3)] k(4))
        (auto simp: redEnd_def greenEnd_def blueEnd_def)
  qed
  show ?thesis
    unfolding Let_def depth_def [symmetric] f_def [symmetric] small_def [symmetric]
    using depth format packed sent_colour [of f] by simp
qed

lemma requested_colours_survive_witness:
  "decodePixel (packet_format (buildSetPixelFormat 16))
     (Some (sent_pixel (packet_format (buildSetPixelFormat 16))
        (wire_colour (packet_format (buildSetPixelFormat 16)) 31 1 0) @ [])) False = Some [255, 4, 0, 255]"
proof -
  have d: "effectiveTrueColorDepth ''16'' ''quality'' 0 8 = 16" by (simp add: effectiveTrueColorDepth_def)
  have m: "(31 :: u16) \<le> pf_redMax (packet_format (buildSetPixelFormat 16)) \<and>
      (1 :: u16) \<le> pf_greenMax (packet_format (buildSetPixelFormat 16)) \<and>
      (0 :: u16) \<le> pf_blueMax (packet_format (buildSetPixelFormat 16))"
    by (simp add: requested_formats)
  note t = requested_colours_survive [of "''16''" "''quality''" 0 8, unfolded Let_def d]
  from t [THEN conjunct2, THEN conjunct2, THEN conjunct2, THEN conjunct2, THEN conjunct2, THEN conjunct2,
      THEN conjunct2, THEN conjunct2, THEN conjunct2, rule_format, OF m, of "[]"]
  show ?thesis by (simp add: requested_formats)
qed

end
