(* ===== verification/Text_Numbers.thy ===== *)
theory Text_Numbers
  imports Prelude
begin

text \<open>
  Numbers as text: what \<open>std::to_string\<close> writes, the digits it is made of, and how a number is read
  back. The components that build identities out of length-prefixed fields and the parsers of ports,
  octets and scopes share these facts.
\<close>

section \<open>Decimal\<close>

text \<open>\<open>std::to_string\<close> of an unsigned number.\<close>

fun decimal :: "nat \<Rightarrow> string" where
  "decimal n = (if n < 10 then [char_of (48 + n)] else decimal (n div 10) @ [char_of (48 + n mod 10)])"

declare decimal.simps [simp del]

definition undecimal :: "string \<Rightarrow> nat" where
  "undecimal s = foldl (\<lambda>n c. 10 * n + (code c - 48)) 0 s"

definition digit_char :: "char \<Rightarrow> bool" where
  "digit_char c \<longleftrightarrow> 48 \<le> code c \<and> code c \<le> 57"

lemma undecimal_decimal: "undecimal (decimal n) = n"
proof (induction n rule: decimal.induct)
  case (1 n)
  show ?case
  proof (cases "n < 10")
    case True
    then show ?thesis by (simp add: undecimal_def decimal.simps [of n] code_char_of)
  next
    case False
    have digit: "code (char_of (48 + n mod 10)) = 48 + n mod 10" by (rule code_char_of) simp
    have "undecimal (decimal n) = 10 * undecimal (decimal (n div 10)) + (code (char_of (48 + n mod 10)) - 48)"
      using False unfolding undecimal_def decimal.simps [of n] by simp
    also have "\<dots> = 10 * (n div 10) + n mod 10"
      unfolding 1 [OF False] digit by simp
    finally show ?thesis by simp
  qed
qed

lemma decimal_inject: "decimal m = decimal n \<longleftrightarrow> m = n"
  by (metis undecimal_decimal)

lemma decimal_digits: "list_all digit_char (decimal n)"
proof (induction n rule: decimal.induct)
  case (1 n)
  have digit: "m < 10 \<Longrightarrow> digit_char (char_of (48 + m))" for m :: nat
    by (simp add: digit_char_def code_char_of)
  show ?case
  proof (cases "n < 10")
    case True
    then show ?thesis by (simp add: decimal.simps [of n] digit)
  next
    case False
    then show ?thesis using 1 [OF False] digit [of "n mod 10"] unfolding decimal.simps [of n] by simp
  qed
qed

lemma decimal_nonempty [simp]: "decimal n \<noteq> []"
  by (simp add: decimal.simps [of n])

lemma decimal_length: "n < 10 ^ k \<Longrightarrow> 0 < k \<Longrightarrow> length (decimal n) \<le> k"
proof (induction n arbitrary: k rule: decimal.induct)
  case (1 n)
  show ?case
  proof (cases "n < 10")
    case True
    then show ?thesis using "1.prems" by (simp add: decimal.simps [of n])
  next
    case False
    obtain j where k: "k = Suc j" using "1.prems" by (cases k) auto
    have "0 < j" "n div 10 < 10 ^ j" using False "1.prems" k by (cases j; simp)+
    then show ?thesis using "1.IH" [OF False, of j] False k by (simp add: decimal.simps [of n])
  qed
qed

lemma decimal_no_leading_zero: "0 < n \<Longrightarrow> hd (decimal n) \<noteq> CHR ''0''"
proof (induction n rule: decimal.induct)
  case (1 n)
  have eq: "char_of (48 + n) = CHR ''0'' \<Longrightarrow> n < 10 \<Longrightarrow> n = 0"
    using code_char_of [of "48 + n"] by (simp add: code_def)
  show ?case
  proof (cases "n < 10")
    case True
    then show ?thesis using eq "1.prems" by (auto simp: decimal.simps [of n])
  next
    case False
    then show ?thesis using "1.IH" [OF False] by (simp add: decimal.simps [of n])
  qed
qed

text \<open>Digits without a leading zero are the text of their value.\<close>

lemma undecimal_snoc: "undecimal (s @ [c]) = 10 * undecimal s + (code c - 48)"
  by (simp add: undecimal_def)

lemma undecimal_pos: "list_all digit_char s \<Longrightarrow> s \<noteq> [] \<Longrightarrow> hd s \<noteq> CHR ''0'' \<Longrightarrow> 0 < undecimal s"
proof (induction s rule: rev_induct)
  case (snoc c s)
  show ?case
  proof (cases s)
    case Nil
    have "code CHR ''0'' = 48" by (simp add: code_def)
    then have "code c \<noteq> 48" using snoc.prems Nil by (metis append_Nil code_inject list.sel(1))
    then show ?thesis using snoc.prems Nil by (simp add: undecimal_def digit_char_def)
  next
    case (Cons d t)
    then show ?thesis using snoc undecimal_snoc [of s c] by simp
  qed
qed simp

lemma decimal_undecimal:
  "list_all digit_char s \<Longrightarrow> s \<noteq> [] \<Longrightarrow> \<not> (length s > 1 \<and> hd s = CHR ''0'') \<Longrightarrow> decimal (undecimal s) = s"
proof (induction s rule: rev_induct)
  case (snoc c s)
  have c: "code c - 48 < 10" "char_of (48 + (code c - 48)) = c"
    using snoc.prems by (auto simp: digit_char_def code_def)
  show ?case
  proof (cases "s = []")
    case True
    then show ?thesis using c by (simp add: undecimal_def decimal.simps [of "code c - 48"])
  next
    case False
    then have pos: "0 < undecimal s" using snoc.prems undecimal_pos [of s] by (cases s) auto
    have "decimal (undecimal s) = s" using snoc False by (cases s) auto
    moreover have "undecimal (s @ [c]) div 10 = undecimal s" "undecimal (s @ [c]) mod 10 = code c - 48" "\<not> undecimal (s @ [c]) < 10"
      using c pos by (auto simp: undecimal_snoc)
    ultimately show ?thesis using c by (simp add: decimal.simps [of "undecimal (s @ [c])"])
  qed
qed simp

text \<open>A run of digits is read up to the first character that is no digit.\<close>

lemma digits_before:
  assumes "list_all digit_char p" "list_all digit_char q" "\<not> digit_char d" "p @ d # x = q @ d # y"
  shows "p = q \<and> x = y"
  using assms
proof (induction p arbitrary: q)
  case Nil
  then show ?case by (cases q) auto
next
  case (Cons c p)
  then show ?case by (cases q) auto
qed

text \<open>A field preceded by its length and a colon can be cut off what follows in one way only.\<close>

lemma length_prefix_inject:
  "decimal (length v) @ '':'' @ v @ x = decimal (length w) @ '':'' @ w @ y \<longleftrightarrow> v = w \<and> x = y"
proof -
  have "\<not> digit_char CHR '':''" by (simp add: digit_char_def code_def)
  then show ?thesis
    using digits_before [OF decimal_digits decimal_digits, of "CHR '':''" "length v" "v @ x" "length w" "w @ y"]
    by (auto simp: decimal_inject)
qed

end
