(* ===== verification/Rdp_Gateway.thy ===== *)
theory Rdp_Gateway
  imports Text_Numbers "HOL-Library.Sublist"
begin

text \<open>
  The route and certificate policy of the RDP client (\<open>rdp/rdp_gateway_policy.h\<close> and
  \<open>rdp/rdp_certificate_policy.h\<close>): what a preflight result means for the real connection, the
  identity of a route, certificate pins, and when credentials may be sent to a gateway. A
  \<open>std::string\<close> is a list of 8-bit characters; the system clock is an argument of every function that
  reads it; error numbers are those of the platform's C library.
\<close>

section \<open>Fingerprints\<close>

definition c_isspace :: "char \<Rightarrow> bool" where
  "c_isspace c \<longleftrightarrow> code c = 32 \<or> 9 \<le> code c \<and> code c \<le> 13"

definition c_isxdigit :: "char \<Rightarrow> bool" where
  "c_isxdigit c \<longleftrightarrow> 48 \<le> code c \<and> code c \<le> 57 \<or> 65 \<le> code c \<and> code c \<le> 70 \<or> 97 \<le> code c \<and> code c \<le> 102"

definition c_tolower :: "char \<Rightarrow> char" where
  "c_tolower c = (if 65 \<le> code c \<and> code c \<le> 90 then char_of (code c + 32) else c)"

definition trimAscii :: "string \<Rightarrow> string" where
  "trimAscii v = rev (dropWhile c_isspace (rev (dropWhile c_isspace v)))"

definition toLowerAscii :: "string \<Rightarrow> string" where
  "toLowerAscii v = map c_tolower v"

definition strip_prefix :: "string \<Rightarrow> string \<Rightarrow> string" where
  "strip_prefix p v = (if take (length p) (toLowerAscii v) = p then drop (length p) v else v)"

fun hex_digits :: "string \<Rightarrow> string option" where
  "hex_digits [] = Some []"
| "hex_digits (c # cs) =
     (if c_isxdigit c then map_option (Cons (c_tolower c)) (hex_digits cs)
      else if c = CHR '':'' \<or> c = CHR ''-'' \<or> c_isspace c then hex_digits cs
      else None)"

definition NormalizeFingerprint :: "string \<Rightarrow> string" where
  "NormalizeFingerprint v =
     (case hex_digits (strip_prefix ''sha256:'' (strip_prefix ''fingerprint:'' (trimAscii v))) of
        None \<Rightarrow> []
      | Some out \<Rightarrow> if length out = 64 then out else [])"

definition FingerprintMatches :: "string \<Rightarrow> string \<Rightarrow> bool" where
  "FingerprintMatches expected actual \<longleftrightarrow>
     NormalizeFingerprint expected \<noteq> [] \<and> NormalizeFingerprint expected = NormalizeFingerprint actual"

definition ToFreeRdpAcceptedFingerprint :: "string \<Rightarrow> string" where
  "ToFreeRdpAcceptedFingerprint v =
     (if NormalizeFingerprint v = [] then [] else ''sha256:'' @ NormalizeFingerprint v)"

section \<open>Routes\<close>

datatype endpoint_mode =
  DirectRdp | TransparentTcpRdp | MicrosoftRdGateway | VendorHttpsBastion | AzureBastion | UnknownGateway

datatype gateway_transport = Auto | Http | Rpc | Websocket | NoWebsockets

record transport_flags =
  tf_rpc :: bool
  tf_http :: bool
  tf_websockets :: bool

record endpoint_route =
  er_endpointMode :: endpoint_mode
  er_targetHost :: string
  er_targetPort :: int
  er_targetServerName :: string
  er_gatewayHost :: string
  er_gatewayPort :: int
  er_gatewayServerName :: string
  er_gatewayTransport :: gateway_transport

definition default_route :: endpoint_route where
  "default_route = \<lparr>er_endpointMode = DirectRdp, er_targetHost = [], er_targetPort = 3389, er_targetServerName = [],
     er_gatewayHost = [], er_gatewayPort = 443, er_gatewayServerName = [], er_gatewayTransport = Auto\<rparr>"

fun endpointModeName :: "endpoint_mode \<Rightarrow> string" where
  "endpointModeName DirectRdp = ''direct_rdp''"
| "endpointModeName TransparentTcpRdp = ''transparent_tcp_rdp''"
| "endpointModeName MicrosoftRdGateway = ''microsoft_rd_gateway''"
| "endpointModeName VendorHttpsBastion = ''vendor_https_bastion''"
| "endpointModeName AzureBastion = ''azure_bastion''"
| "endpointModeName UnknownGateway = ''unknown_gateway''"

fun gatewayTransportName :: "gateway_transport \<Rightarrow> string" where
  "gatewayTransportName Auto = ''auto''"
| "gatewayTransportName Http = ''http''"
| "gatewayTransportName Rpc = ''rpc''"
| "gatewayTransportName Websocket = ''websocket''"
| "gatewayTransportName NoWebsockets = ''no-websockets''"

definition parseEndpointMode :: "string \<Rightarrow> endpoint_mode option" where
  "parseEndpointMode v =
     (if v = [] \<or> v = ''direct_rdp'' then Some DirectRdp
      else if v = ''transparent_tcp_rdp'' then Some TransparentTcpRdp
      else if v = ''microsoft_rd_gateway'' then Some MicrosoftRdGateway
      else if v = ''vendor_https_bastion'' then Some VendorHttpsBastion
      else if v = ''azure_bastion'' then Some AzureBastion
      else if v = ''unknown_gateway'' then Some UnknownGateway
      else None)"

definition parseGatewayTransport :: "string \<Rightarrow> gateway_transport option" where
  "parseGatewayTransport v =
     (if v = [] \<or> v = ''auto'' then Some Auto
      else if v = ''http'' then Some Http
      else if v = ''rpc'' then Some Rpc
      else if v = ''websocket'' then Some Websocket
      else if v = ''no-websockets'' then Some NoWebsockets
      else None)"

fun transportFlags :: "gateway_transport \<Rightarrow> transport_flags" where
  "transportFlags Rpc = \<lparr>tf_rpc = True, tf_http = False, tf_websockets = False\<rparr>"
| "transportFlags Http = \<lparr>tf_rpc = False, tf_http = True, tf_websockets = True\<rparr>"
| "transportFlags Websocket = \<lparr>tf_rpc = False, tf_http = True, tf_websockets = True\<rparr>"
| "transportFlags NoWebsockets = \<lparr>tf_rpc = False, tf_http = True, tf_websockets = False\<rparr>"
| "transportFlags Auto = \<lparr>tf_rpc = True, tf_http = True, tf_websockets = True\<rparr>"

text \<open>\<open>std::to_string\<close> of a signed number.\<close>

definition to_string :: "int \<Rightarrow> string" where
  "to_string i = (if i < 0 then ''-'' @ decimal (nat (- i)) else decimal (nat i))"

definition identity_field :: "string \<Rightarrow> string" where
  "identity_field v = decimal (length v) @ '':'' @ v"

definition targetName :: "endpoint_route \<Rightarrow> string" where
  "targetName r = (if er_targetServerName r = [] then er_targetHost r else er_targetServerName r)"

definition gatewayName :: "endpoint_route \<Rightarrow> string" where
  "gatewayName r = (if er_gatewayServerName r = [] then er_gatewayHost r else er_gatewayServerName r)"

definition routeIdentity :: "endpoint_route \<Rightarrow> string" where
  "routeIdentity r = ''rdp-route-v2|'' @ identity_field (endpointModeName (er_endpointMode r)) @
     identity_field (er_targetHost r) @ identity_field (to_string (er_targetPort r)) @ identity_field (targetName r) @
     identity_field (er_gatewayHost r) @ identity_field (to_string (er_gatewayPort r)) @
     identity_field (gatewayName r) @ identity_field (gatewayTransportName (er_gatewayTransport r))"

text \<open>The fields of an adapter configuration that \<open>normalizeRouteConfig\<close> sets.\<close>

record route_config =
  rc_host :: string
  rc_port :: int
  rc_targetServerName :: string
  rc_gatewayHost :: string
  rc_gatewayPort :: int
  rc_rdpGatewayServerName :: string
  rc_rdpEndpointMode :: string
  rc_rdpGatewayTransport :: string

definition normalizeRouteConfig :: "endpoint_route \<Rightarrow> ('a route_config_scheme) \<Rightarrow> ('a route_config_scheme)" where
  "normalizeRouteConfig r c = c\<lparr>rc_host := er_targetHost r, rc_port := er_targetPort r,
     rc_targetServerName := er_targetServerName r, rc_gatewayHost := er_gatewayHost r, rc_gatewayPort := er_gatewayPort r,
     rc_rdpGatewayServerName := er_gatewayServerName r, rc_rdpEndpointMode := endpointModeName (er_endpointMode r),
     rc_rdpGatewayTransport := gatewayTransportName (er_gatewayTransport r)\<rparr>"

definition isGatewayRoute :: "endpoint_mode \<Rightarrow> bool" where
  "isGatewayRoute m \<longleftrightarrow> m = MicrosoftRdGateway \<or> m = VendorHttpsBastion \<or> m = AzureBastion \<or> m = UnknownGateway"

definition restrictedAdminGatewayRouteIsSupported :: "endpoint_mode \<Rightarrow> bool \<Rightarrow> bool" where
  "restrictedAdminGatewayRouteIsSupported m targetRestrictedAdmin \<longleftrightarrow> \<not> targetRestrictedAdmin \<or> m \<noteq> MicrosoftRdGateway"

definition targetInterfaceScopeIsAllowed :: "endpoint_mode \<Rightarrow> bool \<Rightarrow> bool" where
  "targetInterfaceScopeIsAllowed m targetHasInterfaceScope \<longleftrightarrow> \<not> targetHasInterfaceScope \<or> m \<noteq> MicrosoftRdGateway"

definition isSupportedRdpRoute :: "endpoint_mode \<Rightarrow> bool" where
  "isSupportedRdpRoute m \<longleftrightarrow> m = DirectRdp \<or> m = TransparentTcpRdp \<or> m = MicrosoftRdGateway"

section \<open>Certificates\<close>

record certificate_record =
  cr_present :: bool
  cr_rootTrusted :: bool
  cr_hostMismatch :: bool
  cr_flags :: int
  cr_host :: string
  cr_port :: int
  cr_stage :: string
  cr_serverName :: string
  cr_commonName :: string
  cr_subject :: string
  cr_issuer :: string
  cr_fingerprintSha256 :: string
  cr_notBeforeMs :: int
  cr_notAfterMs :: int
  cr_riskFlags :: "string list"

definition default_certificate :: certificate_record where
  "default_certificate = \<lparr>cr_present = False, cr_rootTrusted = False, cr_hostMismatch = False, cr_flags = 0,
     cr_host = [], cr_port = 0, cr_stage = ''target'', cr_serverName = [], cr_commonName = [], cr_subject = [],
     cr_issuer = [], cr_fingerprintSha256 = [], cr_notBeforeMs = 0, cr_notAfterMs = 0, cr_riskFlags = []\<rparr>"

text \<open>
  The request carries credentials. \<open>pq_cancelled\<close> is the cancellation callback, with \<open>None\<close> for the null
  function.
\<close>

record preflight_request =
  pq_route :: endpoint_route
  pq_username :: string
  pq_password :: string
  pq_domain :: string
  pq_targetRestrictedAdmin :: bool
  pq_expectedTargetFingerprintSha256 :: string
  pq_expectedGatewayFingerprintSha256 :: string
  pq_targetAllowUntrustedRoot :: bool
  pq_targetAllowHostMismatch :: bool
  pq_targetAllowTimeAnomaly :: bool
  pq_gatewayAllowUntrustedRoot :: bool
  pq_gatewayAllowHostMismatch :: bool
  pq_gatewayAllowTimeAnomaly :: bool
  pq_generation :: "64 word"
  pq_requestId :: string
  pq_cancelled :: "(unit \<Rightarrow> bool) option"

text \<open>
  \<open>secureClear\<close> returns the empty string and the bytes it leaves in the buffer of the old one.
\<close>

definition secureClear :: "string \<Rightarrow> string \<times> string" where
  "secureClear v = ([], replicate (length v) (CHR 0x00))"

definition clearCredentialMaterial :: "preflight_request \<Rightarrow> preflight_request \<times> string list" where
  "clearCredentialMaterial q =
     (let (user, b1) = secureClear (pq_username q);
          (pass, b2) = secureClear (pq_password q);
          (dom, b3) = secureClear (pq_domain q)
      in (q\<lparr>pq_username := user, pq_password := pass, pq_domain := dom, pq_cancelled := None\<rparr>, [b1, b2, b3]))"

text \<open>
  The move constructor: the new request and what is left in the old one. The members that are really moved
  have any value afterwards, given here by \<open>left\<close>; the credentials are copied and then cleared.
\<close>

definition move_request :: "preflight_request \<Rightarrow> preflight_request \<Rightarrow> preflight_request \<times> preflight_request \<times> string list" where
  "move_request left other = (other, clearCredentialMaterial (other\<lparr>pq_route := pq_route left,
     pq_expectedTargetFingerprintSha256 := pq_expectedTargetFingerprintSha256 left,
     pq_expectedGatewayFingerprintSha256 := pq_expectedGatewayFingerprintSha256 left,
     pq_requestId := pq_requestId left, pq_cancelled := pq_cancelled left\<rparr>))"

definition stageForCertificate :: "certificate_record \<Rightarrow> string" where
  "stageForCertificate c = (if cr_stage c = [] then ''target'' else cr_stage c)"

definition fingerprintMatchesStage :: "certificate_record \<Rightarrow> string \<Rightarrow> bool" where
  "fingerprintMatchesStage c expected \<longleftrightarrow> cr_present c \<and> FingerprintMatches expected (cr_fingerprintSha256 c)"

definition trustAllowsStage :: "int \<Rightarrow> certificate_record \<Rightarrow> string \<Rightarrow> bool \<Rightarrow> bool \<Rightarrow> bool \<Rightarrow> bool" where
  "trustAllowsStage nowMs c expected allowUntrustedRoot allowHostMismatch allowTimeAnomaly =
     (if \<not> fingerprintMatchesStage c expected then False
      else if \<not> cr_rootTrusted c \<and> \<not> allowUntrustedRoot then False
      else if cr_hostMismatch c \<and> \<not> allowHostMismatch then False
      else if cr_notBeforeMs c \<le> 0 \<or> cr_notAfterMs c \<le> cr_notBeforeMs c then allowTimeAnomaly
      else if nowMs < cr_notBeforeMs c \<or> nowMs > cr_notAfterMs c then allowTimeAnomaly
      else True)"

text \<open>Two reads of the clock: its own and the one of \<open>trustAllowsStage\<close>.\<close>

definition gatewayCertificateAllowsCredentialUse :: "int \<Rightarrow> int \<Rightarrow> preflight_request \<Rightarrow> certificate_record \<Rightarrow> bool" where
  "gatewayCertificateAllowsCredentialUse nowMs laterMs q gateway =
     (if \<not> cr_present gateway then False
      else let timeValid = (cr_notBeforeMs gateway > 0 \<and> cr_notAfterMs gateway > cr_notBeforeMs gateway);
               matches = fingerprintMatchesStage gateway (pq_expectedGatewayFingerprintSha256 q)
           in if \<not> timeValid \<and> \<not> (pq_gatewayAllowTimeAnomaly q \<and> matches) then False
              else if timeValid \<and> (nowMs < cr_notBeforeMs gateway \<or> nowMs > cr_notAfterMs gateway) \<and>
                      \<not> (pq_gatewayAllowTimeAnomaly q \<and> matches) then False
              else if \<not> matches then False
              else if cr_rootTrusted gateway \<and> \<not> cr_hostMismatch gateway then True
              else trustAllowsStage laterMs gateway (pq_expectedGatewayFingerprintSha256 q)
                (pq_gatewayAllowUntrustedRoot q) (pq_gatewayAllowHostMismatch q) (pq_gatewayAllowTimeAnomaly q))"

definition gatewayTrustAllowsRoute ::
    "int \<Rightarrow> int \<Rightarrow> preflight_request \<Rightarrow> certificate_record \<Rightarrow> certificate_record \<Rightarrow> bool" where
  "gatewayTrustAllowsRoute nowMs laterMs q gateway target \<longleftrightarrow>
     trustAllowsStage nowMs gateway (pq_expectedGatewayFingerprintSha256 q)
       (pq_gatewayAllowUntrustedRoot q) (pq_gatewayAllowHostMismatch q) (pq_gatewayAllowTimeAnomaly q) \<and>
     trustAllowsStage laterMs target (pq_expectedTargetFingerprintSha256 q)
       (pq_targetAllowUntrustedRoot q) (pq_targetAllowHostMismatch q) (pq_targetAllowTimeAnomaly q)"

section \<open>Preflight results\<close>

definition kCompleted :: string where "kCompleted = ''completed''"
definition kInconclusive :: string where "kInconclusive = ''inconclusive''"
definition kUnavailable :: string where "kUnavailable = ''unavailable''"
definition kTransportFailed :: string where "kTransportFailed = ''transportFailed''"

definition kRiskTlsProbeReset :: string where "kRiskTlsProbeReset = ''TLS_PROBE_RESET''"
definition kRiskStandardRdpSecurity :: string where "kRiskStandardRdpSecurity = ''STANDARD_RDP_SECURITY''"
definition kRiskCertificateMetadataUnavailable :: string where
  "kRiskCertificateMetadataUnavailable = ''CERTIFICATE_METADATA_UNAVAILABLE''"
definition kRiskCertificateTimeInvalid :: string where "kRiskCertificateTimeInvalid = ''CERTIFICATE_TIME_INVALID''"
definition kRiskUnknownGatewayProtocol :: string where "kRiskUnknownGatewayProtocol = ''UNKNOWN_GATEWAY_PROTOCOL''"

definition ETIMEDOUT :: nat where "ETIMEDOUT = 110"
definition EAGAIN :: nat where "EAGAIN = 11"
definition EWOULDBLOCK :: nat where "EWOULDBLOCK = 11"
definition ECONNRESET :: nat where "ECONNRESET = 104"

definition addUniqueRiskFlag :: "string list \<Rightarrow> string \<Rightarrow> string list" where
  "addUniqueRiskFlag flags flag = (if flag = [] \<or> flag \<in> set flags then flags else flags @ [flag])"

definition mergeRiskFlags :: "string list \<Rightarrow> string list \<Rightarrow> string list" where
  "mergeRiskFlags destination source = foldl addUniqueRiskFlag destination source"

definition hasRiskFlag :: "string list \<Rightarrow> string \<Rightarrow> bool" where
  "hasRiskFlag flags flag \<longleftrightarrow> flag \<in> set flags"

definition messageContains :: "string \<Rightarrow> string \<Rightarrow> bool" where
  "messageContains message v \<longleftrightarrow> sublist v message"

definition errno_text :: "nat \<Rightarrow> string" where
  "errno_text e = ''errno='' @ decimal e @ '':''"

definition messageDescribesTlsProbeReset :: "string \<Rightarrow> bool" where
  "messageDescribesTlsProbeReset m \<longleftrightarrow>
     messageContains m ''ECONNRESET'' \<or> messageContains m ''Connection reset'' \<or> messageContains m ''connection reset'' \<or>
     messageContains m ''unexpected EOF'' \<or> messageContains m ''unexpected eof'' \<or>
     messageContains m ''ZERO_RETURN'' \<or> messageContains m ''zero_return''"

definition messageDescribesProbeTimeout :: "string \<Rightarrow> bool" where
  "messageDescribesProbeTimeout m \<longleftrightarrow>
     messageContains m ''ETIMEDOUT'' \<or> messageContains m ''Connection timed out'' \<or>
     messageContains m ''connection timed out'' \<or> messageContains m (errno_text ETIMEDOUT) \<or>
     messageContains m (errno_text EAGAIN) \<or> messageContains m (errno_text EWOULDBLOCK)"

text \<open>\<open>ProbeFailureClassification\<close>: the status and the risk flags.\<close>

type_synonym classification = "string \<times> string list"

definition classifyProbeFailure :: "int \<Rightarrow> string \<Rightarrow> classification" where
  "classifyProbeFailure errorCode message =
     (let reset = (messageDescribesTlsProbeReset message \<or> messageContains message (errno_text ECONNRESET));
          timedOut = messageDescribesProbeTimeout message
      in if errorCode \<in> {-11, -31, -12, -32} then (kTransportFailed, [])
         else if errorCode \<in> {-10, -30, -15, -16, -23, -24, -33, -34, -35} then (kUnavailable, [])
         else if errorCode = -18 then (kInconclusive, addUniqueRiskFlag [] kRiskStandardRdpSecurity)
         else if errorCode \<in> {-13, -14} then
           (if timedOut then (kTransportFailed, [])
            else (kInconclusive, if reset then addUniqueRiskFlag [] kRiskTlsProbeReset else []))
         else if errorCode \<in> {-17, -37} then (kInconclusive, addUniqueRiskFlag [] kRiskCertificateMetadataUnavailable)
         else if errorCode \<in> {-19, -20, -21, -22, -25, -36} then
           (let flags = (if reset \<or> errorCode = -22 \<or> errorCode = -36 then addUniqueRiskFlag [] kRiskTlsProbeReset else [])
            in (kInconclusive, if errorCode = -25 then addUniqueRiskFlag flags kRiskCertificateTimeInvalid else flags))
         else if errorCode = -38 then (kInconclusive, addUniqueRiskFlag [] kRiskCertificateMetadataUnavailable)
         else (kUnavailable, []))"

definition transport_codes :: "string list" where
  "transport_codes = [''E-RDP-TARGET-DNS'', ''E-RDP-GATEWAY-DNS'', ''E-RDP-TARGET-TCP'', ''E-RDP-GATEWAY-TCP'']"

definition gateway_protocol_codes :: "string list" where
  "gateway_protocol_codes = [''E-RDP-BASTION-UNSUPPORTED'', ''E-RDP-GATEWAY-AWARE-UNAVAILABLE'']"

definition classifyErrorCode :: "string \<Rightarrow> string \<Rightarrow> classification" where
  "classifyErrorCode errorCode message =
     (let transportFailure = (errorCode \<in> set transport_codes);
          gatewayProtocolUnavailable = (errorCode \<in> set gateway_protocol_codes);
          status = (if transportFailure then kTransportFailed
            else if errorCode = ''E-RDP-GATEWAY-TUNNEL'' \<or> errorCode = ''E-RDP-GATEWAY-AUTH'' then kTransportFailed
            else if errorCode = ''E-RDP-GATEWAY-AUTH-REQUIRED'' then kInconclusive
            else if (errorCode = ''E-RDP-GATEWAY-TLS'' \<or> errorCode = ''E-RDP-TARGET-TLS'') \<and>
                    (messageContains message ''Unable to create FreeRDP'' \<or> messageContains message ''FreeRDP runtime'')
              then kUnavailable
            else if gatewayProtocolUnavailable \<or> errorCode = ''E-RDP-ENDPOINT'' \<or> errorCode = ''E-RDP-GATEWAY-SNI''
              then kUnavailable
            else kInconclusive);
          flags = (if gatewayProtocolUnavailable then addUniqueRiskFlag [] kRiskUnknownGatewayProtocol else [])
      in if \<not> transportFailure \<and> \<not> gatewayProtocolUnavailable \<and>
            errorCode \<noteq> ''E-RDP-GATEWAY-TUNNEL'' \<and> errorCode \<noteq> ''E-RDP-GATEWAY-AUTH'' \<and>
            (messageDescribesTlsProbeReset message \<or> messageContains message ''TLS handshake failed'' \<or>
             messageContains message ''tls handshake failed'')
         then (kInconclusive, addUniqueRiskFlag flags kRiskTlsProbeReset)
         else (status, flags))"

text \<open>The two lists of error codes of \<open>preflightAllowsRealConnection\<close>, in the order of the source.\<close>

definition advisory_codes :: "string list" where
  "advisory_codes = [''E-RDP-TARGET-TLS'', ''E-RDP-GATEWAY-TLS'', ''E-RDP-TARGET-CERT'', ''E-RDP-GATEWAY-CERT'',
     ''E-RDP-CERT'', ''E-RDP-NEGOTIATION'', ''E-RDP-PREFLIGHT-NAPI'', ''E-RDP-PREFLIGHT-EXCEPTION'',
     ''E-RDP-BASTION-UNSUPPORTED'', ''E-RDP-GATEWAY-AWARE-UNAVAILABLE'', ''E-RDP-GATEWAY-AUTH-REQUIRED'']"

definition blocking_codes :: "string list" where
  "blocking_codes = [''E-RDP-TARGET-DNS'', ''E-RDP-GATEWAY-DNS'', ''E-RDP-TARGET-TCP'', ''E-RDP-GATEWAY-TCP'',
     ''E-RDP-TARGET-TIMEOUT'', ''E-RDP-GATEWAY-TUNNEL'', ''E-RDP-GATEWAY-AUTH'', ''E-RDP-ENDPOINT'',
     ''E-RDP-GATEWAY-SNI'', ''E-RDP-ADAPTER'', ''E-RDP-CERT-ROUTE-STALE'', ''E-RDP-FREERDP-NEGOTIATION'']"

definition preflightAllowsRealConnection :: "string \<Rightarrow> string \<Rightarrow> string list \<Rightarrow> bool" where
  "preflightAllowsRealConnection status errorCode riskFlags =
     (if errorCode \<in> set advisory_codes then True
      else if hasRiskFlag riskFlags kRiskTlsProbeReset then True
      else if status = kCompleted \<or> status = kInconclusive then True
      else if status = kTransportFailed then False
      else errorCode \<notin> set blocking_codes)"

section \<open>The negotiated gateway transport\<close>

record preflight_result =
  pr_ok :: bool
  pr_preflightStatus :: string
  pr_riskFlags :: "string list"
  pr_gatewayRiskFlags :: "string list"
  pr_targetRiskFlags :: "string list"
  pr_endpointMode :: endpoint_mode
  pr_routeIdentity :: string
  pr_generation :: "64 word"
  pr_requestId :: string
  pr_stage :: string
  pr_errorCode :: string
  pr_errorMessage :: string
  pr_gatewayTransportRequested :: string
  pr_gatewayTransportNegotiated :: string
  pr_gatewayTransportSelected :: string
  pr_requiresGatewayAuth :: bool
  pr_requiresUserDecision :: bool
  pr_gatewayCertificate :: certificate_record
  pr_targetCertificate :: certificate_record

definition default_result :: preflight_result where
  "default_result = \<lparr>pr_ok = False, pr_preflightStatus = ''unavailable'', pr_riskFlags = [], pr_gatewayRiskFlags = [],
     pr_targetRiskFlags = [], pr_endpointMode = DirectRdp, pr_routeIdentity = [], pr_generation = 0,
     pr_requestId = [], pr_stage = ''endpoint'', pr_errorCode = [], pr_errorMessage = [],
     pr_gatewayTransportRequested = ''auto'', pr_gatewayTransportNegotiated = ''unknown'',
     pr_gatewayTransportSelected = ''auto'', pr_requiresGatewayAuth = False, pr_requiresUserDecision = False,
     pr_gatewayCertificate = default_certificate, pr_targetCertificate = default_certificate\<rparr>"

definition kUnknownGatewayTransport :: string where "kUnknownGatewayTransport = ''unknown''"

definition isKnownNegotiatedGatewayTransport :: "string \<Rightarrow> bool" where
  "isKnownNegotiatedGatewayTransport v \<longleftrightarrow>
     v = kUnknownGatewayTransport \<or> v = ''http'' \<or> v = ''rpc'' \<or> v = ''websocket''"

definition setNegotiatedGatewayTransport :: "preflight_result \<Rightarrow> string \<Rightarrow> bool \<times> preflight_result" where
  "setNegotiatedGatewayTransport r observed =
     (let v = (if observed = [] then kUnknownGatewayTransport else observed)
      in if \<not> isKnownNegotiatedGatewayTransport v
         then (False, r\<lparr>pr_gatewayTransportNegotiated := kUnknownGatewayTransport\<rparr>)
         else (True, r\<lparr>pr_gatewayTransportNegotiated := v\<rparr>))"

definition initializeGatewayTransportResult :: "preflight_result \<Rightarrow> gateway_transport \<Rightarrow> preflight_result" where
  "initializeGatewayTransportResult r requested =
     (let r1 = r\<lparr>pr_gatewayTransportRequested := gatewayTransportName requested\<rparr>;
          r2 = r1\<lparr>pr_gatewayTransportSelected := pr_gatewayTransportRequested r1\<rparr>
      in snd (setNegotiatedGatewayTransport r2 kUnknownGatewayTransport))"

record transport_observation =
  to_gatewayTlsEstablished :: bool
  to_targetTlsEstablished :: bool
  to_targetRdpOverTunnel :: bool
  to_gatewayReceivedRdpX224 :: bool
  to_negotiatedTransport :: string

definition gatewayProtocolEvidenceIsComplete :: "transport_observation \<Rightarrow> bool" where
  "gatewayProtocolEvidenceIsComplete t \<longleftrightarrow>
     to_gatewayTlsEstablished t \<and> to_targetTlsEstablished t \<and> to_targetRdpOverTunnel t \<and>
     \<not> to_gatewayReceivedRdpX224 t \<and> to_negotiatedTransport t \<noteq> kUnknownGatewayTransport \<and>
     isKnownNegotiatedGatewayTransport (to_negotiatedTransport t)"

section \<open>Fingerprints have one normal form\<close>

definition hex_char :: "char \<Rightarrow> bool" where
  "hex_char c \<longleftrightarrow> c_isxdigit c \<and> c_tolower c = c"

lemma hex_char_tolower: "c_isxdigit c \<Longrightarrow> hex_char (c_tolower c)"
  by (auto simp: hex_char_def c_isxdigit_def c_tolower_def code_char_of)

lemma hex_digits_hex: "hex_digits v = Some out \<Longrightarrow> list_all hex_char out"
  by (induction v arbitrary: out) (auto simp: hex_char_tolower split: if_splits)

lemma hex_digits_id: "list_all hex_char v \<Longrightarrow> hex_digits v = Some v"
  by (induction v) (auto simp: hex_char_def)

lemma normalized:
  assumes "NormalizeFingerprint v \<noteq> []"
  shows "length (NormalizeFingerprint v) = 64" "list_all hex_char (NormalizeFingerprint v)"
  using assms hex_digits_hex by (auto simp: NormalizeFingerprint_def split: option.splits if_splits)

lemma hex_not_space: "hex_char c \<Longrightarrow> \<not> c_isspace c"
  by (auto simp: hex_char_def c_isspace_def c_isxdigit_def)

lemma drop_spaces_hex: "list_all hex_char v \<Longrightarrow> dropWhile c_isspace v = v"
  by (cases v) (simp_all add: hex_not_space)

lemma trim_hex: "list_all hex_char v \<Longrightarrow> trimAscii v = v"
  using drop_spaces_hex [of "rev v"] by (simp add: trimAscii_def drop_spaces_hex)

lemma lower_hex: "list_all hex_char v \<Longrightarrow> toLowerAscii v = v"
  by (induction v) (auto simp: toLowerAscii_def hex_char_def)

lemma not_prefix_hex: "list_all hex_char v \<Longrightarrow> \<not> list_all hex_char p \<Longrightarrow> strip_prefix p v = v"
  by (auto simp: strip_prefix_def lower_hex) (metis append_take_drop_id list_all_append)

lemma label_chars: "\<not> hex_char (CHR '':'')"
  by (simp add: hex_char_def c_isxdigit_def code_def)

lemma normalize_normal:
  assumes "list_all hex_char v" "length v = 64"
  shows "NormalizeFingerprint v = v"
proof -
  have "strip_prefix ''fingerprint:'' v = v" "strip_prefix ''sha256:'' v = v"
    by (rule not_prefix_hex [OF assms(1)]; simp add: label_chars)+
  then show ?thesis using assms by (simp add: NormalizeFingerprint_def trim_hex hex_digits_id)
qed

lemma normalize_accepted:
  assumes "list_all hex_char v" "length v = 64"
  shows "NormalizeFingerprint (''sha256:'' @ v) = v"
proof -
  have nonempty: "v \<noteq> []" using assms(2) by auto
  have trim: "trimAscii (''sha256:'' @ v) = ''sha256:'' @ v"
    using assms(1) nonempty
    by (cases "rev v") (auto simp: trimAscii_def c_isspace_def code_def hex_not_space [unfolded c_isspace_def code_def] list_all_iff)
  have "strip_prefix ''fingerprint:'' (''sha256:'' @ v) = ''sha256:'' @ v"
    by (simp add: strip_prefix_def toLowerAscii_def c_tolower_def code_def)
  moreover have "strip_prefix ''sha256:'' (''sha256:'' @ v) = v"
    by (simp add: strip_prefix_def toLowerAscii_def c_tolower_def code_def)
  ultimately show ?thesis using assms trim by (simp add: NormalizeFingerprint_def hex_digits_id)
qed

section \<open>Routes have distinct identities\<close>

lemma to_string_inject: "to_string i = to_string j \<longleftrightarrow> i = j"
proof -
  have minus: "\<not> list_all digit_char (CHR ''-'' # v)" for v
    by (simp add: digit_char_def code_def)
  have "decimal m \<noteq> CHR ''-'' # v" for m v
    using decimal_digits [of m] minus [of v] by metis
  then have "to_string i = to_string j \<Longrightarrow> i = j"
    by (auto simp: to_string_def decimal_inject split: if_splits) (metis append_Cons append_Nil)+
  then show ?thesis by blast
qed

lemma identity_field_inject:
  "identity_field v @ x = identity_field w @ y \<longleftrightarrow> v = w \<and> x = y"
  using length_prefix_inject [of v x w y] by (simp add: identity_field_def)

lemma endpointModeName_inject: "endpointModeName a = endpointModeName b \<longleftrightarrow> a = b"
  by (cases a; cases b) simp_all

lemma gatewayTransportName_inject: "gatewayTransportName a = gatewayTransportName b \<longleftrightarrow> a = b"
  by (cases a; cases b) simp_all

section \<open>The rule for one certificate\<close>

definition stage_excused :: "int \<Rightarrow> certificate_record \<Rightarrow> bool \<Rightarrow> bool \<Rightarrow> bool \<Rightarrow> bool" where
  "stage_excused nowMs c allowRoot allowHost allowTime \<longleftrightarrow>
     (cr_rootTrusted c \<or> allowRoot) \<and> (\<not> cr_hostMismatch c \<or> allowHost) \<and>
     (0 < cr_notBeforeMs c \<and> cr_notBeforeMs c < cr_notAfterMs c \<and> cr_notBeforeMs c \<le> nowMs \<and> nowMs \<le> cr_notAfterMs c \<or> allowTime)"

lemma trustAllowsStage_iff:
  "trustAllowsStage nowMs c e r h t \<longleftrightarrow> fingerprintMatchesStage c e \<and> stage_excused nowMs c r h t"
  by (auto simp: trustAllowsStage_def stage_excused_def)

text \<open>A message that makes \<open>classifyErrorCode\<close> treat the failure as one of the TLS probe.\<close>

definition tls_message :: "string \<Rightarrow> bool" where
  "tls_message m \<longleftrightarrow> messageDescribesTlsProbeReset m \<or> messageContains m ''TLS handshake failed'' \<or>
     messageContains m ''tls handshake failed''"

lemmas preflight_simps = classifyErrorCode_def preflightAllowsRealConnection_def Let_def tls_message_def
  hasRiskFlag_def addUniqueRiskFlag_def kCompleted_def kInconclusive_def kUnavailable_def kTransportFailed_def
  kRiskTlsProbeReset_def kRiskUnknownGatewayProtocol_def

section \<open>The properties\<close>

text \<open>
  A pin is compared in one normal form: what is compared is 64 lower-case hexadecimal digits or nothing,
  normalizing again changes nothing, the string handed to FreeRDP normalizes back to the same pin and
  matches, and an unusable pin matches no certificate.
\<close>

lemma fingerprint_normal_form:
  "NormalizeFingerprint (NormalizeFingerprint v) = NormalizeFingerprint v \<and>
   NormalizeFingerprint (ToFreeRdpAcceptedFingerprint v) = NormalizeFingerprint v \<and>
   (NormalizeFingerprint v = [] \<or> length (NormalizeFingerprint v) = 64 \<and> list_all hex_char (NormalizeFingerprint v)) \<and>
   FingerprintMatches (ToFreeRdpAcceptedFingerprint v) w = FingerprintMatches v w \<and>
   FingerprintMatches v v = (NormalizeFingerprint v \<noteq> [])"
proof -
  have empty: "NormalizeFingerprint [] = []"
    by (simp add: NormalizeFingerprint_def trimAscii_def strip_prefix_def toLowerAscii_def)
  have "NormalizeFingerprint (NormalizeFingerprint v) = NormalizeFingerprint v"
    using empty normalize_normal normalized [of v] by (cases "NormalizeFingerprint v = []") auto
  moreover have a: "NormalizeFingerprint (ToFreeRdpAcceptedFingerprint v) = NormalizeFingerprint v"
    using empty normalize_accepted normalized [of v]
    by (cases "NormalizeFingerprint v = []") (auto simp: ToFreeRdpAcceptedFingerprint_def)
  ultimately show ?thesis using normalized [of v] by (auto simp: FingerprintMatches_def)
qed

lemma fingerprint_normal_form_witness:
  "NormalizeFingerprint (ToFreeRdpAcceptedFingerprint ''AB'') = NormalizeFingerprint ''AB''"
  using fingerprint_normal_form [of "''AB''" "[]"] by blast

text \<open>
  The gate before credentials go to a gateway is equivalent to the rule for one certificate stage: at
  any time, credentials may be used exactly when the gateway's own stage is trusted, so only with a
  certificate that carries the pin of this stage, and a CA-valid certificate alone never opens it.
\<close>

lemma credential_gate_equivalent:
  "gatewayCertificateAllowsCredentialUse nowMs nowMs q gateway \<longleftrightarrow>
     trustAllowsStage nowMs gateway (pq_expectedGatewayFingerprintSha256 q)
       (pq_gatewayAllowUntrustedRoot q) (pq_gatewayAllowHostMismatch q) (pq_gatewayAllowTimeAnomaly q)"
  by (auto simp: gatewayCertificateAllowsCredentialUse_def trustAllowsStage_def fingerprintMatchesStage_def Let_def)

text \<open>
  Whatever the clock reads, a route is released exactly when both certificates carry the pins of their
  own stages and each of them is inside its validity, has a trusted root and the right host, or is
  excused by the user for exactly that defect of that stage.
\<close>

lemma route_needs_both_pins:
  "gatewayTrustAllowsRoute nowMs laterMs q gateway target \<longleftrightarrow>
     (fingerprintMatchesStage gateway (pq_expectedGatewayFingerprintSha256 q) \<and>
      stage_excused nowMs gateway (pq_gatewayAllowUntrustedRoot q) (pq_gatewayAllowHostMismatch q) (pq_gatewayAllowTimeAnomaly q)) \<and>
     (fingerprintMatchesStage target (pq_expectedTargetFingerprintSha256 q) \<and>
      stage_excused laterMs target (pq_targetAllowUntrustedRoot q) (pq_targetAllowHostMismatch q) (pq_targetAllowTimeAnomaly q))"
  by (simp add: gatewayTrustAllowsRoute_def trustAllowsStage_iff)

text \<open>
  C28. Two routes have one identity exactly when they agree on the mode, the two addresses, the names their
  certificates are checked against and the transport: no choice of host names can make a decision
  taken for one route count for another.
\<close>

theorem route_identity_injective:
  "routeIdentity r = routeIdentity s \<longleftrightarrow>
     er_endpointMode r = er_endpointMode s \<and> er_targetHost r = er_targetHost s \<and> er_targetPort r = er_targetPort s \<and>
     targetName r = targetName s \<and> er_gatewayHost r = er_gatewayHost s \<and> er_gatewayPort r = er_gatewayPort s \<and>
     gatewayName r = gatewayName s \<and> er_gatewayTransport r = er_gatewayTransport s"
  using identity_field_inject [of "gatewayTransportName (er_gatewayTransport r)" "[]" "gatewayTransportName (er_gatewayTransport s)" "[]"]
  by (simp add: routeIdentity_def identity_field_inject to_string_inject endpointModeName_inject gatewayTransportName_inject)

text \<open>
  A failed preflight keeps the user from connecting exactly when the failure makes a connection
  impossible: name resolution and TCP, the gateway's tunnel and its authentication always; a bad endpoint
  or gateway name unless the message tells of a TLS failure; every other error is left to the user.
\<close>

lemma preflight_blocks_iff:
  "(preflightAllowsRealConnection (fst (classifyErrorCode e m)) e (snd (classifyErrorCode e m)) = False) \<longleftrightarrow>
     e \<in> set (transport_codes @ [''E-RDP-GATEWAY-TUNNEL'', ''E-RDP-GATEWAY-AUTH'']) \<or>
     e \<in> {''E-RDP-ENDPOINT'', ''E-RDP-GATEWAY-SNI''} \<and> tls_message m = False"
proof (cases "e \<in> set (advisory_codes @ blocking_codes)")
  case True
  then show ?thesis
    unfolding advisory_codes_def blocking_codes_def append.simps list.set insert_iff
    by (elim disjE emptyE) (simp_all add: preflight_simps transport_codes_def gateway_protocol_codes_def
      advisory_codes_def blocking_codes_def)
next
  case False
  then show ?thesis
    by (simp add: preflight_simps transport_codes_def gateway_protocol_codes_def advisory_codes_def blocking_codes_def)
qed

end
