(* ===== verification/Rdp_Damage.thy ===== *)
theory Rdp_Damage
  imports Prelude
begin

text \<open>
  The damage accumulator between the FreeRDP callbacks and the render worker
  (\<open>rdp/rdp_damage_accumulator.h\<close>, \<open>.cpp\<close>): the producer stages the desktop and the rectangle that changed,
  the worker takes a snapshot of it, presents it and gives its buffer back. Buffers are byte lists; a buffer
  that was swapped away keeps whatever bytes it had. The arguments of type bool called \<open>ok\<close> say whether an
  allocation succeeds; coordinates are \<open>int\<close>s, the versions 64-bit words.
\<close>

section \<open>Rectangles\<close>

record damage_rect =
  dr_x :: int
  dr_y :: int
  dr_width :: int
  dr_height :: int
  dr_valid :: bool

definition no_damage :: damage_rect where
  "no_damage = \<lparr>dr_x = 0, dr_y = 0, dr_width = 0, dr_height = 0, dr_valid = False\<rparr>"

definition whole :: "int \<Rightarrow> int \<Rightarrow> damage_rect" where
  "whole w h = \<lparr>dr_x = 0, dr_y = 0, dr_width = w, dr_height = h, dr_valid = True\<rparr>"

definition ClipRect :: "int \<Rightarrow> int \<Rightarrow> int \<Rightarrow> int \<Rightarrow> int \<Rightarrow> int \<Rightarrow> damage_rect" where
  "ClipRect frameWidth frameHeight x y width height =
     (if frameWidth \<le> 0 \<or> frameHeight \<le> 0 \<or> width \<le> 0 \<or> height \<le> 0 then no_damage
      else let left = max 0 x; top = max 0 y; right = min frameWidth (x + width); bottom = min frameHeight (y + height)
        in if right \<le> left \<or> bottom \<le> top then no_damage
           else \<lparr>dr_x = left, dr_y = top, dr_width = right - left, dr_height = bottom - top, dr_valid = True\<rparr>)"

definition UnionRect :: "damage_rect \<Rightarrow> damage_rect \<Rightarrow> damage_rect" where
  "UnionRect l r =
     (if \<not> dr_valid l then r else if \<not> dr_valid r then l
      else let x = min (dr_x l) (dr_x r); y = min (dr_y l) (dr_y r);
               maxX = max (dr_x l + dr_width l) (dr_x r + dr_width r);
               maxY = max (dr_y l + dr_height l) (dr_y r + dr_height r)
        in \<lparr>dr_x = x, dr_y = y, dr_width = maxX - x, dr_height = maxY - y, dr_valid = (0 < maxX - x \<and> 0 < maxY - y)\<rparr>)"

definition area :: "int \<Rightarrow> int \<Rightarrow> u64" where
  "area w h = of_int w * of_int h"

definition kFullFrameThresholdPercent :: u64 where
  "kFullFrameThresholdPercent = 70"

definition CoversFullThreshold :: "damage_rect \<Rightarrow> int \<Rightarrow> int \<Rightarrow> bool" where
  "CoversFullThreshold r frameWidth frameHeight \<longleftrightarrow> dr_valid r \<and> 0 < frameWidth \<and> 0 < frameHeight \<and>
     area frameWidth frameHeight * kFullFrameThresholdPercent \<le> area (dr_width r) (dr_height r) * 100"

definition LooksLikeBroadRefresh :: "damage_rect \<Rightarrow> int \<Rightarrow> int \<Rightarrow> bool" where
  "LooksLikeBroadRefresh r fw fh \<longleftrightarrow> dr_valid r \<and> 0 < fw \<and> 0 < fh \<and>
     (dr_width r * 100 \<ge> fw * 20 \<and> dr_height r * 100 \<le> fh * 30 \<and> (2 \<le> dr_height r \<or> dr_width r * 100 \<ge> fw * 75) \<or>
      dr_height r * 100 \<ge> fh * 20 \<and> dr_width r * 100 \<le> fw * 30 \<and> (2 \<le> dr_width r \<or> dr_height r * 100 \<ge> fh * 75) \<or>
      area fw fh * 25 \<le> area (dr_width r) (dr_height r) * 100)"

definition LooksLikeRefreshContinuation :: "damage_rect \<Rightarrow> int \<Rightarrow> int \<Rightarrow> bool" where
  "LooksLikeRefreshContinuation r fw fh \<longleftrightarrow> dr_valid r \<and> 0 < fw \<and> 0 < fh \<and>
     (dr_width r \<ge> max 8 (fw * 8 div 100) \<and> dr_height r \<ge> 2 \<and> dr_height r * 100 \<le> fh * 12 \<or>
      dr_height r \<ge> max 8 (fh * 8 div 100) \<and> dr_width r \<ge> 2 \<and> dr_width r * 100 \<le> fw * 12)"

section \<open>The accumulator\<close>

record update_result =
  ur_accepted :: bool
  ur_fullResync :: bool
  ur_allocationFailed :: bool
  ur_copiedBytes :: u64

record snapshot =
  sn_valid :: bool
  sn_fullFrame :: bool
  sn_deferred :: bool
  sn_retryAtUs :: int
  sn_pixels :: bytes
  sn_width :: int
  sn_height :: int
  sn_stride :: int
  sn_damage :: damage_rect
  sn_rendererGeneration :: u64
  sn_snapshotCopiedBytes :: u64
  sn_fromRetainedFrame :: bool
  sn_retainOnRecycle :: bool
  sn_sourceVersion :: u64

record damage_accumulator =
  ac_staging :: bytes
  ac_fullFrameSpare :: bytes
  ac_retainedFrame :: bytes
  ac_dirtySnapshotScratch :: bytes
  ac_width :: int
  ac_height :: int
  ac_stride :: int
  ac_rendererGeneration :: u64
  ac_pendingDamage :: damage_rect
  ac_pendingFullFrame :: bool
  ac_fullFrameSpareSynchronized :: bool
  ac_bootstrapSpareAvailable :: bool
  ac_stagingNeedsFullResync :: bool
  ac_stagingHasCurrentFrame :: bool
  ac_stagingVersion :: u64
  ac_retainedFrameVersion :: u64
  ac_preferRetainedRefresh :: bool
  ac_visualCommitActive :: bool
  ac_visualCommitBurstDetected :: bool
  ac_visualCommitContinuation :: bool
  ac_visualCommitStartedUs :: int
  ac_visualCommitLastUpdateUs :: int
  ac_visualCommitLastCommitUs :: int
  ac_snapshotAllocationLimit :: u64

definition refused_update :: update_result where
  "refused_update = \<lparr>ur_accepted = False, ur_fullResync = False, ur_allocationFailed = False, ur_copiedBytes = 0\<rparr>"

definition no_snapshot :: snapshot where
  "no_snapshot = \<lparr>sn_valid = False, sn_fullFrame = False, sn_deferred = False, sn_retryAtUs = 0, sn_pixels = [],
     sn_width = 0, sn_height = 0, sn_stride = 0, sn_damage = no_damage, sn_rendererGeneration = 0,
     sn_snapshotCopiedBytes = 0, sn_fromRetainedFrame = False, sn_retainOnRecycle = False, sn_sourceVersion = 0\<rparr>"

definition new_damage_accumulator :: damage_accumulator where
  "new_damage_accumulator = \<lparr>ac_staging = [], ac_fullFrameSpare = [], ac_retainedFrame = [], ac_dirtySnapshotScratch = [],
     ac_width = 0, ac_height = 0, ac_stride = 0, ac_rendererGeneration = 0, ac_pendingDamage = no_damage,
     ac_pendingFullFrame = False, ac_fullFrameSpareSynchronized = False, ac_bootstrapSpareAvailable = True,
     ac_stagingNeedsFullResync = False, ac_stagingHasCurrentFrame = False, ac_stagingVersion = 0,
     ac_retainedFrameVersion = 0, ac_preferRetainedRefresh = False, ac_visualCommitActive = False,
     ac_visualCommitBurstDetected = False, ac_visualCommitContinuation = False, ac_visualCommitStartedUs = 0,
     ac_visualCommitLastUpdateUs = 0, ac_visualCommitLastCommitUs = 0, ac_snapshotAllocationLimit = 0xFFFFFFFFFFFFFFFF\<rparr>"

definition end_visual_commit :: "damage_accumulator \<Rightarrow> damage_accumulator" where
  "end_visual_commit s = s\<lparr>ac_visualCommitActive := False, ac_visualCommitBurstDetected := False,
     ac_visualCommitContinuation := False, ac_visualCommitStartedUs := 0, ac_visualCommitLastUpdateUs := 0\<rparr>"

text \<open>\<open>std::vector::resize\<close>, which may throw.\<close>

definition resize :: "bool \<Rightarrow> nat \<Rightarrow> bytes \<Rightarrow> bytes option" where
  "resize ok n b = (if ok then Some (take n b @ replicate (n - length b) 0) else None)"

definition frameBytes :: "int \<Rightarrow> int \<Rightarrow> nat" where
  "frameBytes w h = nat w * nat h * 4"

section \<open>\<open>update\<close>\<close>

text \<open>A retained frame becomes the staging buffer again.\<close>

definition promote :: "damage_accumulator \<Rightarrow> damage_accumulator" where
  "promote s = s\<lparr>ac_staging := ac_retainedFrame s, ac_retainedFrame := ac_staging s, ac_stagingHasCurrentFrame := True,
     ac_stagingNeedsFullResync := False, ac_stagingVersion := ac_retainedFrameVersion s, ac_retainedFrameVersion := 0,
     ac_fullFrameSpareSynchronized := (ac_fullFrameSpare s \<noteq> [])\<rparr>"

definition promotes :: "damage_accumulator \<Rightarrow> int \<Rightarrow> int \<Rightarrow> damage_rect \<Rightarrow> u64 \<Rightarrow> bool \<Rightarrow> bool" where
  "promotes s width height clipped gen forceFullResync \<longleftrightarrow>
     \<not> forceFullResync \<and> \<not> (ac_width s \<noteq> width \<or> ac_height s \<noteq> height \<or> ac_stride s \<noteq> width * 4) \<and>
     ac_rendererGeneration s = gen \<and> dr_valid clipped \<and> ac_stagingNeedsFullResync s \<and> \<not> ac_stagingHasCurrentFrame s \<and>
     length (ac_retainedFrame s) = frameBytes width height \<and> ac_retainedFrameVersion s \<noteq> 0"

text \<open>
  The whole frame is copied. The buffers are resized one after the other; when one allocation fails, what was
  done before stays done.
\<close>

definition full_resync ::
    "bool \<Rightarrow> bool \<Rightarrow> bool \<Rightarrow> damage_accumulator \<Rightarrow> bytes \<Rightarrow> int \<Rightarrow> int \<Rightarrow> int \<Rightarrow> u64 \<Rightarrow> damage_accumulator \<times> bool" where
  "full_resync ok1 ok2 ok3 s d width height sourceStride gen =
     (let n = frameBytes width height; rowBytes = nat (width * 4) in
      case resize ok1 n (ac_staging s) of None \<Rightarrow> (s, False) | Some st \<Rightarrow>
        let s1 = s\<lparr>ac_staging := copy_rows (nat height) rowBytes d 0 (nat sourceStride) 0 rowBytes st\<rparr> in
        case (if length (ac_fullFrameSpare s1) \<noteq> n then resize ok2 n (ac_fullFrameSpare s1) else Some (ac_fullFrameSpare s1)) of
          None \<Rightarrow> (s1, False)
        | Some spare \<Rightarrow>
            let s2 = s1\<lparr>ac_fullFrameSpare := spare\<rparr> in
            case (if length (ac_retainedFrame s2) \<noteq> n
                  then map_option (\<lambda>r. s2\<lparr>ac_retainedFrame := r, ac_retainedFrameVersion := 0\<rparr>) (resize ok3 n (ac_retainedFrame s2))
                  else Some s2) of
              None \<Rightarrow> (s2, False)
            | Some s3 \<Rightarrow> (end_visual_commit (s3\<lparr>ac_fullFrameSpareSynchronized := (spare \<noteq> []), ac_bootstrapSpareAvailable := False,
                ac_width := width, ac_height := height, ac_stride := width * 4, ac_rendererGeneration := gen,
                ac_stagingVersion := ac_stagingVersion s3 + 1, ac_stagingNeedsFullResync := False,
                ac_stagingHasCurrentFrame := True, ac_pendingDamage := whole width height, ac_pendingFullFrame := True\<rparr>), True))"

text \<open>Only the rows of the clipped rectangle are copied.\<close>

definition dirty_update :: "damage_accumulator \<Rightarrow> bytes \<Rightarrow> int \<Rightarrow> damage_rect \<Rightarrow> damage_accumulator" where
  "dirty_update s d sourceStride c =
     (let staging = copy_rows (nat (dr_height c)) (nat (dr_width c) * 4) d
            (nat (dr_y c) * nat sourceStride + nat (dr_x c) * 4) (nat sourceStride)
            (nat (dr_y c) * nat (ac_stride s) + nat (dr_x c) * 4) (nat (ac_stride s)) (ac_staging s);
          s1 = s\<lparr>ac_staging := staging, ac_stagingVersion := ac_stagingVersion s + 1, ac_stagingHasCurrentFrame := True,
            ac_pendingDamage := UnionRect (ac_pendingDamage s) c\<rparr>
      in if CoversFullThreshold (ac_pendingDamage s1) (ac_width s1) (ac_height s1)
         then s1\<lparr>ac_pendingDamage := whole (ac_width s1) (ac_height s1), ac_pendingFullFrame := True\<rparr> else s1)"

definition needs_resync :: "damage_accumulator \<Rightarrow> int \<Rightarrow> int \<Rightarrow> damage_rect \<Rightarrow> u64 \<Rightarrow> bool \<Rightarrow> bool \<Rightarrow> bool" where
  "needs_resync s width height clipped gen forceFullResync generationChanged \<longleftrightarrow>
     forceFullResync \<or> (ac_width s \<noteq> width \<or> ac_height s \<noteq> height \<or> ac_stride s \<noteq> width * 4 \<or>
       length (ac_staging s) \<noteq> frameBytes width height) \<or> generationChanged \<or>
     \<not> dr_valid clipped \<or> ac_stagingNeedsFullResync s \<or> \<not> ac_stagingHasCurrentFrame s"

definition update_arguments_ok :: "bytes option \<Rightarrow> int \<Rightarrow> int \<Rightarrow> int \<Rightarrow> u64 \<Rightarrow> bool" where
  "update_arguments_ok data width height sourceStride gen \<longleftrightarrow>
     data \<noteq> None \<and> 0 < width \<and> 0 < height \<and> width * 4 \<le> sourceStride \<and> gen \<noteq> 0 \<and>
     nat (height - 1) * nat sourceStride + nat width * 4 \<le> length (the data)"

definition acc_update ::
    "bool \<times> bool \<times> bool \<Rightarrow> damage_accumulator \<Rightarrow> bytes option \<Rightarrow> int \<Rightarrow> int \<Rightarrow> int \<Rightarrow> int \<Rightarrow> int \<Rightarrow> int \<Rightarrow> int \<Rightarrow> u64 \<Rightarrow> bool \<Rightarrow>
     damage_accumulator \<times> update_result" where
  "acc_update oks s data width height sourceStride dirtyX dirtyY dirtyWidth dirtyHeight gen forceFullResync =
     (if \<not> update_arguments_ok data width height sourceStride gen then (s, refused_update)
      else let clipped = ClipRect width height dirtyX dirtyY dirtyWidth dirtyHeight;
               s1 = (if promotes s width height clipped gen forceFullResync then promote s else s)
        in if needs_resync s1 width height clipped gen forceFullResync (ac_rendererGeneration s \<noteq> gen)
           then case full_resync (fst oks) (fst (snd oks)) (snd (snd oks)) s1 (the data) width height sourceStride gen of
               (s2, False) \<Rightarrow> (s2, refused_update\<lparr>ur_allocationFailed := True\<rparr>)
             | (s2, True) \<Rightarrow> (s2, \<lparr>ur_accepted = True, ur_fullResync = True, ur_allocationFailed = False,
                 ur_copiedBytes = of_int (width * 4) * of_int height\<rparr>)
           else let s2 = dirty_update s1 (the data) sourceStride clipped
             in (s2, \<lparr>ur_accepted = True, ur_fullResync = ac_pendingFullFrame s2, ur_allocationFailed = False,
               ur_copiedBytes = of_int (dr_width clipped * 4) * of_int (dr_height clipped)\<rparr>))"

section \<open>Snapshots\<close>

definition requestFullSnapshot :: "damage_accumulator \<Rightarrow> u64 \<Rightarrow> bool \<times> damage_accumulator" where
  "requestFullSnapshot s gen =
     (if gen = 0 \<or> (\<not> ac_stagingHasCurrentFrame s \<or> ac_staging s = []) \<and> ac_retainedFrame s = [] \<or>
         ac_width s \<le> 0 \<or> ac_height s \<le> 0 then (False, s)
      else (True, (end_visual_commit (s\<lparr>ac_rendererGeneration := gen, ac_pendingDamage := whole (ac_width s) (ac_height s),
        ac_pendingFullFrame := True, ac_preferRetainedRefresh := True\<rparr>))\<lparr>ac_visualCommitLastCommitUs := 0\<rparr>))"

text \<open>
  The buffer of a full snapshot: the staging buffer when it is current, and the retained one otherwise. The
  result has the pixels, their version, whether they are the retained ones, and the accumulator left behind;
  \<open>None\<close> asks the worker to come back later.
\<close>

definition full_snapshot :: "damage_accumulator \<Rightarrow> (bytes \<times> u64 \<times> bool \<times> damage_accumulator) option" where
  "full_snapshot s =
     (if ac_stagingHasCurrentFrame s \<and> ac_staging s \<noteq> [] then
        (if ac_fullFrameSpare s = [] \<and> ac_retainedFrame s = [] then None
         else Some (ac_staging s, ac_stagingVersion s, False,
           (if ac_fullFrameSpare s \<noteq> [] then s\<lparr>ac_staging := ac_fullFrameSpare s, ac_fullFrameSpare := []\<rparr>
            else s\<lparr>ac_staging := ac_retainedFrame s, ac_retainedFrame := []\<rparr>)\<lparr>ac_stagingHasCurrentFrame := False\<rparr>))
      else if ac_retainedFrame s \<noteq> [] then
        Some (ac_retainedFrame s, ac_retainedFrameVersion s, True,
          s\<lparr>ac_retainedFrame := [], ac_retainedFrameVersion := 0, ac_stagingHasCurrentFrame := False\<rparr>)
      else Some ([], ac_stagingVersion s, False, s))"

definition taken :: "damage_accumulator \<Rightarrow> bool \<Rightarrow> damage_rect \<Rightarrow> bytes \<Rightarrow> u64 \<Rightarrow> bool \<Rightarrow> snapshot" where
  "taken s fullFrame damage pixels version fromRetained =
     \<lparr>sn_valid = True, sn_fullFrame = fullFrame, sn_deferred = False, sn_retryAtUs = 0, sn_pixels = pixels,
      sn_width = ac_width s, sn_height = ac_height s, sn_stride = dr_width damage * 4, sn_damage = damage,
      sn_rendererGeneration = ac_rendererGeneration s,
      sn_snapshotCopiedBytes = (if fullFrame then 0 else of_nat (nat (dr_width damage * 4) * nat (dr_height damage))),
      sn_fromRetainedFrame = fromRetained, sn_retainOnRecycle = (fullFrame \<and> ac_preferRetainedRefresh s),
      sn_sourceVersion = version\<rparr>"

definition after_take :: "damage_accumulator \<Rightarrow> damage_accumulator" where
  "after_take s = end_visual_commit (s\<lparr>ac_pendingDamage := no_damage, ac_pendingFullFrame := False,
     ac_preferRetainedRefresh := False\<rparr>)"

definition take_full :: "damage_accumulator \<Rightarrow> damage_accumulator \<times> snapshot" where
  "take_full s =
     (case full_snapshot s of
        None \<Rightarrow> (s, no_snapshot\<lparr>sn_deferred := True\<rparr>)
      | Some (pixels, version, fromRetained, s1) \<Rightarrow>
          (after_take (s1\<lparr>ac_fullFrameSpareSynchronized := (ac_fullFrameSpare s1 \<noteq> []), ac_stagingNeedsFullResync := False\<rparr>),
           taken s True (whole (ac_width s) (ac_height s)) pixels version fromRetained))"

definition take_dirty :: "bool \<Rightarrow> damage_accumulator \<Rightarrow> damage_accumulator \<times> snapshot" where
  "take_dirty ok s =
     (let c = ac_pendingDamage s; rowBytes = nat (dr_width c * 4) in
      case resize ok (rowBytes * nat (dr_height c)) (ac_dirtySnapshotScratch s) of
        None \<Rightarrow> (s, no_snapshot)
      | Some scratch \<Rightarrow>
          (after_take (s\<lparr>ac_dirtySnapshotScratch := []\<rparr>),
           taken s False c
             (copy_rows (nat (dr_height c)) rowBytes (ac_staging s)
                (nat (dr_y c) * nat (ac_stride s) + nat (dr_x c) * 4) (nat (ac_stride s)) 0 rowBytes scratch)
             (ac_stagingVersion s) False))"

definition takeSnapshot :: "bool \<Rightarrow> damage_accumulator \<Rightarrow> damage_accumulator \<times> snapshot" where
  "takeSnapshot ok s =
     (if \<not> dr_valid (ac_pendingDamage s) \<or>
         (\<not> ac_stagingHasCurrentFrame s \<or> ac_staging s = []) \<and> (\<not> ac_pendingFullFrame s \<or> ac_retainedFrame s = [])
      then (s, no_snapshot)
      else let damage = (if ac_pendingFullFrame s then whole (ac_width s) (ac_height s) else ac_pendingDamage s)
        in if ac_snapshotAllocationLimit s < of_nat (nat (dr_width damage * 4) * nat (dr_height damage)) then (s, no_snapshot)
           else if ac_pendingFullFrame s then take_full s else take_dirty ok s)"

text \<open>
  \<open>swap\<close> leaves the old contents of the member in the snapshot; a full buffer found there becomes the spare.
\<close>

definition keep_spare :: "bytes \<Rightarrow> damage_accumulator \<Rightarrow> damage_accumulator" where
  "keep_spare left s = (if left \<noteq> [] then s\<lparr>ac_fullFrameSpare := left\<rparr> else s)"

definition retain :: "snapshot \<Rightarrow> damage_accumulator \<Rightarrow> damage_accumulator" where
  "retain sn s = keep_spare (ac_retainedFrame s)
     (s\<lparr>ac_retainedFrame := sn_pixels sn, ac_retainedFrameVersion := sn_sourceVersion sn\<rparr>)"

definition recycleSnapshot :: "snapshot \<Rightarrow> damage_accumulator \<Rightarrow> damage_accumulator" where
  "recycleSnapshot sn s =
     (if \<not> sn_valid sn \<or> sn_pixels sn = [] then s
      else if \<not> sn_fullFrame sn then s\<lparr>ac_dirtySnapshotScratch := sn_pixels sn\<rparr>
      else if sn_rendererGeneration sn \<noteq> ac_rendererGeneration s \<or>
              length (sn_pixels sn) \<noteq> frameBytes (ac_width s) (ac_height s) then s
      else let producerAdvanced = (ac_stagingHasCurrentFrame s \<and> ac_stagingVersion s \<noteq> sn_sourceVersion sn);
               s1 = (if \<not> producerAdvanced \<and> sn_retainOnRecycle sn
                  then (retain sn s)\<lparr>ac_stagingHasCurrentFrame := False, ac_stagingNeedsFullResync := True\<rparr>
                else if \<not> producerAdvanced \<and> \<not> sn_fromRetainedFrame sn \<and> ac_staging s \<noteq> []
                  then keep_spare (ac_staging s) (s\<lparr>ac_staging := sn_pixels sn, ac_stagingHasCurrentFrame := True\<rparr>)
                else let s2 = retain sn s in
                  if \<not> producerAdvanced \<and> sn_fromRetainedFrame sn
                  then s2\<lparr>ac_stagingHasCurrentFrame := False, ac_stagingNeedsFullResync := True\<rparr> else s2)
        in s1\<lparr>ac_fullFrameSpareSynchronized := (ac_fullFrameSpare s1 \<noteq> [])\<rparr>)"

definition acc_clear :: "damage_accumulator \<Rightarrow> damage_accumulator" where
  "acc_clear s = new_damage_accumulator\<lparr>ac_snapshotAllocationLimit := ac_snapshotAllocationLimit s\<rparr>"

definition hasPending :: "damage_accumulator \<Rightarrow> bool" where
  "hasPending s = dr_valid (ac_pendingDamage s)"

definition setSnapshotAllocationLimitForTest :: "u64 \<Rightarrow> damage_accumulator \<Rightarrow> damage_accumulator" where
  "setSnapshotAllocationLimitForTest limit s = s\<lparr>ac_snapshotAllocationLimit := limit\<rparr>"

section \<open>What the renderer is to show\<close>

text \<open>
  The specification is a desktop of \<open>width * height\<close> pixels of four bytes and a screen per renderer
  generation. A full snapshot replaces the screen, another one writes its rows into it.
\<close>

definition tight :: "bytes \<Rightarrow> int \<Rightarrow> int \<Rightarrow> int \<Rightarrow> bytes" where
  "tight d width height stride =
     map (\<lambda>p. d ! (p div nat (width * 4) * nat stride + p mod nat (width * 4))) [0..<frameBytes width height]"

definition inside :: "damage_rect \<Rightarrow> int \<Rightarrow> nat \<Rightarrow> bool" where
  "inside r width p \<longleftrightarrow> dr_valid r \<and>
     nat (dr_y r) \<le> p div nat (width * 4) \<and> p div nat (width * 4) < nat (dr_y r) + nat (dr_height r) \<and>
     nat (dr_x r) * 4 \<le> p mod nat (width * 4) \<and> p mod nat (width * 4) < nat (dr_x r) * 4 + nat (dr_width r) * 4"

definition fits :: "damage_rect \<Rightarrow> int \<Rightarrow> int \<Rightarrow> bool" where
  "fits r width height \<longleftrightarrow> 0 \<le> dr_x r \<and> 0 \<le> dr_y r \<and> 0 < dr_width r \<and> 0 < dr_height r \<and>
     dr_x r + dr_width r \<le> width \<and> dr_y r + dr_height r \<le> height"

definition shown :: "snapshot \<Rightarrow> bytes \<Rightarrow> bytes" where
  "shown sn screen =
     (if sn_fullFrame sn then sn_pixels sn
      else copy_rows (nat (dr_height (sn_damage sn))) (nat (sn_stride sn)) (sn_pixels sn) 0 (nat (sn_stride sn))
        (nat (dr_y (sn_damage sn)) * nat (sn_width sn * 4) + nat (dr_x (sn_damage sn)) * 4) (nat (sn_width sn * 4)) screen)"

text \<open>
  The producer and the worker around the accumulator. \<open>dk_force\<close> stands for the two flags that make the next
  paint a full one: the producer's, after a paint that was not staged or not queued, and the worker's, after a
  snapshot that could not be presented.
\<close>

datatype render_phase = Idle | Taken snapshot | Presented snapshot

record desk =
  dk_acc :: damage_accumulator
  dk_force :: bool
  dk_phase :: render_phase
  dk_surface :: bytes
  dk_screen :: "u64 \<Rightarrow> bytes"
  dk_paints :: nat

definition new_desk :: "(u64 \<Rightarrow> bytes) \<Rightarrow> u64 \<Rightarrow> desk" where
  "new_desk screen limit = \<lparr>dk_acc = setSnapshotAllocationLimitForTest limit new_damage_accumulator, dk_force = True,
     dk_phase = Idle, dk_surface = [], dk_screen = screen, dk_paints = 0\<rparr>"

fun full_out :: "render_phase \<Rightarrow> snapshot option" where
  "full_out Idle = None"
| "full_out (Taken sn) = (if sn_fullFrame sn then Some sn else None)"
| "full_out (Presented sn) = (if sn_fullFrame sn then Some sn else None)"

text \<open>
  A paint is honest when the desktop has only changed inside the rectangle it reports since the last one that
  was accepted.
\<close>

definition honest :: "desk \<Rightarrow> bytes \<Rightarrow> int \<Rightarrow> int \<Rightarrow> int \<Rightarrow> damage_rect \<Rightarrow> bool" where
  "honest d px width height stride c \<longleftrightarrow>
     dk_force d \<or> width \<noteq> ac_width (dk_acc d) \<or> height \<noteq> ac_height (dk_acc d) \<or>
     (\<forall>p<frameBytes width height. inside c width p \<or> tight px width height stride ! p = dk_surface d ! p)"

text \<open>
  What the producer, the worker and the user interface do, in any order: paints, also refused ones and ones
  that could not be queued, a full refresh for any renderer generation, the worker's taking, presenting and
  recycling of a snapshot, and clearing the accumulator.
\<close>

datatype desk_event =
    Paint bytes int int int damage_rect
  | Missed
  | Refresh u64
  | Take
  | Present
  | Reject
  | Recycle
  | Clear

inductive desk_step :: "desk_event \<Rightarrow> desk \<Rightarrow> desk \<Rightarrow> bool" where
  paint: "acc_update oks (dk_acc d) (Some px) w h stride x y dw dh gen (dk_force d \<or> resync) = (a, res) \<Longrightarrow>
    desk_step (Paint px w h stride (ClipRect w h x y dw dh)) d
      (d\<lparr>dk_acc := a, dk_force := (\<not> ur_accepted res \<or> unqueued), dk_paints := Suc (dk_paints d),
         dk_surface := (if ur_accepted res then tight px w h stride else dk_surface d)\<rparr>)"
| missed: "desk_step Missed d (d\<lparr>dk_force := True\<rparr>)"
| refresh: "requestFullSnapshot (dk_acc d) gen = (done, a) \<Longrightarrow> desk_step (Refresh gen) d (d\<lparr>dk_acc := a\<rparr>)"
| take: "dk_phase d = Idle \<Longrightarrow> takeSnapshot ok (dk_acc d) = (a, sn) \<Longrightarrow>
    desk_step Take d (d\<lparr>dk_acc := a, dk_phase := (if sn_valid sn then Taken sn else Idle)\<rparr>)"
| present: "dk_phase d = Taken sn \<Longrightarrow>
    desk_step Present d (d\<lparr>dk_phase := Presented sn, dk_screen := (dk_screen d)(sn_rendererGeneration sn :=
      shown sn (dk_screen d (sn_rendererGeneration sn)))\<rparr>)"
| rejected: "dk_phase d = Taken sn \<Longrightarrow> desk_step Reject d (d\<lparr>dk_phase := Presented sn, dk_force := True\<rparr>)"
| recycle: "dk_phase d = Presented sn \<Longrightarrow>
    desk_step Recycle d (d\<lparr>dk_acc := recycleSnapshot sn (dk_acc d), dk_phase := Idle\<rparr>)"
| clear: "desk_step Clear d (d\<lparr>dk_acc := acc_clear (dk_acc d)\<rparr>)"

inductive_cases desk_stepE:
  "desk_step (Paint px w h stride c) d d'" "desk_step Missed d d'" "desk_step (Refresh gen) d d'"
  "desk_step Take d d'" "desk_step Present d d'" "desk_step Reject d d'" "desk_step Recycle d d'" "desk_step Clear d d'"

text \<open>A history: each event with the state it happened in.\<close>

inductive desk_run :: "desk \<Rightarrow> (desk_event \<times> desk) list \<Rightarrow> desk \<Rightarrow> bool" for d0 where
  run_start: "desk_run d0 [] d0"
| run_step: "desk_run d0 tr d \<Longrightarrow> desk_step e d d' \<Longrightarrow> desk_run d0 (tr @ [(e, d)]) d'"

text \<open>
  What the accumulator does not survive: a paint that changes more than it reports, and, while the buffer of a
  full snapshot is out with the worker, a refresh for another renderer generation or clearing.
\<close>

definition disturbs :: "desk_event \<times> desk \<Rightarrow> bool" where
  "disturbs ed = (case ed of
      (Paint px w h stride c, d) \<Rightarrow> \<not> honest d px w h stride c
    | (Refresh gen, d) \<Rightarrow> full_out (dk_phase d) \<noteq> None \<and> gen \<noteq> ac_rendererGeneration (dk_acc d)
    | (Clear, d) \<Rightarrow> full_out (dk_phase d) \<noteq> None
    | _ \<Rightarrow> False)"

text \<open>A history starts afresh when it is empty or its last event cleared while no full snapshot was out.\<close>

definition fresh_start :: "(desk_event \<times> desk) list \<Rightarrow> bool" where
  "fresh_start tr \<longleftrightarrow> tr = [] \<or> (\<exists>tr0 d. tr = tr0 @ [(Clear, d)] \<and> full_out (dk_phase d) = None)"

section \<open>Rectangles and rows\<close>

lemma ClipRect_fits: "dr_valid (ClipRect w h x y dw dh) \<Longrightarrow> fits (ClipRect w h x y dw dh) w h"
  by (auto simp: ClipRect_def fits_def no_damage_def Let_def split: if_splits)

lemma whole_valid [simp]: "dr_valid (whole w h)"
  by (simp add: whole_def)

lemma whole_fits: "0 < w \<Longrightarrow> 0 < h \<Longrightarrow> fits (whole w h) w h"
  by (simp add: whole_def fits_def)

lemma UnionRect_fits:
  "dr_valid l \<longrightarrow> fits l w h \<Longrightarrow> dr_valid r \<longrightarrow> fits r w h \<Longrightarrow> dr_valid (UnionRect l r) \<Longrightarrow> fits (UnionRect l r) w h"
  by (auto simp: UnionRect_def fits_def Let_def split: if_splits)

lemma inside_int:
  assumes "fits r w h"
  shows "inside r w p \<longleftrightarrow> dr_valid r \<and> dr_y r \<le> int (p div nat (w * 4)) \<and>
    int (p div nat (w * 4)) < dr_y r + dr_height r \<and> dr_x r * 4 \<le> int (p mod nat (w * 4)) \<and>
    int (p mod nat (w * 4)) < dr_x r * 4 + dr_width r * 4"
proof -
  have rect: "0 \<le> dr_x r" "0 \<le> dr_y r" "0 \<le> dr_width r" "0 \<le> dr_height r" using assms by (simp_all add: fits_def)
  obtain X Y W H where i: "dr_x r = int X" "dr_y r = int Y" "dr_width r = int W" "dr_height r = int H"
    using rect by (metis zero_le_imp_eq_int)
  define a b where "a = p div nat (w * 4)" and "b = p mod nat (w * 4)"
  show ?thesis unfolding inside_def a_def [symmetric] b_def [symmetric] i nat_int by auto
qed

lemma inside_mono:
  assumes "inside r w p" "fits r w h" "fits u w h" "dr_valid u"
    "dr_x u \<le> dr_x r" "dr_y u \<le> dr_y r" "dr_x r + dr_width r \<le> dr_x u + dr_width u" "dr_y r + dr_height r \<le> dr_y u + dr_height u"
  shows "inside u w p"
proof -
  define a b where "a = int (p div nat (w * 4))" and "b = int (p mod nat (w * 4))"
  show ?thesis
    using assms(1,4-) unfolding inside_int [OF assms(2)] inside_int [OF assms(3)] a_def [symmetric] b_def [symmetric]
    by (intro conjI) (simp, linarith+)
qed

lemma UnionRect_bounds:
  assumes "dr_valid l" "dr_valid r" "fits l w h" "fits r w h"
  shows "dr_valid (UnionRect l r)" "dr_x (UnionRect l r) = min (dr_x l) (dr_x r)" "dr_y (UnionRect l r) = min (dr_y l) (dr_y r)"
    "dr_x (UnionRect l r) + dr_width (UnionRect l r) = max (dr_x l + dr_width l) (dr_x r + dr_width r)"
    "dr_y (UnionRect l r) + dr_height (UnionRect l r) = max (dr_y l + dr_height l) (dr_y r + dr_height r)"
  using assms by (auto simp: UnionRect_def fits_def Let_def)

lemma UnionRect_valid: "dr_valid r \<Longrightarrow> fits r w h \<Longrightarrow> dr_valid l \<longrightarrow> fits l w h \<Longrightarrow> dr_valid (UnionRect l r)"
  using UnionRect_bounds(1) [of l r w h] by (cases "dr_valid l") (auto simp: UnionRect_def)

lemma inside_UnionRect:
  assumes "dr_valid l \<longrightarrow> fits l w h" "dr_valid r \<longrightarrow> fits r w h" "inside l w p \<or> inside r w p"
  shows "inside (UnionRect l r) w p"
proof (cases "dr_valid l \<and> dr_valid r")
  case True
  then have f: "fits l w h" "fits r w h" using assms by auto
  note u = UnionRect_bounds [OF conjunct1 [OF True] conjunct2 [OF True] f]
  have "fits (UnionRect l r) w h" by (rule UnionRect_fits) (use True f u in auto)
  moreover have "dr_x (UnionRect l r) \<le> dr_x l" "dr_x (UnionRect l r) \<le> dr_x r"
      "dr_y (UnionRect l r) \<le> dr_y l" "dr_y (UnionRect l r) \<le> dr_y r" by (simp_all add: u)
  moreover have "dr_x l + dr_width l \<le> dr_x (UnionRect l r) + dr_width (UnionRect l r)"
      "dr_x r + dr_width r \<le> dr_x (UnionRect l r) + dr_width (UnionRect l r)"
      "dr_y l + dr_height l \<le> dr_y (UnionRect l r) + dr_height (UnionRect l r)"
      "dr_y r + dr_height r \<le> dr_y (UnionRect l r) + dr_height (UnionRect l r)"
    using u(4,5) by linarith+
  ultimately show ?thesis
    using assms(3) u(1) f inside_mono [of l w p h "UnionRect l r"] inside_mono [of r w p h "UnionRect l r"] by auto
next
  case False
  then show ?thesis using assms(3) by (auto simp: UnionRect_def inside_def)
qed

lemma frame_pos: "p < frameBytes w h \<Longrightarrow> 0 < w \<Longrightarrow> p div nat (w * 4) < nat h"
  by (simp add: frameBytes_def less_mult_imp_div_less nat_mult_distrib algebra_simps)

lemma length_tight [simp]: "length (tight d w h stride) = frameBytes w h"
  by (simp add: tight_def)

lemma nth_tight:
  "p < frameBytes w h \<Longrightarrow> tight d w h stride ! p = d ! (p div nat (w * 4) * nat stride + p mod nat (w * 4))"
  by (simp add: tight_def)

lemma frame_rows: "0 < w \<Longrightarrow> frameBytes w h = nat h * nat (w * 4)"
  by (simp add: frameBytes_def nat_mult_distrib)

lemma resize_length [simp]: "resize ok n b = Some b' \<Longrightarrow> length b' = n"
  by (auto simp: resize_def split: if_splits)

lemma full_copy:
  assumes ok: "update_arguments_ok (Some d) w h stride gen" and len: "length st = frameBytes w h"
  shows "copy_rows (nat h) (nat (w * 4)) d 0 (nat stride) 0 (nat (w * 4)) st = tight d w h stride"
proof (rule nth_equalityI)
  have w: "0 < w" "0 < h" "0 < nat (w * 4)" "nat (h - 1) = nat h - 1" "nat w * 4 = nat (w * 4)"
    using ok by (auto simp: update_arguments_ok_def)
  have src: "(nat h - 1) * nat stride + nat (w * 4) \<le> length d"
    using ok w by (simp add: update_arguments_ok_def)
  note rows = copy_rows_tight [OF w(3), of "nat h" st 0 "nat stride" d]
  show "length (copy_rows (nat h) (nat (w * 4)) d 0 (nat stride) 0 (nat (w * 4)) st) = length (tight d w h stride)"
    using rows(1) len src frame_rows [OF w(1), of h] by simp
  then show "copy_rows (nat h) (nat (w * 4)) d 0 (nat stride) 0 (nat (w * 4)) st ! p = tight d w h stride ! p"
    if "p < length (copy_rows (nat h) (nat (w * 4)) d 0 (nat stride) 0 (nat (w * 4)) st)" for p
    using that rows(2) len src frame_rows [OF w(1), of h] by (simp add: nth_tight)
qed

lemma row_in_frame:
  assumes "fits c w h" "0 < w" "0 < h"
  shows "(nat (dr_y c) + nat (dr_height c)) * nat (w * 4) \<le> frameBytes w h" "nat (dr_x c) * 4 + nat (dr_width c) * 4 \<le> nat (w * 4)"
proof -
  have "nat (dr_y c) + nat (dr_height c) \<le> nat h" using assms unfolding fits_def by linarith
  then show "(nat (dr_y c) + nat (dr_height c)) * nat (w * 4) \<le> frameBytes w h"
    using frame_rows [OF assms(2), of h] by simp
  show "nat (dr_x c) * 4 + nat (dr_width c) * 4 \<le> nat (w * 4)" using assms(1) unfolding fits_def by linarith
qed

text \<open>The rows of a dirty update, written into a staging buffer of the frame.\<close>

lemma dirty_copy:
  assumes ok: "update_arguments_ok (Some d) w h stride gen" and c: "fits c w h" "dr_valid c" and len: "length st = frameBytes w h"
  defines "r \<equiv> copy_rows (nat (dr_height c)) (nat (dr_width c) * 4) d (nat (dr_y c) * nat stride + nat (dr_x c) * 4) (nat stride)
    (nat (dr_y c) * nat (w * 4) + nat (dr_x c) * 4) (nat (w * 4)) st"
  shows "length r = frameBytes w h" "p < frameBytes w h \<Longrightarrow> r ! p = (if inside c w p then tight d w h stride ! p else st ! p)"
proof -
  have w: "0 < w" "0 < h" "0 < nat (w * 4)" "w * 4 \<le> stride" using ok by (auto simp: update_arguments_ok_def)
  note room = row_in_frame [OF c(1) w(1,2)]
  have last: "nat (dr_y c) + (nat (dr_height c) - 1) \<le> nat (h - 1)" using c(1) unfolding fits_def by linarith
  have src: "nat (dr_y c) * nat stride + nat (dr_x c) * 4 + (nat (dr_height c) - 1) * nat stride + nat (dr_width c) * 4 \<le> length d"
  proof -
    have "(nat (dr_y c) + (nat (dr_height c) - 1)) * nat stride + (nat (dr_x c) * 4 + nat (dr_width c) * 4)
        \<le> nat (h - 1) * nat stride + nat (w * 4)"
      using last room(2) by (intro add_mono mult_le_mono1)
    moreover have "nat (h - 1) * nat stride + nat (w * 4) \<le> length d"
      using ok by (simp add: update_arguments_ok_def nat_mult_distrib)
    ultimately show ?thesis by (simp add: add_mult_distrib)
  qed
  note rows = copy_rows_effect [OF w(3) room(2), of "nat (dr_y c)" "nat (dr_height c)" st
      "nat (dr_y c) * nat stride + nat (dr_x c) * 4" "nat stride" d, folded r_def]
  have e: "length r = length st"
      "\<forall>p<length st. r ! p = (if inside c w p
        then d ! (nat (dr_y c) * nat stride + nat (dr_x c) * 4 + (p div nat (w * 4) - nat (dr_y c)) * nat stride +
          (p mod nat (w * 4) - nat (dr_x c) * 4)) else st ! p)"
    using rows room(1) len src c(2) by (simp_all add: inside_def)
  show "length r = frameBytes w h" using e(1) len by simp
  show "r ! p = (if inside c w p then tight d w h stride ! p else st ! p)" if p: "p < frameBytes w h"
  proof (cases "inside c w p")
    case True
    then have i: "nat (dr_y c) \<le> p div nat (w * 4)" "nat (dr_x c) * 4 \<le> p mod nat (w * 4)" by (simp_all add: inside_def)
    obtain k j where k: "p div nat (w * 4) = nat (dr_y c) + k" "p mod nat (w * 4) = nat (dr_x c) * 4 + j"
      using i by (metis le_Suc_ex)
    show ?thesis using e(2) p len True by (simp add: nth_tight k algebra_simps)
  next
    case False
    then show ?thesis using e(2) p len by simp
  qed
qed

text \<open>The rows of a dirty snapshot, and what the renderer makes of them.\<close>

lemma dirty_shown:
  assumes c: "fits c w h" "dr_valid c" and w: "0 < w" "0 < h"
    and len: "length st = frameBytes w h" "length scr = frameBytes w h"
      "length scratch = nat (dr_width c * 4) * nat (dr_height c)"
  defines "R \<equiv> nat (dr_width c * 4)" and "S \<equiv> nat (w * 4)"
  defines "px \<equiv> copy_rows (nat (dr_height c)) R st (nat (dr_y c) * S + nat (dr_x c) * 4) S 0 R scratch"
  defines "r \<equiv> copy_rows (nat (dr_height c)) R px 0 R (nat (dr_y c) * S + nat (dr_x c) * 4) S scr"
  shows "length px = R * nat (dr_height c)" "length r = frameBytes w h"
    "p < frameBytes w h \<Longrightarrow> r ! p = (if inside c w p then st ! p else scr ! p)"
proof -
  have R: "R = nat (dr_width c) * 4" "0 < R" using c by (simp_all add: R_def fits_def nat_mult_distrib)
  have S: "0 < S" using w by (simp add: S_def)
  have room: "(nat (dr_y c) + nat (dr_height c)) * S \<le> frameBytes w h" "nat (dr_x c) * 4 + R \<le> S"
    using row_in_frame [OF c(1) w] by (simp_all add: R S_def)
  have n: "0 < nat (dr_height c)" using c by (simp add: fits_def)
  then obtain m where m: "nat (dr_height c) = Suc m" by (cases "nat (dr_height c)") auto
  have src: "nat (dr_y c) * S + nat (dr_x c) * 4 + (nat (dr_height c) - 1) * S + R \<le> length st"
    using room len(1) by (simp add: m add_mult_distrib)
  have p1: "length px = length scratch"
      "q < length scratch \<Longrightarrow> px ! q = st ! (nat (dr_y c) * S + nat (dr_x c) * 4 + q div R * S + q mod R)" for q
    using copy_rows_tight [OF R(2), of "nat (dr_height c)" scratch "nat (dr_y c) * S + nat (dr_x c) * 4" S st, folded px_def]
      src len(3) by (simp_all add: R_def mult.commute)
  then show lpx: "length px = R * nat (dr_height c)" using len(3) by (simp add: R_def)
  have "0 + (nat (dr_height c) - 1) * R + R \<le> length px" using lpx by (simp add: m algebra_simps)
  then have rows: "length r = length scr \<and> (\<forall>p<length scr. r ! p =
      (if nat (dr_y c) \<le> p div S \<and> p div S < nat (dr_y c) + nat (dr_height c) \<and>
          nat (dr_x c) * 4 \<le> p mod S \<and> p mod S < nat (dr_x c) * 4 + R
       then px ! (0 + (p div S - nat (dr_y c)) * R + (p mod S - nat (dr_x c) * 4)) else scr ! p))"
    unfolding r_def using room(1) len(2) by (intro copy_rows_effect [OF S room(2)]) simp_all
  have i: "inside c w p \<longleftrightarrow> nat (dr_y c) \<le> p div S \<and> p div S < nat (dr_y c) + nat (dr_height c) \<and>
      nat (dr_x c) * 4 \<le> p mod S \<and> p mod S < nat (dr_x c) * 4 + R" for p
    using c(2) by (simp add: inside_def R(1) S_def)
  have e: "length r = length scr"
      "p < length scr \<Longrightarrow> r ! p = (if inside c w p then px ! ((p div S - nat (dr_y c)) * R + (p mod S - nat (dr_x c) * 4)) else scr ! p)" for p
    using rows unfolding i by simp_all
  then show "length r = frameBytes w h" using len(2) by simp
  show "r ! p = (if inside c w p then st ! p else scr ! p)" if p: "p < frameBytes w h"
  proof (cases "inside c w p")
    case True
    define a b where "a = p div S - nat (dr_y c)" and "b = p mod S - nat (dr_x c) * 4"
    have i: "p div S = nat (dr_y c) + a" "p mod S = nat (dr_x c) * 4 + b" "a < nat (dr_height c)" "b < R"
      using True i [of p] by (simp_all add: a_def b_def less_diff_conv2)
    have "a * R + b < R * nat (dr_height c)"
      using i(3,4) mult_le_mono1 [of "Suc a" "nat (dr_height c)" R] by (simp add: mult.commute)
    then have "px ! (a * R + b) = st ! (nat (dr_y c) * S + nat (dr_x c) * 4 + a * S + b)"
      using p1 lpx i(3,4) by simp
    also have "nat (dr_y c) * S + nat (dr_x c) * 4 + a * S + b = p"
      using i(1,2) div_mult_mod_eq [of p S] by (simp add: add_mult_distrib)
    finally show ?thesis using e(2) p len(2) True by (simp add: a_def b_def)
  qed (use e(2) p len(2) in simp)
qed

section \<open>What the operations do\<close>

lemma end_visual_commit_simps [simp]:
  "ac_staging (end_visual_commit s) = ac_staging s" "ac_fullFrameSpare (end_visual_commit s) = ac_fullFrameSpare s"
  "ac_retainedFrame (end_visual_commit s) = ac_retainedFrame s" "ac_width (end_visual_commit s) = ac_width s"
  "ac_height (end_visual_commit s) = ac_height s" "ac_stride (end_visual_commit s) = ac_stride s"
  "ac_rendererGeneration (end_visual_commit s) = ac_rendererGeneration s"
  "ac_pendingDamage (end_visual_commit s) = ac_pendingDamage s" "ac_pendingFullFrame (end_visual_commit s) = ac_pendingFullFrame s"
  "ac_stagingNeedsFullResync (end_visual_commit s) = ac_stagingNeedsFullResync s"
  "ac_stagingHasCurrentFrame (end_visual_commit s) = ac_stagingHasCurrentFrame s"
  "ac_stagingVersion (end_visual_commit s) = ac_stagingVersion s"
  "ac_retainedFrameVersion (end_visual_commit s) = ac_retainedFrameVersion s"
  by (simp_all add: end_visual_commit_def)

lemma full_resync_True:
  assumes "full_resync o1 o2 o3 s d w h stride gen = (a, True)" "update_arguments_ok (Some d) w h stride gen"
  shows "ac_staging a = tight d w h stride" "ac_width a = w" "ac_height a = h" "ac_stride a = w * 4"
    "ac_rendererGeneration a = gen" "ac_stagingVersion a = ac_stagingVersion s + 1"
    "ac_retainedFrameVersion a = ac_retainedFrameVersion s \<or> ac_retainedFrameVersion a = 0"
    "\<not> ac_stagingNeedsFullResync a" "ac_stagingHasCurrentFrame a" "ac_pendingDamage a = whole w h" "ac_pendingFullFrame a"
  using assms(1) full_copy [OF assms(2)]
  by (auto simp: full_resync_def Let_def split: option.splits if_splits)

lemma full_resync_False:
  assumes "full_resync o1 o2 o3 s d w h stride gen = (a, False)"
  shows "ac_stagingVersion a = ac_stagingVersion s" "ac_retainedFrameVersion a = ac_retainedFrameVersion s"
    "ac_stagingNeedsFullResync a = ac_stagingNeedsFullResync s"
  using assms by (auto simp: full_resync_def Let_def split: option.splits if_splits)

lemma dirty_update_simps [simp]:
  "ac_width (dirty_update s d stride c) = ac_width s" "ac_height (dirty_update s d stride c) = ac_height s"
  "ac_stride (dirty_update s d stride c) = ac_stride s"
  "ac_rendererGeneration (dirty_update s d stride c) = ac_rendererGeneration s"
  "ac_retainedFrame (dirty_update s d stride c) = ac_retainedFrame s"
  "ac_stagingVersion (dirty_update s d stride c) = ac_stagingVersion s + 1"
  "ac_retainedFrameVersion (dirty_update s d stride c) = ac_retainedFrameVersion s"
  "ac_stagingNeedsFullResync (dirty_update s d stride c) = ac_stagingNeedsFullResync s"
  "ac_stagingHasCurrentFrame (dirty_update s d stride c)"
  by (simp_all add: dirty_update_def Let_def)

lemma dirty_update_pending:
  "ac_pendingDamage (dirty_update s d stride c) = UnionRect (ac_pendingDamage s) c \<and>
     ac_pendingFullFrame (dirty_update s d stride c) = ac_pendingFullFrame s \<or>
   ac_pendingDamage (dirty_update s d stride c) = whole (ac_width s) (ac_height s) \<and>
     ac_pendingFullFrame (dirty_update s d stride c)"
  by (auto simp: dirty_update_def Let_def)

text \<open>An update is refused, a full resync or a dirty one.\<close>

lemma acc_update_cases:
  assumes "acc_update oks s (Some d) w h stride x y dw dh gen force = (a, res)"
  obtains (refused) "\<not> ur_accepted res" "a = s"
  | (failed) o1 o2 o3 where "\<not> ur_accepted res" "full_resync o1 o2 o3 s d w h stride gen = (a, False)"
  | (full) o1 o2 o3 where "ur_accepted res" "update_arguments_ok (Some d) w h stride gen"
      "full_resync o1 o2 o3 s d w h stride gen = (a, True)"
  | (dirty) s1 where "ur_accepted res" "update_arguments_ok (Some d) w h stride gen"
      "s1 = (if promotes s w h (ClipRect w h x y dw dh) gen force then promote s else s)"
      "\<not> needs_resync s1 w h (ClipRect w h x y dw dh) gen force (ac_rendererGeneration s \<noteq> gen)"
      "a = dirty_update s1 d stride (ClipRect w h x y dw dh)"
proof (cases "update_arguments_ok (Some d) w h stride gen")
  case False
  then show thesis using assms refused(1) by (auto simp: acc_update_def refused_update_def)
next
  case args: True
  define c where "c = ClipRect w h x y dw dh"
  define s1 where "s1 = (if promotes s w h c gen force then promote s else s)"
  show thesis
  proof (cases "needs_resync s1 w h c gen force (ac_rendererGeneration s \<noteq> gen)")
    case True
    then have "s1 = s"
      by (auto simp: s1_def promotes_def needs_resync_def promote_def)
    obtain b where "full_resync (fst oks) (fst (snd oks)) (snd (snd oks)) s d w h stride gen = (a, b)"
        "ur_accepted res = b"
      using assms args True \<open>s1 = s\<close> by (auto simp: acc_update_def Let_def c_def s1_def refused_update_def split: prod.splits bool.splits)
    then show thesis using failed full args by (cases b) auto
  next
    case False
    then show thesis
      using assms args by (intro dirty [OF _ args s1_def [unfolded c_def]]) (auto simp: acc_update_def Let_def c_def s1_def)
  qed
qed

section \<open>The invariant\<close>

text \<open>What holds however the memory runs out: the versions only grow while a full snapshot is out.\<close>

definition versions_ok :: "desk \<Rightarrow> bool" where
  "versions_ok d \<longleftrightarrow> unat (ac_stagingVersion (dk_acc d)) \<le> dk_paints d \<and>
     ac_retainedFrameVersion (dk_acc d) \<le> ac_stagingVersion (dk_acc d) \<and>
     (\<forall>sn. full_out (dk_phase d) = Some sn \<longrightarrow> sn_sourceVersion sn \<le> ac_stagingVersion (dk_acc d) \<and>
       \<not> ac_stagingNeedsFullResync (dk_acc d)) \<and>
     (\<forall>sn. dk_phase d = Taken sn \<or> dk_phase d = Presented sn \<longrightarrow> sn_valid sn)"

text \<open>
  While no resync is due: the current desktop is in the staging buffer, or in the snapshot that is out, or in the
  retained buffer.
\<close>

definition buffers_ok :: "damage_accumulator \<Rightarrow> snapshot option \<Rightarrow> bytes \<Rightarrow> bool" where
  "buffers_ok s out surface \<longleftrightarrow>
     0 < ac_width s \<and> 0 < ac_height s \<and> ac_stride s = ac_width s * 4 \<and> length surface = frameBytes (ac_width s) (ac_height s) \<and>
     (dr_valid (ac_pendingDamage s) \<longrightarrow> fits (ac_pendingDamage s) (ac_width s) (ac_height s)) \<and>
     (ac_pendingFullFrame s \<longrightarrow> dr_valid (ac_pendingDamage s)) \<and>
     (ac_stagingHasCurrentFrame s \<longrightarrow> ac_staging s = surface) \<and>
     (ac_stagingNeedsFullResync s \<longrightarrow> \<not> ac_stagingHasCurrentFrame s \<and> ac_retainedFrame s = surface) \<and>
     (\<not> ac_stagingHasCurrentFrame s \<longrightarrow> (case out of None \<Rightarrow> ac_stagingNeedsFullResync s | Some sn \<Rightarrow>
        sn_pixels sn = surface \<and> sn_rendererGeneration sn = ac_rendererGeneration s \<and>
        (sn_fromRetainedFrame sn \<or> sn_retainOnRecycle sn \<or> ac_staging s \<noteq> []))) \<and>
     (ac_stagingHasCurrentFrame s \<longrightarrow> (\<forall>sn. out = Some sn \<longrightarrow> sn_sourceVersion sn \<noteq> ac_stagingVersion s))"

text \<open>Outside the pending damage the screen shows the desktop, once the snapshot that is out is presented.\<close>

fun coming :: "render_phase \<Rightarrow> (u64 \<Rightarrow> bytes) \<Rightarrow> u64 \<Rightarrow> bytes" where
  "coming (Taken sn) screen g = (if g = sn_rendererGeneration sn then shown sn (screen g) else screen g)"
| "coming _ screen g = screen g"

definition shows_outside :: "damage_accumulator \<Rightarrow> bytes \<Rightarrow> bytes \<Rightarrow> bool" where
  "shows_outside s surface screen \<longleftrightarrow> ac_pendingFullFrame s \<or> length screen = length surface \<and>
     (\<forall>p<length surface. inside (ac_pendingDamage s) (ac_width s) p \<or> screen ! p = surface ! p)"

definition synced :: "desk \<Rightarrow> bool" where
  "synced d \<longleftrightarrow> \<not> dk_force d \<and> 0 < ac_width (dk_acc d)"

definition desk_inv :: "desk \<Rightarrow> bool" where
  "desk_inv d \<longleftrightarrow> versions_ok d \<and>
     (synced d \<longrightarrow> buffers_ok (dk_acc d) (full_out (dk_phase d)) (dk_surface d) \<and>
        shows_outside (dk_acc d) (dk_surface d) (coming (dk_phase d) (dk_screen d) (ac_rendererGeneration (dk_acc d))))"

lemma full_outD: "full_out ph = Some sn \<Longrightarrow> sn_fullFrame sn \<and> (ph = Taken sn \<or> ph = Presented sn)"
  by (cases ph) (auto split: if_splits)

lemma next_version:
  "unat v \<le> n \<Longrightarrow> Suc n < 2 ^ 64 \<Longrightarrow> unat (v + 1 :: u64) = Suc (unat v)"
  by (simp add: unat_word_ariths)

lemma desk_inv_new: "desk_inv (new_desk screen limit)"
  by (simp add: desk_inv_def versions_ok_def synced_def new_desk_def setSnapshotAllocationLimitForTest_def new_damage_accumulator_def)

section \<open>Every step keeps the invariant\<close>

lemma dirty_staging:
  assumes "update_arguments_ok (Some d) w h stride gen" "fits c w h" "dr_valid c" "ac_stride s = w * 4"
    "length (ac_staging s) = frameBytes w h"
    "\<forall>p<frameBytes w h. inside c w p \<or> tight d w h stride ! p = ac_staging s ! p"
  shows "ac_staging (dirty_update s d stride c) = tight d w h stride"
proof -
  note copy = dirty_copy [OF assms(1,2,3,5)]
  have eq: "ac_staging (dirty_update s d stride c) = copy_rows (nat (dr_height c)) (nat (dr_width c) * 4) d
      (nat (dr_y c) * nat stride + nat (dr_x c) * 4) (nat stride)
      (nat (dr_y c) * nat (w * 4) + nat (dr_x c) * 4) (nat (w * 4)) (ac_staging s)"
    by (simp add: dirty_update_def Let_def assms(4))
  show ?thesis
    unfolding eq
  proof (rule nth_equalityI)
    fix p
    assume "p < length (copy_rows (nat (dr_height c)) (nat (dr_width c) * 4) d
      (nat (dr_y c) * nat stride + nat (dr_x c) * 4) (nat stride)
      (nat (dr_y c) * nat (w * 4) + nat (dr_x c) * 4) (nat (w * 4)) (ac_staging s))"
    then have p: "p < frameBytes w h" by (simp only: copy(1))
    show "copy_rows (nat (dr_height c)) (nat (dr_width c) * 4) d
      (nat (dr_y c) * nat stride + nat (dr_x c) * 4) (nat stride)
      (nat (dr_y c) * nat (w * 4) + nat (dr_x c) * 4) (nat (w * 4)) (ac_staging s) ! p = tight d w h stride ! p"
      unfolding copy(2) [OF p] using assms(6) [rule_format, OF p] by auto
  qed (simp only: copy(1) length_tight)
qed

lemma versions_paint:
  assumes "versions_ok d" "Suc (dk_paints d) < 2 ^ 64"
    and "ac_stagingVersion a = ac_stagingVersion s1 + 1" "ac_retainedFrameVersion a \<le> ac_stagingVersion s1"
    and "ac_stagingVersion s1 \<le> ac_stagingVersion (dk_acc d)" "\<not> ac_stagingNeedsFullResync a"
    and "full_out (dk_phase d) \<noteq> None \<longrightarrow> ac_stagingVersion s1 = ac_stagingVersion (dk_acc d)"
  shows "versions_ok (d\<lparr>dk_acc := a, dk_force := f, dk_paints := Suc (dk_paints d), dk_surface := sf\<rparr>)"
    "full_out (dk_phase d) = Some sn \<Longrightarrow> sn_sourceVersion sn < ac_stagingVersion a"
proof -
  have v: "unat (ac_stagingVersion s1) \<le> dk_paints d"
    using assms(1,5) by (auto simp: versions_ok_def word_le_nat_alt)
  have step: "unat (ac_stagingVersion a) = Suc (unat (ac_stagingVersion s1))"
    unfolding assms(3) by (rule next_version [OF v assms(2)])
  then have less: "ac_stagingVersion s1 < ac_stagingVersion a" by (simp add: word_less_nat_alt)
  then show "versions_ok (d\<lparr>dk_acc := a, dk_force := f, dk_paints := Suc (dk_paints d), dk_surface := sf\<rparr>)"
    using assms(1,4,6,7) step v by (auto simp: versions_ok_def intro: order.trans order.strict_implies_order)
  show "sn_sourceVersion sn < ac_stagingVersion a" if "full_out (dk_phase d) = Some sn"
    using that assms(1,7) less by (auto simp: versions_ok_def)
qed

lemma inv_paint_full:
  assumes inv: "desk_inv d" and n: "Suc (dk_paints d) < 2 ^ 64"
    and a: "update_arguments_ok (Some px) w h stride gen" "full_resync o1 o2 o3 (dk_acc d) px w h stride gen = (a, True)"
  shows "desk_inv (d\<lparr>dk_acc := a, dk_force := f, dk_paints := Suc (dk_paints d), dk_surface := tight px w h stride\<rparr>)"
proof -
  note full = full_resync_True [OF a(2,1)]
  have v: "versions_ok d" using inv by (simp add: desk_inv_def)
  have "ac_retainedFrameVersion a \<le> ac_stagingVersion (dk_acc d)"
    using full(7) v by (auto simp: versions_ok_def)
  note new = versions_paint [OF v n full(6) this order.refl full(8)]
  have "0 < w" "0 < h" using a(1) by (simp_all add: update_arguments_ok_def)
  then have "buffers_ok a (full_out (dk_phase d)) (tight px w h stride)"
    using full new(2) whole_fits [of w h] by (auto simp: buffers_ok_def)
  then show ?thesis using new(1) full(11) by (simp add: desk_inv_def shows_outside_def)
qed

lemma inv_paint_dirty:
  assumes inv: "desk_inv d" and n: "Suc (dk_paints d) < 2 ^ 64"
    and args: "update_arguments_ok (Some px) w h stride gen"
    and s1: "s1 = (if promotes (dk_acc d) w h c gen force then promote (dk_acc d) else dk_acc d)"
    and dirty: "\<not> needs_resync s1 w h c gen force (ac_rendererGeneration (dk_acc d) \<noteq> gen)" "dk_force d \<Longrightarrow> force"
    and honest: "honest d px w h stride c" and c: "fits c w h"
  shows "desk_inv (d\<lparr>dk_acc := dirty_update s1 px stride c, dk_force := f, dk_paints := Suc (dk_paints d),
    dk_surface := tight px w h stride\<rparr>)"
proof -
  let ?s = "dk_acc d" and ?a = "dirty_update s1 px stride c" and ?out = "full_out (dk_phase d)"
  have cur: "ac_width s1 = w" "ac_height s1 = h" "ac_stride s1 = w * 4" "length (ac_staging s1) = frameBytes w h"
      "ac_stagingHasCurrentFrame s1" "\<not> ac_stagingNeedsFullResync s1" "dr_valid c" "\<not> dk_force d"
      "ac_rendererGeneration ?s = gen"
    using dirty by (auto simp: needs_resync_def)
  have same: "ac_width ?s = w" "ac_height ?s = h" "ac_rendererGeneration s1 = gen" "ac_pendingDamage s1 = ac_pendingDamage ?s"
      "ac_pendingFullFrame s1 = ac_pendingFullFrame ?s"
    using cur s1 by (auto simp: promote_def split: if_splits)
  have pos: "0 < w" "0 < h" using args by (simp_all add: update_arguments_ok_def)
  have v: "versions_ok d" and b: "buffers_ok ?s ?out (dk_surface d)"
      and o: "shows_outside ?s (dk_surface d) (coming (dk_phase d) (dk_screen d) gen)"
    using inv cur(8,9) same(1) pos by (auto simp: desk_inv_def synced_def)
  have st: "ac_staging s1 = dk_surface d"
    using b cur(5) s1 by (auto simp: buffers_ok_def promote_def promotes_def split: if_splits)
  have h: "\<forall>p<frameBytes w h. inside c w p \<or> tight px w h stride ! p = dk_surface d ! p"
    using honest cur(8) same(1,2) by (auto simp: honest_def)
  have new: "ac_staging ?a = tight px w h stride"
    by (rule dirty_staging [OF args c cur(7,3,4)]) (use h st in simp)
  have low: "ac_retainedFrameVersion s1 \<le> ac_stagingVersion s1" "ac_stagingVersion s1 \<le> ac_stagingVersion ?s"
      "?out \<noteq> None \<longrightarrow> ac_stagingVersion s1 = ac_stagingVersion ?s"
    using v s1 by (auto simp: versions_ok_def promote_def promotes_def split: if_splits)
  have vers: "versions_ok (d\<lparr>dk_acc := ?a, dk_force := f, dk_paints := Suc (dk_paints d), dk_surface := tight px w h stride\<rparr>)"
      "\<And>sn. ?out = Some sn \<Longrightarrow> sn_sourceVersion sn < ac_stagingVersion ?a"
    by (rule versions_paint [OF v n, where ?s1.0 = s1]; use low cur(6) in simp)+
  have pd: "dr_valid (ac_pendingDamage ?s) \<longrightarrow> fits (ac_pendingDamage ?s) w h" using b same by (simp add: buffers_ok_def)
  have fit: "dr_valid (ac_pendingDamage ?a) \<and> fits (ac_pendingDamage ?a) w h"
    using dirty_update_pending [of s1 px stride c]
  proof (elim disjE conjE)
    assume "ac_pendingDamage ?a = UnionRect (ac_pendingDamage s1) c"
    then show ?thesis using UnionRect_fits [OF pd, of c] UnionRect_valid [OF cur(7) c pd] c same(4) by simp
  next
    assume "ac_pendingDamage ?a = whole (ac_width s1) (ac_height s1)"
    then show ?thesis using whole_fits [OF pos] cur(1,2) by simp
  qed
  have "buffers_ok ?a ?out (tight px w h stride)"
    using cur pos new fit vers(2) by (auto simp: buffers_ok_def)
  moreover have "shows_outside ?a (tight px w h stride) (coming (dk_phase d) (dk_screen d) gen)"
  proof (cases "ac_pendingFullFrame ?a")
    case False
    then have u: "ac_pendingDamage ?a = UnionRect (ac_pendingDamage ?s) c" "\<not> ac_pendingFullFrame ?s"
      using dirty_update_pending [of s1 px stride c] same(4,5) by auto
    have l: "length (dk_surface d) = frameBytes w h" using b same(1,2) by (simp add: buffers_ok_def)
    then have "length (coming (dk_phase d) (dk_screen d) gen) = frameBytes w h"
        "\<forall>p<frameBytes w h. inside (ac_pendingDamage ?s) w p \<or> coming (dk_phase d) (dk_screen d) gen ! p = dk_surface d ! p"
      using o u(2) same(1) by (simp_all add: shows_outside_def)
    moreover have "inside (UnionRect (ac_pendingDamage ?s) c) w p" if "inside (ac_pendingDamage ?s) w p \<or> inside c w p" for p
      using inside_UnionRect [OF pd, of c p] that c by blast
    ultimately show ?thesis using h u(1) cur(1) unfolding shows_outside_def by (simp, metis)
  qed (simp add: shows_outside_def)
  ultimately show ?thesis using vers(1) same(3) by (simp add: desk_inv_def)
qed

lemma inv_forced:
  assumes "desk_inv d" "ac_stagingVersion a = ac_stagingVersion (dk_acc d)" "ac_retainedFrameVersion a = ac_retainedFrameVersion (dk_acc d)"
    "ac_stagingNeedsFullResync a = ac_stagingNeedsFullResync (dk_acc d)" "dk_paints d \<le> n"
  shows "desk_inv (d\<lparr>dk_acc := a, dk_force := True, dk_paints := n, dk_surface := sf\<rparr>)"
  using assms by (auto simp: desk_inv_def versions_ok_def synced_def)

lemma inv_paint:
  assumes inv: "desk_inv d" and n: "Suc (dk_paints d) < 2 ^ 64"
    and u: "acc_update oks (dk_acc d) (Some px) w h stride x y dw dh gen (dk_force d \<or> resync) = (a, res)"
    and honest: "honest d px w h stride (ClipRect w h x y dw dh)"
  shows "desk_inv (d\<lparr>dk_acc := a, dk_force := (\<not> ur_accepted res \<or> unqueued), dk_paints := Suc (dk_paints d),
      dk_surface := (if ur_accepted res then tight px w h stride else dk_surface d)\<rparr>)"
  using u
proof (cases rule: acc_update_cases)
  case refused
  then show ?thesis using inv_forced [OF inv, of "dk_acc d" "Suc (dk_paints d)" "dk_surface d"] by simp
next
  case failed
  then show ?thesis using inv_forced [OF inv full_resync_False [OF failed(2)], of "Suc (dk_paints d)" "dk_surface d"] by simp
next
  case full
  then show ?thesis using inv_paint_full [OF inv n full(2,3)] by simp
next
  case (dirty s1)
  have "dr_valid (ClipRect w h x y dw dh)" using dirty(4) by (simp add: needs_resync_def)
  then show ?thesis
    using inv_paint_dirty [OF inv n dirty(2,3,4) _ honest ClipRect_fits] dirty(1,5) by simp
qed

lemma requestFullSnapshot_simps:
  assumes "requestFullSnapshot s gen = (granted, a)"
  shows "ac_stagingVersion a = ac_stagingVersion s" "ac_retainedFrameVersion a = ac_retainedFrameVersion s"
    "ac_stagingNeedsFullResync a = ac_stagingNeedsFullResync s" "ac_width a = ac_width s" "ac_height a = ac_height s"
    "ac_stride a = ac_stride s" "ac_staging a = ac_staging s" "ac_retainedFrame a = ac_retainedFrame s"
    "ac_stagingHasCurrentFrame a = ac_stagingHasCurrentFrame s"
    "a = s \<or> ac_rendererGeneration a = gen \<and> ac_pendingDamage a = whole (ac_width s) (ac_height s) \<and> ac_pendingFullFrame a"
  using assms by (auto simp: requestFullSnapshot_def split: if_splits)

lemma inv_refresh:
  assumes inv: "desk_inv d" and r: "requestFullSnapshot (dk_acc d) gen = (granted, a)"
    and g: "full_out (dk_phase d) \<noteq> None \<longrightarrow> gen = ac_rendererGeneration (dk_acc d)"
  shows "desk_inv (d\<lparr>dk_acc := a\<rparr>)"
proof (cases "a = dk_acc d")
  case False
  note e = requestFullSnapshot_simps [OF r]
  then have full: "ac_rendererGeneration a = gen" "ac_pendingDamage a = whole (ac_width (dk_acc d)) (ac_height (dk_acc d))"
      "ac_pendingFullFrame a" using False by auto
  have "buffers_ok a (full_out (dk_phase d)) (dk_surface d)" if "synced d"
  proof -
    have b: "buffers_ok (dk_acc d) (full_out (dk_phase d)) (dk_surface d)" using inv that by (simp add: desk_inv_def)
    have "fits (whole (ac_width (dk_acc d)) (ac_height (dk_acc d))) (ac_width (dk_acc d)) (ac_height (dk_acc d))"
      using b by (simp add: buffers_ok_def whole_fits)
    then show ?thesis
      using b g full(1,2) e(1-9) by (cases "full_out (dk_phase d)") (auto simp: buffers_ok_def)
  qed
  then show ?thesis
    using inv full(3) e(1-4) by (auto simp: desk_inv_def versions_ok_def synced_def shows_outside_def)
qed (use inv in simp)

text \<open>Clearing starts afresh, whatever happened before.\<close>

definition phase_valid :: "desk \<Rightarrow> bool" where
  "phase_valid d \<longleftrightarrow> (\<forall>sn. dk_phase d = Taken sn \<or> dk_phase d = Presented sn \<longrightarrow> sn_valid sn)"

lemma inv_clear:
  assumes "phase_valid d" "full_out (dk_phase d) = None"
  shows "desk_inv (d\<lparr>dk_acc := acc_clear (dk_acc d)\<rparr>)"
  using assms
  by (auto simp: desk_inv_def versions_ok_def synced_def phase_valid_def acc_clear_def new_damage_accumulator_def)

lemma inv_present:
  assumes "desk_inv d" "dk_phase d = Taken sn"
  shows "desk_inv (d\<lparr>dk_phase := Presented sn, dk_screen := (dk_screen d)(sn_rendererGeneration sn :=
      shown sn (dk_screen d (sn_rendererGeneration sn)))\<rparr>)"
  using assms by (auto simp: desk_inv_def versions_ok_def synced_def)

lemma inv_rejected:
  assumes "desk_inv d" "dk_phase d = Taken sn"
  shows "desk_inv (d\<lparr>dk_phase := Presented sn, dk_force := True\<rparr>)"
  using assms by (auto simp: desk_inv_def versions_ok_def synced_def)

lemma inv_missed: "desk_inv d \<Longrightarrow> desk_inv (d\<lparr>dk_force := True\<rparr>)"
  by (auto simp: desk_inv_def versions_ok_def synced_def)

lemma after_take_simps [simp]:
  "ac_staging (after_take s) = ac_staging s" "ac_fullFrameSpare (after_take s) = ac_fullFrameSpare s"
  "ac_retainedFrame (after_take s) = ac_retainedFrame s" "ac_width (after_take s) = ac_width s"
  "ac_height (after_take s) = ac_height s" "ac_stride (after_take s) = ac_stride s"
  "ac_rendererGeneration (after_take s) = ac_rendererGeneration s"
  "ac_pendingDamage (after_take s) = no_damage" "\<not> ac_pendingFullFrame (after_take s)"
  "ac_stagingNeedsFullResync (after_take s) = ac_stagingNeedsFullResync s"
  "ac_stagingHasCurrentFrame (after_take s) = ac_stagingHasCurrentFrame s"
  "ac_stagingVersion (after_take s) = ac_stagingVersion s"
  "ac_retainedFrameVersion (after_take s) = ac_retainedFrameVersion s"
  by (simp_all add: after_take_def)

lemma full_snapshot_result:
  assumes "full_snapshot s = Some (px, v, fr, s1)"
    "(ac_stagingHasCurrentFrame s \<and> ac_staging s \<noteq> []) \<or> ac_retainedFrame s \<noteq> []"
  shows "ac_stagingVersion s1 = ac_stagingVersion s" "ac_width s1 = ac_width s" "ac_height s1 = ac_height s"
    "ac_stride s1 = ac_stride s" "ac_rendererGeneration s1 = ac_rendererGeneration s" "\<not> ac_stagingHasCurrentFrame s1"
    "ac_retainedFrameVersion s1 = ac_retainedFrameVersion s \<or> ac_retainedFrameVersion s1 = 0"
    "ac_stagingHasCurrentFrame s \<and> ac_staging s \<noteq> [] \<and> px = ac_staging s \<and> v = ac_stagingVersion s \<and> ac_staging s1 \<noteq> [] \<or>
     \<not> (ac_stagingHasCurrentFrame s \<and> ac_staging s \<noteq> []) \<and> px = ac_retainedFrame s \<and> v = ac_retainedFrameVersion s \<and> fr"
  using assms by (auto simp: full_snapshot_def split: if_splits)

lemma takeSnapshot_cases:
  assumes "takeSnapshot ok s = (a, sn)"
  obtains (none) "\<not> sn_valid sn" "a = s"
  | (full) px v fr s1 where "sn = taken s True (whole (ac_width s) (ac_height s)) px v fr" "full_snapshot s = Some (px, v, fr, s1)"
      "(ac_stagingHasCurrentFrame s \<and> ac_staging s \<noteq> []) \<or> ac_retainedFrame s \<noteq> []"
      "a = after_take (s1\<lparr>ac_fullFrameSpareSynchronized := (ac_fullFrameSpare s1 \<noteq> []), ac_stagingNeedsFullResync := False\<rparr>)"
  | (dirty) scratch c where "c = ac_pendingDamage s" "dr_valid c" "\<not> ac_pendingFullFrame s" "ac_stagingHasCurrentFrame s"
      "length scratch = nat (dr_width c * 4) * nat (dr_height c)"
      "sn = taken s False c (copy_rows (nat (dr_height c)) (nat (dr_width c * 4)) (ac_staging s)
         (nat (dr_y c) * nat (ac_stride s) + nat (dr_x c) * 4) (nat (ac_stride s)) 0 (nat (dr_width c * 4)) scratch)
         (ac_stagingVersion s) False"
      "a = after_take (s\<lparr>ac_dirtySnapshotScratch := []\<rparr>)"
proof -
  have no: "\<not> sn_valid no_snapshot" "\<not> sn_valid (no_snapshot\<lparr>sn_deferred := True\<rparr>)" by (simp_all add: no_snapshot_def)
  consider "a = s \<and> \<not> sn_valid sn"
    | "(a, sn) = take_full s" "(ac_stagingHasCurrentFrame s \<and> ac_staging s \<noteq> []) \<or> ac_retainedFrame s \<noteq> []"
    | "(a, sn) = take_dirty ok s" "dr_valid (ac_pendingDamage s)" "\<not> ac_pendingFullFrame s" "ac_stagingHasCurrentFrame s"
    using assms no by (auto simp: takeSnapshot_def Let_def split: if_splits)
  then show thesis
  proof cases
    case 2
    then show thesis
      using no full none by (auto simp: take_full_def split: option.splits)
  next
    case 3
    then show thesis
      using no(1) none dirty [OF refl 3(2-4) resize_length] by (auto simp: take_dirty_def Let_def split: option.splits)
  qed (use none in simp)
qed

lemma taken_simps [simp]:
  "sn_valid (taken s f c px v fr)" "sn_fullFrame (taken s f c px v fr) = f" "sn_pixels (taken s f c px v fr) = px"
  "sn_width (taken s f c px v fr) = ac_width s" "sn_stride (taken s f c px v fr) = dr_width c * 4"
  "sn_damage (taken s f c px v fr) = c" "sn_rendererGeneration (taken s f c px v fr) = ac_rendererGeneration s"
  "sn_fromRetainedFrame (taken s f c px v fr) = fr" "sn_sourceVersion (taken s f c px v fr) = v"
  by (simp_all add: taken_def)

lemma inv_take:
  assumes inv: "desk_inv d" and idle: "dk_phase d = Idle" and t: "takeSnapshot ok (dk_acc d) = (a, sn)"
  shows "desk_inv (d\<lparr>dk_acc := a, dk_phase := (if sn_valid sn then Taken sn else Idle)\<rparr>)"
proof -
  let ?s = "dk_acc d"
  have v: "versions_ok d" using inv by (simp add: desk_inv_def)
  have ok: "buffers_ok ?s None (dk_surface d)" "shows_outside ?s (dk_surface d) (dk_screen d (ac_rendererGeneration ?s))"
    if "synced d" using inv idle that by (simp_all add: desk_inv_def)
  show ?thesis
    using t
  proof (cases rule: takeSnapshot_cases)
    case none
    then show ?thesis using inv idle by (cases d) simp
  next
    case (full px ver fr s1)
    note e = full_snapshot_result [OF full(2,3)]
    have src: "ver \<le> ac_stagingVersion ?s" using e(8) v by (auto simp: versions_ok_def)
    have vers: "versions_ok (d\<lparr>dk_acc := a, dk_phase := Taken sn\<rparr>)"
      using v full(1,4) e(1,7) src by (auto simp: versions_ok_def)
    have "buffers_ok a (Some sn) (dk_surface d)" "shows_outside a (dk_surface d) (sn_pixels sn)" if s: "synced d"
    proof -
      note b = ok(1) [OF s]
      have ne: "dk_surface d \<noteq> []" using b by (auto simp: buffers_ok_def frameBytes_def)
      have "px = dk_surface d" "fr \<or> ac_staging s1 \<noteq> []" using e(8) b ne by (auto simp: buffers_ok_def)
      then show "buffers_ok a (Some sn) (dk_surface d)" "shows_outside a (dk_surface d) (sn_pixels sn)"
        using b full(1,4) e(1-6) by (auto simp: buffers_ok_def shows_outside_def no_damage_def)
    qed
    moreover have "synced d" if "synced (d\<lparr>dk_acc := a, dk_phase := Taken sn\<rparr>)"
      using that full(4) e(2) by (simp add: synced_def)
    ultimately show ?thesis
      using vers full(1,4) e(5) by (auto simp: desk_inv_def shown_def)
  next
    case (dirty scratch c)
    have vers: "versions_ok (d\<lparr>dk_acc := a, dk_phase := Taken sn\<rparr>)"
      using v dirty(6,7) by (auto simp: versions_ok_def)
    have "buffers_ok a None (dk_surface d)" "shows_outside a (dk_surface d) (shown sn (dk_screen d (ac_rendererGeneration ?s)))"
      if s: "synced d"
    proof -
      note b = ok(1) [OF s]
      have st: "ac_staging ?s = dk_surface d" "fits c (ac_width ?s) (ac_height ?s)" "ac_stride ?s = ac_width ?s * 4"
          "0 < ac_width ?s" "0 < ac_height ?s" "length (dk_surface d) = frameBytes (ac_width ?s) (ac_height ?s)"
        using b dirty(1,2,4) by (auto simp: buffers_ok_def)
      have scr: "length (dk_screen d (ac_rendererGeneration ?s)) = length (dk_surface d)"
          "\<forall>p<length (dk_surface d). inside c (ac_width ?s) p \<or> dk_screen d (ac_rendererGeneration ?s) ! p = dk_surface d ! p"
        using ok(2) [OF s] dirty(1,3) by (auto simp: shows_outside_def)
      note copy = dirty_shown [OF st(2) dirty(2) st(4,5,6) scr(1) [unfolded st(6)] dirty(5)]
      have eq: "shown sn (dk_screen d (ac_rendererGeneration ?s)) =
          copy_rows (nat (dr_height c)) (nat (dr_width c * 4))
           (copy_rows (nat (dr_height c)) (nat (dr_width c * 4)) (dk_surface d)
             (nat (dr_y c) * nat (ac_width ?s * 4) + nat (dr_x c) * 4) (nat (ac_width ?s * 4)) 0 (nat (dr_width c * 4)) scratch)
           0 (nat (dr_width c * 4)) (nat (dr_y c) * nat (ac_width ?s * 4) + nat (dr_x c) * 4) (nat (ac_width ?s * 4))
           (dk_screen d (ac_rendererGeneration ?s))"
        by (simp add: shown_def dirty(6) st(1,3))
      show "buffers_ok a None (dk_surface d)" using b dirty(4,7) by (auto simp: buffers_ok_def no_damage_def)
      have "length (shown sn (dk_screen d (ac_rendererGeneration ?s))) = length (dk_surface d)"
        unfolding eq copy(2) st(6) by (rule refl)
      moreover have "shown sn (dk_screen d (ac_rendererGeneration ?s)) ! p = dk_surface d ! p" if p: "p < length (dk_surface d)" for p
        using scr(2) [rule_format, OF p] unfolding eq copy(3) [OF p [unfolded st(6)]] by auto
      ultimately show "shows_outside a (dk_surface d) (shown sn (dk_screen d (ac_rendererGeneration ?s)))"
        by (simp add: shows_outside_def)
    qed
    moreover have "synced d" if "synced (d\<lparr>dk_acc := a, dk_phase := Taken sn\<rparr>)"
      using that dirty(7) by (simp add: synced_def)
    ultimately show ?thesis
      using vers dirty(6,7) by (auto simp: desk_inv_def)
  qed
qed

lemma keep_spare_simps [simp]:
  "ac_staging (keep_spare l s) = ac_staging s" "ac_retainedFrame (keep_spare l s) = ac_retainedFrame s"
  "ac_width (keep_spare l s) = ac_width s" "ac_height (keep_spare l s) = ac_height s" "ac_stride (keep_spare l s) = ac_stride s"
  "ac_rendererGeneration (keep_spare l s) = ac_rendererGeneration s"
  "ac_pendingDamage (keep_spare l s) = ac_pendingDamage s" "ac_pendingFullFrame (keep_spare l s) = ac_pendingFullFrame s"
  "ac_stagingNeedsFullResync (keep_spare l s) = ac_stagingNeedsFullResync s"
  "ac_stagingHasCurrentFrame (keep_spare l s) = ac_stagingHasCurrentFrame s"
  "ac_stagingVersion (keep_spare l s) = ac_stagingVersion s"
  "ac_retainedFrameVersion (keep_spare l s) = ac_retainedFrameVersion s"
  by (simp_all add: keep_spare_def)

lemma recycle_simps [simp]:
  "ac_width (recycleSnapshot sn s) = ac_width s" "ac_height (recycleSnapshot sn s) = ac_height s"
  "ac_stride (recycleSnapshot sn s) = ac_stride s" "ac_rendererGeneration (recycleSnapshot sn s) = ac_rendererGeneration s"
  "ac_pendingDamage (recycleSnapshot sn s) = ac_pendingDamage s"
  "ac_pendingFullFrame (recycleSnapshot sn s) = ac_pendingFullFrame s"
  "ac_stagingVersion (recycleSnapshot sn s) = ac_stagingVersion s"
  by (auto simp: recycleSnapshot_def retain_def Let_def)

lemma recycle_dirty: "\<not> sn_fullFrame sn \<Longrightarrow> recycleSnapshot sn s = s \<or>
  recycleSnapshot sn s = s\<lparr>ac_dirtySnapshotScratch := sn_pixels sn\<rparr>"
  by (simp add: recycleSnapshot_def)

lemma recycle_version:
  "ac_retainedFrameVersion s \<le> v \<Longrightarrow> sn_fullFrame sn \<longrightarrow> sn_sourceVersion sn \<le> v \<Longrightarrow> ac_retainedFrameVersion (recycleSnapshot sn s) \<le> v"
  by (auto simp: recycleSnapshot_def retain_def Let_def)

text \<open>The buffer given back finds its place: the newer one of it and the staging buffer is the desktop.\<close>

lemma recycle_full:
  assumes b: "buffers_ok s (Some sn) surface" and sn: "sn_valid sn" "sn_fullFrame sn" and n: "\<not> ac_stagingNeedsFullResync s"
  shows "buffers_ok (recycleSnapshot sn s) None surface"
proof (cases "ac_stagingHasCurrentFrame s")
  case True
  then have newer: "ac_stagingVersion s \<noteq> sn_sourceVersion sn" using b by (auto simp: buffers_ok_def)
  have "ac_stagingHasCurrentFrame (recycleSnapshot sn s)" "ac_staging (recycleSnapshot sn s) = ac_staging s"
      "\<not> ac_stagingNeedsFullResync (recycleSnapshot sn s)"
    using True newer n by (auto simp: recycleSnapshot_def retain_def Let_def)
  then show ?thesis using b True by (auto simp: buffers_ok_def)
next
  case False
  then have e: "sn_pixels sn = surface" "sn_rendererGeneration sn = ac_rendererGeneration s"
      "sn_fromRetainedFrame sn \<or> sn_retainOnRecycle sn \<or> ac_staging s \<noteq> []"
      "length surface = frameBytes (ac_width s) (ac_height s)" "0 < ac_width s" "0 < ac_height s"
    using b by (auto simp: buffers_ok_def)
  have "surface \<noteq> []" using e(4,5,6) by (auto simp: frameBytes_def)
  then have "ac_stagingHasCurrentFrame (recycleSnapshot sn s) \<and> ac_staging (recycleSnapshot sn s) = surface \<and>
        \<not> ac_stagingNeedsFullResync (recycleSnapshot sn s) \<or>
      \<not> ac_stagingHasCurrentFrame (recycleSnapshot sn s) \<and> ac_stagingNeedsFullResync (recycleSnapshot sn s) \<and>
        ac_retainedFrame (recycleSnapshot sn s) = surface"
    using False n e(1-4) sn by (auto simp: recycleSnapshot_def retain_def Let_def)
  then show ?thesis using b by (auto simp: buffers_ok_def)
qed

lemma inv_recycle:
  assumes inv: "desk_inv d" and ph: "dk_phase d = Presented sn"
  shows "desk_inv (d\<lparr>dk_acc := recycleSnapshot sn (dk_acc d), dk_phase := Idle\<rparr>)"
proof -
  let ?s = "dk_acc d"
  have v: "versions_ok d" using inv by (simp add: desk_inv_def)
  have sn: "sn_valid sn" "sn_fullFrame sn \<Longrightarrow> sn_sourceVersion sn \<le> ac_stagingVersion ?s \<and> \<not> ac_stagingNeedsFullResync ?s"
    using v ph by (auto simp: versions_ok_def)
  have vers: "versions_ok (d\<lparr>dk_acc := recycleSnapshot sn ?s, dk_phase := Idle\<rparr>)"
    using v sn(2) recycle_version [of ?s "ac_stagingVersion ?s" sn] by (auto simp: versions_ok_def)
  have "buffers_ok (recycleSnapshot sn ?s) None (dk_surface d)" if s: "synced d"
  proof (cases "sn_fullFrame sn")
    case True
    then show ?thesis using inv s ph recycle_full [OF _ sn(1) True] sn(2) by (simp add: desk_inv_def)
  next
    case False
    then have "buffers_ok ?s None (dk_surface d)" using inv s ph by (simp add: desk_inv_def)
    then show ?thesis using recycle_dirty [OF False, of ?s] by (auto simp: buffers_ok_def)
  qed
  then show ?thesis
    using inv vers ph by (auto simp: desk_inv_def synced_def shows_outside_def)
qed

lemma desk_step_paints: "desk_step e d d' \<Longrightarrow> dk_paints d \<le> dk_paints d'"
  by (induction rule: desk_step.induct) auto

lemma desk_step_valid: "desk_step e d d' \<Longrightarrow> phase_valid d \<Longrightarrow> phase_valid d'"
  by (induction rule: desk_step.induct) (auto simp: phase_valid_def split: if_splits)

lemma desk_inv_step:
  "desk_step e d d' \<Longrightarrow> \<not> disturbs (e, d) \<Longrightarrow> desk_inv d \<Longrightarrow> dk_paints d' < 2 ^ 64 \<Longrightarrow> desk_inv d'"
proof (induction rule: desk_step.induct)
  case (paint oks d px w h stride x y dw dh gen resync a res unqueued)
  then show ?case by (intro inv_paint) (simp_all add: disturbs_def)
next
  case (refresh d gen "done" a)
  then show ?case by (intro inv_refresh) (auto simp: disturbs_def)
next
  case (clear d)
  then show ?case by (intro inv_clear) (simp_all add: disturbs_def desk_inv_def versions_ok_def phase_valid_def)
qed (simp_all add: inv_missed inv_take inv_present inv_rejected inv_recycle)

lemma desk_run_append:
  "desk_run d0 (tr1 @ tr2) d \<Longrightarrow> \<exists>d1. desk_run d0 tr1 d1 \<and> desk_run d1 tr2 d"
proof (induction tr2 arbitrary: d rule: rev_induct)
  case Nil
  then show ?case by (auto intro: run_start)
next
  case (snoc x tr2)
  from snoc.prems obtain e d2 where "desk_run d0 (tr1 @ tr2) d2" "desk_step e d2 d" "x = (e, d2)"
    by (cases rule: desk_run.cases) auto
  with snoc.IH show ?case by (blast intro: run_step)
qed

lemma desk_run_valid: "desk_run d0 tr d \<Longrightarrow> phase_valid d0 \<Longrightarrow> phase_valid d"
  by (induction rule: desk_run.induct) (auto intro: desk_step_valid)

lemma desk_run_inv:
  "desk_run d0 tr d \<Longrightarrow> desk_inv d0 \<Longrightarrow> \<forall>ed\<in>set tr. \<not> disturbs ed \<Longrightarrow> dk_paints d < 2 ^ 64 \<Longrightarrow> desk_inv d"
proof (induction rule: desk_run.induct)
  case (run_step tr d e d')
  have "dk_paints d < 2 ^ 64" using desk_step_paints [OF run_step.hyps(2)] run_step.prems(3) by simp
  then have "desk_inv d" using run_step by simp
  then show ?case using desk_inv_step [OF run_step.hyps(2)] run_step.prems by simp
qed simp

lemma fresh_start_inv:
  assumes "desk_run (new_desk screen limit) before d" "fresh_start before"
  shows "desk_inv d"
  using assms(2) unfolding fresh_start_def
proof (elim disjE exE conjE)
  assume "before = []"
  with assms(1) show ?thesis by (cases rule: desk_run.cases) (auto intro: desk_inv_new)
next
  fix tr0 d1
  assume tr: "before = tr0 @ [(Clear, d1)]" "full_out (dk_phase d1) = None"
  with assms(1) have "desk_run (new_desk screen limit) tr0 d1" "desk_step Clear d1 d"
    by (auto elim: desk_run.cases)
  moreover have "phase_valid (new_desk screen limit)" by (simp add: phase_valid_def new_desk_def)
  ultimately show ?thesis
    using inv_clear [OF desk_run_valid tr(2)] by (auto elim: desk_stepE)
qed

section \<open>The properties\<close>

text \<open>
  C29. The screen follows the desktop, as long as nothing disturbs the accumulator. Take any interleaving of
  paints, refreshes, clears and the snapshots of one worker, and the part of it since the start or since a
  clear that found no full snapshot out (each session and each resize begins with one). If in that part every
  paint changes only what it reports, no refresh asks for another renderer generation and nothing clears while
  a full snapshot is out, then, whenever the worker is idle and no full paint is owed (after a refused or
  unqueued paint or a rejected snapshot the next paint is full), the next snapshot makes the screen of the
  current renderer equal to the desktop of the last accepted paint, and when nothing is pending the screen
  already is that desktop. The versions do not wrap (fewer than \<open>2 ^ 64\<close> paints).
\<close>

theorem screen_follows_desktop:
  assumes "desk_run (new_desk screen limit) (before @ since) d" "fresh_start before"
    and "\<forall>ed\<in>set since. \<not> disturbs ed" "dk_paints d < 2 ^ 64"
    and "\<not> dk_force d" "0 < ac_width (dk_acc d)" "dk_phase d = Idle"
  shows "(sn_valid (snd (takeSnapshot ok (dk_acc d))) \<longrightarrow>
      shown (snd (takeSnapshot ok (dk_acc d))) (dk_screen d (ac_rendererGeneration (dk_acc d))) = dk_surface d \<and>
      sn_rendererGeneration (snd (takeSnapshot ok (dk_acc d))) = ac_rendererGeneration (dk_acc d)) \<and>
    (\<not> hasPending (dk_acc d) \<longrightarrow> dk_screen d (ac_rendererGeneration (dk_acc d)) = dk_surface d)"
proof -
  obtain a sn where t: "takeSnapshot ok (dk_acc d) = (a, sn)" by (cases "takeSnapshot ok (dk_acc d)")
  obtain d1 where d1: "desk_run (new_desk screen limit) before d1" "desk_run d1 since d"
    using desk_run_append [OF assms(1)] by blast
  have inv: "desk_inv d" by (rule desk_run_inv [OF d1(2) fresh_start_inv [OF d1(1) assms(2)] assms(3,4)])
  have exact: "scr = surface" if "shows_outside s surface scr" "\<not> dr_valid (ac_pendingDamage s)" "\<not> ac_pendingFullFrame s"
    for s surface scr using that by (auto simp: shows_outside_def inside_def intro: nth_equalityI)
  have "shown sn (dk_screen d (ac_rendererGeneration (dk_acc d))) = dk_surface d \<and>
      sn_rendererGeneration sn = ac_rendererGeneration (dk_acc d)" if v: "sn_valid sn"
  proof -
    have after: "\<not> dr_valid (ac_pendingDamage a)" "\<not> ac_pendingFullFrame a" "ac_width a = ac_width (dk_acc d)"
        "ac_rendererGeneration a = ac_rendererGeneration (dk_acc d)" "sn_rendererGeneration sn = ac_rendererGeneration (dk_acc d)"
      using t v by (cases rule: takeSnapshot_cases; use full_snapshot_result in \<open>fastforce simp: no_damage_def\<close>)+
    have "desk_inv (d\<lparr>dk_acc := a, dk_phase := Taken sn\<rparr>)" using inv_take [OF inv assms(7) t] v by simp
    then have "shows_outside a (dk_surface d) (shown sn (dk_screen d (ac_rendererGeneration (dk_acc d))))"
      using assms(5,6) after by (simp add: desk_inv_def synced_def)
    from exact [OF this after(1,2)] show ?thesis using after(5) by simp
  qed
  moreover have "dk_screen d (ac_rendererGeneration (dk_acc d)) = dk_surface d" if "\<not> hasPending (dk_acc d)"
  proof -
    have "shows_outside (dk_acc d) (dk_surface d) (dk_screen d (ac_rendererGeneration (dk_acc d)))"
        "\<not> ac_pendingFullFrame (dk_acc d)"
      using inv assms(5,6,7) that by (auto simp: desk_inv_def synced_def buffers_ok_def hasPending_def)
    then show ?thesis using exact that by (simp add: hasPending_def)
  qed
  ultimately show ?thesis by (simp add: t)
qed

lemma first_paint:
  "case acc_update (True, True, True) (setSnapshotAllocationLimitForTest 100 new_damage_accumulator) (Some [1, 2, 3, 4]) 1 1 4 0 0 1 1 7 True of
     (a, res) \<Rightarrow> ur_accepted res \<and> ac_width a = 1 \<and> sn_valid (snd (takeSnapshot True a)) \<and> tight [1, 2, 3, 4] 1 1 4 = [1, 2, 3, 4]"
  by code_simp

lemma screen_follows_desktop_witness:
  "\<exists>tr d. desk_run (new_desk (\<lambda>g. []) 100) tr d \<and> dk_surface d = [1, 2, 3, 4] \<and>
     sn_valid (snd (takeSnapshot True (dk_acc d))) \<and>
     shown (snd (takeSnapshot True (dk_acc d))) (dk_screen d (ac_rendererGeneration (dk_acc d))) = [1, 2, 3, 4]"
proof -
  let ?d0 = "new_desk (\<lambda>g. []) 100"
  obtain a res where u: "acc_update (True, True, True) (dk_acc ?d0) (Some [1, 2, 3, 4]) 1 1 4 0 0 1 1 7 (dk_force ?d0 \<or> True) = (a, res)"
    by (metis prod.exhaust)
  then have f: "ur_accepted res" "ac_width a = 1" "sn_valid (snd (takeSnapshot True a))" "tight [1, 2, 3, 4] 1 1 4 = [1, 2, 3, 4]"
    using first_paint by (simp_all add: new_desk_def)
  define d where "d = ?d0\<lparr>dk_acc := a, dk_force := (\<not> ur_accepted res \<or> False), dk_paints := Suc (dk_paints ?d0),
    dk_surface := (if ur_accepted res then tight [1, 2, 3, 4] 1 1 4 else dk_surface ?d0)\<rparr>"
  let ?e = "Paint [1, 2, 3, 4] 1 1 4 (ClipRect 1 1 0 0 1 1)"
  have "desk_step ?e ?d0 d"
    unfolding d_def by (rule desk_step.paint [OF u])
  then have r: "desk_run ?d0 ([] @ [(?e, ?d0)]) d" by (intro run_step run_start)
  have q: "fresh_start []" "\<forall>ed\<in>set [(?e, ?d0)]. \<not> disturbs ed"
    by (simp_all add: fresh_start_def disturbs_def honest_def new_desk_def)
  have d: "dk_acc d = a" "dk_surface d = [1, 2, 3, 4]" "dk_paints d < 2 ^ 64" "\<not> dk_force d" "0 < ac_width (dk_acc d)" "dk_phase d = Idle"
    using f by (simp_all add: d_def new_desk_def)
  from screen_follows_desktop [OF r q d(3-6), of True] r f(3) d(1,2) show ?thesis by auto
qed

text \<open>
  The exclusion of a refresh for another renderer is needed, and the code does not enforce it. When the renderer is replaced while a full snapshot is out, that snapshot is
  dropped, and the refresh for the new renderer is served from the retained buffer although its version is 0: here
  it has never held a frame, and four zero bytes are presented in place of the desktop.
\<close>

lemma refresh_presents_unused_buffer:
  "let (a1, res) = acc_update (True, True, True) (setSnapshotAllocationLimitForTest 100 new_damage_accumulator) (Some [1, 2, 3, 4]) 1 1 4 0 0 1 1 7 True;
       (a2, out) = takeSnapshot True a1; (granted, a3) = requestFullSnapshot a2 8;
       a4 = recycleSnapshot out a3; (a5, sn) = takeSnapshot True a4
   in ur_accepted res \<and> sn_pixels out = [1, 2, 3, 4] \<and> granted \<and> sn_valid sn \<and> sn_fullFrame sn \<and>
      sn_rendererGeneration sn = 8 \<and> ac_retainedFrameVersion a4 = 0 \<and> sn_pixels sn = [0, 0, 0, 0]"
  by code_simp

end
