(* ===== verification/Ssh_Prompt.thy ===== *)
theory Ssh_Prompt
  imports Prelude
begin

text \<open>
  The broker between the SSH owner thread and the user interface (\<open>ssh/ssh_auth_prompt_broker.h\<close>): the owner
  publishes one prompt and waits, the user interface reads it and answers or cancels. Each critical section is
  one operation on the broker; the wait ends when one of the flags is set or the deadline has passed. Points of
  time are nanoseconds. Where strings with secrets are freed, the operation returns what the freed buffers hold.
\<close>

section \<open>Requests and answers\<close>

record auth_prompt =
  ap_text :: string
  ap_echo :: bool

record prompt_request =
  rq_schemaVersion :: u32
  rq_requestId :: u64
  rq_sessionId :: u64
  rq_generation :: u64
  rq_targetHost :: string
  rq_hop :: string
  rq_round :: u32
  rq_name :: string
  rq_instruction :: string
  rq_prompts :: "auth_prompt list"
  rq_expiresAtMs :: u64
  rq_kind :: string
  rq_trustHostId :: string
  rq_routeIdentity :: string
  rq_endpointHost :: string
  rq_endpointPort :: int
  rq_hostKeyHopIndex :: int
  rq_hostKeyAlgorithm :: string
  rq_hostKeyFingerprintSha256 :: string
  rq_hostKeyRawBase64 :: string
  rq_expectedHostKeyFingerprintSha256 :: string
  rq_hostKeyChanged :: bool

definition default_request :: prompt_request where
  "default_request = \<lparr>rq_schemaVersion = 1, rq_requestId = 0, rq_sessionId = 0, rq_generation = 0, rq_targetHost = [],
     rq_hop = [], rq_round = 0, rq_name = [], rq_instruction = [], rq_prompts = [], rq_expiresAtMs = 0,
     rq_kind = ''keyboard_interactive'', rq_trustHostId = [], rq_routeIdentity = [], rq_endpointHost = [],
     rq_endpointPort = 0, rq_hostKeyHopIndex = -1, rq_hostKeyAlgorithm = [], rq_hostKeyFingerprintSha256 = [],
     rq_hostKeyRawBase64 = [], rq_expectedHostKeyFingerprintSha256 = [], rq_hostKeyChanged = False\<rparr>"

record prompt_response =
  rs_schemaVersion :: u32
  rs_requestId :: u64
  rs_sessionId :: u64
  rs_generation :: u64
  rs_responses :: "string list"
  rs_cancelled :: bool

text \<open>\<open>sshWipeSensitiveString\<close>: the bytes are overwritten, the length stays.\<close>

definition sshWipeSensitiveString :: "string \<Rightarrow> string" where
  "sshWipeSensitiveString v = replicate (length v) (CHR 0x00)"

definition sshWipeSensitiveStrings :: "string list \<Rightarrow> string list" where
  "sshWipeSensitiveStrings vs = map sshWipeSensitiveString vs"

definition wipeResponses :: "prompt_response \<Rightarrow> prompt_response" where
  "wipeResponses r = r\<lparr>rs_responses := sshWipeSensitiveStrings (rs_responses r)\<rparr>"

datatype wait_result = Responded | Cancelled | TimedOut | Closed

section \<open>The broker\<close>

record broker =
  bk_pending :: bool
  bk_responseReady :: bool
  bk_cancelled :: bool
  bk_closed :: bool
  bk_nextRequestId :: u64
  bk_round :: u32
  bk_pendingRequest :: prompt_request
  bk_responseValues :: "string list"

definition new_broker :: broker where
  "new_broker = \<lparr>bk_pending = False, bk_responseReady = False, bk_cancelled = False, bk_closed = False,
     bk_nextRequestId = 0, bk_round = 0, bk_pendingRequest = default_request, bk_responseValues = []\<rparr>"

definition kMaxPrompts :: nat where "kMaxPrompts = 32"
definition kMaxPromptBytes :: nat where "kMaxPromptBytes = 4096"
definition kTimeout :: int where "kTimeout = 120 * 1000000000"

definition bounded :: "string \<Rightarrow> nat \<Rightarrow> string" where
  "bounded v maxLength = take maxLength v"

text \<open>\<open>bounded\<close> of a pointer and a length: \<open>None\<close> is the null pointer.\<close>

definition bounded_ptr :: "string option \<Rightarrow> int \<Rightarrow> nat \<Rightarrow> string" where
  "bounded_ptr v len maxLength =
     (case v of None \<Rightarrow> [] | Some s \<Rightarrow> if len \<le> 0 then [] else take (min (nat len) maxLength) s)"

definition clearPendingLocked :: "broker \<Rightarrow> broker \<times> string list" where
  "clearPendingLocked b =
     (b\<lparr>bk_pending := False, bk_responseReady := False, bk_responseValues := [], bk_pendingRequest := default_request\<rparr>,
      sshWipeSensitiveStrings (bk_responseValues b))"

text \<open>
  The first critical section of both waits: a result without waiting, or the broker with the request published
  and what \<open>responseValues_.clear()\<close> frees.
\<close>

definition publish :: "(u64 \<Rightarrow> u32 \<Rightarrow> prompt_request) \<Rightarrow> broker \<Rightarrow> wait_result + prompt_request \<times> broker \<times> string list" where
  "publish mk b =
     (if bk_closed b \<or> bk_pending b then Inl (if bk_closed b then Closed else Cancelled)
      else let request = mk (bk_nextRequestId b + 1) (bk_round b + 1)
        in Inr (request, b\<lparr>bk_nextRequestId := bk_nextRequestId b + 1, bk_round := bk_round b + 1,
             bk_pendingRequest := request, bk_pending := True, bk_responseReady := False, bk_cancelled := False,
             bk_responseValues := []\<rparr>, bk_responseValues b))"

definition expires_at :: "u64 \<Rightarrow> int \<Rightarrow> u64" where
  "expires_at nowMs remainingNs = nowMs + of_int (max 0 (remainingNs div 1000000))"

definition text_request ::
    "u64 \<Rightarrow> u64 \<Rightarrow> string \<Rightarrow> string \<Rightarrow> string option \<Rightarrow> int \<Rightarrow> string option \<Rightarrow> int \<Rightarrow> auth_prompt list \<Rightarrow> u64 \<Rightarrow>
     u64 \<Rightarrow> u32 \<Rightarrow> prompt_request" where
  "text_request sessionId generation targetHost hop name nameLen instruction instructionLen prompts expires requestId round =
     default_request\<lparr>rq_requestId := requestId, rq_sessionId := sessionId, rq_generation := generation,
       rq_targetHost := bounded targetHost 255, rq_hop := bounded hop 96, rq_round := round,
       rq_name := bounded_ptr name nameLen 512, rq_instruction := bounded_ptr instruction instructionLen 4096,
       rq_prompts := take kMaxPrompts prompts, rq_expiresAtMs := expires\<rparr>"

text \<open>
  The wait first overwrites and clears the caller's vector. The result is that vector, the buffers the
  clearing frees, and a result without waiting or the published request.
\<close>

definition start_waitForResponse ::
    "int \<Rightarrow> int \<Rightarrow> u64 \<Rightarrow> u64 \<Rightarrow> u64 \<Rightarrow> string \<Rightarrow> string \<Rightarrow> string option \<Rightarrow> int \<Rightarrow> string option \<Rightarrow> int \<Rightarrow> auth_prompt list \<Rightarrow>
     string list \<Rightarrow> broker \<Rightarrow> string list \<times> string list \<times> (wait_result + prompt_request \<times> broker \<times> string list)" where
  "start_waitForResponse startedAt absoluteDeadline nowMs sessionId generation targetHost hop name nameLen
       instruction instructionLen prompts responses b =
     ([], sshWipeSensitiveStrings responses,
      if prompts = [] then Inl Responded
      else let deadline = min (startedAt + kTimeout) absoluteDeadline
        in if deadline \<le> startedAt then Inl TimedOut
           else publish (text_request sessionId generation targetHost hop name nameLen instruction instructionLen prompts
             (expires_at nowMs (deadline - startedAt))) b)"

record host_key =
  hk_trustHostId :: string
  hk_routeIdentity :: string
  hk_endpointHost :: string
  hk_endpointPort :: int
  hk_hopIndex :: int
  hk_algorithm :: string
  hk_fingerprintSha256 :: string
  hk_rawBase64 :: string
  hk_expectedFingerprintSha256 :: string
  hk_changed :: bool

definition host_key_request :: "u64 \<Rightarrow> u64 \<Rightarrow> string \<Rightarrow> string \<Rightarrow> host_key \<Rightarrow> u64 \<Rightarrow> u64 \<Rightarrow> u32 \<Rightarrow> prompt_request" where
  "host_key_request sessionId generation targetHost hop k expires requestId round =
     default_request\<lparr>rq_requestId := requestId, rq_sessionId := sessionId, rq_generation := generation,
       rq_targetHost := bounded targetHost 255, rq_hop := bounded hop 96, rq_round := round, rq_kind := ''host_key'',
       rq_trustHostId := bounded (hk_trustHostId k) 128, rq_routeIdentity := bounded (hk_routeIdentity k) 4096,
       rq_endpointHost := bounded (hk_endpointHost k) 255, rq_endpointPort := hk_endpointPort k,
       rq_hostKeyHopIndex := hk_hopIndex k, rq_hostKeyAlgorithm := bounded (hk_algorithm k) 96,
       rq_hostKeyFingerprintSha256 := bounded (hk_fingerprintSha256 k) 255,
       rq_hostKeyRawBase64 := bounded (hk_rawBase64 k) (64 * 1024),
       rq_expectedHostKeyFingerprintSha256 := bounded (hk_expectedFingerprintSha256 k) 255,
       rq_hostKeyChanged := hk_changed k, rq_expiresAtMs := expires\<rparr>"

definition start_waitForHostKeyDecision ::
    "int \<Rightarrow> int \<Rightarrow> u64 \<Rightarrow> u64 \<Rightarrow> u64 \<Rightarrow> string \<Rightarrow> string \<Rightarrow> host_key \<Rightarrow> broker \<Rightarrow>
     wait_result + prompt_request \<times> broker \<times> string list" where
  "start_waitForHostKeyDecision startedAt absoluteDeadline nowMs sessionId generation targetHost hop k b =
     (let deadline = min (startedAt + kTimeout) absoluteDeadline
      in if deadline \<le> startedAt then Inl TimedOut
         else publish (host_key_request sessionId generation targetHost hop k (expires_at nowMs (deadline - startedAt))) b)"

text \<open>
  The loop over the condition variable is left when \<open>wait_over\<close> holds or at the deadline; the rest runs under the
  same lock. A host key decision leaves the values to \<open>clearPendingLocked\<close>.
\<close>

definition wait_over :: "broker \<Rightarrow> bool" where
  "wait_over b \<longleftrightarrow> bk_responseReady b \<or> bk_cancelled b \<or> bk_closed b"

definition wait_outcome :: "broker \<Rightarrow> wait_result" where
  "wait_outcome b = (if bk_closed b then Closed else if bk_cancelled b then Cancelled
     else if \<not> bk_responseReady b then TimedOut else Responded)"

text \<open>\<open>responses\<close> is the caller's vector, which is swapped with the values of the answer.\<close>

definition finish_waitForResponse :: "string list \<Rightarrow> broker \<Rightarrow> wait_result \<times> string list \<times> broker \<times> string list" where
  "finish_waitForResponse responses b =
     (if wait_outcome b = Responded
      then (Responded, bk_responseValues b, clearPendingLocked (b\<lparr>bk_responseValues := responses\<rparr>))
      else (wait_outcome b, responses, clearPendingLocked b))"

definition finish_waitForHostKeyDecision :: "broker \<Rightarrow> wait_result \<times> string list \<times> broker \<times> string list" where
  "finish_waitForHostKeyDecision b = (wait_outcome b, [], clearPendingLocked b)"

definition prompt_snapshot :: "broker \<Rightarrow> prompt_request option" where
  "prompt_snapshot b = (if \<not> bk_pending b \<or> bk_closed b then None else Some (bk_pendingRequest b))"

text \<open>\<open>respond\<close>: the values of a response that is not taken are wiped by its destructor.\<close>

definition respond :: "prompt_response \<Rightarrow> broker \<Rightarrow> bool \<times> broker \<times> string list" where
  "respond r b =
     (if \<not> bk_pending b \<or> bk_closed b \<or> rs_requestId r \<noteq> rq_requestId (bk_pendingRequest b) \<or>
         rs_sessionId r \<noteq> rq_sessionId (bk_pendingRequest b) \<or> rs_generation r \<noteq> rq_generation (bk_pendingRequest b) \<or>
         rs_cancelled r \<or> bk_responseReady b \<or> length (rs_responses r) \<noteq> length (rq_prompts (bk_pendingRequest b))
      then (False, b, rs_responses (wipeResponses r))
      else if list_ex (\<lambda>v. length v > kMaxPromptBytes) (rs_responses r) then (False, b, rs_responses (wipeResponses r))
      else (True, b\<lparr>bk_responseValues := rs_responses r, bk_responseReady := True\<rparr>,
            sshWipeSensitiveStrings (bk_responseValues b)))"

definition cancel_prompt :: "u64 \<Rightarrow> u64 \<Rightarrow> u64 \<Rightarrow> broker \<Rightarrow> bool \<times> broker" where
  "cancel_prompt requestId sessionId generation b =
     (if \<not> bk_pending b \<or> bk_closed b \<or> requestId \<noteq> rq_requestId (bk_pendingRequest b) \<or>
         sessionId \<noteq> rq_sessionId (bk_pendingRequest b) \<or> generation \<noteq> rq_generation (bk_pendingRequest b)
      then (False, b) else (True, b\<lparr>bk_cancelled := True\<rparr>))"

definition cancelAll :: "broker \<Rightarrow> broker" where
  "cancelAll b = b\<lparr>bk_cancelled := True\<rparr>"

definition broker_close :: "broker \<Rightarrow> broker \<times> string list" where
  "broker_close b = clearPendingLocked (b\<lparr>bk_closed := True, bk_cancelled := True\<rparr>)"

definition resetForNewConnection :: "broker \<Rightarrow> broker \<times> string list" where
  "resetForNewConnection b = clearPendingLocked (b\<lparr>bk_closed := False, bk_cancelled := False, bk_round := 0\<rparr>)"

section \<open>The owner and the user interface\<close>

text \<open>
  One owner thread opens connections, asks and waits; any other thread answers, cancels or closes at any time.
  Each step may record what happened and which buffers were freed.
\<close>

datatype owner = Running | InPrompt bool prompt_request

datatype event =
  Asked prompt_request
| Accepted prompt_response
| Stopped
| Returned bool wait_result "string list"

record session =
  se_broker :: broker
  se_owner :: owner
  se_values :: "string list"
  se_log :: "event list"
  se_freed :: "string list"

definition new_session :: session where
  "new_session = \<lparr>se_broker = new_broker, se_owner = Running, se_values = [], se_log = [], se_freed = []\<rparr>"

text \<open>
  A cancellation counts from the owner's view while it waits: \<open>stopped\<close> records it then.
\<close>

definition stopped :: "session \<Rightarrow> event list" where
  "stopped s = (if se_owner s = Running then [] else [Stopped])"

inductive session_step :: "session \<Rightarrow> session \<Rightarrow> bool" where
  ask_text: "se_owner s = Running \<Longrightarrow>
    start_waitForResponse startedAt limit nowMs sid gen host hop name nameLen instr instrLen prompts responses (se_broker s) =
      (values, fr1, Inr (q, b, fr2)) \<Longrightarrow>
    session_step s (s\<lparr>se_broker := b, se_owner := InPrompt True q, se_values := values, se_log := se_log s @ [Asked q],
      se_freed := se_freed s @ fr1 @ fr2\<rparr>)"
| ask_nothing: "se_owner s = Running \<Longrightarrow>
    start_waitForResponse startedAt limit nowMs sid gen host hop name nameLen instr instrLen prompts responses (se_broker s) =
      (values, fr1, Inl res) \<Longrightarrow>
    session_step s (s\<lparr>se_values := values, se_freed := se_freed s @ fr1\<rparr>)"
| ask_host_key: "se_owner s = Running \<Longrightarrow>
    start_waitForHostKeyDecision startedAt limit nowMs sid gen host hop k (se_broker s) = Inr (q, b, fr) \<Longrightarrow>
    session_step s (s\<lparr>se_broker := b, se_owner := InPrompt False q, se_log := se_log s @ [Asked q], se_freed := se_freed s @ fr\<rparr>)"
| return_text: "se_owner s = InPrompt True q \<Longrightarrow> wait_over (se_broker s) \<or> timeout \<Longrightarrow>
    finish_waitForResponse (se_values s) (se_broker s) = (res, values, b, fr) \<Longrightarrow>
    session_step s (s\<lparr>se_broker := b, se_owner := Running, se_values := values, se_log := se_log s @ [Returned True res values], se_freed := se_freed s @ fr\<rparr>)"
| return_host_key: "se_owner s = InPrompt False q \<Longrightarrow> wait_over (se_broker s) \<or> timeout \<Longrightarrow>
    finish_waitForHostKeyDecision (se_broker s) = (res, values, b, fr) \<Longrightarrow>
    session_step s (s\<lparr>se_broker := b, se_owner := Running, se_log := se_log s @ [Returned False res values], se_freed := se_freed s @ fr\<rparr>)"
| reset: "se_owner s = Running \<Longrightarrow> resetForNewConnection (se_broker s) = (b, fr) \<Longrightarrow>
    session_step s (s\<lparr>se_broker := b, se_freed := se_freed s @ fr\<rparr>)"
| answer: "respond r (se_broker s) = (taken, b, fr) \<Longrightarrow>
    session_step s (s\<lparr>se_broker := b, se_log := se_log s @ (if taken then [Accepted r] else []), se_freed := se_freed s @ fr\<rparr>)"
| cancel: "cancel_prompt rid sid gen (se_broker s) = (ok, b) \<Longrightarrow>
    session_step s (s\<lparr>se_broker := b, se_log := se_log s @ (if ok then stopped s else [])\<rparr>)"
| cancel_all: "session_step s (s\<lparr>se_broker := cancelAll (se_broker s), se_log := se_log s @ stopped s\<rparr>)"
| close: "broker_close (se_broker s) = (b, fr) \<Longrightarrow>
    session_step s (s\<lparr>se_broker := b, se_log := se_log s @ stopped s, se_freed := se_freed s @ fr\<rparr>)"

section \<open>What a history may look like\<close>

text \<open>
  The specification reads the log: between a prompt and its end there is at most one answer, to that prompt, with
  one value per question and no value too long; the owner gets exactly these values, and it gets none when a
  cancellation came at any moment of the wait, before or after the answer.
\<close>

definition answers :: "prompt_response \<Rightarrow> prompt_request \<Rightarrow> bool" where
  "answers r q \<longleftrightarrow> rs_requestId r = rq_requestId q \<and> rs_sessionId r = rq_sessionId q \<and> rs_generation r = rq_generation q \<and>
     \<not> rs_cancelled r \<and> length (rs_responses r) = length (rq_prompts q) \<and> (\<forall>v\<in>set (rs_responses r). length v \<le> kMaxPromptBytes)"

datatype round = Quiet | Open prompt_request "prompt_response option" bool | Broken

fun read_event :: "round \<Rightarrow> event \<Rightarrow> round" where
  "read_event Quiet (Asked q) = Open q None False"
| "read_event (Open q None stop) (Accepted r) = (if answers r q then Open q (Some r) stop else Broken)"
| "read_event (Open q a stop) Stopped = Open q a True"
| "read_event (Open q a stop) (Returned kbi res values) =
     (if (res = Responded \<longleftrightarrow> \<not> stop \<and> a \<noteq> None) \<and>
         values = (if res = Responded \<and> kbi then (case a of Some r \<Rightarrow> rs_responses r | None \<Rightarrow> []) else [])
      then Quiet else Broken)"
| "read_event _ _ = Broken"

definition well_formed_history :: "event list \<Rightarrow> bool" where
  "well_formed_history es \<longleftrightarrow> foldl read_event Quiet es \<noteq> Broken"

definition wiped :: "string \<Rightarrow> bool" where
  "wiped v \<longleftrightarrow> list_all (\<lambda>c. c = CHR 0x00) v"

section \<open>The invariant\<close>

fun round_ok :: "owner \<Rightarrow> round \<Rightarrow> broker \<Rightarrow> bool" where
  "round_ok Running Quiet b \<longleftrightarrow> \<not> bk_pending b \<and> \<not> bk_responseReady b \<and> bk_responseValues b = []"
| "round_ok (InPrompt kbi q) (Open q' a stop) b \<longleftrightarrow> q' = q \<and> (stop \<longleftrightarrow> bk_cancelled b \<or> bk_closed b) \<and>
     (bk_pending b \<longrightarrow> bk_pendingRequest b = q) \<and> (\<not> bk_pending b \<longrightarrow> bk_closed b) \<and>
     (bk_closed b \<or> (bk_responseReady b \<longleftrightarrow> a \<noteq> None)) \<and>
     (bk_responseReady b \<longrightarrow> bk_pending b \<and> (\<exists>r. a = Some r \<and> bk_responseValues b = rs_responses r)) \<and>
     (\<not> bk_responseReady b \<longrightarrow> bk_responseValues b = [])"
| "round_ok _ _ _ \<longleftrightarrow> False"

definition session_inv :: "session \<Rightarrow> bool" where
  "session_inv s \<longleftrightarrow> round_ok (se_owner s) (foldl read_event Quiet (se_log s)) (se_broker s) \<and>
     ((\<exists>q. se_owner s = InPrompt True q) \<longrightarrow> se_values s = []) \<and> list_all wiped (se_freed s)"

lemma wiped_strings [simp]: "list_all wiped (sshWipeSensitiveStrings vs)"
  by (simp add: sshWipeSensitiveStrings_def sshWipeSensitiveString_def wiped_def list_all_iff)

lemma wipe_nothing [simp]: "sshWipeSensitiveStrings [] = []"
  by (simp add: sshWipeSensitiveStrings_def)

lemma session_inv_new: "session_inv new_session"
  by (simp add: session_inv_def new_session_def new_broker_def)

lemma round_running: "round_ok Running r b \<longleftrightarrow> r = Quiet \<and> \<not> bk_pending b \<and> \<not> bk_responseReady b \<and> bk_responseValues b = []"
  by (cases r) simp_all

lemma prompt_round:
  assumes "session_inv s" "se_owner s = InPrompt kbi q"
  obtains a stop where "foldl read_event Quiet (se_log s) = Open q a stop" "round_ok (InPrompt kbi q) (Open q a stop) (se_broker s)"
proof -
  have r: "round_ok (InPrompt kbi q) (foldl read_event Quiet (se_log s)) (se_broker s)" using assms by (simp add: session_inv_def)
  show thesis
  proof (cases "foldl read_event Quiet (se_log s)")
    case (Open q' a stop)
    then have "q' = q" using r by simp
    then show thesis using that r Open by simp
  qed (use r in simp_all)
qed

lemma publish_result:
  assumes "publish mk b = Inr (q, b', fr)" "round_ok Running r b"
  shows "round_ok (InPrompt kbi q) (Open q None False) b'" "fr = []" "rq_requestId q = rq_requestId (mk (bk_nextRequestId b + 1) (bk_round b + 1))"
    "bk_nextRequestId b' = bk_nextRequestId b + 1"
  using assms by (auto simp: publish_def round_running Let_def split: if_splits)

lemma inv_ask:
  assumes "session_inv s" "se_owner s = Running" "publish mk (se_broker s) = Inr (q, b, fr)" "list_all wiped fr1"
    "kbi \<Longrightarrow> vals = []"
  shows "session_inv (s\<lparr>se_broker := b, se_owner := InPrompt kbi q, se_values := vals, se_log := se_log s @ [Asked q],
    se_freed := se_freed s @ fr1 @ fr\<rparr>)"
proof -
  have r: "foldl read_event Quiet (se_log s) = Quiet" using assms(1,2) by (simp add: session_inv_def round_running)
  have "round_ok Running Quiet (se_broker s)" using assms(1,2) r by (simp add: session_inv_def)
  from publish_result [OF assms(3) this] show ?thesis using assms(1,4,5) r by (auto simp: session_inv_def)
qed

lemma finish_round:
  assumes "round_ok (InPrompt kbi q) (Open q a stop) b"
  shows "wait_outcome b = Responded \<longleftrightarrow> \<not> stop \<and> a \<noteq> None"
    "wait_outcome b = Responded \<Longrightarrow> bk_responseValues b = rs_responses (the a)"
  using assms by (auto simp: wait_outcome_def split: if_splits)

lemma inv_return:
  assumes inv: "session_inv s" and o: "se_owner s = InPrompt kbi q"
    and f: "(if kbi then finish_waitForResponse (se_values s) (se_broker s) else finish_waitForHostKeyDecision (se_broker s)) = (res, values, b, fr)"
  shows "session_inv (s\<lparr>se_broker := b, se_owner := Running, se_values := vals, se_log := se_log s @ [Returned kbi res values], se_freed := se_freed s @ fr\<rparr>)"
proof -
  obtain a stop where r: "foldl read_event Quiet (se_log s) = Open q a stop" "round_ok (InPrompt kbi q) (Open q a stop) (se_broker s)"
    using prompt_round [OF inv o] by blast
  note w = finish_round [OF r(2)]
  have fin: "res = wait_outcome (se_broker s)" "values = (if res = Responded \<and> kbi then bk_responseValues (se_broker s) else [])"
      "round_ok Running Quiet b" "list_all wiped fr"
    using f inv o by (auto simp: session_inv_def finish_waitForResponse_def finish_waitForHostKeyDecision_def clearPendingLocked_def round_running
      split: if_splits)
  have "read_event (Open q a stop) (Returned kbi res values) = Quiet"
    using w fin(1,2) by (auto split: option.split)
  then show ?thesis using inv r(1) fin(3,4) by (simp add: session_inv_def)
qed

lemma inv_answer:
  assumes inv: "session_inv s" and r: "respond r (se_broker s) = (taken, b, fr)"
  shows "session_inv (s\<lparr>se_broker := b, se_log := se_log s @ (if taken then [Accepted r] else []), se_freed := se_freed s @ fr\<rparr>)"
proof (cases taken)
  case False
  then have "b = se_broker s" "list_all wiped fr"
    using r by (auto simp: respond_def wipeResponses_def split: if_splits)
  then show ?thesis using inv False by (simp add: session_inv_def)
next
  case True
  then have p: "bk_pending (se_broker s)" "\<not> bk_closed (se_broker s)" "\<not> bk_responseReady (se_broker s)"
      "answers r (bk_pendingRequest (se_broker s))" "list_all wiped fr"
      "b = (se_broker s)\<lparr>bk_responseValues := rs_responses r, bk_responseReady := True\<rparr>"
    using r by (auto simp: respond_def answers_def list_ex_iff not_less split: if_splits)
  obtain kbi q where o: "se_owner s = InPrompt kbi q"
    using inv p(1) by (cases "se_owner s") (auto simp: session_inv_def round_running)
  obtain a stop where w: "foldl read_event Quiet (se_log s) = Open q a stop" "round_ok (InPrompt kbi q) (Open q a stop) (se_broker s)"
    using prompt_round [OF inv o] by blast
  then have "a = None" "bk_pendingRequest (se_broker s) = q" using p(1-3) by auto
  then show ?thesis using inv True w p o by (auto simp: session_inv_def)
qed

lemma inv_stop:
  assumes inv: "session_inv s"
    and b: "bk_pendingRequest b = bk_pendingRequest (se_broker s)" "bk_cancelled b" "bk_closed b = bk_closed (se_broker s)"
      "bk_pending b = bk_pending (se_broker s)" "bk_responseReady b = bk_responseReady (se_broker s)"
      "bk_responseValues b = bk_responseValues (se_broker s)"
  shows "session_inv (s\<lparr>se_broker := b, se_log := se_log s @ stopped s\<rparr>)"
proof (cases "se_owner s")
  case Running
  then show ?thesis using inv b by (simp add: session_inv_def round_running stopped_def)
next
  case (InPrompt kbi q)
  obtain a stop where w: "foldl read_event Quiet (se_log s) = Open q a stop" "round_ok (InPrompt kbi q) (Open q a stop) (se_broker s)"
    using prompt_round [OF inv InPrompt] by blast
  then show ?thesis using inv InPrompt b by (cases a) (auto simp: session_inv_def stopped_def)
qed

lemma inv_close:
  assumes inv: "session_inv s" and c: "broker_close (se_broker s) = (b, fr)"
  shows "session_inv (s\<lparr>se_broker := b, se_log := se_log s @ stopped s, se_freed := se_freed s @ fr\<rparr>)"
proof (cases "se_owner s")
  case Running
  then show ?thesis using inv c
    by (auto simp: session_inv_def round_running stopped_def broker_close_def clearPendingLocked_def)
next
  case (InPrompt kbi q)
  obtain a stop where w: "foldl read_event Quiet (se_log s) = Open q a stop"
    using prompt_round [OF inv InPrompt] by blast
  have cl: "bk_closed b" "bk_cancelled b" "\<not> bk_pending b" "\<not> bk_responseReady b" "bk_responseValues b = []"
      "list_all wiped fr"
    using c by (auto simp: broker_close_def clearPendingLocked_def)
  have v: "kbi \<Longrightarrow> se_values s = []" "list_all wiped (se_freed s)" using inv InPrompt by (simp_all add: session_inv_def)
  have "foldl read_event Quiet (se_log s @ stopped s) = Open q a True"
    using w InPrompt by (cases a; simp add: stopped_def)
  then show ?thesis using InPrompt cl v by (simp add: session_inv_def)
qed

lemma inv_reset:
  "session_inv s \<Longrightarrow> se_owner s = Running \<Longrightarrow> resetForNewConnection (se_broker s) = (b, fr) \<Longrightarrow>
     session_inv (s\<lparr>se_broker := b, se_freed := se_freed s @ fr\<rparr>)"
  by (auto simp: session_inv_def round_running resetForNewConnection_def clearPendingLocked_def)

lemma session_inv_step: "session_step s s' \<Longrightarrow> session_inv s \<Longrightarrow> session_inv s'"
proof (induction rule: session_step.induct)
  case (ask_text s startedAt limit nowMs sid gen host hop name nameLen instr instrLen prompts responses vals fr1 q b fr2)
  then have "publish (text_request sid gen host hop name nameLen instr instrLen prompts
      (expires_at nowMs (min (startedAt + kTimeout) limit - startedAt))) (se_broker s) = Inr (q, b, fr2)"
    and v: "vals = []" "list_all wiped fr1"
    by (auto simp: start_waitForResponse_def Let_def split: if_split_asm)
  from inv_ask [OF ask_text.prems ask_text.hyps(1) this(1) v(2)] v(1)
  show ?case by simp
next
  case (ask_nothing s startedAt limit nowMs sid gen host hop name nameLen instr instrLen prompts responses vals fr1 res)
  then show ?case by (auto simp: start_waitForResponse_def session_inv_def)
next
  case (ask_host_key s startedAt limit nowMs sid gen host hop k q b fr)
  then have "publish (host_key_request sid gen host hop k
      (expires_at nowMs (min (startedAt + kTimeout) limit - startedAt))) (se_broker s) = Inr (q, b, fr)"
    by (auto simp: start_waitForHostKeyDecision_def Let_def split: if_splits)
  from inv_ask [OF ask_host_key.prems ask_host_key.hyps(1) this, of "[]" False "se_values s"]
  show ?case by simp
next
  case (return_text s q timeout res vals b fr)
  then show ?case using inv_return [of s True] by simp
next
  case (return_host_key s q timeout res vals b fr)
  then show ?case using inv_return [of s False, where vals = "se_values s"] by simp
next
  case (cancel rid sid gen s ok b)
  show ?case
  proof (cases ok)
    case True
    then show ?thesis
      using cancel inv_stop [OF cancel.prems, of b] by (auto simp: cancel_prompt_def split: if_splits)
  next
    case False
    then have "b = se_broker s" using cancel.hyps by (auto simp: cancel_prompt_def split: if_splits)
    then show ?thesis using cancel.prems False by simp
  qed
next
  case (cancel_all s)
  then show ?case by (intro inv_stop) (simp_all add: cancelAll_def)
qed (simp_all add: inv_reset inv_answer inv_close)

lemma session_reachable_inv: "session_step\<^sup>*\<^sup>* new_session s \<Longrightarrow> session_inv s"
  by (induction rule: rtranclp_induct) (auto simp: session_inv_new intro: session_inv_step)

section \<open>The properties\<close>

text \<open>
  C30. Whatever the owner and the other threads do in whatever order, the history is a sequence of prompts, each
  with at most one answer, which names that prompt and has one value per question; the owner is handed exactly
  these values, and none once a cancellation came during the wait. A wait can end as soon as there is an answer or
  a cancellation. Every freed buffer has been overwritten, and no answer is kept when nothing is asked.
\<close>

theorem prompt_histories:
  assumes "session_step\<^sup>*\<^sup>* new_session s"
  shows "well_formed_history (se_log s) \<and> list_all wiped (se_freed s) \<and>
    (case foldl read_event Quiet (se_log s) of
       Open q a stop \<Rightarrow> wait_over (se_broker s) = (a \<noteq> None \<or> stop)
     | _ \<Rightarrow> se_owner s = Running \<and> bk_responseValues (se_broker s) = [])"
proof -
  have inv: "session_inv s" by (rule session_reachable_inv [OF assms])
  show ?thesis
  proof (cases "se_owner s")
    case Running
    then show ?thesis using inv by (simp add: session_inv_def round_running well_formed_history_def)
  next
    case (InPrompt kbi q)
    obtain a stop where "foldl read_event Quiet (se_log s) = Open q a stop" "round_ok (InPrompt kbi q) (Open q a stop) (se_broker s)"
      using prompt_round [OF inv InPrompt] by blast
    then show ?thesis using inv by (auto simp: session_inv_def well_formed_history_def wait_over_def)
  qed
qed

lemma prompt_histories_witness:
  "\<exists>s q r. session_step\<^sup>*\<^sup>* new_session s \<and> se_log s = [Asked q, Accepted r, Returned True Responded [''secret'']] \<and>
     well_formed_history (se_log s)"
proof -
  define ask where "ask = start_waitForResponse 0 1000000000 0 1 2 ''host'' ''target'' None 0 None 0 [\<lparr>ap_text = ''Password'', ap_echo = False\<rparr>] [] new_broker"
  define r where "r = \<lparr>rs_schemaVersion = 1, rs_requestId = 1, rs_sessionId = 1, rs_generation = 2, rs_responses = [''secret''], rs_cancelled = False\<rparr>"
  obtain q b where q: "ask = ([], [], Inr (q, b, []))" and b: "bk_pending b" "\<not> bk_closed b" "\<not> bk_cancelled b" "\<not> bk_responseReady b"
      "bk_pendingRequest b = q" "bk_responseValues b = []" "rq_requestId q = 1" "rq_sessionId q = 1" "rq_generation q = 2" "length (rq_prompts q) = 1"
    by (simp add: ask_def start_waitForResponse_def publish_def text_request_def Let_def kTimeout_def new_broker_def kMaxPrompts_def)
  define b2 where "b2 = b\<lparr>bk_responseValues := [''secret''], bk_responseReady := True\<rparr>"
  have a: "respond r b = (True, b2, [])"
    using b by (simp add: respond_def r_def b2_def kMaxPromptBytes_def)
  obtain b3 where f: "finish_waitForResponse [] b2 = (Responded, [''secret''], b3, [])"
    using b by (simp add: finish_waitForResponse_def wait_outcome_def b2_def clearPendingLocked_def)
  define s1 where "s1 = new_session\<lparr>se_broker := b, se_owner := InPrompt True q, se_log := [Asked q]\<rparr>"
  define s2 where "s2 = s1\<lparr>se_broker := b2, se_log := [Asked q, Accepted r]\<rparr>"
  let ?s3 = "s2\<lparr>se_broker := b3, se_owner := Running, se_values := [''secret''], se_log := [Asked q, Accepted r, Returned True Responded [''secret'']]\<rparr>"
  have "session_step new_session s1"
    using session_step.ask_text [of new_session 0 1000000000 0 1 2 "''host''" "''target''" None 0 None 0 "[\<lparr>ap_text = ''Password'', ap_echo = False\<rparr>]" "[]" "[]" "[]" q b "[]"]
      q by (simp add: new_session_def ask_def s1_def)
  moreover have "session_step s1 s2"
    using session_step.answer [of r s1 True b2 "[]"] a by (simp add: s1_def s2_def new_session_def)
  moreover have "session_step s2 ?s3"
    using session_step.return_text [of s2 q False Responded "[''secret'']" b3 "[]"] f
    by (simp add: s1_def s2_def new_session_def wait_over_def b2_def)
  ultimately have reach: "session_step\<^sup>*\<^sup>* new_session ?s3"
    by (meson converse_rtranclp_into_rtranclp rtranclp.rtrancl_refl)
  have log: "se_log ?s3 = [Asked q, Accepted r, Returned True Responded [''secret'']]" by simp
  show ?thesis using prompt_histories [OF reach] reach log by metis
qed

end
