(* ===== verification/Ssh_Memory.thy ===== *)
theory Ssh_Memory
  imports Prelude
begin

text \<open>
  \<open>ssh/ssh_sensitive_buffer.h\<close>: the allocator libssh2 uses, so that no block that may have held a secret
  reaches the C allocator before it was overwritten. The heap is the map of the live C blocks with their
  bytes, the registry the list of the tracked addresses with their sizes (an \<open>unordered_map\<close>). What \<open>malloc\<close>
  answers and whether inserting into the map throws are arguments; a null pointer is \<open>None\<close>. Each function is
  one operation: between forgetting and freeing a block it is still allocated and no longer tracked, so no
  other operation can name it. Two threads that free or reallocate the same pointer at once are left out: a
  block belongs to one libssh2 session, which one thread uses at a time.
\<close>

section \<open>Memory\<close>

record sheap =
  sh_blocks :: "nat \<Rightarrow> bytes option"
  sh_registry :: "(nat \<times> nat) list"
  sh_freed :: "bytes list"
  sh_fault :: bool

definition new_sheap :: sheap where
  "new_sheap = \<lparr>sh_blocks = (\<lambda>_. None), sh_registry = [], sh_freed = [], sh_fault = False\<rparr>"

text \<open>\<open>std::free\<close> with what it gives back (\<open>sh_freed\<close>); a pointer that is not a live block is a fault.\<close>

definition c_free :: "nat \<Rightarrow> sheap \<Rightarrow> sheap" where
  "c_free p s = (case sh_blocks s p of
     None \<Rightarrow> s\<lparr>sh_fault := True\<rparr>
   | Some b \<Rightarrow> s\<lparr>sh_blocks := (sh_blocks s)(p := None), sh_freed := b # sh_freed s\<rparr>)"

text \<open>The loop of the wipe; it writes \<open>n\<close> bytes, which is a fault when the block is shorter.\<close>

definition wipe_bytes :: "nat \<Rightarrow> bytes \<Rightarrow> bytes" where
  "wipe_bytes n b = fold (\<lambda>i b. b[i := 0]) [0..<n] b"

definition sshSecureWipe :: "nat \<Rightarrow> nat \<Rightarrow> sheap \<Rightarrow> sheap" where
  "sshSecureWipe p n s = (case sh_blocks s p of
     None \<Rightarrow> s\<lparr>sh_fault := True\<rparr>
   | Some b \<Rightarrow> if length b < n then s\<lparr>sh_fault := True\<rparr>
       else s\<lparr>sh_blocks := (sh_blocks s)(p \<mapsto> wipe_bytes n b)\<rparr>)"

section \<open>The registry\<close>

definition track :: "bool \<Rightarrow> nat option \<Rightarrow> nat \<Rightarrow> sheap \<Rightarrow> bool \<times> sheap" where
  "track inserts pointer n s = (case pointer of
     None \<Rightarrow> (False, s)
   | Some p \<Rightarrow>
       if n = 0 then (False, s)
       else if \<not> inserts then (False, s)
       else if map_of (sh_registry s) p \<noteq> None then (False, s)
       else (True, s\<lparr>sh_registry := (p, n) # sh_registry s\<rparr>))"

definition tracked :: "nat \<Rightarrow> sheap \<Rightarrow> bool" where
  "tracked p s \<longleftrightarrow> map_of (sh_registry s) p \<noteq> None"

definition sizeOf :: "nat \<Rightarrow> sheap \<Rightarrow> nat option" where
  "sizeOf p s = map_of (sh_registry s) p"

definition pendingCount :: "sheap \<Rightarrow> nat" where
  "pendingCount s = length (sh_registry s)"

definition wipeAndForget :: "nat \<Rightarrow> sheap \<Rightarrow> bool \<times> sheap" where
  "wipeAndForget p s = (case map_of (sh_registry s) p of
     None \<Rightarrow> (False, s)
   | Some n \<Rightarrow> (True, sshSecureWipe p n (s\<lparr>sh_registry := filter (\<lambda>e. fst e \<noteq> p) (sh_registry s)\<rparr>)))"

section \<open>The allocator\<close>

text \<open>\<open>answer\<close> is what \<open>malloc\<close> returns: nothing, or an address and the bytes the block happens to hold.\<close>

definition sshAllocateTrackedSensitive ::
    "nat \<Rightarrow> (nat \<times> bytes) option \<Rightarrow> bool \<Rightarrow> sheap \<Rightarrow> nat option \<times> sheap" where
  "sshAllocateTrackedSensitive n answer inserts s =
     (if n = 0 then (None, s)
      else case answer of
        None \<Rightarrow> (None, s)
      | Some (p, junk) \<Rightarrow>
          (case track inserts (Some p) n (s\<lparr>sh_blocks := (sh_blocks s)(p \<mapsto> junk)\<rparr>) of
             (False, s1) \<Rightarrow> (None, c_free p (sshSecureWipe p n s1))
           | (True, s1) \<Rightarrow> (Some p, s1)))"

definition sshFreeTrackedSensitive :: "nat option \<Rightarrow> sheap \<Rightarrow> bool \<times> sheap" where
  "sshFreeTrackedSensitive pointer s = (case pointer of
     None \<Rightarrow> (False, s)
   | Some p \<Rightarrow> (case wipeAndForget p s of
         (False, s1) \<Rightarrow> (False, s1)
       | (True, s1) \<Rightarrow> (True, c_free p s1)))"

definition memcpy_block :: "nat \<Rightarrow> nat \<Rightarrow> nat \<Rightarrow> sheap \<Rightarrow> sheap" where
  "memcpy_block dst src n s = (case (sh_blocks s dst, sh_blocks s src) of
     (Some d, Some b) \<Rightarrow>
       if length d < n \<or> length b < n then s\<lparr>sh_fault := True\<rparr>
       else s\<lparr>sh_blocks := (sh_blocks s)(dst \<mapsto> take n b @ drop n d)\<rparr>
   | _ \<Rightarrow> s\<lparr>sh_fault := True\<rparr>)"

definition sshReallocateTrackedSensitive ::
    "nat option \<Rightarrow> nat \<Rightarrow> (nat \<times> bytes) option \<Rightarrow> bool \<Rightarrow> sheap \<Rightarrow> nat option \<times> sheap" where
  "sshReallocateTrackedSensitive pointer n answer inserts s = (case pointer of
     None \<Rightarrow> sshAllocateTrackedSensitive n answer inserts s
   | Some p \<Rightarrow>
       if n = 0 then (None, snd (sshFreeTrackedSensitive (Some p) s))
       else (case sizeOf p s of
           None \<Rightarrow> (None, s)
         | Some previous \<Rightarrow> (case sshAllocateTrackedSensitive n answer inserts s of
               (None, s1) \<Rightarrow> (None, s1)
             | (Some q, s1) \<Rightarrow>
                 (Some q, snd (sshFreeTrackedSensitive (Some p) (memcpy_block q p (min previous n) s1))))))"

section \<open>Guards\<close>

text \<open>
  A container before a sensitive append: \<open>granted\<close> is its capacity after \<open>reserve\<close>. The destructors of the
  scope guards overwrite what the container holds at that moment.
\<close>

definition sshReserveSensitiveAppend :: "nat \<Rightarrow> nat \<Rightarrow> nat \<Rightarrow> (nat \<Rightarrow> nat) \<Rightarrow> bool" where
  "sshReserveSensitiveAppend maxSize len appendSize granted =
     (if appendSize > maxSize - len then False else granted (len + appendSize) \<ge> len + appendSize)"

definition buffer_guard_exit :: "bytes \<Rightarrow> bytes" where
  "buffer_guard_exit v = (if v = [] then v else wipe_bytes (length v) v)"

definition collection_guard_exit :: "bytes list \<Rightarrow> bytes list" where
  "collection_guard_exit vs = map (\<lambda>v. if v = [] then v else wipe_bytes (length v) v) vs"

section \<open>Histories\<close>

text \<open>
  The library and the rest of the process: tracked blocks are allocated, reallocated, freed (with any pointer)
  and written; other code allocates and frees blocks of its own. \<open>malloc\<close> answers with a block of the size
  asked for that is not live.
\<close>

definition malloc_ok :: "nat \<Rightarrow> (nat \<times> bytes) option \<Rightarrow> sheap \<Rightarrow> bool" where
  "malloc_ok n answer s \<longleftrightarrow> (case answer of None \<Rightarrow> True | Some (p, junk) \<Rightarrow> sh_blocks s p = None \<and> length junk = n)"

inductive heap_step :: "sheap \<Rightarrow> sheap \<Rightarrow> bool" where
  hs_alloc: "malloc_ok n answer s \<Longrightarrow> heap_step s (snd (sshAllocateTrackedSensitive n answer inserts s))"
| hs_realloc: "malloc_ok n answer s \<Longrightarrow> heap_step s (snd (sshReallocateTrackedSensitive p n answer inserts s))"
| hs_free: "heap_step s (snd (sshFreeTrackedSensitive p s))"
| hs_write: "sh_blocks s p = Some b \<Longrightarrow> length b' = length b \<Longrightarrow>
    heap_step s (s\<lparr>sh_blocks := (sh_blocks s)(p \<mapsto> b')\<rparr>)"
| hs_other_alloc: "sh_blocks s p = None \<Longrightarrow> heap_step s (s\<lparr>sh_blocks := (sh_blocks s)(p \<mapsto> b)\<rparr>)"
| hs_other_free: "\<not> tracked p s \<Longrightarrow> heap_step s (s\<lparr>sh_blocks := (sh_blocks s)(p := None)\<rparr>)"

definition zeroed :: "bytes \<Rightarrow> bool" where
  "zeroed b \<longleftrightarrow> list_all (\<lambda>x. x = 0) b"

definition heap_inv :: "sheap \<Rightarrow> bool" where
  "heap_inv s \<longleftrightarrow> distinct (map fst (sh_registry s)) \<and> \<not> sh_fault s \<and> list_all zeroed (sh_freed s) \<and>
     (\<forall>p n. map_of (sh_registry s) p = Some n \<longrightarrow> (\<exists>b. sh_blocks s p = Some b \<and> length b = n))"

lemma heap_inv_block:
  assumes "heap_inv s" "map_of (sh_registry s) p = Some n"
  obtains b where "sh_blocks s p = Some b" "length b = n"
  using assms unfolding heap_inv_def by blast

lemma heap_inv_blocks:
  assumes "heap_inv s"
    and "\<And>p n b. map_of (sh_registry s) p = Some n \<Longrightarrow> sh_blocks s p = Some b \<Longrightarrow> length b = n \<Longrightarrow>
      \<exists>b'. m p = Some b' \<and> length b' = length b"
  shows "heap_inv (s\<lparr>sh_blocks := m\<rparr>)"
proof -
  have "\<exists>b'. m p = Some b' \<and> length b' = n" if "map_of (sh_registry s) p = Some n" for p n
    using heap_inv_block [OF assms(1) that] assms(2) [OF that] by metis
  then show ?thesis using assms(1) unfolding heap_inv_def by simp
qed

lemma wipe_prefix: "n \<le> length b \<Longrightarrow> wipe_bytes n b = replicate n 0 @ drop n b"
proof (induction n)
  case 0
  then show ?case by (simp add: wipe_bytes_def)
next
  case (Suc n)
  then have "wipe_bytes (Suc n) b = (replicate n 0 @ drop n b)[n := 0]" by (simp add: wipe_bytes_def)
  also have "\<dots> = replicate n 0 @ 0 # drop (Suc n) b"
    using Suc.prems by (simp add: list_update_append Cons_nth_drop_Suc [symmetric])
  finally show ?case by (simp add: replicate_append_same)
qed

lemma wipe_all: "wipe_bytes (length b) b = replicate (length b) 0"
  by (simp add: wipe_prefix)

lemma zeroed_replicate [simp]: "zeroed (replicate n 0)"
  by (simp add: zeroed_def list_all_iff)

lemma map_of_forget: "map_of (filter (\<lambda>e. fst e \<noteq> p) xs) q = (if q = p then None else map_of xs q)"
  by (induction xs) auto

lemma inv_alloc:
  assumes inv: "heap_inv s" and m: "malloc_ok n answer s"
    and a: "sshAllocateTrackedSensitive n answer inserts s = (r, s')"
  shows "heap_inv s'" "r = None \<Longrightarrow> sh_blocks s' = sh_blocks s \<and> sh_registry s' = sh_registry s"
    "r = Some q \<Longrightarrow> sh_blocks s q = None \<and> sh_registry s' = (q, n) # sh_registry s \<and>
       (\<exists>junk. length junk = n \<and> sh_blocks s' = (sh_blocks s)(q \<mapsto> junk))"
proof -
  have fresh: "map_of (sh_registry s) p = None" if "sh_blocks s p = None" for p
    using that by (cases "map_of (sh_registry s) p") (auto elim: heap_inv_block [OF inv])
  have "heap_inv s' \<and> (r = None \<longrightarrow> sh_blocks s' = sh_blocks s \<and> sh_registry s' = sh_registry s) \<and>
      (\<forall>q. r = Some q \<longrightarrow> sh_blocks s q = None \<and> sh_registry s' = (q, n) # sh_registry s \<and>
       (\<exists>junk. length junk = n \<and> sh_blocks s' = (sh_blocks s)(q \<mapsto> junk)))"
  proof (cases "n = 0 \<or> answer = None")
    case True
    then have "r = None" "s' = s" using a by (auto simp: sshAllocateTrackedSensitive_def split: if_split_asm)
    then show ?thesis using inv by simp
  next
    case False
    then obtain p junk where p: "answer = Some (p, junk)" "sh_blocks s p = None" "length junk = n" "0 < n"
      using m by (auto simp: malloc_ok_def)
    have f: "map_of (sh_registry s) p = None" by (rule fresh [OF p(2)])
    then have nk: "p \<notin> fst ` set (sh_registry s)" by (simp add: map_of_eq_None_iff)
    show ?thesis
    proof (cases inserts)
      case True
      then have "r = Some p" "s' = s\<lparr>sh_blocks := (sh_blocks s)(p \<mapsto> junk), sh_registry := (p, n) # sh_registry s\<rparr>"
        using a p f by (auto simp: sshAllocateTrackedSensitive_def track_def)
      then show ?thesis using inv p nk f by (auto simp: heap_inv_def)
    next
      case False
      then have r: "r = None" and s': "s' = c_free p (sshSecureWipe p n (s\<lparr>sh_blocks := (sh_blocks s)(p \<mapsto> junk)\<rparr>))"
        using a p by (auto simp: sshAllocateTrackedSensitive_def track_def)
      have "(sh_blocks s)(p := None) = sh_blocks s" using p(2) by (simp add: fun_eq_iff)
      then have "s' = s\<lparr>sh_freed := replicate n 0 # sh_freed s\<rparr>"
        using s' p(3) wipe_all [of junk] by (simp add: c_free_def sshSecureWipe_def)
      then show ?thesis using r inv by (simp add: heap_inv_def)
    qed
  qed
  then show "heap_inv s'" "r = None \<Longrightarrow> sh_blocks s' = sh_blocks s \<and> sh_registry s' = sh_registry s"
    "r = Some q \<Longrightarrow> sh_blocks s q = None \<and> sh_registry s' = (q, n) # sh_registry s \<and>
       (\<exists>junk. length junk = n \<and> sh_blocks s' = (sh_blocks s)(q \<mapsto> junk))"
    by blast+
qed

lemma inv_free:
  assumes inv: "heap_inv s" and f: "sshFreeTrackedSensitive (Some p) s = (done, s')"
  shows "heap_inv s'" "done \<longleftrightarrow> tracked p s" "\<not> done \<Longrightarrow> s' = s"
    "done \<Longrightarrow> sh_blocks s' = (sh_blocks s)(p := None) \<and> \<not> tracked p s'"
proof -
  have "heap_inv s' \<and> (done \<longleftrightarrow> tracked p s) \<and> (\<not> done \<longrightarrow> s' = s) \<and>
      (done \<longrightarrow> sh_blocks s' = (sh_blocks s)(p := None) \<and> \<not> tracked p s')"
  proof (cases "map_of (sh_registry s) p")
    case None
    then show ?thesis using f inv by (simp add: sshFreeTrackedSensitive_def wipeAndForget_def tracked_def)
  next
    case (Some n)
    then obtain b where b: "sh_blocks s p = Some b" "length b = n" using heap_inv_block [OF inv] by blast
    have e: "done" "s' = s\<lparr>sh_registry := filter (\<lambda>e. fst e \<noteq> p) (sh_registry s),
        sh_blocks := (sh_blocks s)(p := None), sh_freed := replicate n 0 # sh_freed s\<rparr>"
      using f Some b wipe_all [of b]
      by (auto simp: sshFreeTrackedSensitive_def wipeAndForget_def sshSecureWipe_def c_free_def)
    have "distinct (map fst (filter (\<lambda>e. fst e \<noteq> p) (sh_registry s)))"
      using inv by (simp add: heap_inv_def distinct_map_filter)
    then show ?thesis using inv e Some by (auto simp: heap_inv_def map_of_forget tracked_def)
  qed
  then show "heap_inv s'" "done \<longleftrightarrow> tracked p s" "\<not> done \<Longrightarrow> s' = s"
    "done \<Longrightarrow> sh_blocks s' = (sh_blocks s)(p := None) \<and> \<not> tracked p s'" by blast+
qed

text \<open>What a reallocation that succeeds leaves behind: the old bytes, as many as fit, and no old block.\<close>

lemma inv_realloc:
  assumes inv: "heap_inv s" and m: "malloc_ok n answer s" and n: "0 < n"
    and r: "sshReallocateTrackedSensitive (Some p) n answer inserts s = (res, s')"
  shows "heap_inv s'"
    "res = None \<Longrightarrow> sh_blocks s' = sh_blocks s \<and> sh_registry s' = sh_registry s"
    "res = Some q \<Longrightarrow> \<exists>b b'. sh_blocks s p = Some b \<and> sh_blocks s' q = Some b' \<and> length b' = n \<and> q \<noteq> p \<and>
       take (min (length b) n) b' = take (min (length b) n) b \<and> sh_blocks s' p = None \<and> \<not> tracked p s'"
proof -
  have "heap_inv s' \<and> (res = None \<longrightarrow> sh_blocks s' = sh_blocks s \<and> sh_registry s' = sh_registry s) \<and>
    (\<forall>q. res = Some q \<longrightarrow> (\<exists>b b'. sh_blocks s p = Some b \<and> sh_blocks s' q = Some b' \<and> length b' = n \<and> q \<noteq> p \<and>
       take (min (length b) n) b' = take (min (length b) n) b \<and> sh_blocks s' p = None \<and> \<not> tracked p s'))"
  proof (cases "map_of (sh_registry s) p")
    case None
    then show ?thesis using r n inv by (simp add: sshReallocateTrackedSensitive_def sizeOf_def)
  next
    case (Some k)
    then obtain b where b: "sh_blocks s p = Some b" "length b = k" using heap_inv_block [OF inv] by blast
    obtain r1 s1 where a: "sshAllocateTrackedSensitive n answer inserts s = (r1, s1)" by fastforce
    note al = inv_alloc [OF inv m a]
    show ?thesis
    proof (cases r1)
      case None
      then show ?thesis using r n Some a al by (auto simp: sshReallocateTrackedSensitive_def sizeOf_def)
    next
      case r1: (Some q)
      obtain junk where j: "length junk = n" "sh_blocks s1 = (sh_blocks s)(q \<mapsto> junk)" "sh_blocks s q = None"
          "sh_registry s1 = (q, n) # sh_registry s"
        using al(3) [OF r1] by blast
      have ne: "q \<noteq> p" using j(3) b(1) by auto
      define s2 where "s2 = s1\<lparr>sh_blocks := (sh_blocks s1)(q \<mapsto> take (min k n) b @ drop (min k n) junk)\<rparr>"
      have c: "memcpy_block q p (min k n) s1 = s2"
        using j b ne by (simp add: memcpy_block_def s2_def)
      obtain dn s3 where f: "sshFreeTrackedSensitive (Some p) s2 = (dn, s3)" by fastforce
      have i2: "heap_inv s2" unfolding s2_def using j b by (intro heap_inv_blocks [OF al(1)]) (auto split: if_splits)
      have "tracked p s2" using Some j(4) ne by (simp add: tracked_def s2_def)
      then have d: "dn" "heap_inv s3" "sh_blocks s3 = (sh_blocks s2)(p := None)" "\<not> tracked p s3"
        using inv_free [OF i2 f] by blast+
      have "res = Some q" "s' = s3" using r n Some a r1 c f by (auto simp: sshReallocateTrackedSensitive_def sizeOf_def)
      then show ?thesis using d b j ne by (auto simp: s2_def)
    qed
  qed
  then show "heap_inv s'"
    "res = None \<Longrightarrow> sh_blocks s' = sh_blocks s \<and> sh_registry s' = sh_registry s"
    "res = Some q \<Longrightarrow> \<exists>b b'. sh_blocks s p = Some b \<and> sh_blocks s' q = Some b' \<and> length b' = n \<and> q \<noteq> p \<and>
       take (min (length b) n) b' = take (min (length b) n) b \<and> sh_blocks s' p = None \<and> \<not> tracked p s'"
    by blast+
qed

lemma heap_inv_step: "heap_step s s' \<Longrightarrow> heap_inv s \<Longrightarrow> heap_inv s'"
proof (induction rule: heap_step.induct)
  case (hs_alloc n answer s inserts)
  then show ?case using inv_alloc(1) [OF hs_alloc.prems hs_alloc.hyps] by (metis surjective_pairing)
next
  case (hs_free s p)
  then show ?case
    using inv_free(1) [OF hs_free.prems]
    by (cases p) (simp_all add: sshFreeTrackedSensitive_def [of None], metis surjective_pairing)
next
  case (hs_realloc n answer s p inserts)
  show ?case
  proof (cases p)
    case None
    then show ?thesis using inv_alloc(1) [OF hs_realloc.prems hs_realloc.hyps]
      by (simp add: sshReallocateTrackedSensitive_def) (metis surjective_pairing)
  next
    case (Some a)
    show ?thesis
    proof (cases "n = 0")
      case True
      then show ?thesis using inv_free(1) [OF hs_realloc.prems, of a] Some
        by (simp add: sshReallocateTrackedSensitive_def) (metis surjective_pairing)
    next
      case False
      then show ?thesis using inv_realloc(1) [OF hs_realloc.prems hs_realloc.hyps, of a] Some
        by (metis neq0_conv surjective_pairing)
    qed
  qed
next
  case (hs_write s p b b')
  then show ?case by (intro heap_inv_blocks) auto
next
  case (hs_other_alloc s p b)
  then show ?case by (intro heap_inv_blocks) auto
next
  case (hs_other_free p s)
  then show ?case by (intro heap_inv_blocks) (auto simp: tracked_def)
qed

lemma heap_reachable_inv: "heap_step\<^sup>*\<^sup>* new_sheap s \<Longrightarrow> heap_inv s"
proof (induction rule: rtranclp_induct)
  case base
  show ?case by (simp add: heap_inv_def new_sheap_def)
next
  case (step s1 s2)
  then show ?case using heap_inv_step by blast
qed

text \<open>
  In every history, with failing allocations, unknown and repeated pointers: each block this code gives back
  to the C allocator has been overwritten from the first to the last byte, no block is freed twice and none
  written out of bounds, every tracked address is a live block of the tracked size, and freeing succeeds
  exactly for tracked addresses and changes nothing for others.
\<close>

lemma sensitive_memory_wiped:
  assumes "heap_step\<^sup>*\<^sup>* new_sheap s"
  shows "list_all zeroed (sh_freed s) \<and> \<not> sh_fault s \<and>
    (\<forall>p n. sizeOf p s = Some n \<longrightarrow> (\<exists>b. sh_blocks s p = Some b \<and> length b = n)) \<and>
    (\<forall>p. case sshFreeTrackedSensitive (Some p) s of (ok, s') \<Rightarrow> ok = tracked p s \<and> (\<not> ok \<longrightarrow> s' = s))"
proof -
  have inv: "heap_inv s" by (rule heap_reachable_inv [OF assms])
  have "ok = tracked p s \<and> (\<not> ok \<longrightarrow> s' = s)" if "sshFreeTrackedSensitive (Some p) s = (ok, s')" for p ok s'
    using inv_free(2,3) [OF inv that] by blast
  moreover have "\<exists>b. sh_blocks s p = Some b \<and> length b = n" if "sizeOf p s = Some n" for p n
    using heap_inv_block [OF inv] that unfolding sizeOf_def by blast
  ultimately show ?thesis using inv by (simp add: heap_inv_def split: prod.split)
qed

text \<open>A reallocation keeps the bytes that fit and leaves nothing of the old block, or changes nothing.\<close>

lemma reallocation_moves_secrets:
  assumes "heap_step\<^sup>*\<^sup>* new_sheap s" "malloc_ok n answer s" "0 < n"
    and "sshReallocateTrackedSensitive (Some p) n answer inserts s = (Some q, s')"
  shows "\<exists>b b'. sh_blocks s p = Some b \<and> sh_blocks s' q = Some b' \<and> length b' = n \<and> q \<noteq> p \<and>
    take (min (length b) n) b' = take (min (length b) n) b \<and> sh_blocks s' p = None \<and> \<not> tracked p s'"
  by (rule inv_realloc(3) [OF heap_reachable_inv [OF assms(1)] assms(2-4) refl])

end
