(* ===== verification/Moonlight_Http.thy ===== *)
theory Moonlight_Http
  imports Prelude "HOL-Library.Sublist"
begin

text \<open>
  \<open>moonlight/runtime/MoonlightHttpResponseFraming.h\<close> and \<open>.cpp\<close>: finding the end of one HTTP response in the bytes
  received so far. The wire is a list of characters. A cursor into it is kept as the rest of the wire from
  there, with its distance from the point the code compares it with; \<open>find\<close> then counts from the cursor.
  The two limits are far below the range of \<open>size_t\<close>, so no sum of sizes wraps; the overflow tests of the number
  parsers are as the code has them.
\<close>

section \<open>Results\<close>

datatype framing_state = NeedMore | Complete | ProtocolError | BodyTooLarge

record framing_result =
  fr_state :: framing_state
  fr_headersComplete :: bool
  fr_httpStatus :: nat
  fr_consumedBytes :: nat
  fr_body :: string

definition kMaximumChunkLineBytes :: nat where "kMaximumChunkLineBytes = 1024"

datatype body_mode = ModeNone | ContentLength | Chunked | UntilClose

record header_projection =
  hp_state :: framing_state
  hp_complete :: bool
  hp_status :: nat
  hp_bodyOffset :: nat
  hp_mode :: body_mode
  hp_contentLength :: nat

definition new_projection :: header_projection where
  "new_projection = \<lparr>hp_state = NeedMore, hp_complete = False, hp_status = 0, hp_bodyOffset = 0,
     hp_mode = UntilClose, hp_contentLength = 0\<rparr>"

record chunk_projection =
  cp_state :: framing_state
  cp_consumedBytes :: nat
  cp_decodedBytes :: nat

definition resultFor :: "framing_state \<Rightarrow> bool \<Rightarrow> nat \<Rightarrow> framing_result" where
  "resultFor state headersComplete status =
     \<lparr>fr_state = state, fr_headersComplete = headersComplete, fr_httpStatus = status, fr_consumedBytes = 0, fr_body = []\<rparr>"

section \<open>Characters and tokens\<close>

text \<open>\<open>std::string_view::find\<close>: the first position where the pattern starts.\<close>

fun find_sub :: "string \<Rightarrow> string \<Rightarrow> nat option" where
  "find_sub pat [] = (if pat = [] then Some 0 else None)"
| "find_sub pat (c # s) = (if prefix pat (c # s) then Some 0 else map_option Suc (find_sub pat s))"

definition CR :: char where "CR = CHR 0x0D"
definition LF :: char where "LF = CHR 0x0A"
definition CRLF :: string where "CRLF = [CR, LF]"

definition isOws :: "char \<Rightarrow> bool" where
  "isOws c \<longleftrightarrow> c = CHR '' '' \<or> c = CHR 0x09"

definition trimOws :: "string \<Rightarrow> string" where
  "trimOws v = rev (dropWhile isOws (rev (dropWhile isOws v)))"

definition alphanumeric :: "char \<Rightarrow> bool" where
  "alphanumeric c \<longleftrightarrow> 48 \<le> code c \<and> code c \<le> 57 \<or> 65 \<le> code c \<and> code c \<le> 90 \<or> 97 \<le> code c \<and> code c \<le> 122"

definition name_char :: "char \<Rightarrow> bool" where
  "name_char c \<longleftrightarrow> alphanumeric c \<or> c \<in> set ''!#$%&*+-.^_`|~'' \<or> c = CHR 0x27"

definition validHeaderName :: "string \<Rightarrow> bool" where
  "validHeaderName v \<longleftrightarrow> v \<noteq> [] \<and> list_all name_char v"

definition value_char :: "char \<Rightarrow> bool" where
  "value_char c \<longleftrightarrow> code c = 9 \<or> code c \<ge> 0x20 \<and> code c \<noteq> 0x7F"

definition validHeaderValue :: "string \<Rightarrow> bool" where
  "validHeaderValue v \<longleftrightarrow> list_all value_char v"

definition lowerAscii :: "string \<Rightarrow> string" where
  "lowerAscii v = map (\<lambda>c. if 65 \<le> code c \<and> code c \<le> 90 then char_of (code c + 32) else c) v"

fun decimal_loop :: "nat \<Rightarrow> string \<Rightarrow> nat option" where
  "decimal_loop parsed [] = Some parsed"
| "decimal_loop parsed (c # cs) =
     (if code c < 48 \<or> code c > 57 then None
      else let digit = code c - 48 in
        if parsed > (size_max - digit) div 10 then None else decimal_loop (parsed * 10 + digit) cs)"

definition parseDecimal :: "string \<Rightarrow> nat option" where
  "parseDecimal v = (let v1 = trimOws v in if v1 = [] then None else decimal_loop 0 v1)"

text \<open>
  The loops over a comma separated list. \<open>contentLength\<close> is what the header fields before gave; a failure is
  \<open>None\<close>. The loop always sees a first element, so \<open>sawValue\<close> is set whenever it ends.
\<close>

function mergeContentLength :: "string \<Rightarrow> nat option \<Rightarrow> nat option option" where
  "mergeContentLength v contentLength =
     (let comma = find_sub '','' v; token = (case comma of None \<Rightarrow> v | Some k \<Rightarrow> take k v)
      in case parseDecimal token of
           None \<Rightarrow> None
         | Some parsed \<Rightarrow>
             if contentLength \<noteq> None \<and> contentLength \<noteq> Some parsed then None
             else (case comma of None \<Rightarrow> Some (Some parsed)
               | Some k \<Rightarrow> mergeContentLength (drop (k + 1) v) (Some parsed)))"
  by pat_completeness auto

lemma find_bound: "find_sub pat s = Some k \<Longrightarrow> k + length pat \<le> length s"
  by (induction s arbitrary: k) (auto split: if_splits dest: prefix_length_le)

lemma find_nonempty: "find_sub pat s = Some k \<Longrightarrow> pat \<noteq> [] \<Longrightarrow> k < length s"
  using find_bound [of pat s k] by (cases pat) auto

termination mergeContentLength
  by (relation "measure (\<lambda>(v, _). length v)") (auto dest!: find_nonempty [OF sym])

function appendTransferCodings :: "string \<Rightarrow> string list \<Rightarrow> string list option" where
  "appendTransferCodings v codings =
     (let comma = find_sub '','' v; token = trimOws (case comma of None \<Rightarrow> v | Some k \<Rightarrow> take k v)
      in if token = [] then None
         else (case comma of None \<Rightarrow> Some (codings @ [lowerAscii token])
           | Some k \<Rightarrow> appendTransferCodings (drop (k + 1) v) (codings @ [lowerAscii token])))"
  by pat_completeness auto
termination
  by (relation "measure (\<lambda>(v, _). length v)") (auto dest!: find_nonempty [OF sym])

definition digit_char :: "char \<Rightarrow> bool" where
  "digit_char c \<longleftrightarrow> 48 \<le> code c \<and> code c \<le> 57"

text \<open>Whether the line is accepted, and what \<open>status\<close> then holds (0 when it was not written).\<close>

definition parseStatusLine :: "string \<Rightarrow> bool \<times> nat" where
  "parseStatusLine line =
     (if length line < 12 \<or> (take 8 line \<noteq> ''HTTP/1.0'' \<and> take 8 line \<noteq> ''HTTP/1.1'') \<or>
         line ! 8 \<noteq> CHR '' '' \<or> \<not> digit_char (line ! 9) \<or> \<not> digit_char (line ! 10) \<or> \<not> digit_char (line ! 11) \<or>
         (length line > 12 \<and> line ! 12 \<noteq> CHR '' '') then (False, 0)
      else if \<not> validHeaderValue line then (False, 0)
      else let status = (code (line ! 9) - 48) * 100 + (code (line ! 10) - 48) * 10 + (code (line ! 11) - 48)
        in (100 \<le> status \<and> status \<le> 599, status))"

section \<open>The header\<close>

text \<open>One header line, and the loop over the lines up to the marker, \<open>toMarker\<close> characters away.\<close>

definition header_line :: "string \<Rightarrow> nat option \<Rightarrow> string list \<Rightarrow> (nat option \<times> string list) option" where
  "header_line line contentLength transferCodings =
     (if line = [] \<or> isOws (hd line) then None
      else case find_sub '':'' line of
        None \<Rightarrow> None
      | Some colon \<Rightarrow>
          if \<not> validHeaderName (take colon line) \<or> \<not> validHeaderValue (drop (colon + 1) line) then None
          else let name = lowerAscii (take colon line); v = trimOws (drop (colon + 1) line)
            in if name = ''content-length''
               then (case mergeContentLength v contentLength of None \<Rightarrow> None | Some cl \<Rightarrow> Some (cl, transferCodings))
               else if name = ''transfer-encoding''
               then (case appendTransferCodings v transferCodings of None \<Rightarrow> None | Some tc \<Rightarrow> Some (contentLength, tc))
               else Some (contentLength, transferCodings))"

function header_lines :: "string \<Rightarrow> nat \<Rightarrow> nat option \<Rightarrow> string list \<Rightarrow> (nat option \<times> string list) option" where
  "header_lines rest toMarker contentLength transferCodings =
     (if toMarker = 0 then Some (contentLength, transferCodings)
      else case find_sub CRLF rest of
        None \<Rightarrow> None
      | Some lineEnd \<Rightarrow>
          if lineEnd > toMarker then None
          else case header_line (take lineEnd rest) contentLength transferCodings of
            None \<Rightarrow> None
          | Some (cl, tc) \<Rightarrow> header_lines (drop (lineEnd + 2) rest) (toMarker - (lineEnd + 2)) cl tc)"
  by pat_completeness auto
termination
  by (relation "measure (\<lambda>(_, m, _). m)") auto

definition body_framing :: "nat \<Rightarrow> nat option \<Rightarrow> string list \<Rightarrow> nat \<Rightarrow> header_projection \<Rightarrow> header_projection" where
  "body_framing status contentLength transferCodings maxBodyBytes result =
     (if (100 \<le> status \<and> status < 200) \<or> status = 204 \<or> status = 304 then result\<lparr>hp_mode := ModeNone\<rparr>
      else if transferCodings \<noteq> [] then result\<lparr>hp_mode := Chunked\<rparr>
      else case contentLength of
        Some n \<Rightarrow> result\<lparr>hp_mode := ContentLength, hp_contentLength := n,
                       hp_state := (if n > maxBodyBytes then BodyTooLarge else NeedMore)\<rparr>
      | None \<Rightarrow> result\<lparr>hp_mode := UntilClose\<rparr>)"

definition parseHeaders :: "string \<Rightarrow> bool \<Rightarrow> nat \<Rightarrow> nat \<Rightarrow> header_projection" where
  "parseHeaders wire endOfStream maxHeaderBytes maxBodyBytes =
     (case find_sub (CRLF @ CRLF) wire of
        None \<Rightarrow> new_projection\<lparr>hp_state := (if length wire > maxHeaderBytes then BodyTooLarge
                  else if endOfStream then ProtocolError else NeedMore)\<rparr>
      | Some marker \<Rightarrow>
          let result = new_projection\<lparr>hp_bodyOffset := marker + 4\<rparr>
          in if hp_bodyOffset result > maxHeaderBytes then result\<lparr>hp_state := BodyTooLarge\<rparr>
             else case find_sub CRLF wire of
               None \<Rightarrow> result\<lparr>hp_state := ProtocolError\<rparr>
             | Some statusEnd \<Rightarrow>
                 if statusEnd > marker then result\<lparr>hp_state := ProtocolError\<rparr>
                 else case parseStatusLine (take statusEnd wire) of (accepted, status) \<Rightarrow>
                     let result1 = result\<lparr>hp_status := status\<rparr>
                     in if \<not> accepted then result1\<lparr>hp_state := ProtocolError\<rparr>
                        else case header_lines (drop (statusEnd + 2) wire) (marker - (statusEnd + 2)) None [] of
                          None \<Rightarrow> result1\<lparr>hp_state := ProtocolError\<rparr>
                        | Some (contentLength, transferCodings) \<Rightarrow>
                            if contentLength \<noteq> None \<and> transferCodings \<noteq> [] then result1\<lparr>hp_state := ProtocolError\<rparr>
                            else if transferCodings \<noteq> [] \<and> (length transferCodings \<noteq> 1 \<or> hd transferCodings \<noteq> ''chunked'')
                            then result1\<lparr>hp_state := ProtocolError\<rparr>
                            else body_framing status contentLength transferCodings maxBodyBytes
                                   (result1\<lparr>hp_complete := True, hp_state := NeedMore\<rparr>))"

section \<open>Chunks\<close>

lemma find_CRLF_bound: "find_sub CRLF s = Some k \<Longrightarrow> k + 2 \<le> length s"
  using find_bound [of CRLF s k] by (simp add: CRLF_def)

definition hex_digit :: "char \<Rightarrow> nat option" where
  "hex_digit c =
     (if 48 \<le> code c \<and> code c \<le> 57 then Some (code c - 48)
      else if 97 \<le> code c \<and> code c \<le> 102 then Some (code c - 97 + 10)
      else if 65 \<le> code c \<and> code c \<le> 70 then Some (code c - 65 + 10)
      else None)"

fun hex_loop :: "nat \<Rightarrow> string \<Rightarrow> nat option" where
  "hex_loop parsed [] = Some parsed"
| "hex_loop parsed (c # cs) = (case hex_digit c of
     None \<Rightarrow> None
   | Some digit \<Rightarrow> if parsed > (size_max - digit) div 16 then None else hex_loop (parsed * 16 + digit) cs)"

definition parseHex :: "string \<Rightarrow> nat option" where
  "parseHex v = (if v = [] then None else hex_loop 0 v)"

text \<open>
  The trailer loop. \<open>rest\<close> starts at the cursor, \<open>gone\<close> is \<open>cursor - trailerStart\<close>, \<open>at\<close> the cursor itself.
\<close>

definition trailer_ok :: "string \<Rightarrow> bool" where
  "trailer_ok trailer = (let colon = find_sub '':'' trailer;
       trailerName = (case colon of None \<Rightarrow> [] | Some k \<Rightarrow> lowerAscii (take k trailer))
     in \<not> (isOws (hd trailer) \<or>
        (case colon of None \<Rightarrow> True
         | Some k \<Rightarrow> \<not> validHeaderName (take k trailer) \<or> \<not> validHeaderValue (drop (k + 1) trailer)) \<or>
        trailerName = ''content-length'' \<or> trailerName = ''transfer-encoding''))"

definition chunk_stop :: "framing_state \<Rightarrow> chunk_projection" where
  "chunk_stop state = \<lparr>cp_state = state, cp_consumedBytes = 0, cp_decodedBytes = 0\<rparr>"

function scan_trailers :: "string \<Rightarrow> nat \<Rightarrow> nat \<Rightarrow> bool \<Rightarrow> nat \<Rightarrow> nat \<Rightarrow> chunk_projection" where
  "scan_trailers rest at gone endOfStream maxHeaderBytes decoded = (case find_sub CRLF rest of
     None \<Rightarrow> chunk_stop (if gone + length rest > maxHeaderBytes then BodyTooLarge
               else if endOfStream then ProtocolError else NeedMore)
   | Some k \<Rightarrow>
       if gone + k > maxHeaderBytes then chunk_stop BodyTooLarge
       else if k = 0
       then \<lparr>cp_state = (if length rest = 2 then Complete else ProtocolError), cp_consumedBytes = at + 2, cp_decodedBytes = decoded\<rparr>
       else if \<not> trailer_ok (take k rest) then chunk_stop ProtocolError
       else scan_trailers (drop (k + 2) rest) (at + k + 2) (gone + k + 2) endOfStream maxHeaderBytes decoded)"
  by pat_completeness auto
termination
  by (relation "measure (\<lambda>(s, _). length s)") (auto dest!: find_CRLF_bound)

text \<open>\<open>scanChunked\<close>: \<open>rest\<close> starts at the cursor, which is \<open>at\<close>.\<close>

function scan_chunks :: "string \<Rightarrow> nat \<Rightarrow> nat \<Rightarrow> nat \<Rightarrow> bool \<Rightarrow> nat \<Rightarrow> nat \<Rightarrow> chunk_projection" where
  "scan_chunks rest at decoded framingBytes endOfStream maxHeaderBytes maxBodyBytes = (case find_sub CRLF rest of
     None \<Rightarrow> chunk_stop (if length rest > kMaximumChunkLineBytes then BodyTooLarge
               else if endOfStream then ProtocolError else NeedMore)
   | Some lineBytes \<Rightarrow>
       if lineBytes = 0 \<or> lineBytes > kMaximumChunkLineBytes
       then chunk_stop (if lineBytes > kMaximumChunkLineBytes then BodyTooLarge else ProtocolError)
       else let line = take lineBytes rest;
                sizeToken = trimOws (case find_sub '';'' line of None \<Rightarrow> line | Some k \<Rightarrow> take k line)
         in case parseHex sizeToken of
              None \<Rightarrow> chunk_stop ProtocolError
            | Some chunkBytes \<Rightarrow>
                let framing1 = framingBytes + (lineBytes + 2); rest1 = drop (lineBytes + 2) rest; at1 = at + lineBytes + 2
                in if framing1 > maxHeaderBytes \<or> chunkBytes > maxBodyBytes - decoded then chunk_stop BodyTooLarge
                   else if chunkBytes = 0 then scan_trailers rest1 at1 0 endOfStream maxHeaderBytes decoded
                   else if length rest1 < chunkBytes + 2 then chunk_stop (if endOfStream then ProtocolError else NeedMore)
                   else if take 2 (drop chunkBytes rest1) \<noteq> CRLF then chunk_stop ProtocolError
                   else if framing1 + 2 > maxHeaderBytes then chunk_stop BodyTooLarge
                   else scan_chunks (drop (chunkBytes + 2) rest1) (at1 + chunkBytes + 2) (decoded + chunkBytes) (framing1 + 2)
                          endOfStream maxHeaderBytes maxBodyBytes)"
  by pat_completeness auto
termination
  by (relation "measure (\<lambda>(s, _). length s)") (auto dest!: find_CRLF_bound)

definition scanChunked :: "string \<Rightarrow> nat \<Rightarrow> bool \<Rightarrow> nat \<Rightarrow> nat \<Rightarrow> chunk_projection" where
  "scanChunked wire bodyOffset endOfStream maxHeaderBytes maxBodyBytes =
     scan_chunks (drop bodyOffset wire) bodyOffset 0 0 endOfStream maxHeaderBytes maxBodyBytes"

text \<open>
  \<open>decodeChunked\<close> runs on a body \<open>scanChunked\<close> has accepted; the number of chunks left bounds its loop. A size the
  parser refuses would leave \<open>chunkBytes\<close> at 0.
\<close>

function decode_chunks :: "string \<Rightarrow> string \<Rightarrow> nat \<Rightarrow> string" where
  "decode_chunks rest body decodedBytes =
     (if length body < decodedBytes
      then (case find_sub CRLF rest of
         None \<Rightarrow> body
       | Some lineEnd \<Rightarrow>
           let line = take lineEnd rest;
               chunkBytes = (case parseHex (trimOws (case find_sub '';'' line of None \<Rightarrow> line | Some k \<Rightarrow> take k line)) of
                  None \<Rightarrow> 0 | Some n \<Rightarrow> n);
               rest1 = drop (lineEnd + 2) rest
           in decode_chunks (drop (chunkBytes + 2) rest1) (body @ take chunkBytes rest1) decodedBytes)
      else body)"
  by pat_completeness auto
termination
  by (relation "measure (\<lambda>(s, _). length s)") (auto dest!: find_CRLF_bound)

definition decodeChunked :: "string \<Rightarrow> nat \<Rightarrow> nat \<Rightarrow> string" where
  "decodeChunked wire bodyOffset decodedBytes = decode_chunks (drop bodyOffset wire) [] decodedBytes"

section \<open>The response\<close>

text \<open>\<open>ok\<close>: no allocation fails; otherwise the handler reports a protocol error.\<close>

definition inspectMoonlightHttpResponse :: "bool \<Rightarrow> string \<Rightarrow> bool \<Rightarrow> nat \<Rightarrow> nat \<Rightarrow> framing_result" where
  "inspectMoonlightHttpResponse ok wire endOfStream maxHeaderBytes maxBodyBytes =
     (if \<not> ok then resultFor ProtocolError False 0 else
      let header = parseHeaders wire endOfStream maxHeaderBytes maxBodyBytes; status = hp_status header
      in if \<not> hp_complete header \<or> hp_state header \<noteq> NeedMore then resultFor (hp_state header) (hp_complete header) status
         else let wireBodyBytes = length wire - hp_bodyOffset header
           in case hp_mode header of
             ModeNone \<Rightarrow>
               if wireBodyBytes \<noteq> 0 then resultFor ProtocolError True status
               else (resultFor Complete True status)\<lparr>fr_consumedBytes := hp_bodyOffset header\<rparr>
           | ContentLength \<Rightarrow>
               if wireBodyBytes > hp_contentLength header then resultFor ProtocolError True status
               else if wireBodyBytes < hp_contentLength header
               then resultFor (if endOfStream then ProtocolError else NeedMore) True status
               else (resultFor Complete True status)\<lparr>fr_consumedBytes := length wire,
                      fr_body := take (hp_contentLength header) (drop (hp_bodyOffset header) wire)\<rparr>
           | UntilClose \<Rightarrow>
               if wireBodyBytes > maxBodyBytes then resultFor BodyTooLarge True status
               else if \<not> endOfStream then resultFor NeedMore True status
               else (resultFor Complete True status)\<lparr>fr_consumedBytes := length wire, fr_body := drop (hp_bodyOffset header) wire\<rparr>
           | Chunked \<Rightarrow>
               let chunked = scanChunked wire (hp_bodyOffset header) endOfStream maxHeaderBytes maxBodyBytes;
                   result = (resultFor (cp_state chunked) True status)\<lparr>fr_consumedBytes := cp_consumedBytes chunked\<rparr>
               in if cp_state chunked = Complete
                  then result\<lparr>fr_body := decodeChunked wire (hp_bodyOffset header) (cp_decodedBytes chunked)\<rparr>
                  else result)"

declare mergeContentLength.simps [simp del] appendTransferCodings.simps [simp del] header_lines.simps [simp del]
  scan_trailers.simps [simp del] scan_chunks.simps [simp del] decode_chunks.simps [simp del]

section \<open>Searching\<close>

definition no_crlf :: "string \<Rightarrow> bool" where
  "no_crlf l \<longleftrightarrow> find_sub CRLF l = None"

lemma CR_LF [simp]: "CR \<noteq> LF" "LF \<noteq> CR"
  by (simp_all add: CR_def LF_def)

lemma no_crlf_simps [simp]: "no_crlf []" "no_crlf (c # l) \<longleftrightarrow> \<not> (c = CR \<and> prefix [LF] l) \<and> no_crlf l"
  by (auto simp: no_crlf_def CRLF_def)

lemma no_CR_no_crlf: "CR \<notin> set l \<Longrightarrow> no_crlf l"
  by (induction l) auto

lemma find_CRLF_iff: "find_sub CRLF s = Some k \<longleftrightarrow> (\<exists>a b. s = a @ CRLF @ b \<and> length a = k \<and> no_crlf a)"
proof (induction s arbitrary: k)
  case Nil
  show ?case by (simp add: CRLF_def)
next
  case (Cons c s)
  show ?case
  proof (cases "prefix CRLF (c # s)")
    case True
    then obtain b where b: "c = CR" "s = LF # b" by (cases s) (auto simp: CRLF_def)
    have "k = 0" if "c # s = a @ CRLF @ b'" "length a = k" "no_crlf a" for a b'
      using that b by (cases a) (auto simp: CRLF_def Cons_eq_append_conv prefix_Cons)
    moreover have "\<exists>a b. c # s = a @ CRLF @ b \<and> length a = 0 \<and> no_crlf a" using b by (auto simp: CRLF_def)
    ultimately show ?thesis using True by auto
  next
    case False
    have "(\<exists>a b. c # s = a @ CRLF @ b \<and> length a = k \<and> no_crlf a) \<longleftrightarrow>
        (\<exists>j. k = Suc j \<and> (\<exists>a b. s = a @ CRLF @ b \<and> length a = j \<and> no_crlf a))" (is "?L \<longleftrightarrow> ?R")
    proof
      assume ?L
      then obtain a b where a: "c # s = a @ CRLF @ b" "length a = k" "no_crlf a" by blast
      then obtain a' where "a = c # a'" using False by (cases a) (auto simp: CRLF_def)
      then show ?R using a by auto
    next
      assume ?R
      then obtain a b where a: "s = a @ CRLF @ b" "k = Suc (length a)" "no_crlf a" by blast
      have "no_crlf (c # a)" using False a by (auto simp: CRLF_def prefix_def)
      then show ?L using a(1,2) by (intro exI [of _ "c # a"] exI [of _ b]) simp
    qed
    also have "\<dots> \<longleftrightarrow> (\<exists>j. k = Suc j \<and> find_sub CRLF s = Some j)" by (simp only: Cons.IH)
    finally show ?thesis using False by (cases "find_sub CRLF s") auto
  qed
qed

lemma find_CRLF [simp]: "no_crlf a \<Longrightarrow> find_sub CRLF (a @ CRLF @ b) = Some (length a)"
  by (simp add: find_CRLF_iff) blast

lemma take_line: "take (length l) (l @ CRLF @ r) = l"
  by simp

lemma drop_line: "drop (length l + 2) (l @ CRLF @ r) = r"
  by (simp add: CRLF_def)

lemma find_char: "find_sub [c] s = (if c \<in> set s then Some (length (takeWhile (\<lambda>x. x \<noteq> c) s)) else None)"
  by (induction s) auto

lemma takeWhile_stop: "c \<notin> set a \<Longrightarrow> takeWhile (\<lambda>x. x \<noteq> c) (a @ c # b) = a"
  by (induction a) auto

lemma find_double:
  "CR \<notin> set l \<Longrightarrow> find_sub (CRLF @ CRLF) (l @ CRLF @ s) =
     (if prefix CRLF s then Some (length l) else map_option ((+) (length l + 2)) (find_sub (CRLF @ CRLF) s))"
proof (induction l)
  case Nil
  then show ?case by (cases "find_sub (CRLF @ CRLF) s") (auto simp: CRLF_def)
next
  case (Cons c l)
  then have "\<not> prefix (CRLF @ CRLF) (c # l @ CRLF @ s)" by (auto simp: CRLF_def)
  then show ?case using Cons by (auto simp: map_option_case split: option.splits)
qed

section \<open>Numbers and lists\<close>

definition number :: "nat \<Rightarrow> (char \<Rightarrow> nat option) \<Rightarrow> string \<Rightarrow> nat option" where
  "number base digit s = (let v = foldl (\<lambda>n c. n * base + the (digit c)) 0 s
     in if s \<noteq> [] \<and> list_all (\<lambda>c. digit c \<noteq> None) s \<and> v < 2 ^ 64 then Some v else None)"

definition decimal_digit :: "char \<Rightarrow> nat option" where
  "decimal_digit c = (if digit_char c then Some (code c - 48) else None)"

lemma foldl_number_ge: "base \<ge> 1 \<Longrightarrow> p \<le> foldl (\<lambda>n c. n * base + f c) (p :: nat) s"
proof (induction s arbitrary: p)
  case (Cons c s)
  have "p \<le> p * base + f c" using Cons.prems by (cases base) auto
  also have "\<dots> \<le> foldl (\<lambda>n c. n * base + f c) (p * base + f c) s" using Cons by simp
  finally show ?case by simp
qed simp

lemma overflow_test:
  assumes "1 \<le> base" "d \<le> (m :: nat)"
  shows "p > (m - d) div base \<longleftrightarrow> p * base + d > m"
proof -
  have "p \<le> (m - d) div base \<longleftrightarrow> p * base \<le> m - d" using assms by (simp add: less_eq_div_iff_mult_less_eq)
  then show ?thesis using assms by linarith
qed

lemma number_loop:
  assumes step: "\<And>p c cs. loop p (c # cs) = (case digit c of None \<Rightarrow> None
      | Some d \<Rightarrow> if p > (size_max - d) div base then None else loop (p * base + d) cs)"
    and stop: "\<And>p. loop p [] = Some p" and base: "1 \<le> base" and digit: "\<And>c d. digit c = Some d \<Longrightarrow> d \<le> size_max"
  shows "p \<le> size_max \<Longrightarrow> loop p s = (let v = foldl (\<lambda>n c. n * base + the (digit c)) p s
     in if list_all (\<lambda>c. digit c \<noteq> None) s \<and> v \<le> size_max then Some v else None)"
proof (induction s arbitrary: p)
  case Nil
  then show ?case by (simp add: stop)
next
  case (Cons c s)
  show ?case
  proof (cases "digit c")
    case None
    then show ?thesis by (simp add: step)
  next
    case (Some d)
    have o: "p > (size_max - d) div base \<longleftrightarrow> p * base + d > size_max"
      by (rule overflow_test) (use base digit [OF Some] in auto)
    have ge: "p * base + d \<le> foldl (\<lambda>n c. n * base + the (digit c)) (p * base + d) s"
      using base by (rule foldl_number_ge)
    show ?thesis
      using Some ge by (cases "p * base + d > size_max") (simp_all add: step o Cons.IH Let_def)
  qed
qed

lemma size_max_less: "v \<le> size_max \<longleftrightarrow> v < 2 ^ 64"
proof -
  have "(2 :: nat) ^ 64 > 0" by simp
  then show ?thesis unfolding size_max_def by linarith
qed

lemma decimal_digit_le: "decimal_digit c = Some d \<Longrightarrow> d \<le> size_max"
  by (auto simp: decimal_digit_def digit_char_def size_max_def split: if_splits)

lemma hex_digit_le: "hex_digit c = Some d \<Longrightarrow> d \<le> size_max"
  by (auto simp: hex_digit_def size_max_def split: if_splits)

lemma decimal_loop_step:
  "decimal_loop p (c # cs) = (case decimal_digit c of None \<Rightarrow> None
     | Some d \<Rightarrow> if p > (size_max - d) div 10 then None else decimal_loop (p * 10 + d) cs)"
  by (auto simp: decimal_digit_def digit_char_def Let_def)

lemma parseDecimal_number: "parseDecimal v = number 10 decimal_digit (trimOws v)"
proof -
  have "decimal_loop 0 (trimOws v) = (let w = foldl (\<lambda>n c. n * 10 + the (decimal_digit c)) 0 (trimOws v)
      in if list_all (\<lambda>c. decimal_digit c \<noteq> None) (trimOws v) \<and> w \<le> size_max then Some w else None)"
    by (rule number_loop, rule decimal_loop_step, simp, simp, erule decimal_digit_le, simp)
  then show ?thesis unfolding parseDecimal_def number_def Let_def size_max_less by simp
qed

lemma parseHex_number: "parseHex v = number 16 hex_digit v"
proof -
  have "hex_loop 0 v = (let w = foldl (\<lambda>n c. n * 16 + the (hex_digit c)) 0 v
      in if list_all (\<lambda>c. hex_digit c \<noteq> None) v \<and> w \<le> size_max then Some w else None)"
    by (rule number_loop, rule hex_loop.simps(2), simp, simp, erule hex_digit_le, simp)
  then show ?thesis unfolding parseHex_def number_def Let_def size_max_less by simp
qed

fun split_commas :: "string \<Rightarrow> string list" where
  "split_commas [] = [[]]"
| "split_commas (c # s) = (if c = CHR '','' then [] # split_commas s
     else (c # hd (split_commas s)) # tl (split_commas s))"

lemma split_commas_find:
  "split_commas v = (case find_sub '','' v of None \<Rightarrow> [v] | Some k \<Rightarrow> take k v # split_commas (drop (k + 1) v))"
  by (induction v) (auto split: option.splits)

lemma mergeContentLength_iff:
  "mergeContentLength v cl = Some r \<longleftrightarrow> (\<exists>n. r = Some n \<and> (cl = None \<or> cl = Some n) \<and>
     (\<forall>t\<in>set (split_commas v). number 10 decimal_digit (trimOws t) = Some n))"
proof (induction v cl rule: mergeContentLength.induct)
  case (1 v cl)
  show ?case
  proof (cases "find_sub '','' v")
    case None
    then show ?thesis
      by (subst mergeContentLength.simps, subst split_commas_find) (auto simp: parseDecimal_number split: option.splits)
  next
    case (Some k)
    show ?thesis
    proof (cases "number 10 decimal_digit (trimOws (take k v))")
      case None
      then show ?thesis using Some
        by (subst mergeContentLength.simps, subst split_commas_find) (auto simp: parseDecimal_number)
    next
      case (Some n)
      show ?thesis
      proof (cases "cl \<noteq> None \<and> cl \<noteq> Some n")
        case True
        then show ?thesis using Some \<open>find_sub '','' v = Some k\<close>
          by (subst mergeContentLength.simps, subst split_commas_find) (auto simp: parseDecimal_number)
      next
        case False
        then show ?thesis using Some \<open>find_sub '','' v = Some k\<close>
            1 [OF refl refl _ False \<open>find_sub '','' v = Some k\<close>]
          by (subst mergeContentLength.simps, subst split_commas_find) (auto simp: parseDecimal_number)
      qed
    qed
  qed
qed

lemma appendTransferCodings_iff:
  "appendTransferCodings v tc = Some r \<longleftrightarrow> (\<forall>t\<in>set (split_commas v). trimOws t \<noteq> []) \<and>
     r = tc @ map (lowerAscii \<circ> trimOws) (split_commas v)"
proof (induction v tc rule: appendTransferCodings.induct)
  case (1 v tc)
  show ?case
  proof (cases "find_sub '','' v")
    case None
    then show ?thesis by (subst appendTransferCodings.simps, subst (1 2) split_commas_find) (auto simp: Let_def split: if_splits)
  next
    case (Some k)
    then show ?thesis using 1 [OF refl refl _ Some]
      by (subst appendTransferCodings.simps, subst (1 2) split_commas_find) (auto simp: Let_def split: if_splits)
  qed
qed

section \<open>The grammar\<close>

text \<open>
  A message as the protocol writes it: the status line, the header fields with the white space around their
  values, and the body in one of its framings. Chunk lines carry the size and an optional extension.
\<close>

datatype http_body =
  NoBody
| Sized string
| InChunks "(string \<times> string) list" string "(string \<times> string) list"
| ToEnd string

record http_message =
  hm_statusLine :: string
  hm_fields :: "(string \<times> string) list"
  hm_body :: http_body

definition render_line :: "string \<Rightarrow> string" where
  "render_line l = l @ CRLF"

definition render_fields :: "(string \<times> string) list \<Rightarrow> string" where
  "render_fields fs = concat (map (\<lambda>(n, v). render_line (n @ '':'' @ v)) fs)"

definition render_chunks :: "(string \<times> string) list \<Rightarrow> string" where
  "render_chunks cs = concat (map (\<lambda>(line, data). render_line line @ render_line data) cs)"

fun render_body :: "http_body \<Rightarrow> string" where
  "render_body NoBody = []"
| "render_body (Sized data) = data"
| "render_body (InChunks cs lastLine trailers) = render_chunks cs @ render_line lastLine @ render_fields trailers @ CRLF"
| "render_body (ToEnd data) = data"

definition render_head :: "http_message \<Rightarrow> string" where
  "render_head m = render_line (hm_statusLine m) @ render_fields (hm_fields m) @ CRLF"

definition render :: "http_message \<Rightarrow> string" where
  "render m = render_head m @ render_body (hm_body m)"

fun content :: "http_body \<Rightarrow> string" where
  "content NoBody = []"
| "content (Sized data) = data"
| "content (InChunks cs lastLine trailers) = concat (map snd cs)"
| "content (ToEnd data) = data"

text \<open>\<open>HTTP/1.0\<close> or \<open>HTTP/1.1\<close>, a status of three digits, and a phrase without control characters.\<close>

definition status_line :: "string \<Rightarrow> nat \<Rightarrow> bool" where
  "status_line l status \<longleftrightarrow> (\<exists>minor a b c phrase. l = ''HTTP/1.'' @ [minor, CHR '' '', a, b, c] @ phrase \<and>
     (minor = CHR ''0'' \<or> minor = CHR ''1'') \<and> digit_char a \<and> digit_char b \<and> digit_char c \<and>
     (phrase = [] \<or> hd phrase = CHR '' '') \<and> list_all value_char phrase \<and>
     status = (code a - 48) * 100 + (code b - 48) * 10 + (code c - 48)) \<and> 100 \<le> status \<and> status \<le> 599"

definition field_ok :: "string \<times> string \<Rightarrow> bool" where
  "field_ok f \<longleftrightarrow> fst f \<noteq> [] \<and> list_all name_char (fst f) \<and> list_all value_char (snd f)"

text \<open>The elements of the comma separated values of all fields with this name.\<close>

definition elements :: "string \<Rightarrow> (string \<times> string) list \<Rightarrow> string list" where
  "elements name fs = concat (map (\<lambda>f. map trimOws (split_commas (trimOws (snd f))))
     (filter (\<lambda>f. lowerAscii (fst f) = name) fs))"

definition bodyless :: "nat \<Rightarrow> bool" where
  "bodyless status \<longleftrightarrow> (100 \<le> status \<and> status < 200) \<or> status = 204 \<or> status = 304"

definition chunk_size :: "string \<Rightarrow> nat option" where
  "chunk_size line = number 16 hex_digit (trimOws (takeWhile (\<lambda>c. c \<noteq> CHR '';'') line))"

definition chunk_line :: "string \<Rightarrow> nat \<Rightarrow> bool" where
  "chunk_line line n \<longleftrightarrow> line \<noteq> [] \<and> no_crlf line \<and> length line \<le> kMaximumChunkLineBytes \<and> chunk_size line = Some n"

definition chunk_ok :: "string \<times> string \<Rightarrow> bool" where
  "chunk_ok c \<longleftrightarrow> snd c \<noteq> [] \<and> chunk_line (fst c) (length (snd c))"

definition trailer_field_ok :: "string \<times> string \<Rightarrow> bool" where
  "trailer_field_ok f \<longleftrightarrow> field_ok f \<and> lowerAscii (fst f) \<noteq> ''content-length'' \<and> lowerAscii (fst f) \<noteq> ''transfer-encoding''"

text \<open>
  The framing the header prescribes. \<open>H\<close> and \<open>B\<close> are the limits, \<open>closed\<close> says that the peer has closed the
  stream, which alone ends a body without a length.
\<close>

definition body_ok :: "bool \<Rightarrow> nat \<Rightarrow> nat \<Rightarrow> nat \<Rightarrow> string list \<Rightarrow> string list \<Rightarrow> http_body \<Rightarrow> bool" where
  "body_ok closed H B status lengths codings body \<longleftrightarrow> (case body of
      NoBody \<Rightarrow> bodyless status
    | Sized data \<Rightarrow> \<not> bodyless status \<and> lengths \<noteq> [] \<and> number 10 decimal_digit (hd lengths) = Some (length data) \<and> length data \<le> B
    | InChunks cs lastLine trailers \<Rightarrow> \<not> bodyless status \<and> codings \<noteq> [] \<and>
        (\<forall>c\<in>set cs. chunk_ok c) \<and> chunk_line lastLine 0 \<and> (\<forall>f\<in>set trailers. trailer_field_ok f) \<and>
        length (concat (map snd cs)) \<le> B \<and> sum_list (map (\<lambda>c. length (fst c) + 4) cs) + length lastLine + 2 \<le> H \<and>
        length (render_fields trailers) \<le> H
    | ToEnd data \<Rightarrow> \<not> bodyless status \<and> lengths = [] \<and> codings = [] \<and> closed \<and> length data \<le> B)"

text \<open>All lengths agree, there is at most one coding, and it excludes a length.\<close>

definition framing_ok :: "bool \<Rightarrow> nat \<Rightarrow> nat \<Rightarrow> nat \<Rightarrow> string list \<Rightarrow> string list \<Rightarrow> http_body \<Rightarrow> bool" where
  "framing_ok closed H B status lengths codings body \<longleftrightarrow>
     (\<forall>t\<in>set lengths. number 10 decimal_digit t \<noteq> None \<and> number 10 decimal_digit t = number 10 decimal_digit (hd lengths)) \<and>
     (\<forall>t\<in>set codings. t \<noteq> []) \<and> (lengths = [] \<or> codings = []) \<and> (codings = [] \<or> map lowerAscii codings = [''chunked'']) \<and>
     body_ok closed H B status lengths codings body"

definition acceptable :: "bool \<Rightarrow> nat \<Rightarrow> nat \<Rightarrow> nat \<Rightarrow> http_message \<Rightarrow> bool" where
  "acceptable closed H B status m \<longleftrightarrow> status_line (hm_statusLine m) status \<and> (\<forall>f\<in>set (hm_fields m). field_ok f) \<and>
     length (render_head m) \<le> H \<and>
     framing_ok closed H B status (elements ''content-length'' (hm_fields m)) (elements ''transfer-encoding'' (hm_fields m)) (hm_body m)"

section \<open>The header against the grammar\<close>

lemma code_less: "code c < 256"
  by (simp add: code_def)

lemma value_char_CR [simp]: "\<not> value_char CR"
  by (simp add: value_char_def CR_def code_def)

lemma name_char_special [simp]: "\<not> name_char CR" "\<not> name_char (CHR '':'')" "name_char c \<Longrightarrow> \<not> isOws c"
  by (auto simp: name_char_def alphanumeric_def isOws_def CR_def code_def)

lemma list_all_no_CR: "list_all value_char v \<Longrightarrow> CR \<notin> set v" "list_all name_char v \<Longrightarrow> CR \<notin> set v"
  by (auto simp: list_all_iff)

lemma nth_append_drop: "length a = k \<Longrightarrow> (a @ b) ! k = hd b" if "b \<noteq> []"
  using that by (cases b) auto

lemma parseStatusLine_accepts:
  "parseStatusLine l = (True, status) \<longleftrightarrow> 12 \<le> length l \<and> (take 8 l = ''HTTP/1.0'' \<or> take 8 l = ''HTTP/1.1'') \<and>
     l ! 8 = CHR '' '' \<and> digit_char (l ! 9) \<and> digit_char (l ! 10) \<and> digit_char (l ! 11) \<and>
     (12 < length l \<longrightarrow> l ! 12 = CHR '' '') \<and> list_all value_char l \<and>
     status = (code (l ! 9) - 48) * 100 + (code (l ! 10) - 48) * 10 + (code (l ! 11) - 48) \<and> 100 \<le> status \<and> status \<le> 599"
proof -
  define v where "v = (code (l ! 9) - 48) * 100 + (code (l ! 10) - 48) * 10 + (code (l ! 11) - 48)"
  define wrong where "wrong \<longleftrightarrow> length l < 12 \<or> (take 8 l \<noteq> ''HTTP/1.0'' \<and> take 8 l \<noteq> ''HTTP/1.1'') \<or>
    l ! 8 \<noteq> CHR '' '' \<or> \<not> digit_char (l ! 9) \<or> \<not> digit_char (l ! 10) \<or> \<not> digit_char (l ! 11) \<or>
    (length l > 12 \<and> l ! 12 \<noteq> CHR '' '')"
  have "parseStatusLine l = (if wrong then (False, 0) else if \<not> list_all value_char l then (False, 0) else (100 \<le> v \<and> v \<le> 599, v))"
    by (simp only: parseStatusLine_def wrong_def v_def validHeaderValue_def Let_def)
  then have "parseStatusLine l = (True, status) \<longleftrightarrow> \<not> wrong \<and> list_all value_char l \<and> status = v \<and> 100 \<le> status \<and> status \<le> 599"
    by auto
  then show ?thesis unfolding wrong_def v_def by (simp only: de_Morgan_disj de_Morgan_conj not_not not_less imp_conv_disj) blast
qed

lemma parseStatusLine_iff: "parseStatusLine l = (True, status) \<longleftrightarrow> status_line l status"
proof
  assume p: "parseStatusLine l = (True, status)"
  then have len: "length l \<ge> 12" by (simp add: parseStatusLine_accepts)
  define x r where "x = take 8 l" and "r = drop 8 l"
  then have x: "take 8 l = x" "length x = 8" and r: "l = x @ r" "length r \<ge> 4" using len by auto
  obtain s a b c phrase where s: "r = s # a # b # c # phrase"
    using r(2) by (auto simp: Suc_le_length_iff numeral_eq_Suc)
  have nths: "l ! 8 = s" "l ! 9 = a" "l ! 10 = b" "l ! 11 = c" "length l > 12 \<Longrightarrow> l ! 12 = hd phrase" "length l = 12 + length phrase"
    using x r s by (auto simp: nth_append nth_Cons' hd_conv_nth)
  have parsed: "x = ''HTTP/1.0'' \<or> x = ''HTTP/1.1''" "s = CHR '' ''" "digit_char a" "digit_char b" "digit_char c"
      "phrase = [] \<or> hd phrase = CHR '' ''" "list_all value_char l"
      "status = (code a - 48) * 100 + (code b - 48) * 10 + (code c - 48)" "100 \<le> status" "status \<le> 599"
    using p x(1) nths unfolding parseStatusLine_accepts by simp_all blast
  obtain minor where minor: "x = ''HTTP/1.'' @ [minor]" "minor = CHR ''0'' \<or> minor = CHR ''1''"
    using parsed(1) by auto
  have "l = ''HTTP/1.'' @ [minor, CHR '' '', a, b, c] @ phrase" using r(1) s minor(1) parsed(2) by simp
  moreover from this have "list_all value_char phrase" using parsed(7) by simp
  ultimately show "status_line l status"
    using parsed(3-6,8-10) minor(2) unfolding status_line_def by blast
next
  assume "status_line l status"
  then obtain minor a b c phrase where l: "l = ''HTTP/1.'' @ [minor, CHR '' '', a, b, c] @ phrase"
      "minor = CHR ''0'' \<or> minor = CHR ''1''" "digit_char a" "digit_char b" "digit_char c" "phrase = [] \<or> hd phrase = CHR '' ''"
      "list_all value_char phrase" "status = (code a - 48) * 100 + (code b - 48) * 10 + (code c - 48)" "100 \<le> status" "status \<le> 599"
    unfolding status_line_def by blast
  have "value_char a" "value_char b" "value_char c" using l(3-5) by (auto simp: digit_char_def value_char_def)
  moreover have "value_char minor" using l(2) by (auto simp: value_char_def code_def)
  ultimately have "list_all value_char l" using l by (simp add: value_char_def code_def)
  then show "parseStatusLine l = (True, status)"
    using l unfolding parseStatusLine_accepts by (cases phrase) auto
qed

lemma status_line_no_CR: "status_line l status \<Longrightarrow> CR \<notin> set l"
  using list_all_no_CR(1) parseStatusLine_iff [of l status] unfolding parseStatusLine_accepts by blast

text \<open>A header line is a field, and it extends the lengths and codings read so far.\<close>

definition merged :: "nat option \<Rightarrow> string list \<Rightarrow> nat option \<Rightarrow> bool" where
  "merged cl ts r \<longleftrightarrow> (if ts = [] then r = cl
     else \<exists>n. r = Some n \<and> (cl = None \<or> cl = Some n) \<and> (\<forall>t\<in>set ts. number 10 decimal_digit t = Some n))"

lemma merged_append: "merged cl (ts @ us) r \<longleftrightarrow> (\<exists>c. merged cl ts c \<and> merged c us r)"
proof (cases "ts = [] \<or> us = []")
  case True
  then show ?thesis by (auto simp: merged_def)
next
  case False
  then have "merged cl ts c \<and> merged c us r \<longleftrightarrow> c = r \<and> merged cl (ts @ us) r" for c
    by (auto simp: merged_def)
  then show ?thesis by simp
qed

lemma split_commas_nonempty [simp]: "split_commas v \<noteq> []"
  by (induction v) auto

lemma header_line_field:
  assumes "field_ok (n, v)"
  shows "header_line (n @ '':'' @ v) cl tc = Some (cl', tc') \<longleftrightarrow>
     merged cl (elements ''content-length'' [(n, v)]) cl' \<and>
     (\<forall>t\<in>set (elements ''transfer-encoding'' [(n, v)]). t \<noteq> []) \<and>
     tc' = tc @ map lowerAscii (elements ''transfer-encoding'' [(n, v)])"
proof -
  obtain c n' where n: "n = c # n'" "name_char c" using assms by (cases n) (auto simp: field_ok_def)
  have colon: "CHR '':'' \<notin> set n" using assms by (auto simp: field_ok_def list_all_iff)
  then have find: "find_sub '':'' (n @ '':'' @ v) = Some (length n)" by (simp add: find_char takeWhile_stop)
  have "\<not> isOws (hd (n @ '':'' @ v))" using n by simp
  moreover have "lowerAscii n = ''content-length'' \<Longrightarrow> lowerAscii n \<noteq> ''transfer-encoding''" by simp
  ultimately have line: "header_line (n @ '':'' @ v) cl tc =
     (if lowerAscii n = ''content-length''
      then (case mergeContentLength (trimOws v) cl of None \<Rightarrow> None | Some c \<Rightarrow> Some (c, tc))
      else if lowerAscii n = ''transfer-encoding''
      then (case appendTransferCodings (trimOws v) tc of None \<Rightarrow> None | Some t \<Rightarrow> Some (cl, t))
      else Some (cl, tc))"
    using assms find by (simp add: header_line_def field_ok_def validHeaderName_def validHeaderValue_def Let_def)
  have merge: "(case mergeContentLength (trimOws v) cl of None \<Rightarrow> None | Some c \<Rightarrow> Some (c, tc)) = Some (cl', tc') \<longleftrightarrow>
      mergeContentLength (trimOws v) cl = Some cl' \<and> tc' = tc" by (auto split: option.splits)
  have codings: "(case appendTransferCodings (trimOws v) tc of None \<Rightarrow> None | Some t \<Rightarrow> Some (cl, t)) = Some (cl', tc') \<longleftrightarrow>
      appendTransferCodings (trimOws v) tc = Some tc' \<and> cl' = cl" by (auto split: option.splits)
  show ?thesis
  proof (cases "lowerAscii n = ''content-length''")
    case True
    then show ?thesis
      unfolding line by (simp add: merge mergeContentLength_iff elements_def merged_def)
  next
    case False
    then show ?thesis
      unfolding line by (auto simp: codings appendTransferCodings_iff elements_def merged_def comp_def)
  qed
qed

lemma header_line_is_field:
  assumes "header_line line cl tc = Some r"
  shows "\<exists>n v. line = n @ '':'' @ v \<and> field_ok (n, v)"
proof -
  obtain colon where colon: "find_sub '':'' line = Some colon" "validHeaderName (take colon line)" "validHeaderValue (drop (colon + 1) line)"
    using assms by (auto simp: header_line_def split: if_splits option.splits)
  then have "CHR '':'' \<in> set line" by (auto simp: find_char split: if_splits)
  then obtain n v where line: "line = n @ CHR '':'' # v" "CHR '':'' \<notin> set n" by (auto dest: split_list_first)
  then have "colon = length n" using colon(1) by (simp add: find_char takeWhile_stop)
  then show ?thesis using colon line by (intro exI [of _ n] exI [of _ v])
      (simp add: field_ok_def validHeaderName_def validHeaderValue_def)
qed

lemma render_fields_simps [simp]:
  "render_fields [] = []" "render_fields ((n, v) # fs) = n @ '':'' @ v @ CRLF @ render_fields fs"
  by (simp_all add: render_fields_def render_line_def)

lemma elements_Nil [simp]: "elements name [] = []"
  by (simp add: elements_def)

lemma elements_Cons: "elements name (f # g) = elements name [f] @ elements name g"
  by (simp add: elements_def)

lemma field_no_CR: "field_ok (n, v) \<Longrightarrow> CR \<notin> set (n @ '':'' @ v)"
  using list_all_no_CR [of n] list_all_no_CR [of v] by (auto simp: field_ok_def CR_def)

text \<open>How far the marker is from the start of a line.\<close>

definition marker_at :: "string \<Rightarrow> nat \<Rightarrow> bool" where
  "marker_at rest m \<longleftrightarrow> (if prefix CRLF rest then m = 0 else find_sub (CRLF @ CRLF) rest = Some m)"

lemma marker_line:
  assumes "marker_at (l @ CRLF @ r) m" "CR \<notin> set l" "l \<noteq> []"
  shows "m \<ge> length l" "m \<noteq> 0" "marker_at r (m - (length l + 2))"
proof -
  have "\<not> prefix CRLF (l @ CRLF @ r)" using assms(2,3) by (cases l) (auto simp: CRLF_def)
  then have "find_sub (CRLF @ CRLF) (l @ CRLF @ r) = Some m" using assms(1) by (simp add: marker_at_def)
  then show "m \<ge> length l" "m \<noteq> 0" "marker_at r (m - (length l + 2))"
    using find_double [OF assms(2), of r] assms(3) by (auto simp: marker_at_def split: if_splits)
qed

lemma marker_fields:
  "\<forall>f\<in>set fs. field_ok f \<Longrightarrow> marker_at (render_fields fs @ CRLF @ b) (length (render_fields fs) - 2)"
proof (induction fs)
  case Nil
  then show ?case by (simp add: marker_at_def)
next
  case (Cons f fs)
  obtain n v where f: "f = (n, v)" by fastforce
  let ?l = "n @ '':'' @ v" and ?r = "render_fields fs @ CRLF @ b"
  have cr: "CR \<notin> set ?l" using Cons.prems field_no_CR [of n v] f by simp
  have "\<not> prefix CRLF (?l @ CRLF @ ?r)" using cr by (cases n) (auto simp: CRLF_def CR_def)
  moreover have "find_sub (CRLF @ CRLF) (?l @ CRLF @ ?r) = Some (length ?l + length (render_fields fs))"
  proof (cases fs)
    case Nil
    then show ?thesis using find_double [OF cr, of ?r] by (simp add: prefix_def)
  next
    case (Cons g gs)
    obtain k w where g: "g = (k, w)" by fastforce
    have "CR \<notin> set (k @ '':'' @ w)" using \<open>\<forall>f\<in>set (f # fs). field_ok f\<close> field_no_CR [of k w] g Cons by simp
    then have "\<not> prefix CRLF ?r" using Cons g by (cases k) (auto simp: CRLF_def CR_def)
    then show ?thesis using find_double [OF cr, of ?r] Cons.IH Cons.prems Cons g by (simp add: marker_at_def CRLF_def)
  qed
  ultimately show ?case using f by (simp add: marker_at_def CRLF_def)
qed

lemma marker_zero: "marker_at rest 0 \<Longrightarrow> \<exists>b. rest = CRLF @ b"
  by (cases rest) (auto simp: marker_at_def prefix_def CRLF_def split: if_splits)

lemma header_lines_complete:
  assumes "\<forall>f\<in>set fs. field_ok f" "marker_at (render_fields fs @ CRLF @ b) m"
    "merged cl (elements ''content-length'' fs) cl'" "\<forall>t\<in>set (elements ''transfer-encoding'' fs). t \<noteq> []"
  shows "header_lines (render_fields fs @ CRLF @ b) m cl tc = Some (cl', tc @ map lowerAscii (elements ''transfer-encoding'' fs))"
  using assms
proof (induction fs arbitrary: m cl tc)
  case Nil
  then show ?case by (subst header_lines.simps) (auto simp: marker_at_def merged_def)
next
  case (Cons f fs)
  obtain n v where f: "f = (n, v)" by fastforce
  let ?l = "n @ '':'' @ v" and ?r = "render_fields fs @ CRLF @ b"
  have cr: "CR \<notin> set ?l" using Cons.prems(1) field_no_CR [of n v] f by simp
  have m: "m \<ge> length ?l" "m \<noteq> 0" "marker_at ?r (m - (length ?l + 2))"
    using marker_line [of ?l ?r m] Cons.prems(2) cr f by auto
  obtain c where c: "merged cl (elements ''content-length'' [f]) c" "merged c (elements ''content-length'' fs) cl'"
    using Cons.prems(3) unfolding elements_Cons [of _ f fs] merged_append by blast
  have te: "\<forall>t\<in>set (elements ''transfer-encoding'' [f]). t \<noteq> []" "\<forall>t\<in>set (elements ''transfer-encoding'' fs). t \<noteq> []"
    using Cons.prems(4) unfolding elements_Cons [of _ f fs] by auto
  have "header_line ?l cl tc = Some (c, tc @ map lowerAscii (elements ''transfer-encoding'' [f]))"
    using header_line_field [of n v cl tc c] Cons.prems(1) te(1) c(1) f by auto
  moreover have "find_sub CRLF (?l @ CRLF @ ?r) = Some (length ?l)" using no_CR_no_crlf [OF cr] by (rule find_CRLF)
  moreover have "take (length ?l) (?l @ CRLF @ ?r) = ?l" "drop (length ?l + 2) (?l @ CRLF @ ?r) = ?r"
    by (rule take_line, rule drop_line)
  ultimately have "header_lines (?l @ CRLF @ ?r) m cl tc =
      header_lines ?r (m - (length ?l + 2)) c (tc @ map lowerAscii (elements ''transfer-encoding'' [f]))"
    using m(1,2) by (subst header_lines.simps) simp
  also have "\<dots> = Some (cl', (tc @ map lowerAscii (elements ''transfer-encoding'' [f])) @ map lowerAscii (elements ''transfer-encoding'' fs))"
    using Cons.prems(1) te(2) m(3) c(2) by (intro Cons.IH) auto
  finally show ?case unfolding elements_Cons [of _ f fs] using f by simp
qed

lemma header_lines_sound:
  assumes "marker_at rest m" "header_lines rest m cl tc = Some (cl', tc')"
  shows "\<exists>fs b. rest = render_fields fs @ CRLF @ b \<and> (\<forall>f\<in>set fs. field_ok f) \<and>
     merged cl (elements ''content-length'' fs) cl' \<and> (\<forall>t\<in>set (elements ''transfer-encoding'' fs). t \<noteq> []) \<and>
     tc' = tc @ map lowerAscii (elements ''transfer-encoding'' fs)"
  using assms
proof (induction rest m cl tc rule: header_lines.induct)
  case (1 rest m cl tc)
  show ?case
  proof (cases "m = 0")
    case True
    then obtain b where "rest = CRLF @ b" using marker_zero 1(2) by blast
    moreover have "cl' = cl" "tc' = tc" using 1(3) True by (simp_all add: header_lines.simps)
    ultimately show ?thesis by (intro exI [of _ "[]"] exI [of _ b]) (simp add: merged_def)
  next
    case False
    obtain k where k: "find_sub CRLF rest = Some k" "k \<le> m"
      using 1(3) False by (subst (asm) header_lines.simps) (auto split: option.splits if_splits)
    obtain l r where r: "rest = l @ CRLF @ r" "length l = k" using k(1) by (auto simp: find_CRLF_iff)
    obtain c t where line: "header_line l cl tc = Some (c, t)" "header_lines r (m - (k + 2)) c t = Some (cl', tc')"
      using 1(3) False k r by (subst (asm) header_lines.simps) (auto split: option.splits simp: CRLF_def)
    obtain n v where l: "l = n @ '':'' @ v" "field_ok (n, v)" using header_line_is_field [OF line(1)] by blast
    have m: "marker_at r (m - (k + 2))"
      using marker_line(3) [of l r m] 1(2) r l field_no_CR [OF l(2)] by auto
    have "drop (k + 2) rest = r" "take k rest = l" using r drop_line [of l r] by auto
    then obtain fs b where fs: "r = render_fields fs @ CRLF @ b" "\<forall>f\<in>set fs. field_ok f"
        "merged c (elements ''content-length'' fs) cl'" "\<forall>t\<in>set (elements ''transfer-encoding'' fs). t \<noteq> []"
        "tc' = t @ map lowerAscii (elements ''transfer-encoding'' fs)"
      using 1(1) [OF False k(1) _ _ refl, of c t] k(2) line m by auto
    have f: "merged cl (elements ''content-length'' [(n, v)]) c" "\<forall>t\<in>set (elements ''transfer-encoding'' [(n, v)]). t \<noteq> []"
        "t = tc @ map lowerAscii (elements ''transfer-encoding'' [(n, v)])"
      using header_line_field [OF l(2)] line(1) l(1) by auto
    show ?thesis
      unfolding r(1) fs(1) l(1) fs(5) f(3)
      by (intro exI [of _ "(n, v) # fs"] exI [of _ b], unfold elements_Cons [of _ "(n, v)" fs] merged_append)
        (use fs(2-4) f(1,2) l(2) in auto)
  qed
qed

text \<open>What the header tells: its status, where it ends, and the numbers of its length and coding fields.\<close>

definition header_of :: "string \<Rightarrow> (string \<times> string) list \<Rightarrow> nat \<Rightarrow> nat option \<Rightarrow> bool" where
  "header_of l fs status cl \<longleftrightarrow> status_line l status \<and> (\<forall>f\<in>set fs. field_ok f) \<and>
     merged None (elements ''content-length'' fs) cl \<and> (\<forall>t\<in>set (elements ''transfer-encoding'' fs). t \<noteq> []) \<and>
     (cl = None \<or> elements ''transfer-encoding'' fs = []) \<and>
     (elements ''transfer-encoding'' fs = [] \<or> map lowerAscii (elements ''transfer-encoding'' fs) = [''chunked''])"

definition projection :: "string \<Rightarrow> (string \<times> string) list \<Rightarrow> nat \<Rightarrow> nat option \<Rightarrow> nat \<Rightarrow> header_projection" where
  "projection l fs status cl B = body_framing status cl (map lowerAscii (elements ''transfer-encoding'' fs)) B
     \<lparr>hp_state = NeedMore, hp_complete = True, hp_status = status,
      hp_bodyOffset = length (render_line l @ render_fields fs @ CRLF), hp_mode = UntilClose, hp_contentLength = 0\<rparr>"

lemma marker_of_head:
  assumes "CR \<notin> set l" "marker_at r m"
  shows "find_sub (CRLF @ CRLF) (l @ CRLF @ r) = Some (if prefix CRLF r then length l else length l + 2 + m)"
  using assms by (auto simp: find_double marker_at_def)

lemma head_length:
  assumes "\<forall>f\<in>set fs. field_ok f" "CR \<notin> set l"
  shows "find_sub (CRLF @ CRLF) (l @ CRLF @ render_fields fs @ CRLF @ b) =
     Some (length (render_line l @ render_fields fs @ CRLF) - 4)"
proof (cases fs)
  case Nil
  then show ?thesis using marker_of_head [OF assms(2) marker_fields [OF assms(1), of b]] by (simp add: render_line_def CRLF_def)
next
  case (Cons f gs)
  obtain n v where f: "f = (n, v)" by fastforce
  have "CR \<notin> set (n @ '':'' @ v)" using assms(1) Cons f field_no_CR [of n v] by simp
  then have "\<not> prefix CRLF (render_fields fs @ CRLF @ b)" using Cons f by (cases n) (auto simp: CRLF_def CR_def)
  moreover have "length (render_fields fs) \<ge> 2" using Cons f by (simp add: CRLF_def)
  ultimately show ?thesis
    using marker_of_head [OF assms(2) marker_fields [OF assms(1), of b]] by (simp add: render_line_def CRLF_def)
qed

lemma parseHeaders_complete:
  assumes "header_of l fs status cl" "length (render_line l @ render_fields fs @ CRLF) \<le> H"
  shows "parseHeaders (render_line l @ render_fields fs @ CRLF @ b) closed H B = projection l fs status cl B"
proof -
  let ?tail = "render_fields fs @ CRLF @ b"
  have l: "CR \<notin> set l" using assms(1) status_line_no_CR by (auto simp: header_of_def)
  have fs: "\<forall>f\<in>set fs. field_ok f" using assms(1) by (simp add: header_of_def)
  have marker: "find_sub (CRLF @ CRLF) (l @ CRLF @ ?tail) = Some (length (render_line l @ render_fields fs @ CRLF) - 4)"
    by (rule head_length [OF fs l])
  have len: "length (render_line l @ render_fields fs @ CRLF) = length l + length (render_fields fs) + 4"
    by (simp add: render_line_def CRLF_def)
  define tc where "tc = map lowerAscii (elements ''transfer-encoding'' fs)"
  have lines: "header_lines ?tail (length (render_fields fs) - 2) None [] = Some (cl, tc)"
    using header_lines_complete [OF fs marker_fields [OF fs], of None cl b "[]"] assms(1) by (auto simp: header_of_def tc_def)
  have status: "parseStatusLine l = (True, status)" using assms(1) by (simp add: header_of_def parseStatusLine_iff)
  have te: "\<not> (cl \<noteq> None \<and> tc \<noteq> [])" "\<not> (tc \<noteq> [] \<and> (length tc \<noteq> 1 \<or> hd tc \<noteq> ''chunked''))"
    using assms(1) by (auto simp: header_of_def tc_def)
  have find: "find_sub CRLF (l @ CRLF @ ?tail) = Some (length l)" using no_CR_no_crlf [OF l] by (rule find_CRLF)
  have wire: "render_line l @ render_fields fs @ CRLF @ b = l @ CRLF @ ?tail" by (simp add: render_line_def)
  have arith: "length l + length (render_fields fs) + 4 - 4 + 4 = length l + length (render_fields fs) + 4"
      "length l + length (render_fields fs) + 4 - 4 - (length l + 2) = length (render_fields fs) - 2" by simp_all
  show ?thesis
    unfolding wire parseHeaders_def marker len option.case Let_def find take_line drop_line status prod.case arith lines
      projection_def tc_def [symmetric] if_not_P [OF te(1)] if_not_P [OF te(2)]
    using assms(2) len by (simp add: new_projection_def)
qed

lemma parseHeaders_sound:
  assumes "hp_complete (parseHeaders wire closed H B)"
  shows "\<exists>l fs b status cl. wire = render_line l @ render_fields fs @ CRLF @ b \<and> header_of l fs status cl \<and>
     length (render_line l @ render_fields fs @ CRLF) \<le> H \<and> parseHeaders wire closed H B = projection l fs status cl B"
proof -
  obtain m where m: "find_sub (CRLF @ CRLF) wire = Some m" "m + 4 \<le> H"
    using assms by (simp add: parseHeaders_def new_projection_def Let_def split: option.split_asm if_split_asm)
  obtain k where k: "find_sub CRLF wire = Some k" "k \<le> m"
    using assms m by (simp add: parseHeaders_def new_projection_def Let_def split: option.split_asm if_split_asm)
  obtain status where status: "parseStatusLine (take k wire) = (True, status)"
    using assms m k by (simp add: parseHeaders_def new_projection_def Let_def split: option.split_asm if_split_asm prod.split_asm)
  obtain cl tc where lines: "header_lines (drop (k + 2) wire) (m - (k + 2)) None [] = Some (cl, tc)"
      "\<not> (cl \<noteq> None \<and> tc \<noteq> [])" "\<not> (tc \<noteq> [] \<and> (length tc \<noteq> 1 \<or> hd tc \<noteq> ''chunked''))"
    using assms m k status
    by (simp add: parseHeaders_def new_projection_def Let_def split: option.split_asm if_split_asm prod.split_asm)
  obtain l r where wire: "wire = l @ CRLF @ r" "length l = k" using k(1) by (auto simp: find_CRLF_iff)
  have parts: "take k wire = l" "drop (k + 2) wire = r" using wire drop_line [of l r] by auto
  have sl: "status_line l status" using status parts by (simp add: parseStatusLine_iff)
  have cr: "CR \<notin> set l" using sl by (rule status_line_no_CR)
  have "marker_at r (m - (k + 2))"
    using m(1) wire find_double [OF cr, of r] by (auto simp: marker_at_def split: if_splits)
  then obtain fs b where fs: "r = render_fields fs @ CRLF @ b" "\<forall>f\<in>set fs. field_ok f"
      "merged None (elements ''content-length'' fs) cl" "\<forall>t\<in>set (elements ''transfer-encoding'' fs). t \<noteq> []"
      "tc = [] @ map lowerAscii (elements ''transfer-encoding'' fs)"
    using header_lines_sound lines(1) parts(2) by metis
  have "header_of l fs status cl"
    using sl fs lines(2,3) by (cases tc) (auto simp: header_of_def)
  moreover have "length (render_line l @ render_fields fs @ CRLF) \<le> H"
    using head_length [OF fs(2) cr, of b] m wire fs(1) by (simp add: render_line_def CRLF_def)
  moreover have "wire = render_line l @ render_fields fs @ CRLF @ b" using wire fs(1) by (simp add: render_line_def)
  ultimately show ?thesis using parseHeaders_complete by metis
qed

section \<open>The body against the grammar\<close>

lemma find_char_take: "takeWhile (\<lambda>x. x \<noteq> c) l = (case find_sub [c] l of None \<Rightarrow> l | Some k \<Rightarrow> take k l)"
  by (auto simp: find_char takeWhile_eq_take [symmetric] takeWhile_eq_all_conv)

lemma chunk_size_token:
  "parseHex (trimOws (case find_sub '';'' line of None \<Rightarrow> line | Some k \<Rightarrow> take k line)) = chunk_size line"
  by (simp add: chunk_size_def find_char_take parseHex_number)

lemma render_chunks_simps [simp]:
  "render_chunks [] = []" "render_chunks ((line, data) # cs) = line @ CRLF @ data @ CRLF @ render_chunks cs"
  by (simp_all add: render_chunks_def render_line_def)

lemma trailer_ok_iff:
  assumes "t \<noteq> []"
  shows "trailer_ok t \<longleftrightarrow> (\<exists>n v. t = n @ '':'' @ v \<and> trailer_field_ok (n, v))"
proof
  assume t: "trailer_ok t"
  then obtain k where k: "find_sub '':'' t = Some k" by (auto simp: trailer_ok_def Let_def split: option.splits)
  then have "CHR '':'' \<in> set t" by (auto simp: find_char split: if_splits)
  then obtain n v where line: "t = n @ CHR '':'' # v" "CHR '':'' \<notin> set n" by (auto dest: split_list_first)
  then have "k = length n" using k by (simp add: find_char takeWhile_stop)
  then show "\<exists>n v. t = n @ '':'' @ v \<and> trailer_field_ok (n, v)"
    using t k line by (intro exI [of _ n] exI [of _ v])
      (simp add: trailer_ok_def trailer_field_ok_def field_ok_def validHeaderName_def validHeaderValue_def Let_def)
next
  assume "\<exists>n v. t = n @ '':'' @ v \<and> trailer_field_ok (n, v)"
  then obtain n v where t: "t = n @ '':'' @ v" "trailer_field_ok (n, v)" by blast
  then obtain c n' where n: "n = c # n'" "name_char c" by (cases n) (auto simp: trailer_field_ok_def field_ok_def)
  have "CHR '':'' \<notin> set n" using t(2) by (auto simp: trailer_field_ok_def field_ok_def list_all_iff)
  then have "find_sub '':'' t = Some (length n)" using t(1) by (simp add: find_char takeWhile_stop)
  moreover have "\<not> isOws (hd t)" using n t(1) by simp
  ultimately show "trailer_ok t"
    using t by (simp add: trailer_ok_def trailer_field_ok_def field_ok_def validHeaderName_def validHeaderValue_def Let_def)
qed

lemma trailer_line: "trailer_field_ok (n, v) \<Longrightarrow> no_crlf (n @ '':'' @ v)" "trailer_field_ok (n, v) \<Longrightarrow> trailer_ok (n @ '':'' @ v)"
  using no_CR_no_crlf [OF field_no_CR [of n v]] trailer_ok_iff [of "n @ '':'' @ v"] by (auto simp: trailer_field_ok_def)

lemma scan_trailers_line:
  assumes "no_crlf l" "l \<noteq> []" "trailer_ok l" "gone + length l \<le> H"
  shows "scan_trailers (l @ CRLF @ r) at gone closed H d = scan_trailers r (at + length l + 2) (gone + length l + 2) closed H d"
  using assms(2-4) by (subst scan_trailers.simps, unfold find_CRLF [OF assms(1)] option.case take_line drop_line) auto

lemma scan_trailers_complete:
  assumes "\<forall>f\<in>set ts. trailer_field_ok f" "gone + length (render_fields ts) \<le> H"
  shows "scan_trailers (render_fields ts @ CRLF) at gone closed H d =
     \<lparr>cp_state = Complete, cp_consumedBytes = at + length (render_fields ts @ CRLF), cp_decodedBytes = d\<rparr>"
  using assms
proof (induction ts arbitrary: at gone)
  case Nil
  have "find_sub CRLF CRLF = Some 0" by (simp add: CRLF_def)
  then show ?case using Nil by (subst scan_trailers.simps) (simp add: CRLF_def)
next
  case (Cons f ts)
  obtain n v where f: "f = (n, v)" by fastforce
  let ?l = "n @ '':'' @ v" and ?r = "render_fields ts @ CRLF"
  have l: "no_crlf ?l" "trailer_ok ?l" using trailer_line [of n v] Cons.prems(1) f by auto
  have len: "gone + length ?l + 2 + length (render_fields ts) \<le> H" using Cons.prems(2) f by (simp add: CRLF_def)
  have "scan_trailers (?l @ CRLF @ ?r) at gone closed H d = scan_trailers ?r (at + length ?l + 2) (gone + length ?l + 2) closed H d"
    using l len by (intro scan_trailers_line) auto
  also have "\<dots> = \<lparr>cp_state = Complete, cp_consumedBytes = at + length ?l + 2 + length ?r, cp_decodedBytes = d\<rparr>"
    using Cons.prems(1) len by (intro Cons.IH) auto
  finally show ?case using f by (simp add: CRLF_def)
qed

lemma scan_trailers_sound:
  assumes "cp_state (scan_trailers rest at gone closed H d) = Complete"
  shows "\<exists>ts. rest = render_fields ts @ CRLF \<and> (\<forall>f\<in>set ts. trailer_field_ok f) \<and> gone + length (render_fields ts) \<le> H"
  using assms
proof (induction rest at gone closed H d rule: scan_trailers.induct)
  case (1 rest at gone closed H d)
  obtain k where k: "find_sub CRLF rest = Some k" "gone + k \<le> H"
    using "1.prems" by (subst (asm) scan_trailers.simps) (auto simp: chunk_stop_def split: option.splits if_splits)
  obtain l r where r: "rest = l @ CRLF @ r" "length l = k" using k(1) by (auto simp: find_CRLF_iff)
  show ?case
  proof (cases "k = 0")
    case True
    then have "length rest = 2" using "1.prems" k by (subst (asm) scan_trailers.simps) (auto split: if_splits)
    then have "rest = render_fields [] @ CRLF" using r True by (simp add: CRLF_def)
    then show ?thesis using k(2) by (intro exI [of _ "[]"]) auto
  next
    case False
    have parts: "take k rest = l" "drop (k + 2) rest = r" using r drop_line [of l r] by auto
    have ok: "trailer_ok l" and more: "cp_state (scan_trailers r (at + k + 2) (gone + k + 2) closed H d) = Complete"
      using "1.prems" k False parts
      by (subst (asm) scan_trailers.simps, simp add: chunk_stop_def split: if_split_asm)+
    obtain n v where l: "l = n @ '':'' @ v" "trailer_field_ok (n, v)" using ok trailer_ok_iff [of l] False r(2) by auto
    obtain ts where ts: "r = render_fields ts @ CRLF" "\<forall>f\<in>set ts. trailer_field_ok f" "gone + k + 2 + length (render_fields ts) \<le> H"
      using "1.IH" [OF k(1) _ False] k(2) ok more parts by auto
    show ?thesis
      using ts l r by (intro exI [of _ "(n, v) # ts"]) (auto simp: CRLF_def)
  qed
qed

lemma scan_chunks_line:
  assumes "chunk_line line n"
  shows "scan_chunks (line @ CRLF @ r) at d fr closed H B =
     (if fr + (length line + 2) > H \<or> n > B - d then chunk_stop BodyTooLarge
      else if n = 0 then scan_trailers r (at + length line + 2) 0 closed H d
      else if length r < n + 2 then chunk_stop (if closed then ProtocolError else NeedMore)
      else if take 2 (drop n r) \<noteq> CRLF then chunk_stop ProtocolError
      else if fr + (length line + 2) + 2 > H then chunk_stop BodyTooLarge
      else scan_chunks (drop (n + 2) r) (at + length line + 2 + n + 2) (d + n) (fr + (length line + 2) + 2) closed H B)"
proof -
  have line: "no_crlf line" "\<not> (length line = 0 \<or> length line > kMaximumChunkLineBytes)" "chunk_size line = Some n"
    using assms by (auto simp: chunk_line_def)
  show ?thesis
    by (subst scan_chunks.simps)
      (unfold find_CRLF [OF line(1)] option.case take_line drop_line chunk_size_token line(3) Let_def if_not_P [OF line(2)], rule refl)
qed

lemma scan_chunk:
  assumes "chunk_ok (line, data)" "fr + length line + 4 \<le> H" "d + length data \<le> B"
  shows "scan_chunks (line @ CRLF @ data @ CRLF @ r) at d fr closed H B =
     scan_chunks r (at + length line + length data + 4) (d + length data) (fr + length line + 4) closed H B"
proof -
  have line: "chunk_line line (length data)" "data \<noteq> []" using assms(1) by (auto simp: chunk_ok_def)
  have r: "drop (length data + 2) (data @ CRLF @ r) = r" "take 2 (drop (length data) (data @ CRLF @ r)) = CRLF"
      "\<not> length (data @ CRLF @ r) < length data + 2"
    by (simp_all add: CRLF_def)
  have n: "\<not> (fr + (length line + 2) > H \<or> length data > B - d)" "length data \<noteq> 0" "\<not> fr + (length line + 2) + 2 > H"
    using assms(2,3) line(2) by auto
  have sums: "at + length line + 2 + length data + 2 = at + length line + length data + 4"
      "fr + (length line + 2) + 2 = fr + length line + 4" by simp_all
  show ?thesis
    unfolding scan_chunks_line [OF line(1)] if_not_P [OF n(1)] if_not_P [OF n(2)] if_not_P [OF r(3)] r(1,2) sums
    using assms(2) by simp
qed

lemma scan_chunks_complete:
  assumes "\<forall>c\<in>set cs. chunk_ok c" "chunk_line lastLine 0" "\<forall>f\<in>set ts. trailer_field_ok f"
    "d + length (concat (map snd cs)) \<le> B" "fr + sum_list (map (\<lambda>c. length (fst c) + 4) cs) + length lastLine + 2 \<le> H"
    "length (render_fields ts) \<le> H"
  shows "scan_chunks (render_body (InChunks cs lastLine ts)) at d fr closed H B =
     \<lparr>cp_state = Complete, cp_consumedBytes = at + length (render_body (InChunks cs lastLine ts)),
      cp_decodedBytes = d + length (concat (map snd cs))\<rparr>"
  using assms
proof (induction cs arbitrary: at d fr)
  case Nil
  have "scan_chunks (lastLine @ CRLF @ (render_fields ts @ CRLF)) at d fr closed H B =
      scan_trailers (render_fields ts @ CRLF) (at + length lastLine + 2) 0 closed H d"
    using Nil by (subst scan_chunks_line [OF assms(2)]) simp
  also have "\<dots> = \<lparr>cp_state = Complete, cp_consumedBytes = at + length lastLine + 2 + length (render_fields ts @ CRLF), cp_decodedBytes = d\<rparr>"
    using Nil by (intro scan_trailers_complete) auto
  finally show ?case by (simp add: render_line_def CRLF_def)
next
  case (Cons c cs)
  obtain line data where c: "c = (line, data)" by fastforce
  let ?r = "render_body (InChunks cs lastLine ts)"
  have "scan_chunks (line @ CRLF @ data @ CRLF @ ?r) at d fr closed H B =
      scan_chunks ?r (at + length line + length data + 4) (d + length data) (fr + length line + 4) closed H B"
    using Cons.prems c by (intro scan_chunk) auto
  also have "\<dots> = \<lparr>cp_state = Complete, cp_consumedBytes = at + length line + length data + 4 + length ?r,
      cp_decodedBytes = d + length data + length (concat (map snd cs))\<rparr>"
    using Cons.prems c by (intro Cons.IH) auto
  finally show ?case using c by (simp add: CRLF_def)
qed

lemma scan_chunks_sound:
  assumes "cp_state (scan_chunks rest at d fr closed H B) = Complete" "d \<le> B"
  shows "\<exists>cs lastLine ts. rest = render_body (InChunks cs lastLine ts) \<and> (\<forall>c\<in>set cs. chunk_ok c) \<and> chunk_line lastLine 0 \<and>
     (\<forall>f\<in>set ts. trailer_field_ok f) \<and> d + length (concat (map snd cs)) \<le> B \<and>
     fr + sum_list (map (\<lambda>c. length (fst c) + 4) cs) + length lastLine + 2 \<le> H \<and> length (render_fields ts) \<le> H"
  using assms
proof (induction rest at d fr closed H B rule: scan_chunks.induct)
  case (1 rest at d fr closed H B)
  obtain k where k: "find_sub CRLF rest = Some k" "\<not> (k = 0 \<or> k > kMaximumChunkLineBytes)"
    using "1.prems"(1) by (subst (asm) scan_chunks.simps) (auto simp: chunk_stop_def split: option.splits if_splits)
  obtain line r where r: "rest = line @ CRLF @ r" "length line = k" "no_crlf line" using k(1) by (auto simp: find_CRLF_iff)
  have parts: "take k rest = line" "drop (k + 2) rest = r" using r drop_line [of line r] by auto
  obtain n where n: "chunk_size line = Some n"
    using "1.prems"(1) k parts unfolding scan_chunks.simps [of rest] Let_def chunk_size_token
    by (auto simp: chunk_stop_def split: option.splits)
  have line: "chunk_line line n" using k(2) r n by (auto simp: chunk_line_def)
  note step = "1.prems"(1) [unfolded r(1) scan_chunks_line [OF line]]
  have fits: "fr + (length line + 2) \<le> H" "n \<le> B - d" using step by (auto simp: chunk_stop_def split: if_splits)
  show ?case
  proof (cases "n = 0")
    case True
    then have "cp_state (scan_trailers r (at + length line + 2) 0 closed H d) = Complete" using step fits by simp
    then obtain ts where "r = render_fields ts @ CRLF" "\<forall>f\<in>set ts. trailer_field_ok f" "0 + length (render_fields ts) \<le> H"
      using scan_trailers_sound by blast
    then show ?thesis using r(1) line True fits "1.prems"(2)
      by (intro exI [of _ "[]"] exI [of _ line] exI [of _ ts]) (auto simp: render_line_def)
  next
    case False
    have more: "\<not> length r < n + 2" "take 2 (drop n r) = CRLF" "\<not> fr + (length line + 2) + 2 > H"
        "cp_state (scan_chunks (drop (n + 2) r) (at + length line + 2 + n + 2) (d + n) (fr + (length line + 2) + 2) closed H B) = Complete"
      using step fits False by (simp_all add: chunk_stop_def split: if_split_asm)
    define data where "data = take n r"
    have data: "length data = n" "data \<noteq> []" using more(1) False by (auto simp: data_def)
    have tail: "r = data @ CRLF @ drop (n + 2) r"
      unfolding data_def using more(2) by (metis append_take_drop_id drop_drop add.commute)
    have size: "parseHex (trimOws (case find_sub '';'' (take k rest) of None \<Rightarrow> take k rest | Some k' \<Rightarrow> take k' (take k rest))) = Some n"
      using n parts(1) by (simp only: chunk_size_token)
    have "d + n \<le> B" using fits(2) "1.prems"(2) by simp
    then obtain cs lastLine ts where cs: "drop (n + 2) r = render_body (InChunks cs lastLine ts)" "\<forall>c\<in>set cs. chunk_ok c"
        "chunk_line lastLine 0" "\<forall>f\<in>set ts. trailer_field_ok f" "d + n + length (concat (map snd cs)) \<le> B"
        "fr + (length line + 2) + 2 + sum_list (map (\<lambda>c. length (fst c) + 4) cs) + length lastLine + 2 \<le> H" "length (render_fields ts) \<le> H"
      using "1.IH" [OF k(1) k(2) refl refl size refl refl refl _ False] fits more parts r(2) by auto
    have "chunk_ok (line, data)" using line data by (simp add: chunk_ok_def)
    then show ?thesis
      using cs(2-7) data r(1) tail unfolding cs(1)
      by (intro exI [of _ "(line, data) # cs"] exI [of _ lastLine] exI [of _ ts]) auto
  qed
qed

lemma decode_chunks_render:
  assumes "\<forall>c\<in>set cs. chunk_ok c" "n = length body + length (concat (map snd cs))"
  shows "decode_chunks (render_chunks cs @ r) body n = body @ concat (map snd cs)"
  using assms
proof (induction cs arbitrary: body)
  case Nil
  then show ?case by (simp add: decode_chunks.simps)
next
  case (Cons c cs)
  obtain line data where c: "c = (line, data)" by fastforce
  let ?r = "render_chunks cs @ r"
  have ok: "no_crlf line" "chunk_size line = Some (length data)" "data \<noteq> []"
    using Cons.prems(1) c by (auto simp: chunk_ok_def chunk_line_def)
  have parts: "take (length data) (data @ CRLF @ ?r) = data" "drop (length data + 2) (data @ CRLF @ ?r) = ?r"
    by (rule take_line, rule drop_line)
  have "length body < n" using Cons.prems(2) c ok(3) by simp
  then have "decode_chunks (line @ CRLF @ data @ CRLF @ ?r) body n = decode_chunks ?r (body @ data) n"
    by (subst decode_chunks.simps)
      (simp only: find_CRLF [OF ok(1)] option.case take_line drop_line chunk_size_token ok(2) Let_def parts if_True)
  also have "\<dots> = (body @ data) @ concat (map snd cs)" using Cons.prems c by (intro Cons.IH) auto
  finally show ?case using c by simp
qed

text \<open>The header and the framing together: what \<open>inspectMoonlightHttpResponse\<close> answers to a whole message.\<close>

definition answer :: "nat \<Rightarrow> http_message \<Rightarrow> framing_result" where
  "answer status m = \<lparr>fr_state = Complete, fr_headersComplete = True, fr_httpStatus = status,
     fr_consumedBytes = length (render m), fr_body = content (hm_body m)\<rparr>"

definition length_field :: "(string \<times> string) list \<Rightarrow> nat option" where
  "length_field fs = (case elements ''content-length'' fs of [] \<Rightarrow> None | t # _ \<Rightarrow> number 10 decimal_digit t)"

lemma header_of_message:
  assumes "acceptable closed H B status m"
  shows "header_of (hm_statusLine m) (hm_fields m) status (length_field (hm_fields m))"
proof -
  define ls where "ls = elements ''content-length'' (hm_fields m)"
  have ls: "\<forall>t\<in>set ls. number 10 decimal_digit t \<noteq> None \<and> number 10 decimal_digit t = number 10 decimal_digit (hd ls)"
    using assms unfolding acceptable_def framing_ok_def ls_def by blast
  have field: "length_field (hm_fields m) = (case ls of [] \<Rightarrow> None | t # _ \<Rightarrow> number 10 decimal_digit t)"
    by (simp add: length_field_def ls_def)
  have merged: "merged None ls (length_field (hm_fields m))"
  proof (cases ls)
    case (Cons t ts)
    then have hd: "hd ls = t" "t \<in> set ls" by simp_all
    then obtain n where n: "number 10 decimal_digit t = Some n" using ls by blast
    then have "\<forall>u\<in>set ls. number 10 decimal_digit u = Some n" using ls hd by metis
    then show ?thesis using n Cons by (simp add: merged_def field)
  qed (simp add: merged_def field)
  have "length_field (hm_fields m) = None \<or> elements ''transfer-encoding'' (hm_fields m) = []"
    using assms unfolding acceptable_def framing_ok_def by (auto simp add: length_field_def)
  then show ?thesis
    using assms merged by (simp add: header_of_def acceptable_def framing_ok_def body_ok_def ls_def)
qed

text \<open>With the header of an acceptable message the function looks at the rest of the wire alone.\<close>

lemma inspect_body:
  assumes "acceptable closed H B status m"
  shows "inspectMoonlightHttpResponse True (render_head m @ b) eos H B =
    (let p = projection (hm_statusLine m) (hm_fields m) status (length_field (hm_fields m)) B; head = length (render_head m)
     in if hp_state p \<noteq> NeedMore then resultFor (hp_state p) True status
        else case hp_mode p of
          ModeNone \<Rightarrow> if length b \<noteq> 0 then resultFor ProtocolError True status
             else (resultFor Complete True status)\<lparr>fr_consumedBytes := head\<rparr>
        | ContentLength \<Rightarrow>
            if length b > hp_contentLength p then resultFor ProtocolError True status
            else if length b < hp_contentLength p then resultFor (if eos then ProtocolError else NeedMore) True status
            else (resultFor Complete True status)\<lparr>fr_consumedBytes := head + length b, fr_body := take (hp_contentLength p) b\<rparr>
        | UntilClose \<Rightarrow>
            if length b > B then resultFor BodyTooLarge True status
            else if \<not> eos then resultFor NeedMore True status
            else (resultFor Complete True status)\<lparr>fr_consumedBytes := head + length b, fr_body := b\<rparr>
        | Chunked \<Rightarrow>
            let chunked = scan_chunks b head 0 0 eos H B;
                result = (resultFor (cp_state chunked) True status)\<lparr>fr_consumedBytes := cp_consumedBytes chunked\<rparr>
            in if cp_state chunked = Complete then result\<lparr>fr_body := decode_chunks b [] (cp_decodedBytes chunked)\<rparr> else result)"
proof -
  have wire: "render_head m @ b = render_line (hm_statusLine m) @ render_fields (hm_fields m) @ CRLF @ b"
    by (simp add: render_head_def)
  define p where "p = projection (hm_statusLine m) (hm_fields m) status (length_field (hm_fields m)) B"
  have p: "parseHeaders (render_head m @ b) eos H B = p"
    unfolding wire p_def using assms
    by (intro parseHeaders_complete [OF header_of_message [OF assms]]) (simp add: acceptable_def render_head_def)
  have q: "hp_complete p" "hp_status p = status" "hp_bodyOffset p = length (render_head m)"
    by (auto simp: p_def projection_def body_framing_def render_head_def split: option.splits)
  show ?thesis
    unfolding p_def [symmetric] by (auto simp: inspectMoonlightHttpResponse_def p q scanChunked_def decodeChunked_def Let_def split: body_mode.splits)
qed

lemma projection_mode:
  assumes "acceptable closed H B status m"
  shows "hp_state (projection (hm_statusLine m) (hm_fields m) status (length_field (hm_fields m)) B) = NeedMore"
    "hp_mode (projection (hm_statusLine m) (hm_fields m) status (length_field (hm_fields m)) B) =
       (case hm_body m of NoBody \<Rightarrow> ModeNone | Sized _ \<Rightarrow> ContentLength | InChunks _ _ _ \<Rightarrow> Chunked | ToEnd _ \<Rightarrow> UntilClose)"
    "hm_body m = Sized data \<Longrightarrow>
       hp_contentLength (projection (hm_statusLine m) (hm_fields m) status (length_field (hm_fields m)) B) = length data"
proof -
  define ls where "ls = elements ''content-length'' (hm_fields m)"
  define cs where "cs = elements ''transfer-encoding'' (hm_fields m)"
  have ok: "framing_ok closed H B status ls cs (hm_body m)" using assms by (simp add: acceptable_def ls_def cs_def)
  have field: "length_field (hm_fields m) = (if ls = [] then None else number 10 decimal_digit (hd ls))"
    by (simp add: length_field_def ls_def split: list.split)
  have size: "\<exists>data. hm_body m = Sized data" if "\<not> bodyless status" "cs = []" "length_field (hm_fields m) \<noteq> None"
    using that ok field by (cases "hm_body m") (auto simp: framing_ok_def body_ok_def)
  show "hp_state (projection (hm_statusLine m) (hm_fields m) status (length_field (hm_fields m)) B) = NeedMore"
    using ok field by (cases "hm_body m") (auto simp: projection_def body_framing_def framing_ok_def body_ok_def cs_def bodyless_def split: option.splits)
  show "hp_mode (projection (hm_statusLine m) (hm_fields m) status (length_field (hm_fields m)) B) =
       (case hm_body m of NoBody \<Rightarrow> ModeNone | Sized _ \<Rightarrow> ContentLength | InChunks _ _ _ \<Rightarrow> Chunked | ToEnd _ \<Rightarrow> UntilClose)"
    using ok field by (cases "hm_body m") (auto simp: projection_def body_framing_def framing_ok_def body_ok_def cs_def bodyless_def split: option.splits)
  show "hm_body m = Sized data \<Longrightarrow>
       hp_contentLength (projection (hm_statusLine m) (hm_fields m) status (length_field (hm_fields m)) B) = length data"
    using ok field by (auto simp: projection_def body_framing_def framing_ok_def body_ok_def cs_def bodyless_def split: option.splits)
qed

lemma inspect_complete:
  assumes "acceptable closed H B status m"
  shows "inspectMoonlightHttpResponse True (render m) closed H B = answer status m"
proof (cases "hm_body m")
  case (InChunks cs lastLine ts)
  have ok: "\<forall>c\<in>set cs. chunk_ok c" "chunk_line lastLine 0" "\<forall>f\<in>set ts. trailer_field_ok f"
      "0 + length (concat (map snd cs)) \<le> B" "0 + sum_list (map (\<lambda>c. length (fst c) + 4) cs) + length lastLine + 2 \<le> H"
      "length (render_fields ts) \<le> H"
    using assms InChunks by (auto simp: acceptable_def framing_ok_def body_ok_def)
  have "decode_chunks (render_body (InChunks cs lastLine ts)) [] (length (concat (map snd cs))) = [] @ concat (map snd cs)"
    using ok(1) unfolding render_body.simps by (intro decode_chunks_render) auto
  then show ?thesis
    using InChunks projection_mode(1,2) [OF assms] scan_chunks_complete [OF ok, of "length (render_head m)" closed]
    by (simp add: render_def inspect_body [OF assms] answer_def resultFor_def Let_def del: render_body.simps)
next
  case NoBody
  then show ?thesis using projection_mode(1,2) [OF assms] inspect_body [OF assms, of "[]" closed]
    by (simp add: render_def answer_def resultFor_def Let_def)
next
  case (Sized data)
  then show ?thesis using projection_mode [OF assms]
    by (simp add: render_def inspect_body [OF assms] answer_def resultFor_def Let_def)
next
  case (ToEnd data)
  then have "closed" "length data \<le> B" using assms by (simp_all add: acceptable_def framing_ok_def body_ok_def)
  then show ?thesis using ToEnd projection_mode(1,2) [OF assms]
    by (simp add: render_def inspect_body [OF assms] answer_def resultFor_def Let_def)
qed

section \<open>Prefixes\<close>

lemma find_append: "find_sub pat w = Some k \<Longrightarrow> find_sub pat (w @ x) = Some k"
proof (induction w arbitrary: k)
  case Nil
  then show ?case by (cases x) (auto split: if_splits)
next
  case (Cons c w)
  show ?case
  proof (cases "prefix pat (c # w)")
    case True
    then have "prefix pat (c # w @ x)" by (metis append_Cons prefix_append)
    then show ?thesis using True Cons.prems by simp
  next
    case False
    then obtain j where j: "find_sub pat w = Some j" "k = Suc j" using Cons.prems by auto
    have "\<not> prefix pat (c # w @ x)"
    proof
      assume "prefix pat (c # w @ x)"
      then have "prefix pat ((c # w) @ x)" by simp
      moreover have "length pat \<le> length (c # w)" using find_bound [OF j(1)] by simp
      ultimately show False using False by (metis prefix_length_prefix prefixI)
    qed
    then show ?thesis using Cons.IH [OF j(1)] j(2) by simp
  qed
qed

lemma no_crlf_prefix: "no_crlf (a @ b) \<Longrightarrow> no_crlf a"
  unfolding no_crlf_def using find_append [of CRLF a _ b] by (cases "find_sub CRLF a") auto

lemma no_crlf_CR: "no_crlf a \<Longrightarrow> no_crlf (a @ [CR])"
proof (induction a)
  case (Cons c a)
  then show ?case by (cases a) auto
qed simp

lemma line_prefix:
  assumes "l @ CRLF @ r = p @ x" "no_crlf l"
  obtains (inside) "no_crlf p" "length p \<le> length l + 1" "length p = length l + 1 \<Longrightarrow> last p = CR \<and> p \<noteq> []"
  | (after) y where "p = l @ CRLF @ y" "r = y @ x"
proof (cases "length p < length l + 2")
  case True
  have zero: "length p - length (l @ [CR]) = 0" using True by simp
  have "p = take (length p) ((l @ [CR]) @ LF # r)" using assms(1) by (simp add: CRLF_def)
  then have p: "p = take (length p) (l @ [CR])" unfolding take_append zero by simp
  have "no_crlf (take (length p) (l @ [CR]) @ drop (length p) (l @ [CR]))"
    using no_crlf_CR [OF assms(2)] by (simp only: append_take_drop_id)
  then have "no_crlf p" using no_crlf_prefix p by metis
  moreover have "last p = CR \<and> p \<noteq> []" if "length p = length l + 1" using p that by simp
  ultimately show ?thesis using True inside by simp
next
  case False
  have "take (length (l @ CRLF)) p = l @ CRLF"
    using arg_cong [OF assms(1), of "take (length (l @ CRLF))"] False by (simp add: CRLF_def)
  then have p: "p = (l @ CRLF) @ drop (length (l @ CRLF)) p" by (metis append_take_drop_id)
  then have "p = l @ CRLF @ drop (length (l @ CRLF)) p" by simp
  moreover from this have "r = drop (length (l @ CRLF)) p @ x" using assms(1) by (metis append.assoc same_append_eq)
  ultimately show ?thesis using after by blast
qed

definition waits :: "string \<Rightarrow> framing_state \<Rightarrow> bool" where
  "waits p state \<longleftrightarrow> state = NeedMore \<or> (state = BodyTooLarge \<and> p \<noteq> [] \<and> last p = CR)"

lemma waits_append: "waits p state \<Longrightarrow> waits (a @ p) state"
  by (auto simp: waits_def)

lemma waits_line: "waits p state \<Longrightarrow> waits (l @ CRLF @ p) state"
  using waits_append [of p state "l @ CRLF"] by simp

lemma scan_trailers_prefix:
  assumes "\<forall>f\<in>set ts. trailer_field_ok f" "gone + length (render_fields ts) \<le> H" "render_fields ts @ CRLF = p @ x" "x \<noteq> []"
  shows "waits p (cp_state (scan_trailers p at gone False H d))"
  using assms
proof (induction ts arbitrary: at gone p)
  case Nil
  then have "p = [] \<or> p = [CR]" by (cases p) (auto simp: CRLF_def Cons_eq_append_conv)
  moreover have "find_sub CRLF [] = None" "find_sub CRLF [CR] = None" by (simp_all add: CRLF_def)
  ultimately show ?case
    using Nil(2) by (elim disjE) (subst scan_trailers.simps; simp add: chunk_stop_def waits_def)+
next
  case (Cons f ts)
  obtain n v where f: "f = (n, v)" by fastforce
  let ?l = "n @ '':'' @ v"
  have l: "no_crlf ?l" "trailer_ok ?l" using trailer_line [of n v] Cons.prems(1) f by auto
  have len: "gone + length ?l + 2 + length (render_fields ts) \<le> H" using Cons.prems(2) f by (simp add: CRLF_def)
  have split: "?l @ CRLF @ (render_fields ts @ CRLF) = p @ x" using Cons.prems(3) f by simp
  show ?case
  proof (rule line_prefix [OF split l(1)])
    assume "no_crlf p" "length p \<le> length ?l + 1"
    then show ?thesis using len by (subst scan_trailers.simps) (simp add: no_crlf_def chunk_stop_def waits_def)
  next
    fix y assume y: "p = ?l @ CRLF @ y" "render_fields ts @ CRLF = y @ x"
    have "scan_trailers p at gone False H d = scan_trailers y (at + length ?l + 2) (gone + length ?l + 2) False H d"
      unfolding y(1) using l len by (intro scan_trailers_line) auto
    moreover have "waits y (cp_state (scan_trailers y (at + length ?l + 2) (gone + length ?l + 2) False H d))"
      using Cons.prems(1,4) len y(2) by (intro Cons.IH) auto
    ultimately show ?thesis unfolding y(1) using waits_line by metis
  qed
qed

lemma scan_chunks_inside:
  assumes "no_crlf p" "length p \<le> length line + 1" "length p = length line + 1 \<Longrightarrow> last p = CR \<and> p \<noteq> []"
    "chunk_line line n"
  shows "waits p (cp_state (scan_chunks p at d fr False H B))"
proof -
  have "length line \<le> kMaximumChunkLineBytes" using assms(4) by (simp add: chunk_line_def)
  then have "kMaximumChunkLineBytes < length p \<Longrightarrow> last p = CR \<and> p \<noteq> []" using assms(2,3) by simp
  then show ?thesis using assms(1) by (subst scan_chunks.simps) (simp add: no_crlf_def chunk_stop_def waits_def)
qed

lemma scan_chunks_prefix:
  assumes "\<forall>c\<in>set cs. chunk_ok c" "chunk_line lastLine 0" "\<forall>f\<in>set ts. trailer_field_ok f"
    "d + length (concat (map snd cs)) \<le> B" "fr + sum_list (map (\<lambda>c. length (fst c) + 4) cs) + length lastLine + 2 \<le> H"
    "length (render_fields ts) \<le> H" "render_body (InChunks cs lastLine ts) = p @ x" "x \<noteq> []"
  shows "waits p (cp_state (scan_chunks p at d fr False H B))"
  using assms
proof (induction cs arbitrary: at d fr p)
  case Nil
  have split: "lastLine @ CRLF @ (render_fields ts @ CRLF) = p @ x" using Nil(7) by (simp add: render_line_def)
  have l: "no_crlf lastLine" using assms(2) by (simp add: chunk_line_def)
  show ?case
  proof (rule line_prefix [OF split l])
    fix y assume y: "p = lastLine @ CRLF @ y" "render_fields ts @ CRLF = y @ x"
    have "scan_chunks p at d fr False H B = scan_trailers y (at + length lastLine + 2) 0 False H d"
      unfolding y(1) using Nil(5) by (subst scan_chunks_line [OF assms(2)]) simp
    moreover have "waits y (cp_state (scan_trailers y (at + length lastLine + 2) 0 False H d))"
      using Nil y(2) by (intro scan_trailers_prefix) auto
    ultimately show ?thesis unfolding y(1) using waits_line by metis
  qed (rule scan_chunks_inside [OF _ _ _ assms(2)])
next
  case (Cons c cs)
  obtain line data where c: "c = (line, data)" by fastforce
  let ?r = "render_body (InChunks cs lastLine ts)"
  have ok: "chunk_ok (line, data)" using Cons.prems(1) c by simp
  then have line: "chunk_line line (length data)" "no_crlf line" "data \<noteq> []" by (auto simp: chunk_ok_def chunk_line_def)
  have fits: "fr + length line + 4 \<le> H" "d + length data \<le> B" using Cons.prems(4,5) c by auto
  have split: "line @ CRLF @ (data @ CRLF @ ?r) = p @ x" using Cons.prems(7) c by simp
  show ?case
  proof (rule line_prefix [OF split line(2)])
    fix y assume y: "p = line @ CRLF @ y" "data @ CRLF @ ?r = y @ x"
    show ?thesis
    proof (cases "length y < length data + 2")
      case True
      then have "cp_state (scan_chunks p at d fr False H B) = NeedMore"
        unfolding y(1) using fits line(3) by (subst scan_chunks_line [OF line(1)]) (simp add: chunk_stop_def)
      then show ?thesis by (simp add: waits_def)
    next
      case False
      have "take (length (data @ CRLF)) y = data @ CRLF"
        using arg_cong [OF y(2), of "take (length (data @ CRLF))"] False by (simp add: CRLF_def)
      then have "y = (data @ CRLF) @ drop (length (data @ CRLF)) y" by (metis append_take_drop_id)
      then obtain z where z: "y = data @ CRLF @ z" by (metis append.assoc)
      then have r: "?r = z @ x" using y(2) by simp
      have "scan_chunks p at d fr False H B =
          scan_chunks z (at + length line + length data + 4) (d + length data) (fr + length line + 4) False H B"
        unfolding y(1) z by (rule scan_chunk [OF ok fits])
      moreover have "waits z (cp_state (scan_chunks z (at + length line + length data + 4) (d + length data) (fr + length line + 4) False H B))"
        using Cons.prems c r by (intro Cons.IH) auto
      ultimately show ?thesis unfolding y(1) z using waits_line by metis
    qed
  qed (rule scan_chunks_inside [OF _ _ _ line(1)])
qed

lemma head_prefix:
  assumes "acceptable closed H B status m" "render m = w @ x" "length w < length (render_head m)"
  shows "fr_state (inspectMoonlightHttpResponse True w False H B) = NeedMore"
proof -
  have fs: "\<forall>f\<in>set (hm_fields m). field_ok f" and cr: "CR \<notin> set (hm_statusLine m)" and H: "length (render_head m) \<le> H"
    using assms(1) status_line_no_CR by (auto simp: acceptable_def)
  have "find_sub (CRLF @ CRLF) w = None"
  proof (rule ccontr)
    assume "find_sub (CRLF @ CRLF) w \<noteq> None"
    then obtain k where k: "find_sub (CRLF @ CRLF) w = Some k" by blast
    have "find_sub (CRLF @ CRLF) (render m) = Some k" unfolding assms(2) by (rule find_append [OF k])
    moreover have "render m = hm_statusLine m @ CRLF @ render_fields (hm_fields m) @ CRLF @ render_body (hm_body m)"
      by (simp add: render_def render_head_def render_line_def)
    ultimately have "k = length (render_head m) - 4"
      using head_length [OF fs cr, of "render_body (hm_body m)"] by (simp add: render_head_def)
    moreover have "k + 4 \<le> length w" using find_bound [OF k] by (simp add: CRLF_def)
    ultimately show False using assms(3) by simp
  qed
  then show ?thesis
    using assms(3) H by (simp add: inspectMoonlightHttpResponse_def parseHeaders_def new_projection_def resultFor_def Let_def)
qed

lemma body_prefix:
  assumes "acceptable closed H B status m" "render_body (hm_body m) = b @ x" "x \<noteq> []"
  shows "waits b (fr_state (inspectMoonlightHttpResponse True (render_head m @ b) False H B))"
proof (cases "hm_body m")
  case NoBody
  then show ?thesis using assms(2,3) by simp
next
  case (Sized data)
  then have "length b < length data" using assms(2,3) by simp
  then show ?thesis using Sized projection_mode [OF assms(1)]
    by (simp add: inspect_body [OF assms(1)] resultFor_def waits_def)
next
  case (ToEnd data)
  then have "length b \<le> B" using assms by (simp add: acceptable_def framing_ok_def body_ok_def)
  then show ?thesis using ToEnd projection_mode(1,2) [OF assms(1)]
    by (simp add: inspect_body [OF assms(1)] resultFor_def waits_def)
next
  case (InChunks cs lastLine ts)
  have ok: "\<forall>c\<in>set cs. chunk_ok c" "chunk_line lastLine 0" "\<forall>f\<in>set ts. trailer_field_ok f"
      "0 + length (concat (map snd cs)) \<le> B" "0 + sum_list (map (\<lambda>c. length (fst c) + 4) cs) + length lastLine + 2 \<le> H"
      "length (render_fields ts) \<le> H"
    using assms(1) InChunks by (auto simp: acceptable_def framing_ok_def body_ok_def)
  have "waits b (cp_state (scan_chunks b (length (render_head m)) 0 0 False H B))"
    using assms(2) unfolding InChunks by (rule scan_chunks_prefix [OF ok _ assms(3)])
  then show ?thesis using InChunks projection_mode(1,2) [OF assms(1)]
    by (auto simp: inspect_body [OF assms(1)] resultFor_def waits_def Let_def)
qed

lemma header_not_final: "hp_state (parseHeaders wire closed H B) \<noteq> Complete"
  by (simp add: parseHeaders_def new_projection_def body_framing_def Let_def split: option.split prod.split)

lemma complete_is_acceptable:
  assumes "inspectMoonlightHttpResponse ok wire closed H B = r \<and> fr_state r = Complete"
  shows "ok \<and> (\<exists>status m. wire = render m \<and> acceptable closed H B status m)"
proof -
  define p where "p = parseHeaders wire closed H B"
  have ok: ok and p: "hp_complete p" "hp_state p = NeedMore"
    using assms header_not_final [of wire closed H B]
    by (auto simp: inspectMoonlightHttpResponse_def resultFor_def Let_def p_def split: if_splits)
  obtain l fs b status cl where w: "wire = render_line l @ render_fields fs @ CRLF @ b" "header_of l fs status cl"
      "length (render_line l @ render_fields fs @ CRLF) \<le> H" "p = projection l fs status cl B"
    using parseHeaders_sound p(1) unfolding p_def by blast
  define ls tc where "ls = elements ''content-length'' fs" and "tc = elements ''transfer-encoding'' fs"
  have h: "status_line l status" "\<forall>f\<in>set fs. field_ok f" "merged None ls cl" "\<forall>t\<in>set tc. t \<noteq> []" "cl = None \<or> tc = []"
      "tc = [] \<or> map lowerAscii tc = [''chunked'']"
    using w(2) by (auto simp: header_of_def ls_def tc_def)
  have ls: "ls = [] \<longleftrightarrow> cl = None" "\<forall>t\<in>set ls. number 10 decimal_digit t = cl"
    using h(3) by (auto simp: merged_def split: if_splits)
  have hd: "ls \<noteq> [] \<Longrightarrow> number 10 decimal_digit (hd ls) = cl" using ls(2) by simp
  have numbers: "\<forall>t\<in>set ls. number 10 decimal_digit t \<noteq> None \<and> number 10 decimal_digit t = number 10 decimal_digit (hd ls)"
  proof
    fix t assume t: "t \<in> set ls"
    then have "ls \<noteq> []" by auto
    then show "number 10 decimal_digit t \<noteq> None \<and> number 10 decimal_digit t = number 10 decimal_digit (hd ls)"
      using ls t hd by metis
  qed
  have bl: "length wire - hp_bodyOffset p = length b" "drop (hp_bodyOffset p) wire = b"
    by (auto simp: w(1,4) projection_def body_framing_def split: option.splits)
  have mode: "hp_mode p = (if bodyless status then ModeNone else if tc \<noteq> [] then Chunked else if cl \<noteq> None then ContentLength else UntilClose)"
      "cl = Some n \<Longrightarrow> tc = [] \<Longrightarrow> \<not> bodyless status \<Longrightarrow> hp_contentLength p = n \<and> n \<le> B" for n
    using p(2) by (auto simp: w(4) projection_def body_framing_def bodyless_def tc_def split: option.splits if_splits)
  have run: "inspectMoonlightHttpResponse ok wire closed H B = r" "fr_state r = Complete" using assms by auto
  have "\<exists>body. b = render_body body \<and> body_ok closed H B status ls tc body"
  proof (cases "hp_mode p")
    case ModeNone
    then have "b = []" using run bl(1) p ok by (auto simp: inspectMoonlightHttpResponse_def resultFor_def Let_def p_def [symmetric] split: if_splits)
    then show ?thesis using ModeNone mode(1)
      by (intro exI [of _ NoBody]) (auto simp: body_ok_def split: if_splits)
  next
    case ContentLength
    then obtain n where n: "cl = Some n" "tc = []" "\<not> bodyless status" using mode(1) by (auto split: if_splits)
    then have "length b = n" using run bl(1) p ok ContentLength mode(2) [OF n]
      by (auto simp: inspectMoonlightHttpResponse_def resultFor_def Let_def p_def [symmetric] split: if_splits)
    then show ?thesis using n mode(2) [OF n] hd ls(1)
      by (intro exI [of _ "Sized b"]) (auto simp: body_ok_def)
  next
    case UntilClose
    then have n: "cl = None" "tc = []" "\<not> bodyless status" using mode(1) by (auto split: if_splits)
    have "length b \<le> B" "closed" using run bl(1) p ok UntilClose
      by (auto simp: inspectMoonlightHttpResponse_def resultFor_def Let_def p_def [symmetric] split: if_splits)
    then show ?thesis using n ls(1) by (intro exI [of _ "ToEnd b"]) (simp add: body_ok_def)
  next
    case Chunked
    then have n: "tc \<noteq> []" "\<not> bodyless status" using mode(1) by (auto split: if_splits)
    have "cp_state (scan_chunks b (hp_bodyOffset p) 0 0 closed H B) = Complete" using run bl p ok Chunked
      by (auto simp: inspectMoonlightHttpResponse_def resultFor_def scanChunked_def Let_def p_def [symmetric] split: if_splits)
    then obtain cs lastLine ts where c: "b = render_body (InChunks cs lastLine ts)" "\<forall>c\<in>set cs. chunk_ok c" "chunk_line lastLine 0"
        "\<forall>f\<in>set ts. trailer_field_ok f" "0 + length (concat (map snd cs)) \<le> B"
        "0 + sum_list (map (\<lambda>c. length (fst c) + 4) cs) + length lastLine + 2 \<le> H" "length (render_fields ts) \<le> H"
      using scan_chunks_sound by blast
    then show ?thesis using n
      by (intro exI [of _ "InChunks cs lastLine ts"]) (auto simp: body_ok_def)
  qed
  then obtain body where body: "b = render_body body" "body_ok closed H B status ls tc body" by blast
  then have "framing_ok closed H B status ls tc body"
    using numbers h(4-6) ls(1) unfolding framing_ok_def by blast
  then have "wire = render \<lparr>hm_statusLine = l, hm_fields = fs, hm_body = body\<rparr>"
      "acceptable closed H B status \<lparr>hm_statusLine = l, hm_fields = fs, hm_body = body\<rparr>"
    using w(1,3) h(1,2) body(1) by (simp_all add: render_def render_head_def acceptable_def ls_def tc_def)
  then show ?thesis using ok by blast
qed

text \<open>
  The exception is real: a chunk line of exactly 1024 characters is accepted, but not when the network delivers
  its carriage return and its line feed separately.
\<close>

lemma foldl_zeros: "foldl (\<lambda>n c. n * 16 + the (hex_digit c)) 0 (replicate k (CHR ''0'')) = 0"
  by (induction k) (simp_all add: hex_digit_def code_def)

lemma zeros_line:
  assumes "k \<noteq> 0" "k \<le> kMaximumChunkLineBytes"
  shows "chunk_line (replicate k (CHR ''0'')) 0"
proof -
  have zero: "hex_digit (CHR ''0'') = Some 0" by (simp add: hex_digit_def code_def)
  have "number 16 hex_digit (replicate k (CHR ''0'')) = Some 0"
    unfolding number_def Let_def foldl_zeros using assms(1) zero by (simp add: list_all_iff)
  moreover have "no_crlf (replicate k (CHR ''0''))" by (rule no_CR_no_crlf) (simp add: CR_def)
  ultimately show ?thesis using assms by (simp add: chunk_line_def chunk_size_def trimOws_def isOws_def)
qed

lemma split_after_CR_refused:
  "\<exists>m w x. acceptable False 2000 0 200 m \<and> render m = w @ x \<and>
     fr_state (inspectMoonlightHttpResponse True (w @ x) False 2000 0) = Complete \<and>
     fr_state (inspectMoonlightHttpResponse True w False 2000 0) = BodyTooLarge"
proof -
  define line where "line = replicate 1024 (CHR ''0'')"
  define m where "m = \<lparr>hm_statusLine = ''HTTP/1.1 200'', hm_fields = [(''Transfer-Encoding'', ''chunked'')], hm_body = InChunks [] line []\<rparr>"
  have l: "status_line ''HTTP/1.1 200'' 200" unfolding parseStatusLine_iff [symmetric] by code_simp
  have t: "elements ''content-length'' [(''Transfer-Encoding'', ''chunked'')] = []"
      "elements ''transfer-encoding'' [(''Transfer-Encoding'', ''chunked'')] = [''chunked'']" "lowerAscii ''chunked'' = ''chunked''"
    by code_simp+
  have f: "field_ok (''Transfer-Encoding'', ''chunked'')" by code_simp
  have line: "chunk_line line 0" "length line = 1024" "no_crlf line"
    using zeros_line [of 1024] by (simp_all add: line_def kMaximumChunkLineBytes_def chunk_line_def)
  have a: "acceptable False 2000 0 200 m"
    using l t f line(1,2) by (simp add: acceptable_def framing_ok_def body_ok_def m_def bodyless_def render_head_def render_line_def CRLF_def)
  have r: "render m = (render_head m @ line @ [CR]) @ [LF] @ CRLF"
    by (simp add: render_def m_def render_head_def render_line_def CRLF_def)
  have hm: "hm_body m = InChunks [] line []" by (simp add: m_def)
  have "find_sub CRLF (line @ [CR]) = None" using no_crlf_CR [OF line(3)] by (simp add: no_crlf_def)
  then have "cp_state (scan_chunks (line @ [CR]) at 0 0 False 2000 0) = BodyTooLarge" for at
    using line(2) by (subst scan_chunks.simps) (simp add: chunk_stop_def kMaximumChunkLineBytes_def)
  then have "fr_state (inspectMoonlightHttpResponse True (render_head m @ line @ [CR]) False 2000 0) = BodyTooLarge"
    using projection_mode(1,2) [OF a] hm by (simp add: inspect_body [OF a] resultFor_def Let_def)
  moreover have "fr_state (inspectMoonlightHttpResponse True (render m) False 2000 0) = Complete"
    by (simp add: inspect_complete [OF a] answer_def)
  ultimately show ?thesis using a r by metis
qed

section \<open>The properties\<close>

text \<open>
  C31. A response is complete exactly when it is a message of the grammar within the limits, and then the status
  and the body are those of the message, and the whole input is consumed. In particular a message with two
  different lengths, with a length and a transfer coding, with another coding than chunked, or with bytes after its
  end is never accepted, and sizes that overflow 64 bits are refused.
\<close>

theorem http_accepts_exactly:
  "inspectMoonlightHttpResponse ok wire closed H B = r \<and> fr_state r = Complete \<longleftrightarrow>
   ok \<and> (\<exists>status m. wire = render m \<and> acceptable closed H B status m \<and> r = answer status m)"
proof
  assume "ok \<and> (\<exists>status m. wire = render m \<and> acceptable closed H B status m \<and> r = answer status m)"
  then show "inspectMoonlightHttpResponse ok wire closed H B = r \<and> fr_state r = Complete"
    using inspect_complete by (auto simp: answer_def)
next
  assume c: "inspectMoonlightHttpResponse ok wire closed H B = r \<and> fr_state r = Complete"
  then obtain m status where "ok" "wire = render m" "acceptable closed H B status m" using complete_is_acceptable by blast
  then show "ok \<and> (\<exists>status m. wire = render m \<and> acceptable closed H B status m \<and> r = answer status m)"
    using c inspect_complete by auto
qed

text \<open>
  C32. While the stream is open, the function asks for more at every proper prefix of a message it accepts in the
  end, wherever the network splits it, with one exception: after a carriage return it may report a body too large.
\<close>

theorem http_prefix_waits:
  assumes "acceptable closed H B status m" "render m = w @ x" "x \<noteq> []"
  shows "fr_state (inspectMoonlightHttpResponse True w False H B) = NeedMore \<or>
    fr_state (inspectMoonlightHttpResponse True w False H B) = BodyTooLarge \<and> w \<noteq> [] \<and> last w = CR"
proof (cases "length w < length (render_head m)")
  case True
  then show ?thesis using head_prefix [OF assms(1,2)] by simp
next
  case False
  obtain b where b: "w = render_head m @ b" "render_body (hm_body m) = b @ x"
    using assms(2) False by (auto simp: render_def append_eq_append_conv2)
  have "waits b (fr_state (inspectMoonlightHttpResponse True (render_head m @ b) False H B))"
    by (rule body_prefix [OF assms(1) b(2) assms(3)])
  then show ?thesis using b(1) by (auto simp: waits_def)
qed

lemma http_prefix_waits_witness:
  "\<exists>m. acceptable False 100 100 200 m \<and> render m = ''HTTP/1.1 200 OK'' @ CRLF @ ''Content-Length: 2'' @ CRLF @ CRLF @ ''hi'' \<and>
     fr_state (inspectMoonlightHttpResponse True (''HTTP/1.1 200 OK'' @ CRLF @ ''Content-Le'') False 100 100) = NeedMore"
proof -
  define m where "m = \<lparr>hm_statusLine = ''HTTP/1.1 200 OK'', hm_fields = [(''Content-Length'', '' 2'')], hm_body = Sized ''hi''\<rparr>"
  have l: "status_line ''HTTP/1.1 200 OK'' 200" unfolding parseStatusLine_iff [symmetric] by code_simp
  have t: "elements ''content-length'' [(''Content-Length'', '' 2'')] = [''2'']" "elements ''transfer-encoding'' [(''Content-Length'', '' 2'')] = []"
    by code_simp+
  have n: "number 10 decimal_digit ''2'' = Some 2" by (simp add: number_def decimal_digit_def digit_char_def code_def)
  have f: "field_ok (''Content-Length'', '' 2'')" by code_simp
  have a: "acceptable False 100 100 200 m"
    using l t n f by (simp add: acceptable_def framing_ok_def body_ok_def m_def bodyless_def render_head_def render_line_def CRLF_def)
  have r: "render m = (''HTTP/1.1 200 OK'' @ CRLF @ ''Content-Le'') @ ''ngth: 2'' @ CRLF @ CRLF @ ''hi''"
    by (simp add: render_def render_head_def m_def render_line_def)
  have "last (''HTTP/1.1 200 OK'' @ CRLF @ ''Content-Le'') \<noteq> CR" by (simp add: CR_def)
  then have "fr_state (inspectMoonlightHttpResponse True (''HTTP/1.1 200 OK'' @ CRLF @ ''Content-Le'') False 100 100) = NeedMore"
    using http_prefix_waits [OF a r] by simp
  then show ?thesis using a r by (intro exI [of _ m]) simp
qed

end
