(* ===== verification/Vnc_Cursor.thy ===== *)
theory Vnc_Cursor
  imports Vnc_Zrle
begin

text \<open>
  \<open>vnc/vnc_cursor_protocol.h\<close> and \<open>.cpp\<close>: the shape of the remote cursor, one complete rectangle of colours with a
  bit mask. The file has its own copies of the overflow tests and of the pixel functions; the first are those of
  \<open>Vnc_Zrle\<close>, the second are defined here and shown to agree with those the rectangles use.
  A null payload has size 0. \<open>alloc\<close> says whether the pixels can be allocated.
\<close>

definition kEncoding :: int where "kEncoding = -239"
definition kMaxDimension :: int where "kMaxDimension = 384"

record decoded_cursor =
  dc_visible :: bool
  dc_shapeId :: u64
  dc_width :: int
  dc_height :: int
  dc_hotX :: int
  dc_hotY :: int
  dc_rgba :: bytes

definition no_cursor :: decoded_cursor where
  "no_cursor = \<lparr>dc_visible = False, dc_shapeId = 0, dc_width = 0, dc_height = 0, dc_hotX = 0, dc_hotY = 0, dc_rgba = []\<rparr>"

definition cursor_validPixelFormat :: "pixel_format \<Rightarrow> bool" where
  "cursor_validPixelFormat f \<longleftrightarrow>
     \<not> (\<not> pf_trueColor f \<or>
        (pf_bitsPerPixel f \<noteq> 8 \<and> pf_bitsPerPixel f \<noteq> 16 \<and> pf_bitsPerPixel f \<noteq> 32) \<or>
        pf_redMax f = 0 \<or> pf_greenMax f = 0 \<or> pf_blueMax f = 0) \<and>
     redEnd f \<le> unat (pf_bitsPerPixel f) \<and> greenEnd f \<le> unat (pf_bitsPerPixel f) \<and> blueEnd f \<le> unat (pf_bitsPerPixel f)"

text \<open>\<open>available\<close> is the length of the data.\<close>

definition cursor_decodePixel :: "pixel_format \<Rightarrow> bytes option \<Rightarrow> bytes option" where
  "cursor_decodePixel f data =
     (if \<not> cursor_validPixelFormat f \<or> data = None then None
      else let pixelBytes = unat (pf_bitsPerPixel f div 8); bs = the data
        in if pixelBytes = 0 \<or> length bs < pixelBytes then None
           else let v = (if pf_bigEndian f then be_value (take pixelBytes bs) else le_value (take pixelBytes bs));
                    red = component v (pf_redShift f) (pf_redMax f);
                    green = component v (pf_greenShift f) (pf_greenMax f);
                    blue = component v (pf_blueShift f) (pf_blueMax f)
             in Some [ucast (red * 255 div ucast (pf_redMax f)), ucast (green * 255 div ucast (pf_greenMax f)),
                      ucast (blue * 255 div ucast (pf_blueMax f)), 255])"

text \<open>\<open>mix\<close>: one step of the FNV-1a hash.\<close>

definition cursor_mix :: "u8 \<Rightarrow> u64 \<Rightarrow> u64" where
  "cursor_mix v shapeId = (shapeId XOR ucast v) * 1099511628211"

text \<open>One turn of the inner loop on the pixels, the hash and \<open>hasVisiblePixel\<close>.\<close>

definition cursor_pixel ::
    "pixel_format \<Rightarrow> bytes \<Rightarrow> nat \<Rightarrow> nat \<Rightarrow> nat \<Rightarrow> nat \<Rightarrow> nat \<Rightarrow> bytes \<times> u64 \<times> bool \<Rightarrow> (bytes \<times> u64 \<times> bool) option" where
  "cursor_pixel f payload width bytesPerPixel pixelBytes row column st = (case st of (rgba, shapeId, hasVisiblePixel) \<Rightarrow>
     let index = row * width + column; maskRowBytes = (width + 7) div 8
     in case cursor_decodePixel f (Some (drop (index * bytesPerPixel) payload)) of
          None \<Rightarrow> None
        | Some px \<Rightarrow>
            let maskByte = payload ! (pixelBytes + row * maskRowBytes + column div 8);
                pixel = px[3 := if drop_bit (7 - column mod 8) maskByte AND 1 \<noteq> 0 then 255 else 0]
            in Some (memcpy_at rgba (index * 4) pixel, fold cursor_mix pixel shapeId, hasVisiblePixel \<or> pixel ! 3 \<noteq> 0))"

fun cursor_row ::
    "pixel_format \<Rightarrow> bytes \<Rightarrow> nat \<Rightarrow> nat \<Rightarrow> nat \<Rightarrow> nat \<Rightarrow> nat list \<Rightarrow> bytes \<times> u64 \<times> bool \<Rightarrow> (bytes \<times> u64 \<times> bool) option" where
  "cursor_row f payload width bpp pixelBytes row [] st = Some st"
| "cursor_row f payload width bpp pixelBytes row (column # cs) st =
     (case cursor_pixel f payload width bpp pixelBytes row column st of
        None \<Rightarrow> None | Some st' \<Rightarrow> cursor_row f payload width bpp pixelBytes row cs st')"

fun cursor_rows ::
    "pixel_format \<Rightarrow> bytes \<Rightarrow> nat \<Rightarrow> nat \<Rightarrow> nat \<Rightarrow> nat list \<Rightarrow> bytes \<times> u64 \<times> bool \<Rightarrow> (bytes \<times> u64 \<times> bool) option" where
  "cursor_rows f payload width bpp pixelBytes [] st = Some st"
| "cursor_rows f payload width bpp pixelBytes (row # rs) st =
     (case cursor_row f payload width bpp pixelBytes row [0..<width] st of
        None \<Rightarrow> None | Some st' \<Rightarrow> cursor_rows f payload width bpp pixelBytes rs st')"

definition metadata_bytes :: "u32 \<Rightarrow> bytes" where
  "metadata_bytes v = map (\<lambda>shift. ucast (drop_bit shift v AND 0xFF)) [0, 8, 16, 24]"

definition expected_bytes :: "nat \<Rightarrow> nat \<Rightarrow> nat \<Rightarrow> (nat \<times> nat \<times> nat) option" where
  "expected_bytes width height bytesPerPixel =
     Option.bind (checkedMultiply width height) (\<lambda>pixelCount.
     Option.bind (checkedMultiply pixelCount bytesPerPixel) (\<lambda>pixelBytes.
     Option.bind (checkedMultiply ((width + 7) div 8) height) (\<lambda>maskBytes.
     Option.bind (checkedAdd pixelBytes maskBytes) (\<lambda>expectedBytes.
     Some (pixelCount, pixelBytes, expectedBytes)))))"

text \<open>A failure leaves the default cursor in the output parameter.\<close>

definition decodePayload ::
    "bool \<Rightarrow> pixel_format \<Rightarrow> int \<Rightarrow> int \<Rightarrow> int \<Rightarrow> int \<Rightarrow> bytes option \<Rightarrow> string + decoded_cursor" where
  "decodePayload alloc f hotX hotY width height payload =
     (if width = 0 \<and> height = 0
      then (if (case payload of None \<Rightarrow> 0 | Some p \<Rightarrow> length p) \<noteq> 0
            then Inl ''VNC hidden cursor payload must be empty'' else Inr no_cursor)
      else if width \<le> 0 \<or> height \<le> 0 \<or> width > kMaxDimension \<or> height > kMaxDimension \<or> hotX < 0 \<or> hotY < 0 \<or>
              hotX \<ge> width \<or> hotY \<ge> height \<or> \<not> cursor_validPixelFormat f
      then Inl ''VNC cursor geometry or pixel format is invalid''
      else let w = nat width; h = nat height; bytesPerPixel = unat (pf_bitsPerPixel f div 8)
        in case expected_bytes w h bytesPerPixel of
             None \<Rightarrow> Inl ''VNC cursor payload length is invalid''
           | Some (pixelCount, pixelBytes, expectedBytes) \<Rightarrow> (case payload of
               None \<Rightarrow> Inl ''VNC cursor payload length is invalid''
             | Some p \<Rightarrow>
                 if length p \<noteq> expectedBytes then Inl ''VNC cursor payload length is invalid''
                 else if \<not> alloc then Inl ''VNC cursor allocation failed''
                 else (case cursor_rows f p w bytesPerPixel pixelBytes [0..<h]
                     (replicate (pixelCount * 4) 0, 1469598103934665603, False) of
                     None \<Rightarrow> Inl ''VNC cursor pixel is invalid''
                   | Some (rgba, shapeId, hasVisiblePixel) \<Rightarrow>
                       Inr \<lparr>dc_visible = hasVisiblePixel,
                         dc_shapeId = fold cursor_mix (concat (map metadata_bytes
                           [word_of_int width, word_of_int height, word_of_int hotX, word_of_int hotY])) shapeId,
                         dc_width = width, dc_height = height, dc_hotX = hotX, dc_hotY = hotY, dc_rgba = rgba\<rparr>)))"

section \<open>The copies of the pixel functions\<close>

lemma cursor_validPixelFormat_eq: "cursor_validPixelFormat f = validPixelFormat f"
  by (auto simp: cursor_validPixelFormat_def validPixelFormat_def)

lemma cursor_decodePixel_eq: "cursor_decodePixel f data = decodePixel f data False"
  by (cases data) (simp_all add: cursor_decodePixel_def decodePixel_def cursor_validPixelFormat_eq Let_def)

lemma decodePixel_shape:
  assumes "validPixelFormat f" "unat (pf_bitsPerPixel f div 8) \<le> length bs"
  shows "\<exists>r g b. decodePixel f (Some bs) False = Some [r, g, b, 255]"
proof -
  have "unat (pf_bitsPerPixel f div 8) \<noteq> 0" using assms(1) by (auto simp: validPixelFormat_def unat_div)
  then show ?thesis using assms by (simp add: decodePixel_def Let_def)
qed

section \<open>The shape\<close>

text \<open>
  What the rectangle says about its pixel number \<open>i\<close>: its colour, and whether its bit in the mask, whose rows are
  padded to bytes, is set.
\<close>

definition mask_bit :: "bytes \<Rightarrow> nat \<Rightarrow> nat \<Rightarrow> bool" where
  "mask_bit msk w i \<longleftrightarrow> bit (msk ! (i div w * ((w + 7) div 8) + i mod w div 8)) (7 - i mod w mod 8)"

definition shape_pixel :: "pixel_format \<Rightarrow> bytes \<Rightarrow> bytes \<Rightarrow> nat \<Rightarrow> nat \<Rightarrow> bytes" where
  "shape_pixel f colours msk w i =
     take 3 (the (decodePixel f (Some (drop (i * unat (pf_bitsPerPixel f div 8)) colours)) False)) @ [if mask_bit msk w i then 255 else 0]"

definition shape :: "pixel_format \<Rightarrow> bytes \<Rightarrow> bytes \<Rightarrow> nat \<Rightarrow> nat \<Rightarrow> bytes" where
  "shape f colours msk w n = concat (map (shape_pixel f colours msk w) [0..<n])"

text \<open>FNV-1a over the pixels, the size and the hot spot.\<close>

definition shape_id :: "bytes \<Rightarrow> int list \<Rightarrow> u64" where
  "shape_id rgba geometry = fold cursor_mix (rgba @ concat (map (\<lambda>v. metadata_bytes (word_of_int v)) geometry)) 1469598103934665603"

definition cursor_of :: "pixel_format \<Rightarrow> bytes \<Rightarrow> bytes \<Rightarrow> int \<Rightarrow> int \<Rightarrow> int \<Rightarrow> int \<Rightarrow> decoded_cursor" where
  "cursor_of f colours msk hotX hotY width height =
     (let n = nat width * nat height; rgba = shape f colours msk (nat width) n
      in \<lparr>dc_visible = (\<exists>i<n. mask_bit msk (nat width) i), dc_shapeId = shape_id rgba [width, height, hotX, hotY],
          dc_width = width, dc_height = height, dc_hotX = hotX, dc_hotY = hotY, dc_rgba = rgba\<rparr>)"

definition loop_state :: "pixel_format \<Rightarrow> bytes \<Rightarrow> bytes \<Rightarrow> nat \<Rightarrow> nat \<Rightarrow> nat \<Rightarrow> bytes \<times> u64 \<times> bool" where
  "loop_state f colours msk w N n = (shape f colours msk w n @ replicate ((N - n) * 4) 0,
     fold cursor_mix (shape f colours msk w n) 1469598103934665603, \<exists>i<n. mask_bit msk w i)"

lemma decodePixel_prefix:
  assumes "unat (pf_bitsPerPixel f div 8) \<le> length bs"
  shows "decodePixel f (Some (bs @ r)) False = decodePixel f (Some bs) False"
  using assms by (simp add: decodePixel_def Let_def)

lemma pixel_room: "n < N \<Longrightarrow> length bs = N * b \<Longrightarrow> b \<le> length (drop (n * b) bs)"
  by (cases "N - n") (simp_all add: diff_mult_distrib [symmetric])

lemma length_shape:
  assumes "validPixelFormat f" "length colours = N * unat (pf_bitsPerPixel f div 8)" "n \<le> N"
  shows "length (shape f colours msk w n) = n * 4"
  using assms(3)
proof (induction n)
  case (Suc n)
  obtain r g b where "decodePixel f (Some (drop (n * unat (pf_bitsPerPixel f div 8)) colours)) False = Some [r, g, b, 255]"
    using decodePixel_shape [OF assms(1) pixel_room [OF _ assms(2), of n]] Suc.prems by auto
  then show ?case using Suc by (simp add: shape_def shape_pixel_def)
qed (simp add: shape_def)

lemma cursor_pixel_step:
  assumes f: "validPixelFormat f" and len: "length colours = N * unat (pf_bitsPerPixel f div 8)"
    and i: "row * w + column < N" "column < w"
  shows "cursor_pixel f (colours @ msk) w (unat (pf_bitsPerPixel f div 8)) (length colours) row column
      (loop_state f colours msk w N (row * w + column)) = Some (loop_state f colours msk w N (row * w + Suc column))"
proof -
  define bpp where "bpp = unat (pf_bitsPerPixel f div 8)"
  define n where "n = row * w + column"
  have n: "n < N" "n div w = row" "n mod w = column" using i by (auto simp: n_def)
  have room: "unat (pf_bitsPerPixel f div 8) \<le> length (drop (n * bpp) colours)"
    unfolding bpp_def by (rule pixel_room [OF n(1) len])
  then obtain r g b where px: "decodePixel f (Some (drop (n * bpp) colours)) False = Some [r, g, b, 255]"
    using decodePixel_shape [OF f] by blast
  have bpp: "bpp \<noteq> 0" using f by (auto simp: validPixelFormat_def bpp_def unat_div)
  then have "n * bpp \<le> length colours" using room unfolding bpp_def [symmetric] by simp
  then have "drop (n * bpp) (colours @ msk) = drop (n * bpp) colours @ msk" by simp
  then have decoded: "cursor_decodePixel f (Some (drop (n * bpp) (colours @ msk))) = Some [r, g, b, 255]"
    using px decodePixel_prefix [OF room, of msk] by (simp only: cursor_decodePixel_eq)
  define alpha :: u8 where "alpha = (if mask_bit msk w n then 255 else 0)"
  have pix: "shape_pixel f colours msk w n = [r, g, b, alpha]" using px by (simp add: shape_pixel_def alpha_def bpp_def)
  have bit: "drop_bit (7 - column mod 8) ((colours @ msk) ! (length colours + row * ((w + 7) div 8) + column div 8)) AND 1 \<noteq> 0 \<longleftrightarrow>
      mask_bit msk w n"
    using n by (simp add: mask_bit_def nth_append and_one_eq bit_iff_odd_drop_bit odd_iff_mod_2_eq_one add.assoc)
  have rest: "replicate ((N - n) * 4) (0 :: u8) = replicate 4 0 @ replicate ((N - Suc n) * 4) 0"
    using n(1) by (simp add: replicate_add [symmetric] Suc_diff_Suc [symmetric])
  have stored: "memcpy_at (shape f colours msk w n @ replicate ((N - n) * 4) 0) (n * 4) [r, g, b, alpha] =
      shape f colours msk w (Suc n) @ replicate ((N - Suc n) * 4) 0"
    using length_shape [OF f len, of n msk w] n(1) pix unfolding rest by (simp add: memcpy_at_def shape_def)
  have vis: "(\<exists>i<Suc n. mask_bit msk w i) \<longleftrightarrow> (\<exists>i<n. mask_bit msk w i) \<or> mask_bit msk w n" by (auto simp: less_Suc_eq)
  have "cursor_pixel f (colours @ msk) w bpp (length colours) row column (loop_state f colours msk w N n) =
      Some (loop_state f colours msk w N (Suc n))"
    using decoded bit stored vis pix n(2,3)
    by (simp add: cursor_pixel_def loop_state_def Let_def n_def [symmetric] alpha_def [symmetric] shape_def del: fold_append)
      (simp add: alpha_def)
  then show ?thesis by (simp add: bpp_def n_def)
qed

lemma cursor_row_all:
  assumes f: "validPixelFormat f" and len: "length colours = N * unat (pf_bitsPerPixel f div 8)" and row: "Suc row * w \<le> N"
  shows "c \<le> w \<Longrightarrow> cursor_row f (colours @ msk) w (unat (pf_bitsPerPixel f div 8)) (length colours) row [c..<w]
      (loop_state f colours msk w N (row * w + c)) = Some (loop_state f colours msk w N (Suc row * w))"
proof (induction "w - c" arbitrary: c)
  case 0
  then show ?case by (simp add: add.commute)
next
  case (Suc k)
  then have c: "c < w" "[c..<w] = c # [Suc c..<w]" by (simp_all add: upt_conv_Cons)
  have "row * w + c < N" using c(1) row by simp
  note step = cursor_pixel_step [OF f len this c(1), of msk]
  show ?case using Suc.hyps(1) [of "Suc c"] Suc.hyps(2) c by (simp only: cursor_row.simps step option.case)
qed

lemma cursor_rows_all:
  assumes f: "validPixelFormat f" and len: "length colours = h * w * unat (pf_bitsPerPixel f div 8)"
  shows "r \<le> h \<Longrightarrow> cursor_rows f (colours @ msk) w (unat (pf_bitsPerPixel f div 8)) (length colours) [r..<h]
      (loop_state f colours msk w (h * w) (r * w)) = Some (loop_state f colours msk w (h * w) (h * w))"
proof (induction "h - r" arbitrary: r)
  case 0
  then show ?case by simp
next
  case (Suc k)
  then have r: "r < h" "[r..<h] = r # [Suc r..<h]" by (simp_all add: upt_conv_Cons)
  have "Suc r * w \<le> h * w" using r(1) by (intro mult_right_mono) auto
  note step = cursor_row_all [OF f len this, of 0 msk, unfolded add_0_right, OF le0]
  show ?case using Suc.hyps(1) [of "Suc r"] Suc.hyps(2) r by (simp only: cursor_rows.simps step option.case)
qed

lemma expected_bytes_small:
  assumes "w \<le> 384" "h \<le> 384" "b \<le> 31"
  shows "expected_bytes w h b = Some (w * h, w * h * b, w * h * b + (w + 7) div 8 * h)"
proof -
  have wh: "w * h \<le> 384 * 384" using assms(1,2) by (rule mult_le_mono)
  moreover have "w * h * b \<le> 384 * 384 * 31" by (rule mult_le_mono [OF wh assms(3)])
  moreover have "(w + 7) div 8 * h \<le> 48 * 384" using assms by (intro mult_mono) auto
  ultimately show ?thesis by (simp add: expected_bytes_def checkedMultiply_iff checkedAdd_iff size_max_def)
qed

text \<open>
  C33. A cursor rectangle is accepted exactly when it is the hidden cursor, or its size, hot spot and pixel format
  are valid and its payload has exactly one colour for each pixel and the rows of its mask. The decoded shape then
  has the colours of the payload, opaque where the mask has a bit and transparent elsewhere; it is visible when
  some pixel is opaque, and its number is the hash of the pixels, the size and the hot spot.
\<close>

theorem cursor_shape_exact:
  "decodePayload alloc f hotX hotY width height payload = Inr c \<longleftrightarrow>
   width = 0 \<and> height = 0 \<and> c = no_cursor \<and> (payload = None \<or> payload = Some []) \<or>
   0 < width \<and> width \<le> 384 \<and> 0 < height \<and> height \<le> 384 \<and> 0 \<le> hotX \<and> hotX < width \<and> 0 \<le> hotY \<and> hotY < height \<and>
   validPixelFormat f \<and> alloc \<and> (\<exists>colours msk. payload = Some (colours @ msk) \<and>
     length colours = nat width * nat height * unat (pf_bitsPerPixel f div 8) \<and>
     length msk = (nat width + 7) div 8 * nat height \<and> c = cursor_of f colours msk hotX hotY width height)"
  (is "?L \<longleftrightarrow> _ \<or> ?R")
proof (cases "width = 0 \<and> height = 0")
  case True
  then show ?thesis by (auto simp: decodePayload_def split: option.split)
next
  case False
  define w h b where "w = nat width" and "h = nat height" and "b = unat (pf_bitsPerPixel f div 8)"
  define ok where "ok \<longleftrightarrow> 0 < width \<and> width \<le> 384 \<and> 0 < height \<and> height \<le> 384 \<and> 0 \<le> hotX \<and> hotX < width \<and>
    0 \<le> hotY \<and> hotY < height \<and> validPixelFormat f"
  show ?thesis
  proof (cases ok)
    case False
    then show ?thesis using \<open>\<not> (width = 0 \<and> height = 0)\<close>
      by (auto simp: decodePayload_def cursor_validPixelFormat_eq kMaxDimension_def ok_def)
  next
    case True
    have b: "b \<le> 31" using True unfolding ok_def by (auto simp: validPixelFormat_def b_def unat_div)
    have small: "expected_bytes w h b = Some (w * h, w * h * b, w * h * b + (w + 7) div 8 * h)"
      using True b by (intro expected_bytes_small) (auto simp: w_def h_def ok_def)
    have run: "cursor_rows f (colours @ msk) w b (w * h * b) [0..<h] (replicate (w * h * 4) 0, 1469598103934665603, False) =
        Some (loop_state f colours msk w (h * w) (h * w))" if "length colours = w * h * b" for colours msk
      using cursor_rows_all [of f colours h w 0 msk] True that
      by (simp add: ok_def b_def loop_state_def shape_def mult.commute)
    have decode: "decodePayload alloc f hotX hotY width height (Some p) =
        (if length p \<noteq> w * h * b + (w + 7) div 8 * h then Inl ''VNC cursor payload length is invalid''
         else if \<not> alloc then Inl ''VNC cursor allocation failed''
         else Inr (cursor_of f (take (w * h * b) p) (drop (w * h * b) p) hotX hotY width height))" for p
      using True False small run [of "take (w * h * b) p" "drop (w * h * b) p"]
      by (simp add: decodePayload_def cursor_validPixelFormat_eq kMaxDimension_def ok_def w_def [symmetric] h_def [symmetric]
          b_def [symmetric] Let_def loop_state_def cursor_of_def shape_id_def mult.commute)
    have null: "\<not> (decodePayload alloc f hotX hotY width height None = Inr c)"
      using True False small by (simp add: decodePayload_def cursor_validPixelFormat_eq kMaxDimension_def ok_def w_def h_def b_def Let_def)
    have "?L \<longleftrightarrow> alloc \<and> (\<exists>colours msk. payload = Some (colours @ msk) \<and> length colours = w * h * b \<and>
        length msk = (w + 7) div 8 * h \<and> c = cursor_of f colours msk hotX hotY width height)" (is "_ \<longleftrightarrow> ?E")
    proof
      assume l: ?L
      then obtain p where p: "payload = Some p" using null by (cases payload) auto
      then have "length p = w * h * b + (w + 7) div 8 * h" "alloc"
          "c = cursor_of f (take (w * h * b) p) (drop (w * h * b) p) hotX hotY width height"
        using l by (auto simp: decode split: if_splits)
      then show ?E using p by (intro conjI exI [of _ "take (w * h * b) p"] exI [of _ "drop (w * h * b) p"]) simp_all
    next
      assume ?E
      then obtain colours msk where e: alloc "payload = Some (colours @ msk)" "length colours = w * h * b"
          "length msk = (w + 7) div 8 * h" "c = cursor_of f colours msk hotX hotY width height" by blast
      show ?L unfolding e(2) decode using e(1,3-5) by simp
    qed
    then show ?thesis using True False unfolding ok_def w_def h_def b_def by blast
  qed
qed

end
