(* ===== verification/Endpoint_Address.thy ===== *)
theory Endpoint_Address
  imports Text_Numbers "HOL-Library.While_Combinator"
begin

text \<open>
  The address policy of every client (\<open>common/endpoint_address_policy.h\<close> and \<open>.cpp\<close>): how the text
  a user types or a profile stores becomes a host, a port and a scope, what is refused, how an
  address is written back for the transport, for a URI and on screen, and the identity under which
  the trust decisions for an endpoint are stored. The platform's \<open>inet_pton\<close> is the argument
  \<open>pton\<close> of the functions that call it; a \<open>std::string\<close> is a list of 8-bit characters and
  \<open>std::string::npos\<close> is \<open>None\<close>.
\<close>

section \<open>Data\<close>

datatype address_family = Hostname | Ipv4 | Ipv6

datatype scope_kind = NoScope | Interface | Numeric

datatype parse_mode = Persisted | Runtime

datatype server_identity_kind = NoServer | Dns | Ip

datatype address_error = NoError | Empty | InvalidSyntax | InvalidHostname | InvalidIpv4 | InvalidIpv6
  | InvalidPort | ScopeRequired | ScopeNotAllowed | ScopeNotPortable | AddressNotConnectable | InputTooLong

datatype identity_error = NoIdentityError | InvalidEndpoint | InvalidServerIdentity

definition kAddressVersion :: u32 where
  "kAddressVersion = 2"

definition kMaxInputLength :: nat where
  "kMaxInputLength = 512"

record address =
  ad_version :: u32
  ad_canonicalHost :: string
  ad_family :: address_family
  ad_port :: u16
  ad_scope :: string
  ad_scopeKind :: scope_kind

definition default_address :: address where
  "default_address = \<lparr>ad_version = kAddressVersion, ad_canonicalHost = [], ad_family = Hostname,
     ad_port = 0, ad_scope = [], ad_scopeKind = NoScope\<rparr>"

record parse_result =
  pr_ok :: bool
  pr_endpoint :: address
  pr_error :: address_error

record server_identity =
  si_kind :: server_identity_kind
  si_canonicalName :: string

record server_identity_result =
  sr_ok :: bool
  sr_identity :: server_identity
  sr_error :: identity_error

record identity_result =
  ir_ok :: bool
  ir_identity :: string
  ir_error :: identity_error

definition Failed :: "address_error \<Rightarrow> parse_result" where
  "Failed e = \<lparr>pr_ok = False, pr_endpoint = default_address, pr_error = e\<rparr>"

definition Succeeded :: "string \<Rightarrow> address_family \<Rightarrow> string \<Rightarrow> scope_kind \<Rightarrow> parse_result" where
  "Succeeded host family scope kind = \<lparr>pr_ok = True,
     pr_endpoint = \<lparr>ad_version = kAddressVersion, ad_canonicalHost = host, ad_family = family,
       ad_port = 0, ad_scope = scope, ad_scopeKind = kind\<rparr>, pr_error = NoError\<rparr>"

section \<open>Characters and searches\<close>

definition IsAsciiAlpha :: "char \<Rightarrow> bool" where
  "IsAsciiAlpha c \<longleftrightarrow> 65 \<le> code c \<and> code c \<le> 90 \<or> 97 \<le> code c \<and> code c \<le> 122"

definition IsAsciiDigit :: "char \<Rightarrow> bool" where
  "IsAsciiDigit c \<longleftrightarrow> 48 \<le> code c \<and> code c \<le> 57"

definition IsAsciiAlnum :: "char \<Rightarrow> bool" where
  "IsAsciiAlnum c \<longleftrightarrow> IsAsciiAlpha c \<or> IsAsciiDigit c"

definition AsciiLower :: "char \<Rightarrow> char" where
  "AsciiLower c = (if 65 \<le> code c \<and> code c \<le> 90 then char_of (code c + 32) else c)"

text \<open>\<open>find\<close> of a character, \<open>rfind\<close> of a character and \<open>find\<close> of a text.\<close>

fun find_char :: "char \<Rightarrow> string \<Rightarrow> nat option" where
  "find_char c [] = None"
| "find_char c (d # ds) = (if d = c then Some 0 else map_option Suc (find_char c ds))"

definition rfind_char :: "char \<Rightarrow> string \<Rightarrow> nat option" where
  "rfind_char c s = map_option (\<lambda>i. length s - 1 - i) (find_char c (rev s))"

fun contains_text :: "string \<Rightarrow> string \<Rightarrow> bool" where
  "contains_text p [] = (p = [])"
| "contains_text p (c # cs) = (take (length p) (c # cs) = p \<or> contains_text p cs)"

definition ValidPort :: "nat \<Rightarrow> bool" where
  "ValidPort value \<longleftrightarrow> 1 \<le> value \<and> value \<le> 65535"

text \<open>
  The digit loop the parsers share. Every caller bounds the number of digits (3, 5 or 10) below what
  its counter can hold, so the value is exact.
\<close>

fun digits_loop :: "nat \<Rightarrow> string \<Rightarrow> nat option" where
  "digits_loop n [] = Some n"
| "digits_loop n (c # cs) = (if \<not> IsAsciiDigit c then None else digits_loop (n * 10 + (code c - 48)) cs)"

definition ParsePort :: "string \<Rightarrow> u16" where
  "ParsePort value =
     (if value = [] \<or> length value > 5 then 0
      else case digits_loop 0 value of
        None \<Rightarrow> 0
      | Some parsed \<Rightarrow> if ValidPort parsed then of_nat parsed else 0)"

definition InvalidEndpointCharacters :: "string \<Rightarrow> bool" where
  "InvalidEndpointCharacters value \<longleftrightarrow>
     contains_text ''://'' value \<or> find_char CHR ''/'' value \<noteq> None \<or> find_char (char_of (92 :: nat)) value \<noteq> None \<or>
     find_char CHR ''@'' value \<noteq> None \<or> find_char CHR ''?'' value \<noteq> None \<or> find_char CHR ''#'' value \<noteq> None \<or>
     list_ex (\<lambda>c. code c < 0x21 \<or> code c > 0x7e) value"

section \<open>IPv4\<close>

text \<open>The \<open>k\<close>-th octet from the end and the text from \<open>start\<close> on.\<close>

fun ipv4_octets :: "nat \<Rightarrow> string \<Rightarrow> bytes option" where
  "ipv4_octets 0 rest = Some []"
| "ipv4_octets (Suc k) rest =
     (let end_pos = find_char CHR ''.'' rest in
      if k \<noteq> 0 \<and> end_pos = None \<or> k = 0 \<and> end_pos \<noteq> None then None
      else let stop = (case end_pos of None \<Rightarrow> length rest | Some i \<Rightarrow> i);
               part = take stop rest
        in if part = [] \<or> length part > 3 \<or> length part > 1 \<and> hd part = CHR ''0'' then None
           else case digits_loop 0 part of
             None \<Rightarrow> None
           | Some parsed \<Rightarrow> if parsed > 255 then None
               else map_option (Cons (of_nat parsed)) (ipv4_octets k (drop (stop + 1) rest)))"

definition ParseIpv4 :: "string \<Rightarrow> bytes option" where
  "ParseIpv4 value = ipv4_octets 4 value"

definition CanonicalIpv4 :: "bytes \<Rightarrow> string" where
  "CanonicalIpv4 octets = decimal (unat (octets ! 0)) @ ''.'' @ decimal (unat (octets ! 1)) @ ''.'' @
     decimal (unat (octets ! 2)) @ ''.'' @ decimal (unat (octets ! 3))"

definition Ipv4NotConnectable :: "bytes \<Rightarrow> bool" where
  "Ipv4NotConnectable octets \<longleftrightarrow> octets ! 0 = 0 \<or> octets ! 0 \<ge> 224"

section \<open>IPv6\<close>

definition Ipv6Words :: "bytes \<Rightarrow> u16 list" where
  "Ipv6Words address = map (\<lambda>index. push_bit 8 (ucast (address ! (index * 2)) :: u16) OR
     ucast (address ! (index * 2 + 1))) [0..<8]"

text \<open>The first index from \<open>index\<close> on that holds no zero, and the longest run of zeros.\<close>

function zero_stop :: "u16 list \<Rightarrow> nat \<Rightarrow> nat" where
  "zero_stop words index = (if index < length words \<and> words ! index = 0 then zero_stop words (index + 1) else index)"
  by pat_completeness auto

termination by (relation "measure (\<lambda>(words, index). length words - index)") auto

declare zero_stop.simps [simp del]

lemma zero_stop_ge: "index \<le> zero_stop words index"
proof (induction words index rule: zero_stop.induct)
  case (1 words index)
  then show ?case by (subst zero_stop.simps) (auto split: if_splits)
qed

lemma zero_stop_gt: "index < length words \<Longrightarrow> words ! index = 0 \<Longrightarrow> index < zero_stop words index"
  using zero_stop_ge [of "index + 1" words] by (subst zero_stop.simps) simp

function best_run :: "u16 list \<Rightarrow> nat \<Rightarrow> nat \<Rightarrow> nat \<Rightarrow> nat \<times> nat" where
  "best_run words index bestStart bestLength =
     (if index < length words then
        if words ! index \<noteq> 0 then best_run words (index + 1) bestStart bestLength
        else let stop = zero_stop words index; len = stop - index
          in if len \<ge> 2 \<and> len > bestLength then best_run words stop index len
             else best_run words stop bestStart bestLength
      else (bestStart, bestLength))"
  by pat_completeness auto

termination
  using zero_stop_gt
  by (relation "measure (\<lambda>(words, index, bestStart, bestLength). length words - index)")
    (auto intro!: diff_less_mono2)

declare best_run.simps [simp del]

text \<open>What \<open>std::hex\<close> writes.\<close>

definition hex_char :: "nat \<Rightarrow> char" where
  "hex_char d = char_of (if d < 10 then 48 + d else 87 + d)"

fun hex_text :: "nat \<Rightarrow> string" where
  "hex_text n = (if n < 16 then [hex_char n] else hex_text (n div 16) @ [hex_char (n mod 16)])"

declare hex_text.simps [simp del]

definition emit_step :: "u16 list \<Rightarrow> nat \<Rightarrow> nat \<Rightarrow> nat \<times> string \<Rightarrow> nat \<times> string" where
  "emit_step words bestStart bestLength = (\<lambda>(index, output).
     if index = bestStart then (index + bestLength, output @ ''::'')
     else (index + 1, output @ (if output \<noteq> [] \<and> last output \<noteq> CHR '':'' then '':'' else []) @
       hex_text (unat (words ! index))))"

definition CanonicalIpv6 :: "bytes \<Rightarrow> string" where
  "CanonicalIpv6 address =
     (let words = Ipv6Words address; (bestStart, bestLength) = best_run words 0 (length words) 0
      in snd (while (\<lambda>(index, output). index < length words) (emit_step words bestStart bestLength) (0, [])))"

text \<open>The address tests of the system header.\<close>

definition IN6_IS_ADDR_UNSPECIFIED :: "bytes \<Rightarrow> bool" where
  "IN6_IS_ADDR_UNSPECIFIED address \<longleftrightarrow> address = replicate 16 0"

definition IN6_IS_ADDR_V4MAPPED :: "bytes \<Rightarrow> bool" where
  "IN6_IS_ADDR_V4MAPPED address \<longleftrightarrow> take 12 address = replicate 10 0 @ [0xff, 0xff]"

definition IN6_IS_ADDR_MULTICAST :: "bytes \<Rightarrow> bool" where
  "IN6_IS_ADDR_MULTICAST address \<longleftrightarrow> address ! 0 = 0xff"

definition IN6_IS_ADDR_LINKLOCAL :: "bytes \<Rightarrow> bool" where
  "IN6_IS_ADDR_LINKLOCAL address \<longleftrightarrow> address ! 0 = 0xfe \<and> (address ! 1) AND 0xc0 = 0x80"

definition ipv6_not_connectable :: "bytes \<Rightarrow> bool" where
  "ipv6_not_connectable address \<longleftrightarrow> IN6_IS_ADDR_UNSPECIFIED address \<or> IN6_IS_ADDR_V4MAPPED address \<or>
     IN6_IS_ADDR_MULTICAST address"

section \<open>Scopes and host names\<close>

text \<open>The kind and the \<open>canonicalScope\<close> out-parameter, which is empty unless it is set.\<close>

definition ParseScope :: "string \<Rightarrow> parse_mode \<Rightarrow> scope_kind \<times> string" where
  "ParseScope value mode =
     (if value \<noteq> [] \<and> list_all IsAsciiDigit value then
        if mode \<noteq> Runtime \<or> length value > 10 then (NoScope, [])
        else case digits_loop 0 value of
          None \<Rightarrow> (NoScope, [])
        | Some numeric \<Rightarrow> if numeric < 1 \<or> numeric > 0xffffffff then (NoScope, [])
            else (Numeric, decimal numeric)
      else if value = [] \<or> length value > 32 \<or> \<not> IsAsciiAlpha (hd value) then (NoScope, [])
      else if list_ex (\<lambda>c. \<not> IsAsciiAlnum c \<and> c \<noteq> CHR ''_'' \<and> c \<noteq> CHR ''.'' \<and> c \<noteq> CHR ''-'') value
        then (NoScope, [])
      else (Interface, value))"

definition strip_dot :: "string \<Rightarrow> string" where
  "strip_dot value = (if value \<noteq> [] \<and> last value = CHR ''.'' then butlast value else value)"

text \<open>The labels from \<open>start\<close> on are well formed.\<close>

function labels_ok :: "string \<Rightarrow> bool" where
  "labels_ok rest =
     (if rest = [] then True
      else let end_pos = find_char CHR ''.'' rest;
               stop = (case end_pos of None \<Rightarrow> length rest | Some i \<Rightarrow> i);
               label = take stop rest
        in if label = [] \<or> length label > 63 \<or> hd label = CHR ''-'' \<or> last label = CHR ''-'' then False
           else if list_ex (\<lambda>c. \<not> IsAsciiAlnum c \<and> c \<noteq> CHR ''-'') label then False
           else labels_ok (drop (stop + 1) rest))"
  by pat_completeness auto

termination by (relation "measure length") auto

declare labels_ok.simps [simp del]

definition CanonicalHostname :: "string \<Rightarrow> string" where
  "CanonicalHostname input =
     (let value = strip_dot input
      in if value = [] \<or> length value > 253 \<or> hd value = CHR ''.'' \<or> last value = CHR ''.'' \<or>
            contains_text ''..'' value then []
         else if \<not> labels_ok value then []
         else map AsciiLower value)"

definition hexadecimal_label :: "string \<Rightarrow> bool" where
  "hexadecimal_label label \<longleftrightarrow> length label > 2 \<and> label ! 0 = CHR ''0'' \<and>
     (label ! 1 = CHR ''x'' \<or> label ! 1 = CHR ''X'') \<and>
     list_all (\<lambda>c. IsAsciiDigit c \<or> 97 \<le> code c \<and> code c \<le> 102 \<or> 65 \<le> code c \<and> code c \<le> 70) (drop 2 label)"

function numeric_labels :: "string \<Rightarrow> bool" where
  "numeric_labels rest =
     (if rest = [] then False
      else let end_pos = find_char CHR ''.'' rest;
               stop = (case end_pos of None \<Rightarrow> length rest | Some i \<Rightarrow> i);
               label = take stop rest
        in if \<not> (label \<noteq> [] \<and> list_all IsAsciiDigit label) \<and> \<not> hexadecimal_label label then False
           else case end_pos of None \<Rightarrow> True | Some i \<Rightarrow> numeric_labels (drop (i + 1) rest))"
  by pat_completeness auto

termination by (relation "measure length") auto

declare numeric_labels.simps [simp del]

definition LegacyNumericHost :: "string \<Rightarrow> bool" where
  "LegacyNumericHost value = numeric_labels (strip_dot value)"

section \<open>Parsing\<close>

definition finish_ipv6 :: "bytes \<Rightarrow> string \<Rightarrow> scope_kind \<Rightarrow> parse_result" where
  "finish_ipv6 ipv6 scope scopeKind =
     (if ipv6_not_connectable ipv6 then Failed AddressNotConnectable
      else if IN6_IS_ADDR_LINKLOCAL ipv6 \<and> scope = [] then Failed ScopeRequired
      else if \<not> IN6_IS_ADDR_LINKLOCAL ipv6 \<and> scope \<noteq> [] then Failed ScopeNotAllowed
      else Succeeded (CanonicalIpv6 ipv6) Ipv6 scope scopeKind)"

definition finish_hostname :: "string \<Rightarrow> string \<Rightarrow> bool \<Rightarrow> parse_result" where
  "finish_hostname host scope bracketed =
     (if find_char CHR '':'' host \<noteq> None then Failed InvalidIpv6
      else if find_char CHR ''.'' host \<noteq> None \<and> list_all (\<lambda>c. c = CHR ''.'' \<or> IsAsciiDigit c) host \<or>
        LegacyNumericHost host then Failed InvalidIpv4
      else if bracketed then Failed InvalidSyntax
      else if scope \<noteq> [] then Failed ScopeNotAllowed
      else let hostname = CanonicalHostname host
        in if hostname = [] then Failed InvalidHostname else Succeeded hostname Hostname [] NoScope)"

text \<open>From the test of IPv4 on, with the scope cut off the host.\<close>

definition classify_host ::
    "(string \<Rightarrow> bytes option) \<Rightarrow> string \<Rightarrow> string \<Rightarrow> scope_kind \<Rightarrow> bool \<Rightarrow> parse_result" where
  "classify_host pton host scope scopeKind bracketed =
     (case ParseIpv4 host of
        Some octets \<Rightarrow>
          if bracketed then Failed InvalidSyntax
          else if scope \<noteq> [] then Failed ScopeNotAllowed
          else if Ipv4NotConnectable octets then Failed AddressNotConnectable
          else Succeeded (CanonicalIpv4 octets) Ipv4 [] NoScope
      | None \<Rightarrow>
          (case pton host of
             Some ipv6 \<Rightarrow> finish_ipv6 ipv6 scope scopeKind
           | None \<Rightarrow> finish_hostname host scope bracketed))"

text \<open>From the search for the scope on.\<close>

definition scoped_host :: "(string \<Rightarrow> bytes option) \<Rightarrow> parse_mode \<Rightarrow> string \<Rightarrow> bool \<Rightarrow> parse_result" where
  "scoped_host pton mode host bracketed =
     (case find_char CHR ''%'' host of
        None \<Rightarrow> classify_host pton host [] NoScope bracketed
      | Some percent \<Rightarrow>
          if find_char CHR ''%'' (drop (percent + 1) host) \<noteq> None then Failed InvalidSyntax
          else let (scopeKind, scope) = ParseScope (drop (percent + 1) host) mode
            in if scopeKind = NoScope then Failed ScopeNotPortable
               else classify_host pton (take percent host) scope scopeKind bracketed)"

definition ParseHost :: "(string \<Rightarrow> bytes option) \<Rightarrow> string \<Rightarrow> parse_mode \<Rightarrow> parse_result" where
  "ParseHost pton source mode =
     (if source = [] then Failed Empty
      else if InvalidEndpointCharacters source then Failed InvalidSyntax
      else if length source > kMaxInputLength then Failed InputTooLong
      else if hd source = CHR ''['' then
        (if length source < 3 \<or> last source \<noteq> CHR '']'' \<or> find_char CHR '']'' source \<noteq> Some (length source - 1)
         then Failed InvalidSyntax
         else scoped_host pton mode (take (length source - 2) (drop 1 source)) True)
      else if find_char CHR ''['' source \<noteq> None \<or> find_char CHR '']'' source \<noteq> None then Failed InvalidSyntax
      else scoped_host pton mode source False)"

definition with_port :: "u16 \<Rightarrow> parse_result \<Rightarrow> parse_result" where
  "with_port port parsed = (if \<not> pr_ok parsed then parsed
     else parsed\<lparr>pr_endpoint := (pr_endpoint parsed)\<lparr>ad_port := port\<rparr>\<rparr>)"

text \<open>
  Where the address is bracketed but never closed, the close index is \<open>npos\<close>: the next index wraps
  to 0, so the suffix is the whole text, which starts with no colon.
\<close>

definition ParseAuthority :: "(string \<Rightarrow> bytes option) \<Rightarrow> string \<Rightarrow> u16 \<Rightarrow> parse_mode \<Rightarrow> parse_result" where
  "ParseAuthority pton source defaultPort mode =
     (if \<not> ValidPort (unat defaultPort) then Failed InvalidPort
      else if source = [] then Failed Empty
      else if InvalidEndpointCharacters source then Failed InvalidSyntax
      else if length source > kMaxInputLength then Failed InputTooLong
      else if hd source = CHR ''['' then
        (case find_char CHR '']'' source of
           None \<Rightarrow> Failed InvalidSyntax
         | Some close \<Rightarrow>
             if close \<le> 1 then Failed InvalidSyntax
             else let hostText = take (close + 1) source; suffix = drop (close + 1) source
               in if suffix = [] then with_port defaultPort (ParseHost pton hostText mode)
                  else if hd suffix \<noteq> CHR '':'' then Failed InvalidSyntax
                  else let port = ParsePort (drop 1 suffix)
                    in if port = 0 then Failed InvalidPort else with_port port (ParseHost pton hostText mode))
      else (case find_char CHR '':'' source of
           Some firstColon \<Rightarrow>
             if firstColon > 0 \<and> rfind_char CHR '':'' source = Some firstColon then
               let port = ParsePort (drop (firstColon + 1) source)
               in if port = 0 then Failed InvalidPort
                  else with_port port (ParseHost pton (take firstColon source) mode)
             else with_port defaultPort (ParseHost pton source mode)
         | None \<Rightarrow> with_port defaultPort (ParseHost pton source mode)))"

definition ParseFields :: "(string \<Rightarrow> bytes option) \<Rightarrow> string \<Rightarrow> u16 \<Rightarrow> parse_mode \<Rightarrow> parse_result" where
  "ParseFields pton hostInput port mode =
     (if \<not> ValidPort (unat port) then Failed InvalidPort else with_port port (ParseHost pton hostInput mode))"

section \<open>Formatting\<close>

definition TransportHost :: "address \<Rightarrow> string" where
  "TransportHost e = (if ad_family e \<noteq> Ipv6 \<or> ad_scope e = [] then ad_canonicalHost e
     else ad_canonicalHost e @ ''%'' @ ad_scope e)"

definition FormatHostPort :: "address \<Rightarrow> string" where
  "FormatHostPort e = (let host = TransportHost e
     in if ad_port e = 0 then host
        else if ad_family e = Ipv6 then ''['' @ host @ '']:'' @ decimal (unat (ad_port e))
        else host @ '':'' @ decimal (unat (ad_port e)))"

definition FormatUriAuthority :: "address \<Rightarrow> string" where
  "FormatUriAuthority e =
     (let host = (if ad_family e = Ipv6 \<and> ad_scope e \<noteq> [] then ad_canonicalHost e @ ''%25'' @ ad_scope e
          else ad_canonicalHost e)
      in if ad_port e = 0 then (if ad_family e = Ipv6 then ''['' @ host @ '']'' else host)
         else if ad_family e = Ipv6 then ''['' @ host @ '']:'' @ decimal (unat (ad_port e))
         else host @ '':'' @ decimal (unat (ad_port e)))"

section \<open>Identities\<close>

definition default_identity :: server_identity where
  "default_identity = \<lparr>si_kind = NoServer, si_canonicalName = []\<rparr>"

definition accepted :: "server_identity \<Rightarrow> server_identity_result" where
  "accepted i = \<lparr>sr_ok = True, sr_identity = i, sr_error = NoIdentityError\<rparr>"

definition default_server_result :: server_identity_result where
  "default_server_result = \<lparr>sr_ok = False, sr_identity = default_identity, sr_error = InvalidServerIdentity\<rparr>"

text \<open>From the test of IPv4 on.\<close>

definition classify_server :: "(string \<Rightarrow> bytes option) \<Rightarrow> string \<Rightarrow> server_identity_result" where
  "classify_server pton input =
     (case ParseIpv4 input of
        Some octets \<Rightarrow> if Ipv4NotConnectable octets then default_server_result
          else accepted \<lparr>si_kind = Ip, si_canonicalName = CanonicalIpv4 octets\<rparr>
      | None \<Rightarrow>
        (case pton input of
           Some ipv6 \<Rightarrow> if ipv6_not_connectable ipv6 then default_server_result
             else accepted \<lparr>si_kind = Ip, si_canonicalName = CanonicalIpv6 ipv6\<rparr>
         | None \<Rightarrow>
             if find_char CHR '':'' input \<noteq> None \<or> LegacyNumericHost input then default_server_result
             else let hostname = CanonicalHostname input
               in if hostname = [] then default_server_result
                  else accepted \<lparr>si_kind = Dns, si_canonicalName = hostname\<rparr>))"

definition ParseServerIdentity :: "(string \<Rightarrow> bytes option) \<Rightarrow> string \<Rightarrow> server_identity_result" where
  "ParseServerIdentity pton input =
     (if input = [] then accepted default_identity
      else if length input > 253 \<or> InvalidEndpointCharacters input \<or> find_char CHR ''%'' input \<noteq> None \<or>
        find_char CHR ''['' input \<noteq> None \<or> find_char CHR '']'' input \<noteq> None then default_server_result
      else classify_server pton input)"

fun FamilyText :: "address_family \<Rightarrow> string" where
  "FamilyText Hostname = ''hostname''"
| "FamilyText Ipv4 = ''ipv4''"
| "FamilyText Ipv6 = ''ipv6''"

definition LengthPrefixed :: "string \<Rightarrow> string" where
  "LengthPrefixed value = decimal (length value) @ '':'' @ value"

fun ServerIdentityKindText :: "server_identity_kind \<Rightarrow> string" where
  "ServerIdentityKindText NoServer = ''none''"
| "ServerIdentityKindText Dns = ''dns''"
| "ServerIdentityKindText Ip = ''ip''"

definition EndpointMatchesCanonicalPolicy :: "(string \<Rightarrow> bytes option) \<Rightarrow> address \<Rightarrow> bool" where
  "EndpointMatchesCanonicalPolicy pton e \<longleftrightarrow>
     (if ad_version e \<noteq> kAddressVersion \<or> \<not> ValidPort (unat (ad_port e)) \<or> ad_scopeKind e = Numeric then False
      else let input = (if ad_family e = Ipv6 \<and> ad_scope e \<noteq> [] then ad_canonicalHost e @ ''%'' @ ad_scope e
                 else ad_canonicalHost e);
               parsed = ParseHost pton input Persisted
        in pr_ok parsed \<and> ad_canonicalHost (pr_endpoint parsed) = ad_canonicalHost e \<and>
           ad_family (pr_endpoint parsed) = ad_family e \<and> ad_scope (pr_endpoint parsed) = ad_scope e \<and>
           ad_scopeKind (pr_endpoint parsed) = ad_scopeKind e)"

definition identity_text :: "address \<Rightarrow> server_identity \<Rightarrow> string" where
  "identity_text e effective = ''endpoint-v2|family='' @ LengthPrefixed (FamilyText (ad_family e)) @
     ''|host='' @ LengthPrefixed (ad_canonicalHost e) @ ''|scope='' @ LengthPrefixed (ad_scope e) @
     ''|port='' @ decimal (unat (ad_port e)) @
     ''|server-kind='' @ LengthPrefixed (ServerIdentityKindText (si_kind effective)) @
     ''|server='' @ LengthPrefixed (si_canonicalName effective)"

text \<open>The server identity an endpoint has when none is given.\<close>

definition effective_identity :: "address \<Rightarrow> server_identity \<Rightarrow> server_identity" where
  "effective_identity e server =
     (if si_kind server = NoServer \<and> si_canonicalName server = [] then
        \<lparr>si_kind = (if ad_family e = Hostname then Dns else Ip), si_canonicalName = ad_canonicalHost e\<rparr>
      else server)"

definition IdentityV2 :: "(string \<Rightarrow> bytes option) \<Rightarrow> address \<Rightarrow> server_identity \<Rightarrow> identity_result" where
  "IdentityV2 pton e server =
     (if \<not> EndpointMatchesCanonicalPolicy pton e then
        \<lparr>ir_ok = False, ir_identity = [], ir_error = InvalidEndpoint\<rparr>
      else let validated = ParseServerIdentity pton (si_canonicalName server)
        in if \<not> (si_kind server = NoServer \<and> si_canonicalName server = []) \<and>
             (\<not> sr_ok validated \<or> si_kind (sr_identity validated) \<noteq> si_kind server \<or>
              si_canonicalName (sr_identity validated) \<noteq> si_canonicalName server) then
             \<lparr>ir_ok = False, ir_identity = [], ir_error = InvalidServerIdentity\<rparr>
           else \<lparr>ir_ok = True, ir_identity = identity_text e (effective_identity e server),
                 ir_error = NoIdentityError\<rparr>)"

end
