(* ===== verification/Endpoint_Text.thy ===== *)
theory Endpoint_Text
  imports Endpoint_Address
begin

text \<open>
  The texts of the address policy: a reference reader of the colon notation of IPv6 and the proof that
  the written form of an address denotes it and is the one of RFC 5952; the exact language of the
  dotted reader; the loops over the labels of a host name as conditions on its pieces.
\<close>

section \<open>Searches and pieces of a text\<close>

fun split_on :: "char \<Rightarrow> string \<Rightarrow> string list" where
  "split_on d [] = [[]]"
| "split_on d (c # cs) = (if c = d then [] # split_on d cs else (c # hd (split_on d cs)) # tl (split_on d cs))"

lemma split_on_not_Nil [simp]: "split_on d s \<noteq> []"
  by (cases s) auto

lemma split_on_append: "d \<notin> set g \<Longrightarrow> split_on d (g @ s) = (g @ hd (split_on d s)) # tl (split_on d s)"
  by (induction g) auto

lemma split_on_sep: "d \<notin> set g \<Longrightarrow> split_on d (g @ d # s) = g # split_on d s"
  using split_on_append [of d g "d # s"] by simp

lemma split_on_none: "d \<notin> set g \<Longrightarrow> split_on d g = [g]"
  using split_on_append [of d g "[]"] by simp

lemma find_char_None [simp]: "find_char c s = None \<longleftrightarrow> c \<notin> set s"
  by (induction s) auto

lemma find_char_Some: "find_char c s = Some i \<Longrightarrow> s = take i s @ c # drop (i + 1) s \<and> c \<notin> set (take i s) \<and> i < length s"
proof (induction s arbitrary: i)
  case (Cons d s)
  then show ?case by (cases i) (auto split: if_splits)
qed simp

lemma find_char_append: "c \<notin> set g \<Longrightarrow> find_char c (g @ c # s) = Some (length g)"
  by (induction g) auto

lemma rfind_char_append: "c \<notin> set s \<Longrightarrow> rfind_char c (g @ c # s) = Some (length g)"
  using find_char_append [of c "rev s" "rev g"] by (simp add: rfind_char_def)

section \<open>The text of an IPv6 address\<close>

text \<open>
  A reader of the colon notation of RFC 4291, sections 2.2.1 and 2.2.2, the reference the written
  addresses are compared with.
\<close>

definition hex_value :: "char \<Rightarrow> nat option" where
  "hex_value c = (if 48 \<le> code c \<and> code c \<le> 57 then Some (code c - 48)
     else if 97 \<le> code c \<and> code c \<le> 102 then Some (code c - 87)
     else if 65 \<le> code c \<and> code c \<le> 70 then Some (code c - 55) else None)"

fun hex_number :: "nat \<Rightarrow> string \<Rightarrow> nat option" where
  "hex_number n [] = Some n"
| "hex_number n (c # cs) = (case hex_value c of None \<Rightarrow> None | Some d \<Rightarrow> hex_number (16 * n + d) cs)"

definition read_group :: "string \<Rightarrow> u16 option" where
  "read_group g = (if g = [] \<or> length g > 4 then None else map_option of_nat (hex_number 0 g))"

definition read_groups :: "string \<Rightarrow> u16 list option" where
  "read_groups s = (if s = [] then Some [] else those (map read_group (split_on CHR '':'' s)))"

fun cut_gap :: "string \<Rightarrow> (string \<times> string) option" where
  "cut_gap (c # d # s) = (if c = CHR '':'' \<and> d = CHR '':'' then Some ([], s)
     else map_option (\<lambda>(l, r). (c # l, r)) (cut_gap (d # s)))"
| "cut_gap s = None"

definition read_ipv6 :: "string \<Rightarrow> u16 list option" where
  "read_ipv6 s = (case cut_gap s of
     None \<Rightarrow> (case read_groups s of None \<Rightarrow> None | Some ws \<Rightarrow> if length ws = 8 then Some ws else None)
   | Some (l, r) \<Rightarrow> (case (read_groups l, read_groups r) of
       (Some ls, Some rs) \<Rightarrow>
         if length ls + length rs < 8 then Some (ls @ replicate (8 - length ls - length rs) 0 @ rs) else None
     | _ \<Rightarrow> None))"

fun join_colon :: "string list \<Rightarrow> string" where
  "join_colon [] = []"
| "join_colon [g] = g"
| "join_colon (g # h # gs) = g @ '':'' @ join_colon (h # gs)"

definition hexes :: "u16 list \<Rightarrow> string" where
  "hexes ws = join_colon (map (\<lambda>w. hex_text (unat w)) ws)"

subsection \<open>Groups\<close>

lemma hex_value_char: "d < 16 \<Longrightarrow> hex_value (hex_char d) = Some d"
  by (simp add: hex_value_def hex_char_def code_char_of)

lemma hex_number_append:
  "hex_number n (s @ t) = (case hex_number n s of None \<Rightarrow> None | Some m \<Rightarrow> hex_number m t)"
  by (induction n s rule: hex_number.induct) (auto split: option.splits)

lemma hex_number_text: "hex_number 0 (hex_text n) = Some n"
proof (induction n rule: hex_text.induct)
  case (1 n)
  then show ?case
    by (cases "n < 16") (simp_all add: hex_text.simps [of n] hex_value_char hex_number_append)
qed

lemma hex_text_nonempty [simp]: "hex_text n \<noteq> []"
  by (simp add: hex_text.simps [of n])

lemma hex_text_length: "n < 16 ^ k \<Longrightarrow> 0 < k \<Longrightarrow> length (hex_text n) \<le> k"
proof (induction n arbitrary: k rule: hex_text.induct)
  case (1 n)
  show ?case
  proof (cases "n < 16")
    case True
    then show ?thesis using "1.prems" by (simp add: hex_text.simps [of n])
  next
    case False
    obtain j where k: "k = Suc j" using "1.prems" by (cases k) auto
    have "0 < j" "n div 16 < 16 ^ j" using False "1.prems" k by (cases j; simp)+
    then show ?thesis using "1.IH" [OF False, of j] False k by (simp add: hex_text.simps [of n])
  qed
qed

definition hex_digit_char :: "char \<Rightarrow> bool" where
  "hex_digit_char c \<longleftrightarrow> 48 \<le> code c \<and> code c \<le> 57 \<or> 97 \<le> code c \<and> code c \<le> 102"

lemma hex_text_chars: "list_all hex_digit_char (hex_text n)"
proof (induction n rule: hex_text.induct)
  case (1 n)
  have digit: "d < 16 \<Longrightarrow> hex_digit_char (hex_char d)" for d
    by (simp add: hex_digit_char_def hex_char_def code_char_of)
  show ?case using 1 digit by (cases "n < 16") (simp_all add: hex_text.simps [of n])
qed

lemma no_colon [simp]: "\<not> hex_digit_char CHR '':''"
  by (simp add: hex_digit_char_def code_def)

lemma read_group_text: "read_group (hex_text (unat (w :: u16))) = Some w"
proof -
  have "unat w < 16 ^ 4" using unsigned_less [of w, where 'a = nat] by simp
  then show ?thesis using hex_text_length [of "unat w" 4] by (simp add: read_group_def hex_number_text)
qed

subsection \<open>Groups joined by colons\<close>

lemma join_colon_snoc:
  "join_colon (gs @ [g]) = (if gs = [] then g else join_colon gs @ '':'' @ g)"
  by (induction gs rule: join_colon.induct) auto

lemma hexes_snoc: "hexes (ws @ [w]) = (if ws = [] then [] else hexes ws @ '':'') @ hex_text (unat w)"
  by (simp add: hexes_def join_colon_snoc)

lemma hexes_Nil [simp]: "hexes [] = []"
  by (simp add: hexes_def)

lemma hexes_Cons: "hexes (w # ws) = hex_text (unat w) @ (if ws = [] then [] else '':'' @ hexes ws)"
  by (cases ws) (simp_all add: hexes_def)

lemma hexes_head: "ws \<noteq> [] \<Longrightarrow> \<exists>d t. hexes ws = d # t \<and> d \<noteq> CHR '':''"
proof (cases ws)
  case (Cons w vs)
  obtain d t where "hex_text (unat w) = d # t" by (cases "hex_text (unat w)") auto
  moreover have "d \<noteq> CHR '':''"
    using hex_text_chars [of "unat w"] calculation by auto
  ultimately show ?thesis using Cons by (simp add: hexes_Cons)
qed simp

lemma last_hexes: "ws \<noteq> [] \<Longrightarrow> hexes ws \<noteq> [] \<and> hex_digit_char (last (hexes ws))"
  using hex_text_chars [of "unat (last ws)"] hexes_snoc [of "butlast ws" "last ws"]
  by (simp add: list_all_iff)

lemma hexes_chars: "c \<in> set (hexes ws) \<Longrightarrow> c = CHR '':'' \<or> hex_digit_char c"
  by (induction ws) (use hex_text_chars in \<open>auto simp: hexes_Cons list_all_iff split: if_splits\<close>)

lemma length_hexes: "length (hexes ws) \<le> 5 * length ws"
proof (induction ws)
  case (Cons w ws)
  have "unat w < 16 ^ 4" using unsigned_less [of w, where 'a = nat] by simp
  then show ?case using Cons hex_text_length [of "unat w" 4] by (simp add: hexes_Cons)
qed simp

lemma split_colons_group:
  "list_all hex_digit_char g \<Longrightarrow> split_on CHR '':'' (g @ s) = (g @ hd (split_on CHR '':'' s)) # tl (split_on CHR '':'' s)"
  by (rule split_on_append) (auto simp: list_all_iff)

lemma split_hexes: "ws \<noteq> [] \<Longrightarrow> split_on CHR '':'' (hexes ws) = map (\<lambda>w. hex_text (unat w)) ws"
proof (induction ws)
  case (Cons w ws)
  then show ?case
    using split_colons_group [OF hex_text_chars, of "unat w"] split_colons_group [OF hex_text_chars, of "unat w" "[]"]
    by (cases "ws = []") (simp_all add: hexes_Cons)
qed simp

lemma those_groups: "those (map (\<lambda>w. read_group (hex_text (unat w))) ws) = Some ws"
  by (induction ws) (simp_all add: read_group_text)

lemma read_hexes: "read_groups (hexes ws) = Some ws"
  by (cases "ws = []") (use last_hexes in \<open>simp_all add: read_groups_def split_hexes those_groups comp_def\<close>)

subsection \<open>The gap\<close>

lemma cut_gap_group:
  "list_all hex_digit_char g \<Longrightarrow> s \<noteq> [] \<Longrightarrow> cut_gap (g @ s) = map_option (\<lambda>(l, r). (g @ l, r)) (cut_gap s)"
proof (induction g)
  case (Cons c g)
  then have "c \<noteq> CHR '':''" by auto
  moreover obtain d t where "g @ s = d # t" using Cons.prems by (cases "g @ s") auto
  ultimately show ?case using Cons by (auto simp: option.map_comp comp_def case_prod_beta)
qed (simp add: option.map_ident_strong case_prod_beta)

lemma cut_gap_word:
  "list_all hex_digit_char g \<Longrightarrow> cut_gap g = None"
proof (induction g rule: cut_gap.induct)
  case (1 c d s)
  then show ?case by auto
qed auto

lemma cut_gap_hexes: "cut_gap (hexes ws) = None"
proof (induction ws)
  case (Cons w ws)
  show ?case
  proof (cases ws)
    case Nil
    then show ?thesis using cut_gap_word [OF hex_text_chars] by (simp add: hexes_Cons)
  next
    case (Cons v vs)
    obtain d t where dt: "hexes ws = d # t" "d \<noteq> CHR '':''" using hexes_head Cons by blast
    then have "cut_gap ('':'' @ hexes ws) = None" using \<open>cut_gap (hexes ws) = None\<close> by simp
    then show ?thesis using cut_gap_group [OF hex_text_chars, of "'':'' @ hexes ws" "unat w"] Cons
      by (simp add: hexes_Cons [of w])
  qed
qed simp

lemma cut_gap_found: "cut_gap (hexes ls @ ''::'' @ r) = Some (hexes ls, r)"
proof (induction ls)
  case (Cons w ls)
  show ?case
  proof (cases ls)
    case Nil
    then show ?thesis using cut_gap_group [OF hex_text_chars, of "''::'' @ r" "unat w"] by (simp add: hexes_Cons)
  next
    case (Cons v vs)
    obtain d t where dt: "hexes ls = d # t" "d \<noteq> CHR '':''" using hexes_head Cons by blast
    then have "cut_gap ('':'' @ hexes ls @ ''::'' @ r) = Some ('':'' @ hexes ls, r)" using Cons.IH by simp
    then show ?thesis using cut_gap_group [OF hex_text_chars, of "'':'' @ hexes ls @ ''::'' @ r" "unat w"] Cons
      by (simp add: hexes_Cons [of w])
  qed
qed simp

lemma read_plain: "length ws = 8 \<Longrightarrow> read_ipv6 (hexes ws) = Some ws"
  by (simp add: read_ipv6_def cut_gap_hexes read_hexes)

lemma read_gap:
  "length ls + length rs < 8 \<Longrightarrow>
     read_ipv6 (hexes ls @ ''::'' @ hexes rs) = Some (ls @ replicate (8 - length ls - length rs) 0 @ rs)"
  by (simp add: read_ipv6_def cut_gap_found [simplified] read_hexes)

subsection \<open>The longest run of zeros\<close>

definition zeros :: "u16 list \<Rightarrow> nat \<Rightarrow> nat \<Rightarrow> bool" where
  "zeros ws s n \<longleftrightarrow> s + n \<le> length ws \<and> (\<forall>j. s \<le> j \<and> j < s + n \<longrightarrow> ws ! j = 0)"

text \<open>RFC 5952, section 4.2: the longest run of two zeros or more, the first of them.\<close>

definition shortened_run :: "u16 list \<Rightarrow> nat \<Rightarrow> nat \<Rightarrow> bool" where
  "shortened_run ws s n \<longleftrightarrow> 2 \<le> n \<and> zeros ws s n \<and>
     (\<forall>t m. 2 \<le> m \<longrightarrow> zeros ws t m \<longrightarrow> m < n \<or> m = n \<and> s \<le> t)"

lemma zero_stop_spec:
  "i \<le> length ws \<Longrightarrow> zero_stop ws i \<le> length ws \<and> (\<forall>j. i \<le> j \<and> j < zero_stop ws i \<longrightarrow> ws ! j = 0) \<and>
     (zero_stop ws i < length ws \<longrightarrow> ws ! zero_stop ws i \<noteq> 0)"
proof (induction ws i rule: zero_stop.induct)
  case (1 ws i)
  show ?case
  proof (cases "i < length ws \<and> ws ! i = 0")
    case True
    have eq: "zero_stop ws i = zero_stop ws (i + 1)" using True by (simp add: zero_stop.simps [of ws i])
    have "ws ! j = 0" if "i \<le> j" "j < zero_stop ws (i + 1)" for j
      using 1 True that by (cases "j = i") auto
    then show ?thesis using 1 True by (simp add: eq)
  next
    case False
    then show ?thesis using "1.prems" by (auto simp: zero_stop.simps [of ws i])
  qed
qed

text \<open>What the search knows when it has looked at the first \<open>i\<close> words.\<close>

definition best_so_far :: "u16 list \<Rightarrow> nat \<Rightarrow> nat \<Rightarrow> nat \<Rightarrow> bool" where
  "best_so_far ws i s n \<longleftrightarrow> (n = 0 \<and> s = length ws \<or> 2 \<le> n \<and> s < i \<and> zeros ws s n) \<and>
     (\<forall>t m. t < i \<longrightarrow> 2 \<le> m \<longrightarrow> zeros ws t m \<longrightarrow> m < n \<or> m = n \<and> s \<le> t)"

lemma zeros_within_run:
  assumes "zeros ws t m" "0 < m" "i \<le> t" "t < zero_stop ws i" "i \<le> length ws"
  shows "t + m \<le> zero_stop ws i"
proof (rule ccontr)
  assume "\<not> ?thesis"
  then have "ws ! zero_stop ws i = 0" "zero_stop ws i < length ws" using assms by (auto simp: zeros_def)
  then show False using zero_stop_spec [OF assms(5)] by blast
qed

lemma best_run_step:
  assumes "best_so_far ws i s n" "i < length ws" "ws ! i = 0" "e = zero_stop ws i"
  shows "if e - i \<ge> 2 \<and> e - i > n then best_so_far ws e i (e - i) else best_so_far ws e s n"
proof -
  have e: "i < e" "zeros ws i (e - i)"
    using zero_stop_gt assms zero_stop_spec [of i ws] by (auto simp: zeros_def)
  have new: "m \<le> e - i \<and> (m = e - i \<longrightarrow> t = i)" if "\<not> t < i" "t < e" "2 \<le> m" "zeros ws t m" for t m
    using zeros_within_run [of ws t m i] that assms by auto
  show ?thesis
  proof (cases "e - i \<ge> 2 \<and> e - i > n")
    case True
    have "m < e - i \<or> m = e - i \<and> i \<le> t" if "t < e" "2 \<le> m" "zeros ws t m" for t m
    proof (cases "t < i")
      case True
      then have "m < n \<or> m = n \<and> s \<le> t" using assms(1) that unfolding best_so_far_def by blast
      then show ?thesis using \<open>e - i \<ge> 2 \<and> e - i > n\<close> by auto
    qed (use new [of t m] that in auto)
    then show ?thesis using True e by (auto simp: best_so_far_def)
  next
    case False
    have "m < n \<or> m = n \<and> s \<le> t" if "t < e" "2 \<le> m" "zeros ws t m" for t m
      using new [of t m] that assms(1) False by (cases "t < i") (auto simp: best_so_far_def)
    then show ?thesis using False e assms(1) by (auto simp: best_so_far_def)
  qed
qed

lemma best_run_best:
  "best_so_far ws i s n \<Longrightarrow> i \<le> length ws \<Longrightarrow>
     best_so_far ws (length ws) (fst (best_run ws i s n)) (snd (best_run ws i s n))"
proof (induction ws i s n rule: best_run.induct)
  case (1 ws i s n)
  consider "i = length ws" | "i < length ws" "ws ! i \<noteq> 0" | "i < length ws" "ws ! i = 0"
    using "1.prems" by linarith
  then show ?case
  proof cases
    case 1
    then show ?thesis using "1.prems" by (simp add: best_run.simps [of ws "length ws"])
  next
    case 2
    have "\<not> zeros ws i m" if "2 \<le> m" for m using 2 that by (auto simp: zeros_def)
    then have "best_so_far ws (i + 1) s n" using "1.prems" by (auto simp: best_so_far_def less_Suc_eq)
    then show ?thesis using 2 "1.IH"(1) by (simp add: best_run.simps [of ws i])
  next
    case 3
    let ?e = "zero_stop ws i"
    have "?e \<le> length ws" using zero_stop_spec 3 by simp
    then show ?thesis
      using best_run_step [OF "1.prems"(1) 3 refl] "1.IH"(2) [OF 3(1) _ refl refl] "1.IH"(3) [OF 3(1) _ refl refl] 3
      by (simp add: best_run.simps [of ws i] Let_def split: if_splits)
  qed
qed

lemma best_run_exact:
  "best_run ws 0 (length ws) 0 = (s, n) \<Longrightarrow>
     shortened_run ws s n \<or> s = length ws \<and> (\<forall>t m. zeros ws t m \<longrightarrow> m < 2)"
proof -
  assume run: "best_run ws 0 (length ws) 0 = (s, n)"
  have "best_so_far ws 0 (length ws) 0" by (simp add: best_so_far_def)
  then have best: "best_so_far ws (length ws) s n" using best_run_best [of ws 0 "length ws" 0] run by simp
  have "t < length ws" if "zeros ws t m" "2 \<le> m" for t m using that by (simp add: zeros_def)
  then show ?thesis using best unfolding best_so_far_def shortened_run_def
    by (metis less_irrefl not_less zero_less_iff_neq_zero less_nat_zero_code)
qed

subsection \<open>Writing the groups\<close>

definition emitted :: "u16 list \<Rightarrow> nat \<Rightarrow> nat \<Rightarrow> nat \<times> string \<Rightarrow> nat \<times> string" where
  "emitted ws s n = while (\<lambda>(index, output). index < length ws) (emit_step ws s n)"

lemma emitted_step:
  "i < length ws \<Longrightarrow> emitted ws s n (i, out) = emitted ws s n (emit_step ws s n (i, out))"
  unfolding emitted_def by (subst while_unfold) simp

lemma emitted_stop: "length ws \<le> i \<Longrightarrow> emitted ws s n (i, out) = (i, out)"
  unfolding emitted_def by (subst while_unfold) simp

lemma emitted_groups:
  assumes "i + k \<le> length ws" "s < i \<or> i + k \<le> s" "out \<noteq> [] \<Longrightarrow> last out = CHR '':''"
  shows "emitted ws s n (i, out) = emitted ws s n (i + k, out @ hexes (take k (drop i ws)))"
  using assms(1,2)
proof (induction k)
  case (Suc k)
  let ?g = "take k (drop i ws)"
  have drop: "take (Suc k) (drop i ws) = ?g @ [ws ! (i + k)]"
    using Suc.prems by (simp add: take_Suc_conv_app_nth)
  have sep: "(if out @ hexes ?g \<noteq> [] \<and> last (out @ hexes ?g) \<noteq> CHR '':'' then '':'' else []) =
      (if ?g = [] then [] else '':'')"
    using assms(3) last_hexes [of ?g] by (cases "?g = []") (auto simp del: take_eq_Nil)
  have "emitted ws s n (i, out) = emitted ws s n (i + k, out @ hexes ?g)"
    by (rule Suc.IH) (use Suc.prems in auto)
  also have "\<dots> = emitted ws s n (i + Suc k, out @ hexes ?g @ (if ?g = [] then [] else '':'') @ hex_text (unat (ws ! (i + k))))"
  proof -
    have "i + k \<noteq> s" using Suc.prems by auto
    then show ?thesis using Suc.prems sep by (subst emitted_step) (simp_all add: emit_step_def)
  qed
  also have "hexes ?g @ (if ?g = [] then [] else '':'') @ hex_text (unat (ws ! (i + k))) = hexes (take (Suc k) (drop i ws))"
    by (cases "?g = []") (simp_all add: drop hexes_snoc hexes_Cons del: take_eq_Nil)
  finally show ?case .
qed simp

lemma emitted_gap:
  assumes "s + n \<le> length ws" "0 < n"
  shows "snd (emitted ws s n (0, [])) = hexes (take s ws) @ ''::'' @ hexes (drop (s + n) ws)"
proof -
  have "emitted ws s n (0, []) = emitted ws s n (s, hexes (take s ws))"
    using emitted_groups [of 0 s ws s "[]" n] assms by simp
  also have "\<dots> = emitted ws s n (s + n, hexes (take s ws) @ ''::'')"
    using assms by (subst emitted_step) (simp_all add: emit_step_def)
  also have "\<dots> = emitted ws s n (length ws, (hexes (take s ws) @ ''::'') @ hexes (drop (s + n) ws))"
    using emitted_groups [of "s + n" "length ws - (s + n)" ws s "hexes (take s ws) @ ''::''" n] assms by simp
  finally show ?thesis by (simp add: emitted_stop)
qed

lemma emitted_plain: "snd (emitted ws (length ws) n (0, [])) = hexes ws"
  using emitted_groups [of 0 "length ws" ws "length ws" "[]" n] by (simp add: emitted_stop)

lemma length_Ipv6Words [simp]: "length (Ipv6Words a) = 8"
  by (simp add: Ipv6Words_def)

lemma CanonicalIpv6_form:
  "(\<exists>s n. shortened_run (Ipv6Words a) s n \<and>
      CanonicalIpv6 a = hexes (take s (Ipv6Words a)) @ ''::'' @ hexes (drop (s + n) (Ipv6Words a))) \<or>
   (\<forall>t m. zeros (Ipv6Words a) t m \<longrightarrow> m < 2) \<and> CanonicalIpv6 a = hexes (Ipv6Words a)"
proof -
  obtain s n where run: "best_run (Ipv6Words a) 0 (length (Ipv6Words a)) 0 = (s, n)" by (cases "best_run (Ipv6Words a) 0 (length (Ipv6Words a)) 0")
  have form: "CanonicalIpv6 a = snd (emitted (Ipv6Words a) s n (0, []))"
    using run by (simp add: CanonicalIpv6_def emitted_def)
  show ?thesis using best_run_exact [OF run]
  proof
    assume "shortened_run (Ipv6Words a) s n"
    moreover from this have "snd (emitted (Ipv6Words a) s n (0, [])) =
        hexes (take s (Ipv6Words a)) @ ''::'' @ hexes (drop (s + n) (Ipv6Words a))"
      by (intro emitted_gap) (auto simp: shortened_run_def zeros_def)
    ultimately show ?thesis using form by auto
  next
    assume "s = length (Ipv6Words a) \<and> (\<forall>t m. zeros (Ipv6Words a) t m \<longrightarrow> m < 2)"
    then show ?thesis using form emitted_plain by metis
  qed
qed

lemma zeros_between:
  assumes "zeros ws s n"
  shows "take s ws @ replicate n 0 @ drop (s + n) ws = ws"
proof -
  have "take n (drop s ws) = replicate n 0"
    using assms by (auto intro!: nth_equalityI simp: zeros_def)
  then show ?thesis using append_take_drop_id [of s ws] append_take_drop_id [of n "drop s ws"]
    by (simp add: add.commute)
qed

lemma read_canonical: "read_ipv6 (CanonicalIpv6 a) = Some (Ipv6Words a)"
  using CanonicalIpv6_form [of a]
proof (elim disjE exE conjE)
  fix s n
  assume run: "shortened_run (Ipv6Words a) s n"
    and form: "CanonicalIpv6 a = hexes (take s (Ipv6Words a)) @ ''::'' @ hexes (drop (s + n) (Ipv6Words a))"
  have bounds: "s + n \<le> 8" "2 \<le> n" "zeros (Ipv6Words a) s n" using run by (auto simp: shortened_run_def zeros_def)
  have "read_ipv6 (CanonicalIpv6 a) = Some (take s (Ipv6Words a) @ replicate (8 - s - (8 - (s + n))) 0 @ drop (s + n) (Ipv6Words a))"
    using read_gap [of "take s (Ipv6Words a)" "drop (s + n) (Ipv6Words a)"] bounds by (simp add: form min_def)
  also have "8 - s - (8 - (s + n)) = n" using bounds by simp
  finally show ?thesis using zeros_between [OF bounds(3)] by simp
next
  assume "CanonicalIpv6 a = hexes (Ipv6Words a)"
  then show ?thesis by (simp add: read_plain)
qed

section \<open>The text of an IPv4 address\<close>

lemma IsAsciiDigit_digit_char: "IsAsciiDigit = digit_char"
  by (simp add: fun_eq_iff IsAsciiDigit_def digit_char_def)

lemma digits_loop_value:
  "digits_loop n s = (if list_all digit_char s then Some (foldl (\<lambda>n c. 10 * n + (code c - 48)) n s) else None)"
  by (induction n s rule: digits_loop.induct) (simp_all add: IsAsciiDigit_digit_char mult.commute)

lemma digits_loop_decimal: "digits_loop 0 (decimal n) = Some n"
  using undecimal_decimal [of n] by (simp add: digits_loop_value decimal_digits undecimal_def)

lemma digits_loop_read: "digits_loop 0 s = Some n \<longleftrightarrow> list_all digit_char s \<and> n = undecimal s"
  by (auto simp: digits_loop_value undecimal_def)

text \<open>A part between dots that \<open>ParseIpv4\<close> accepts is the decimal text of an octet.\<close>

lemma octet_text:
  "part \<noteq> [] \<and> length part \<le> 3 \<and> \<not> (length part > 1 \<and> hd part = CHR ''0'') \<and> digits_loop 0 part = Some n \<and> n \<le> 255 \<longleftrightarrow>
     n \<le> 255 \<and> part = decimal n"
proof
  assume "n \<le> 255 \<and> part = decimal n"
  moreover have "hd (decimal n) \<noteq> CHR ''0'' \<or> length (decimal n) \<le> 1"
    using decimal_no_leading_zero [of n] by (cases "n = 0") (auto simp: decimal.simps [of 0])
  ultimately show "part \<noteq> [] \<and> length part \<le> 3 \<and> \<not> (length part > 1 \<and> hd part = CHR ''0'') \<and> digits_loop 0 part = Some n \<and> n \<le> 255"
    using decimal_length [of n 3] by (auto simp: digits_loop_decimal)
qed (auto simp: digits_loop_read decimal_undecimal)

lemma octet_part:
  "(if part = [] \<or> length part > 3 \<or> length part > 1 \<and> hd part = CHR ''0'' then None
    else case digits_loop 0 part of None \<Rightarrow> None
      | Some parsed \<Rightarrow> if parsed > 255 then None else f parsed) = Some os \<longleftrightarrow>
   (\<exists>n \<le> 255. part = decimal n \<and> f n = Some os)" (is "?l \<longleftrightarrow> ?r")
proof
  assume ?l
  then obtain n where "\<not> (part = [] \<or> length part > 3 \<or> length part > 1 \<and> hd part = CHR ''0'')"
    "digits_loop 0 part = Some n" "\<not> n > 255" "f n = Some os"
    by (simp split: if_splits option.splits)
  then show ?r using octet_text [of part n] by (intro exI [of _ n]) simp
next
  assume ?r
  then obtain n where n: "n \<le> 255" "part = decimal n" "f n = Some os" by blast
  then show ?l using octet_text [of part n] by simp
qed

lemma digits_no_dot: "list_all digit_char s \<Longrightarrow> CHR ''.'' \<notin> set s"
  by (auto simp: list_all_iff digit_char_def code_def)

lemma decimal_no_dot [simp]: "CHR ''.'' \<notin> set (decimal n)"
  using digits_no_dot [OF decimal_digits] .

lemma last_octet:
  "ipv4_octets (Suc 0) rest = Some os \<longleftrightarrow> (\<exists>n \<le> 255. rest = decimal n \<and> os = [of_nat n])"
proof (cases "find_char CHR ''.'' rest")
  case None
  show ?thesis
    using octet_part [of "take (length rest) rest" "\<lambda>n. map_option (Cons (of_nat n)) (ipv4_octets 0 (drop (length rest + 1) rest))" os]
    by (simp add: Let_def None eq_commute [of os] split del: if_split)
next
  case (Some i)
  then have "CHR ''.'' \<in> set rest" by (metis find_char_None option.distinct(1))
  then show ?thesis using Some by (auto simp: Let_def)
qed

lemma earlier_octet:
  assumes "k \<noteq> 0"
  shows "ipv4_octets (Suc k) rest = Some os \<longleftrightarrow>
    (\<exists>n \<le> 255. \<exists>r os'. rest = decimal n @ CHR ''.'' # r \<and> ipv4_octets k r = Some os' \<and> os = of_nat n # os')"
proof (cases "find_char CHR ''.'' rest")
  case None
  then show ?thesis using assms by (auto simp: Let_def)
next
  case (Some i)
  have cut: "rest = take i rest @ CHR ''.'' # drop (i + 1) rest" "CHR ''.'' \<notin> set (take i rest)" "i < length rest"
    using find_char_Some [OF Some] by auto
  have unique: "rest = decimal n @ CHR ''.'' # r \<longleftrightarrow> take i rest = decimal n \<and> drop (i + 1) rest = r" for n r
  proof
    assume rest: "rest = decimal n @ CHR ''.'' # r"
    then have "i = length (decimal n)" using find_char_append [of "CHR ''.''" "decimal n" r] Some by simp
    then show "take i rest = decimal n \<and> drop (i + 1) rest = r" using rest by simp
  qed (use cut in metis)
  have "ipv4_octets (Suc k) rest = Some os \<longleftrightarrow>
      (\<exists>n \<le> 255. take i rest = decimal n \<and> (\<exists>os'. ipv4_octets k (drop (i + 1) rest) = Some os' \<and> os = of_nat n # os'))"
    using octet_part [of "take i rest" "\<lambda>n. map_option (Cons (of_nat n)) (ipv4_octets k (drop (i + 1) rest))" os]
    by (simp add: Let_def assms Some eq_commute [of "os"])
  then show ?thesis unfolding unique by blast
qed

lemma four: "(4 :: nat) = Suc (Suc (Suc (Suc 0)))"
  by simp

lemma ParseIpv4_exact: "ParseIpv4 s = Some os \<longleftrightarrow> length os = 4 \<and> s = CanonicalIpv4 os"
proof
  assume "ParseIpv4 s = Some os"
  then obtain a b c d where "a \<le> 255" "b \<le> 255" "c \<le> 255" "d \<le> 255"
    "s = decimal a @ ''.'' @ decimal b @ ''.'' @ decimal c @ ''.'' @ decimal d"
    "os = [of_nat a, of_nat b, of_nat c, of_nat d]"
    by (auto simp: ParseIpv4_def eval_nat_numeral earlier_octet last_octet simp del: ipv4_octets.simps)
  then show "length os = 4 \<and> s = CanonicalIpv4 os" by (simp add: CanonicalIpv4_def unat_of_nat take_bit_nat_eq_self)
next
  assume "length os = 4 \<and> s = CanonicalIpv4 os"
  then obtain a b c d where os: "os = [a, b, c, d]" "s = CanonicalIpv4 [a, b, c, d]"
    by (auto simp: eval_nat_numeral length_Suc_conv)
  have bound: "unat x \<le> 255" for x :: u8 using unsigned_less [of x, where 'a = nat] by simp
  show "ParseIpv4 s = Some os"
    using bound [of a] bound [of b] bound [of c] bound [of d]
    unfolding ParseIpv4_def os CanonicalIpv4_def four
    by (simp add: earlier_octet last_octet del: ipv4_octets.simps)
      (intro exI conjI, (assumption | rule refl | simp)+)
qed

definition dot_or_digit :: "char \<Rightarrow> bool" where
  "dot_or_digit c \<longleftrightarrow> c = CHR ''.'' \<or> IsAsciiDigit c"

lemma CanonicalIpv4_chars: "list_all dot_or_digit (CanonicalIpv4 os) \<and> CHR ''.'' \<in> set (CanonicalIpv4 os)"
  using decimal_digits by (auto simp: CanonicalIpv4_def dot_or_digit_def list_all_iff IsAsciiDigit_digit_char)

lemma ParseIpv4_None: "c \<in> set s \<Longrightarrow> \<not> dot_or_digit c \<Longrightarrow> ParseIpv4 s = None"
  using CanonicalIpv4_chars ParseIpv4_exact by (cases "ParseIpv4 s") (auto simp: list_all_iff)

lemma CanonicalIpv4_length: "length (CanonicalIpv4 os) \<le> 15"
proof -
  have "length (decimal (unat (x :: u8))) \<le> 3" for x
    using unsigned_less [of x, where 'a = nat] by (intro decimal_length) simp_all
  from this [of "os ! 0"] this [of "os ! 1"] this [of "os ! 2"] this [of "os ! 3"]
  show ?thesis by (simp add: CanonicalIpv4_def)
qed

section \<open>Host names\<close>

definition dns_label :: "string \<Rightarrow> bool" where
  "dns_label l \<longleftrightarrow> l \<noteq> [] \<and> length l \<le> 63 \<and> hd l \<noteq> CHR ''-'' \<and> last l \<noteq> CHR ''-'' \<and>
     list_all (\<lambda>c. IsAsciiAlnum c \<or> c = CHR ''-'') l"

definition dns_name :: "string \<Rightarrow> bool" where
  "dns_name h \<longleftrightarrow> h \<noteq> [] \<and> length h \<le> 253 \<and> list_all dns_label (split_on CHR ''.'' h)"

text \<open>A label that old address parsers read as a number.\<close>

definition numeric_label :: "string \<Rightarrow> bool" where
  "numeric_label l \<longleftrightarrow> l \<noteq> [] \<and> list_all IsAsciiDigit l \<or> hexadecimal_label l"

lemma dot_piece:
  assumes "find_char CHR ''.'' s = Some i"
  shows "split_on CHR ''.'' s = take i s # split_on CHR ''.'' (drop (i + 1) s)"
    "last s = (if drop (i + 1) s = [] then CHR ''.'' else last (drop (i + 1) s))"
proof -
  obtain rest where rest: "drop (i + 1) s = rest" "s = take i s @ CHR ''.'' # rest" "CHR ''.'' \<notin> set (take i s)"
    using find_char_Some [OF assms] by blast
  show "split_on CHR ''.'' s = take i s # split_on CHR ''.'' (drop (i + 1) s)"
    unfolding rest(1) using split_on_sep [OF rest(3), of rest] rest(2) by metis
  show "last s = (if drop (i + 1) s = [] then CHR ''.'' else last (drop (i + 1) s))"
    unfolding rest(1) using last_appendR [of "CHR ''.'' # rest" "take i s"] rest(2) by (metis last.simps list.discI)
qed

lemma label_checks:
  "(if label = [] \<or> length label > 63 \<or> hd label = CHR ''-'' \<or> last label = CHR ''-'' then False
    else if list_ex (\<lambda>c. \<not> IsAsciiAlnum c \<and> c \<noteq> CHR ''-'') label then False else b) \<longleftrightarrow> dns_label label \<and> b"
  by (auto simp: dns_label_def list_ex_iff list_all_iff)

lemma labels_ok_unfold:
  "labels_ok s = (if s = [] then True
     else let stop = (case find_char CHR ''.'' s of None \<Rightarrow> length s | Some i \<Rightarrow> i)
       in dns_label (take stop s) \<and> labels_ok (drop (stop + 1) s))"
  by (subst labels_ok.simps) (simp only: Let_def label_checks)

lemma labels_ok_exact:
  "s \<noteq> [] \<Longrightarrow> last s \<noteq> CHR ''.'' \<Longrightarrow> labels_ok s \<longleftrightarrow> list_all dns_label (split_on CHR ''.'' s)"
proof (induction s rule: measure_induct_rule [of length])
  case (less s)
  show ?case
  proof (cases "find_char CHR ''.'' s")
    case None
    then have "labels_ok s \<longleftrightarrow> dns_label s"
      using less.prems by (simp add: labels_ok_unfold [of s] labels_ok_unfold [of "[]"] Let_def None)
    then show ?thesis using None by (simp add: split_on_none)
  next
    case (Some i)
    have "labels_ok s \<longleftrightarrow> dns_label (take i s) \<and> labels_ok (drop (i + 1) s)"
      using less.prems by (simp add: labels_ok_unfold [of s] Let_def Some)
    moreover have "drop (i + 1) s \<noteq> []" "last (drop (i + 1) s) \<noteq> CHR ''.''"
      using dot_piece(2) [OF Some] less.prems(2) by metis+
    moreover have "labels_ok (drop (i + 1) s) \<longleftrightarrow> list_all dns_label (split_on CHR ''.'' (drop (i + 1) s))"
      using find_char_Some [OF Some] calculation(2,3) by (intro less.IH) auto
    ultimately show ?thesis unfolding dot_piece(1) [OF Some] by auto
  qed
qed

lemma numeric_labels_exact:
  "numeric_labels s \<longleftrightarrow> s \<noteq> [] \<and> last s \<noteq> CHR ''.'' \<and> list_all numeric_label (split_on CHR ''.'' s)"
proof (induction s rule: measure_induct_rule [of length])
  case (less s)
  show ?case
  proof (cases "s = []")
    case True
    then show ?thesis by (simp add: numeric_labels.simps)
  next
    case nonempty: False
    show ?thesis
    proof (cases "find_char CHR ''.'' s")
      case None
      then have no_dot: "CHR ''.'' \<notin> set s" by simp
      then have "last s \<noteq> CHR ''.''" using nonempty by (metis last_in_set)
      then show ?thesis using nonempty split_on_none [OF no_dot]
        by (simp add: numeric_labels.simps [of s] Let_def None numeric_label_def)
    next
      case (Some i)
      have "numeric_labels s \<longleftrightarrow> numeric_label (take i s) \<and> numeric_labels (drop (i + 1) s)"
        using nonempty by (auto simp: numeric_labels.simps [of s] Let_def Some numeric_label_def)
      moreover have "numeric_labels (drop (i + 1) s) \<longleftrightarrow> drop (i + 1) s \<noteq> [] \<and> last (drop (i + 1) s) \<noteq> CHR ''.'' \<and>
          list_all numeric_label (split_on CHR ''.'' (drop (i + 1) s))"
        using find_char_Some [OF Some] by (intro less.IH) auto
      ultimately show ?thesis unfolding dot_piece [OF Some] using nonempty by auto
    qed
  qed
qed

lemma empty_label_last: "s \<noteq> [] \<Longrightarrow> last s = d \<Longrightarrow> [] \<in> set (tl (split_on d s))"
proof (induction s)
  case (Cons c s)
  then show ?case by (cases "s = []") (auto dest: list.set_sel(2) [rotated])
qed simp

lemma empty_label_inside: "contains_text [d, d] s \<Longrightarrow> [] \<in> set (tl (split_on d s))"
proof (induction s)
  case (Cons c s)
  show ?case
  proof (cases "contains_text [d, d] s")
    case True
    then show ?thesis using Cons.IH by (auto dest: list.set_sel(2) [rotated])
  next
    case False
    then obtain t where "c = d" "s = d # t" using Cons.prems by (cases s) auto
    then show ?thesis by simp
  qed
qed simp

lemma CanonicalHostname_exact:
  "CanonicalHostname input = (if dns_name (strip_dot input) then map AsciiLower (strip_dot input) else [])"
proof -
  let ?v = "strip_dot input"
  have labels: "list_all dns_label (split_on CHR ''.'' ?v) \<Longrightarrow> [] \<notin> set (split_on CHR ''.'' ?v)"
    by (auto simp: dns_label_def list_all_iff)
  have tl: "x \<in> set (tl (split_on CHR ''.'' ?v)) \<Longrightarrow> x \<in> set (split_on CHR ''.'' ?v)" for x
    by (rule list.set_sel(2)) simp
  have "hd ?v \<noteq> CHR ''.''" if "dns_name ?v"
    using that labels by (cases ?v) (auto simp: dns_name_def split: if_splits)
  moreover have "last ?v \<noteq> CHR ''.''" "\<not> contains_text ''..'' ?v" if "dns_name ?v"
    using that labels tl empty_label_last [of ?v] empty_label_inside [of "CHR ''.''" ?v] by (auto simp: dns_name_def)
  ultimately show ?thesis using labels_ok_exact [of ?v]
    by (auto simp: CanonicalHostname_def Let_def dns_name_def)
qed

lemma pieces_chars: "l \<in> set (split_on d s) \<Longrightarrow> set l \<subseteq> set s - {d}"
proof (induction s arbitrary: l)
  case (Cons c s)
  have "set (hd (split_on d s)) \<subseteq> set s - {d}" by (rule Cons.IH) simp
  moreover have "x \<in> set (tl (split_on d s)) \<Longrightarrow> set x \<subseteq> set s - {d}" for x
    using Cons.IH list.set_sel(2) [of "split_on d s"] by simp
  moreover have "l = [] \<or> l \<in> set (split_on d s) \<or> c \<noteq> d \<and> (l = c # hd (split_on d s) \<or> l \<in> set (tl (split_on d s)))"
    using Cons.prems by (auto split: if_splits)
  ultimately show ?case using Cons.IH [of l] by auto
qed simp

lemma chars_of_pieces: "c \<in> set s \<Longrightarrow> c = d \<or> (\<exists>l \<in> set (split_on d s). c \<in> set l)"
proof (induction s)
  case (Cons b s)
  show ?case
  proof (cases "c = b \<or> c = d")
    case True
    then show ?thesis by auto
  next
    case False
    then obtain l where "l \<in> set (split_on d s)" "c \<in> set l" using Cons by auto
    then show ?thesis by (cases "split_on d s") auto
  qed
qed simp

subsection \<open>Lower case\<close>

lemma code_AsciiLower: "code (AsciiLower c) = (if 65 \<le> code c \<and> code c \<le> 90 then code c + 32 else code c)"
  by (simp add: AsciiLower_def code_char_of)

lemma char_code:
  "c = CHR ''.'' \<longleftrightarrow> code c = 46" "c = CHR ''-'' \<longleftrightarrow> code c = 45" "c = CHR ''0'' \<longleftrightarrow> code c = 48"
  "c = CHR ''x'' \<longleftrightarrow> code c = 120" "c = CHR ''X'' \<longleftrightarrow> code c = 88"
  by (simp_all add: code_inject [symmetric]) (simp_all add: code_def)

lemma lower_chars:
  "AsciiLower c = CHR ''.'' \<longleftrightarrow> c = CHR ''.''" "AsciiLower c = CHR ''-'' \<longleftrightarrow> c = CHR ''-''"
  "AsciiLower c = CHR ''0'' \<longleftrightarrow> c = CHR ''0''"
  "AsciiLower c = CHR ''x'' \<or> AsciiLower c = CHR ''X'' \<longleftrightarrow> c = CHR ''x'' \<or> c = CHR ''X''"
  "IsAsciiAlnum (AsciiLower c) = IsAsciiAlnum c" "IsAsciiDigit (AsciiLower c) = IsAsciiDigit c"
  "AsciiLower (AsciiLower c) = AsciiLower c"
  by (auto simp: char_code code_AsciiLower IsAsciiAlnum_def IsAsciiAlpha_def IsAsciiDigit_def AsciiLower_def code_char_of)

lemma split_lower: "split_on CHR ''.'' (map AsciiLower s) = map (map AsciiLower) (split_on CHR ''.'' s)"
  by (induction s) (auto simp: lower_chars hd_map map_tl)

lemma dns_label_lower: "dns_label (map AsciiLower l) = dns_label l"
  by (cases l) (auto simp: dns_label_def lower_chars list_all_iff last_map)

lemma dns_name_lower: "dns_name (map AsciiLower s) = dns_name s"
  by (simp add: dns_name_def split_lower list_all_iff dns_label_lower)

lemma numeric_label_lower: "numeric_label (map AsciiLower l) = numeric_label l"
proof -
  have hex: "IsAsciiDigit (AsciiLower c) \<or> 97 \<le> code (AsciiLower c) \<and> code (AsciiLower c) \<le> 102 \<or>
      65 \<le> code (AsciiLower c) \<and> code (AsciiLower c) \<le> 70 \<longleftrightarrow>
      IsAsciiDigit c \<or> 97 \<le> code c \<and> code c \<le> 102 \<or> 65 \<le> code c \<and> code c \<le> 70" for c
    by (auto simp: IsAsciiDigit_def code_AsciiLower)
  have "hexadecimal_label (map AsciiLower l) = hexadecimal_label l"
    by (cases l; cases "tl l") (simp_all add: hexadecimal_label_def lower_chars list_all_iff hex [unfolded lower_chars])
  then show ?thesis by (simp add: numeric_label_def lower_chars list_all_iff)
qed

lemma numeric_labels_lower: "numeric_labels (map AsciiLower s) = numeric_labels s"
  by (cases "s = []") (simp_all add: numeric_labels_exact split_lower list_all_iff numeric_label_lower last_map lower_chars)

end
