(* ===== verification/Endpoint_Laws.thy ===== *)
theory Endpoint_Laws
  imports Endpoint_Text
begin

text \<open>
  What the address policy promises: the addresses it returns are exactly the canonical ones, an
  authority survives being written and parsed again, and the identity of an endpoint determines it.
  \<open>rfc4291_reader\<close> states what is relied on of the platform's \<open>inet_pton\<close>; \<open>reference_pton\<close> is a
  function that has these laws.
\<close>

section \<open>The system's reader of IPv6 text\<close>

definition bytes_of_words :: "u16 list \<Rightarrow> bytes" where
  "bytes_of_words ws = concat (map (\<lambda>w. [ucast (drop_bit 8 w), ucast w]) ws)"

text \<open>
  What is relied on of \<open>inet_pton\<close> for \<open>AF_INET6\<close>: it returns sixteen bytes, only for a text with a
  colon, and it reads every text of the colon notation as the address it denotes.
\<close>

definition rfc4291_reader :: "(string \<Rightarrow> bytes option) \<Rightarrow> bool" where
  "rfc4291_reader pton \<longleftrightarrow>
     (\<forall>s a. pton s = Some a \<longrightarrow> length a = 16 \<and> CHR '':'' \<in> set s) \<and>
     (\<forall>s ws. read_ipv6 s = Some ws \<longrightarrow> pton s = Some (bytes_of_words ws))"

lemma word_halves:
  "ucast (drop_bit 8 (push_bit 8 (ucast (h :: u8) :: u16) OR ucast (l :: u8)) :: u16) = h"
  "ucast (push_bit 8 (ucast (h :: u8) :: u16) OR ucast (l :: u8)) = l"
  by (rule bit_word_eqI; auto simp: bit_simps dest: bit_imp_le_length)+

lemma bytes_words: "length a = 16 \<Longrightarrow> bytes_of_words (Ipv6Words a) = a"
proof -
  assume "length a = 16"
  then have "a = map ((!) a) [0..<16]" by (metis map_nth)
  moreover have upts: "[0..<8] = [0, 1, 2, 3, 4, 5, 6, 7]" "[0..<16] = [0, 1, 2, 3, 4, 5, 6, 7, 8, 9, 10, 11, 12, 13, 14, 15]"
    by (simp_all add: upt_rec)
  have "bytes_of_words (Ipv6Words a) = map ((!) a) [0..<16]"
    unfolding bytes_of_words_def Ipv6Words_def upts list.map concat.simps word_halves by simp
  ultimately show ?thesis by simp
qed

lemma pton_length: "rfc4291_reader pton \<Longrightarrow> pton s = Some a \<Longrightarrow> length a = 16"
  by (auto simp: rfc4291_reader_def)

lemma pton_colon: "rfc4291_reader pton \<Longrightarrow> CHR '':'' \<notin> set s \<Longrightarrow> pton s = None"
  by (cases "pton s") (auto simp: rfc4291_reader_def)

lemma pton_canonical: "rfc4291_reader pton \<Longrightarrow> length a = 16 \<Longrightarrow> pton (CanonicalIpv6 a) = Some a"
  using read_canonical [of a] by (simp add: rfc4291_reader_def bytes_words)

text \<open>A function with these laws.\<close>

definition reference_pton :: "string \<Rightarrow> bytes option" where
  "reference_pton s = map_option bytes_of_words (read_ipv6 s)"

lemma cut_gap_colon: "cut_gap s = Some p \<Longrightarrow> CHR '':'' \<in> set s"
  by (induction s arbitrary: p rule: cut_gap.induct) (auto split: if_splits)

lemma read_ipv6_shape: "read_ipv6 s = Some ws \<Longrightarrow> length ws = 8 \<and> CHR '':'' \<in> set s"
proof (cases "cut_gap s")
  case None
  assume read: "read_ipv6 s = Some ws"
  then have eight: "read_groups s = Some ws" "length ws = 8"
    using None by (auto simp: read_ipv6_def split: option.splits if_splits)
  then have "length (split_on CHR '':'' s) = 8" using those_length by (fastforce simp: read_groups_def split: if_splits)
  then have "CHR '':'' \<in> set s" using split_on_none [of "CHR '':''" s] by fastforce
  then show ?thesis using eight by simp
next
  case (Some p)
  assume "read_ipv6 s = Some ws"
  then have "length ws = 8" using Some by (auto simp: read_ipv6_def split: option.splits if_splits prod.splits)
  then show ?thesis using cut_gap_colon [OF Some] by simp
qed

lemma length_bytes_of_words: "length (bytes_of_words ws) = 2 * length ws"
  by (induction ws) (simp_all add: bytes_of_words_def)

lemma reference_pton_reads: "rfc4291_reader reference_pton"
  using read_ipv6_shape by (fastforce simp: rfc4291_reader_def reference_pton_def length_bytes_of_words)

subsection \<open>Characters of a canonical text\<close>

lemma CanonicalIpv6_chars: "c \<in> set (CanonicalIpv6 a) \<Longrightarrow> c = CHR '':'' \<or> hex_digit_char c"
  using CanonicalIpv6_form [of a] by (auto dest: hexes_chars)

lemma CanonicalIpv6_length: "length (CanonicalIpv6 a) \<le> 42"
  using CanonicalIpv6_form [of a]
proof (elim disjE exE conjE)
  fix s n
  assume run: "shortened_run (Ipv6Words a) s n" and form:
    "CanonicalIpv6 a = hexes (take s (Ipv6Words a)) @ ''::'' @ hexes (drop (s + n) (Ipv6Words a))"
  have "s + n \<le> 8" "2 \<le> n" using run by (simp_all add: shortened_run_def zeros_def)
  then show ?thesis
    using length_hexes [of "take s (Ipv6Words a)"] length_hexes [of "drop (s + n) (Ipv6Words a)"]
    by (simp add: form)
next
  assume "CanonicalIpv6 a = hexes (Ipv6Words a)"
  then show ?thesis using length_hexes [of "Ipv6Words a"] by simp
qed

text \<open>The characters an address is written with, and the texts made of them.\<close>

definition plain_char :: "char \<Rightarrow> bool" where
  "plain_char c \<longleftrightarrow> IsAsciiAlnum c \<or> c = CHR ''.'' \<or> c = CHR ''-'' \<or> c = CHR '':'' \<or> c = CHR ''_''"

definition plain_text :: "string \<Rightarrow> bool" where
  "plain_text s \<longleftrightarrow> list_all plain_char s"

lemma plain_text_append [simp]: "plain_text (s @ t) \<longleftrightarrow> plain_text s \<and> plain_text t"
  by (simp add: plain_text_def)

lemma plain_char_code: "plain_char c \<longleftrightarrow> 48 \<le> code c \<and> code c \<le> 58 \<or> 65 \<le> code c \<and> code c \<le> 90 \<or>
    97 \<le> code c \<and> code c \<le> 122 \<or> code c = 46 \<or> code c = 45 \<or> code c = 95"
proof -
  have "c = CHR '':'' \<longleftrightarrow> code c = 58" "c = CHR ''_'' \<longleftrightarrow> code c = 95"
    by (simp_all add: code_inject [symmetric]) (simp_all add: code_def)
  then show ?thesis
    by (auto simp: plain_char_def IsAsciiAlnum_def IsAsciiAlpha_def IsAsciiDigit_def char_code)
qed

lemma plain_excludes:
  assumes "plain_text s"
  shows "CHR ''%'' \<notin> set s" "CHR ''['' \<notin> set s" "CHR '']'' \<notin> set s" "CHR ''/'' \<notin> set s" "CHR ''@'' \<notin> set s"
    "CHR ''?'' \<notin> set s" "CHR ''#'' \<notin> set s" "char_of (92 :: nat) \<notin> set s"
  using assms by (auto simp: plain_text_def list_all_iff plain_char_code) (auto simp: code_def)

lemma contains_text_slash: "contains_text ''://'' s \<Longrightarrow> CHR ''/'' \<in> set s"
proof (induction s)
  case (Cons c s)
  show ?case
  proof (cases "contains_text ''://'' s")
    case False
    then have "take (length ''://'') (c # s) = ''://''" using Cons.prems by (simp only: contains_text.simps simp_thms)
    then have "CHR ''/'' \<in> set (take (length ''://'') (c # s))" by (simp only:) simp
    then show ?thesis by (rule in_set_takeD)
  qed (use Cons.IH in simp)
qed simp

lemma plain_valid:
  assumes "list_all (\<lambda>c. plain_char c \<or> c = CHR ''%'' \<or> c = CHR ''['' \<or> c = CHR '']'') s"
  shows "\<not> InvalidEndpointCharacters s"
proof -
  have codes: "c = CHR ''%'' \<Longrightarrow> code c = 37" "c = CHR ''['' \<Longrightarrow> code c = 91" "c = CHR '']'' \<Longrightarrow> code c = 93" for c
    by (simp_all add: code_def)
  have range: "33 \<le> code c \<and> code c \<le> 126 \<and> code c \<noteq> 47 \<and> code c \<noteq> 92 \<and> code c \<noteq> 64 \<and> code c \<noteq> 63 \<and> code c \<noteq> 35"
    if "c \<in> set s" for c
    using assms that codes [of c] by (auto simp: list_all_iff plain_char_code)
  have "CHR ''/'' \<notin> set s" "char_of (92 :: nat) \<notin> set s" "CHR ''@'' \<notin> set s" "CHR ''?'' \<notin> set s" "CHR ''#'' \<notin> set s"
    using range [of "CHR ''/''"] range [of "char_of (92 :: nat)"] range [of "CHR ''@''"] range [of "CHR ''?''"]
      range [of "CHR ''#''"] by (auto simp: code_def)
  moreover from this have "\<not> contains_text ''://'' s" using contains_text_slash by blast
  ultimately show ?thesis using range by (auto simp: InvalidEndpointCharacters_def list_ex_iff not_less)
qed

lemma hex_plain: "hex_digit_char c \<Longrightarrow> plain_char c"
  by (auto simp: hex_digit_char_def plain_char_code)

lemma digits_plain: "list_all digit_char s \<Longrightarrow> plain_text s"
  by (auto simp: plain_text_def list_all_iff digit_char_def plain_char_code)

lemma plain_ipv6: "plain_text (CanonicalIpv6 a)"
  by (auto simp: plain_text_def list_all_iff plain_char_def [of "CHR '':''"] dest!: CanonicalIpv6_chars intro: hex_plain)

lemma plain_ipv4: "plain_text (CanonicalIpv4 os)"
  using CanonicalIpv4_chars [of os]
  by (auto simp: plain_text_def list_all_iff dot_or_digit_def plain_char_def IsAsciiAlnum_def)

lemma dns_chars: "dns_name h \<Longrightarrow> c \<in> set h \<Longrightarrow> IsAsciiAlnum c \<or> c = CHR ''-'' \<or> c = CHR ''.''"
  using chars_of_pieces [of c h "CHR ''.''"] by (auto simp: dns_name_def dns_label_def list_all_iff)

lemma plain_dns: "dns_name h \<Longrightarrow> plain_text h"
  using dns_chars by (auto simp: plain_text_def list_all_iff plain_char_def)

lemma dns_no_colon: "dns_name h \<Longrightarrow> CHR '':'' \<notin> set h"
  using dns_chars [of h "CHR '':''"] by (auto simp: IsAsciiAlnum_def IsAsciiAlpha_def IsAsciiDigit_def code_def)

section \<open>Canonical addresses\<close>

definition interface_name :: "string \<Rightarrow> bool" where
  "interface_name s \<longleftrightarrow> s \<noteq> [] \<and> length s \<le> 32 \<and> IsAsciiAlpha (hd s) \<and>
     list_all (\<lambda>c. IsAsciiAlnum c \<or> c = CHR ''_'' \<or> c = CHR ''.'' \<or> c = CHR ''-'') s"

text \<open>The scopes an address may have: an interface name, or at run time a 32-bit number.\<close>

inductive scope_text :: "parse_mode \<Rightarrow> scope_kind \<Rightarrow> string \<Rightarrow> bool" for m where
  interface: "interface_name s \<Longrightarrow> scope_text m Interface s"
| numeric: "m = Runtime \<Longrightarrow> 1 \<le> n \<Longrightarrow> n \<le> 0xffffffff \<Longrightarrow> scope_text m Numeric (decimal n)"

definition unported :: "string \<Rightarrow> address_family \<Rightarrow> string \<Rightarrow> scope_kind \<Rightarrow> address" where
  "unported host family scope kind = \<lparr>ad_version = kAddressVersion, ad_canonicalHost = host,
     ad_family = family, ad_port = 0, ad_scope = scope, ad_scopeKind = kind\<rparr>"

text \<open>
  The addresses there are: a connectable IPv4 address in dotted form, a connectable IPv6 address in the
  form of RFC 5952 with a scope exactly when it is link-local, and a lower-case host name that no
  address parser takes for a number.
\<close>

inductive canonical_address :: "parse_mode \<Rightarrow> address \<Rightarrow> bool" for m where
  ipv4: "length os = 4 \<Longrightarrow> \<not> Ipv4NotConnectable os \<Longrightarrow>
    canonical_address m (unported (CanonicalIpv4 os) Ipv4 [] NoScope)"
| ipv6: "length a = 16 \<Longrightarrow> \<not> ipv6_not_connectable a \<Longrightarrow> \<not> IN6_IS_ADDR_LINKLOCAL a \<Longrightarrow>
    canonical_address m (unported (CanonicalIpv6 a) Ipv6 [] NoScope)"
| link_local: "length a = 16 \<Longrightarrow> \<not> ipv6_not_connectable a \<Longrightarrow> IN6_IS_ADDR_LINKLOCAL a \<Longrightarrow>
    scope_text m kind scope \<Longrightarrow> canonical_address m (unported (CanonicalIpv6 a) Ipv6 scope kind)"
| hostname: "dns_name h \<Longrightarrow> map AsciiLower h = h \<Longrightarrow> \<not> list_all numeric_label (split_on CHR ''.'' h) \<Longrightarrow>
    canonical_address m (unported h Hostname [] NoScope)"

subsection \<open>Scopes\<close>

lemma alpha_not_digit: "IsAsciiAlpha c \<Longrightarrow> \<not> IsAsciiDigit c"
  by (auto simp: IsAsciiAlpha_def IsAsciiDigit_def)

lemma ParseScope_text:
  assumes "ParseScope v m = (k, c)" "k \<noteq> NoScope"
  shows "scope_text m k c"
proof (cases "v \<noteq> [] \<and> list_all IsAsciiDigit v")
  case True
  then show ?thesis using assms
    by (auto simp: ParseScope_def split: if_splits option.splits intro: parse_mode.exhaust scope_text.numeric)
next
  case False
  have "interface_name v \<and> k = Interface \<and> c = v"
    using assms unfolding ParseScope_def if_not_P [OF False]
    by (auto simp: interface_name_def list_ex_iff list_all_iff split: if_splits)
  then show ?thesis by (auto intro: scope_text.interface)
qed

lemma ParseScope_fixpoint: "scope_text m k c \<Longrightarrow> ParseScope c m = (k, c) \<and> k \<noteq> NoScope \<and> c \<noteq> [] \<and> length c \<le> 32"
proof (induction rule: scope_text.induct)
  case (interface s)
  then have "\<not> (s \<noteq> [] \<and> list_all IsAsciiDigit s)"
    using alpha_not_digit by (cases s) (auto simp: interface_name_def)
  then show ?case using interface
    by (auto simp: ParseScope_def interface_name_def list_ex_iff list_all_iff)
next
  case (numeric n)
  have "length (decimal n) \<le> 10" using numeric by (intro decimal_length) simp_all
  moreover have "list_all IsAsciiDigit (decimal n)" using decimal_digits by (simp add: IsAsciiDigit_digit_char)
  ultimately show ?case using numeric by (simp add: ParseScope_def digits_loop_decimal)
qed

lemma scope_text_plain: "scope_text m k c \<Longrightarrow> plain_text c"
proof (induction rule: scope_text.induct)
  case (numeric n)
  show ?case by (rule digits_plain [OF decimal_digits])
qed (auto simp: interface_name_def plain_text_def list_all_iff plain_char_def)

subsection \<open>What is parsed is canonical\<close>

lemma Failed_not_ok [simp]: "\<not> pr_ok (Failed e)"
  by (simp add: Failed_def)

lemma Succeeded_simps [simp]:
  "pr_ok (Succeeded h f s k)" "pr_endpoint (Succeeded h f s k) = unported h f s k" "pr_error (Succeeded h f s k) = NoError"
  by (simp_all add: Succeeded_def unported_def)

lemma not_legacy_hostname:
  assumes "\<not> LegacyNumericHost host" "dns_name (strip_dot host)"
  shows "canonical_address m (unported (map AsciiLower (strip_dot host)) Hostname [] NoScope)"
proof (rule canonical_address.hostname)
  let ?h = "map AsciiLower (strip_dot host)"
  have "last (strip_dot host) \<noteq> CHR ''.''"
    using assms(2) empty_label_last [of "strip_dot host" "CHR ''.''"] list.set_sel(2) [of "split_on CHR ''.'' (strip_dot host)"]
    by (auto simp: dns_name_def dns_label_def list_all_iff)
  then have "\<not> numeric_labels ?h \<longleftrightarrow> \<not> list_all numeric_label (split_on CHR ''.'' ?h)"
    using assms(2) by (auto simp: numeric_labels_exact dns_name_def last_map lower_chars)
  then show "\<not> list_all numeric_label (split_on CHR ''.'' ?h)"
    using assms(1) by (simp add: LegacyNumericHost_def numeric_labels_lower)
qed (use assms dns_name_lower in \<open>simp_all add: lower_chars comp_def\<close>)

lemma classify_canonical:
  assumes pton: "rfc4291_reader pton" and scope: "scope = [] \<and> kind = NoScope \<or> scope_text m kind scope"
    and ok: "pr_ok (classify_host pton host scope kind b)"
  shows "canonical_address m (pr_endpoint (classify_host pton host scope kind b)) \<and>
    pr_error (classify_host pton host scope kind b) = NoError"
proof (cases "ParseIpv4 host")
  case (Some os)
  then show ?thesis using ok ParseIpv4_exact [of host os]
    by (auto simp: classify_host_def split: if_splits intro: canonical_address.ipv4)
next
  case no4: None
  show ?thesis
  proof (cases "pton host")
    case (Some a)
    have "scope_text m kind scope" if "scope \<noteq> []" using scope that by simp
    moreover have "kind = NoScope" if "scope = []" using scope that ParseScope_fixpoint by blast
    ultimately show ?thesis using ok no4 Some pton_length [OF pton Some]
      by (cases "scope = []") (auto simp: classify_host_def finish_ipv6_def split: if_splits
        intro: canonical_address.ipv6 canonical_address.link_local)
  next
    case None
    then show ?thesis using ok no4 not_legacy_hostname [of host m]
      by (auto simp: classify_host_def finish_hostname_def CanonicalHostname_exact Let_def split: if_splits)
  qed
qed

lemma scoped_canonical:
  assumes pton: "rfc4291_reader pton" and ok: "pr_ok (scoped_host pton m host b)"
  shows "canonical_address m (pr_endpoint (scoped_host pton m host b)) \<and> pr_error (scoped_host pton m host b) = NoError"
proof (cases "find_char CHR ''%'' host")
  case None
  then show ?thesis using ok classify_canonical [OF pton, of "[]" NoScope m host b] by (simp add: scoped_host_def None)
next
  case (Some i)
  obtain k c where kc: "ParseScope (drop (i + 1) host) m = (k, c)" by (cases "ParseScope (drop (i + 1) host) m")
  have "k \<noteq> NoScope" "scoped_host pton m host b = classify_host pton (take i host) c k b"
    using ok Some kc by (auto simp: scoped_host_def simp del: find_char_None split: if_splits)
  then show ?thesis using ok classify_canonical [OF pton, of c k m "take i host" b] ParseScope_text [OF kc] by simp
qed

lemma ParseHost_canonical:
  "rfc4291_reader pton \<Longrightarrow> pr_ok (ParseHost pton s m) \<Longrightarrow>
     canonical_address m (pr_endpoint (ParseHost pton s m)) \<and> pr_error (ParseHost pton s m) = NoError"
  using scoped_canonical [of pton m s False] scoped_canonical [of pton m "take (length s - 2) (drop 1 s)" True]
  by (auto simp: ParseHost_def simp del: find_char_None split: if_splits)

subsection \<open>What is canonical is parsed to itself\<close>

definition parsed :: "address \<Rightarrow> parse_result" where
  "parsed e = \<lparr>pr_ok = True, pr_endpoint = e, pr_error = NoError\<rparr>"

lemma Succeeded_parsed: "Succeeded h f s k = parsed (unported h f s k)"
  by (simp add: Succeeded_def parsed_def unported_def)

lemma with_port_parsed [simp]: "with_port p (parsed e) = parsed (e\<lparr>ad_port := p\<rparr>)"
  by (simp add: with_port_def parsed_def)

lemma no_brackets:
  assumes "list_all (\<lambda>c. plain_char c \<or> c = CHR ''%'') s"
  shows "CHR ''['' \<notin> set s" "CHR '']'' \<notin> set s"
proof -
  have "c \<noteq> CHR ''['' \<and> c \<noteq> CHR '']''" if "c \<in> set s" for c
    using assms that plain_excludes(2,3) [of "[c]"] by (auto simp: list_all_iff plain_text_def)
  then show "CHR ''['' \<notin> set s" "CHR '']'' \<notin> set s" by blast+
qed

text \<open>A text of plain characters, or two of them about a percent sign, reaches the classification.\<close>

lemma ParseHost_plain:
  assumes "s \<noteq> []" "length s \<le> 510" "list_all (\<lambda>c. plain_char c \<or> c = CHR ''%'') s"
  shows "ParseHost pton s m = scoped_host pton m s False"
    "ParseHost pton (''['' @ s @ '']'') m = scoped_host pton m s True"
proof -
  have brackets: "CHR ''['' \<notin> set s" "CHR '']'' \<notin> set s" "hd s \<noteq> CHR ''[''"
    using no_brackets [OF assms(3)] assms(1) by (cases s; auto)+
  have "\<not> InvalidEndpointCharacters s" "\<not> InvalidEndpointCharacters (''['' @ s @ '']'')"
    using assms(3) by (intro plain_valid; auto simp: list_all_iff)+
  then show "ParseHost pton s m = scoped_host pton m s False"
    "ParseHost pton (''['' @ s @ '']'') m = scoped_host pton m s True"
    using assms brackets find_char_append [of "CHR '']''" "CHR ''['' # s" "[]"]
    by (auto simp: ParseHost_def kMaxInputLength_def Suc_le_eq)
qed

lemma scoped_plain: "plain_text h \<Longrightarrow> scoped_host pton m h b = classify_host pton h [] NoScope b"
  unfolding scoped_host_def find_char_None [THEN iffD2, OF plain_excludes(1)] by simp

lemma scoped_scope:
  assumes "plain_text h" "scope_text m k c"
  shows "scoped_host pton m (h @ ''%'' @ c) b = classify_host pton h c k b"
proof -
  have "find_char CHR ''%'' (h @ ''%'' @ c) = Some (length h)"
    using find_char_append [of "CHR ''%''" h c] plain_excludes(1) [OF assms(1)] by simp
  moreover have "find_char CHR ''%'' c = None"
    using plain_excludes(1) [OF scope_text_plain [OF assms(2)]] by simp
  ultimately show ?thesis using ParseScope_fixpoint [OF assms(2)] by (simp add: scoped_host_def)
qed

lemma classify_ipv4:
  "length os = 4 \<Longrightarrow> \<not> Ipv4NotConnectable os \<Longrightarrow>
     classify_host pton (CanonicalIpv4 os) [] NoScope False = parsed (unported (CanonicalIpv4 os) Ipv4 [] NoScope)"
  using ParseIpv4_exact [of "CanonicalIpv4 os" os] by (simp add: classify_host_def Succeeded_parsed)

lemma classify_ipv6:
  assumes "rfc4291_reader pton" "length a = 16" "\<not> ipv6_not_connectable a" "IN6_IS_ADDR_LINKLOCAL a \<longleftrightarrow> scope \<noteq> []"
  shows "classify_host pton (CanonicalIpv6 a) scope kind b = parsed (unported (CanonicalIpv6 a) Ipv6 scope kind)"
proof -
  have pton: "pton (CanonicalIpv6 a) = Some a" using pton_canonical assms by simp
  then have "CHR '':'' \<in> set (CanonicalIpv6 a)" using assms(1) by (simp add: rfc4291_reader_def)
  moreover have "\<not> dot_or_digit CHR '':''" by (simp add: dot_or_digit_def IsAsciiDigit_def code_def)
  ultimately have "ParseIpv4 (CanonicalIpv6 a) = None" by (rule ParseIpv4_None)
  then show ?thesis using pton assms by (simp add: classify_host_def finish_ipv6_def Succeeded_parsed)
qed

text \<open>A canonical name ends in no dot, and no numeric form is one.\<close>

lemma dns_last: "dns_name h \<Longrightarrow> last h \<noteq> CHR ''.''"
  using empty_label_last [of h "CHR ''.''"] list.set_sel(2) [of "split_on CHR ''.'' h"]
  by (auto simp: dns_name_def dns_label_def list_all_iff)

lemma strip_dot_dns: "dns_name h \<Longrightarrow> strip_dot h = h"
  using dns_last by (simp add: strip_dot_def)

lemma dotted_digits_numeric:
  assumes "dns_name h" "list_all (\<lambda>c. c = CHR ''.'' \<or> IsAsciiDigit c) h"
  shows "list_all numeric_label (split_on CHR ''.'' h)"
  unfolding list_all_iff
proof
  fix l
  assume l: "l \<in> set (split_on CHR ''.'' h)"
  then have "l \<noteq> []" using assms(1) by (auto simp: dns_name_def dns_label_def list_all_iff)
  moreover have "list_all IsAsciiDigit l" using pieces_chars [OF l] assms(2) by (auto simp: list_all_iff)
  ultimately show "numeric_label l" by (simp add: numeric_label_def)
qed

lemma hostname_not_numeric:
  assumes "dns_name h" "\<not> list_all numeric_label (split_on CHR ''.'' h)"
  shows "ParseIpv4 h = None" "\<not> LegacyNumericHost h" "\<not> list_all (\<lambda>c. c = CHR ''.'' \<or> IsAsciiDigit c) h"
proof -
  show dots: "\<not> list_all (\<lambda>c. c = CHR ''.'' \<or> IsAsciiDigit c) h" using dotted_digits_numeric assms by blast
  then obtain c where "c \<in> set h" "\<not> dot_or_digit c" by (auto simp: list_all_iff dot_or_digit_def)
  then show "ParseIpv4 h = None" by (rule ParseIpv4_None)
  show "\<not> LegacyNumericHost h" using assms by (simp add: LegacyNumericHost_def strip_dot_dns numeric_labels_exact)
qed

lemma classify_hostname:
  assumes "rfc4291_reader pton" "dns_name h" "map AsciiLower h = h" "\<not> list_all numeric_label (split_on CHR ''.'' h)"
  shows "classify_host pton h [] NoScope False = parsed (unported h Hostname [] NoScope)"
proof -
  have "pton h = None" "CHR '':'' \<notin> set h" using pton_colon assms dns_no_colon by blast+
  moreover have "CanonicalHostname h = h" "h \<noteq> []" using assms by (auto simp: CanonicalHostname_exact strip_dot_dns dns_name_def)
  ultimately show ?thesis using hostname_not_numeric [OF assms(2,4)]
    by (simp add: classify_host_def finish_hostname_def Let_def Succeeded_parsed)
qed

lemma canonical_host_text:
  "canonical_address m e \<Longrightarrow> TransportHost e \<noteq> [] \<and> length (TransportHost e) \<le> 253 \<and>
     list_all (\<lambda>c. plain_char c \<or> c = CHR ''%'') (TransportHost e)"
proof (induction rule: canonical_address.induct)
  case (ipv4 os)
  then show ?case using CanonicalIpv4_chars [of os] CanonicalIpv4_length [of os] plain_ipv4 [of os]
    by (auto simp: TransportHost_def unported_def plain_text_def list_all_iff)
next
  case (ipv6 a)
  have "CanonicalIpv6 a \<noteq> []" using read_canonical [of a] by (auto simp: read_ipv6_def read_groups_def)
  then show ?case using CanonicalIpv6_length [of a] plain_ipv6 [of a]
    by (auto simp: TransportHost_def unported_def plain_text_def list_all_iff)
next
  case (link_local a kind scope)
  then show ?case
    using CanonicalIpv6_length [of a] plain_ipv6 [of a] scope_text_plain [OF link_local(4)] ParseScope_fixpoint [OF link_local(4)]
    by (auto simp: TransportHost_def unported_def plain_text_def list_all_iff)
next
  case (hostname h)
  then show ?case using plain_dns [of h] by (auto simp: TransportHost_def unported_def plain_text_def list_all_iff dns_name_def)
qed

lemma unported_simps [simp]:
  "TransportHost (unported h f s k) = (if f \<noteq> Ipv6 \<or> s = [] then h else h @ ''%'' @ s)"
  "ad_family (unported h f s k) = f"
  by (simp_all add: TransportHost_def unported_def)

lemma canonical_classified:
  assumes "rfc4291_reader pton" "canonical_address m e" "b \<longrightarrow> ad_family e = Ipv6"
  shows "scoped_host pton m (TransportHost e) b = parsed e"
  using assms(2,3)
proof (induction rule: canonical_address.induct)
  case (ipv4 os)
  then show ?case using plain_ipv4 classify_ipv4 by (simp add: scoped_plain)
next
  case (ipv6 a)
  then show ?case using plain_ipv6 classify_ipv6 [OF assms(1)] by (simp add: scoped_plain)
next
  case (link_local a kind scope)
  then have "scope \<noteq> []" using ParseScope_fixpoint by blast
  then show ?case using link_local plain_ipv6 classify_ipv6 [OF assms(1), of a scope kind b] scoped_scope [OF plain_ipv6 link_local(4)]
    by simp
next
  case (hostname h)
  then show ?case using plain_dns classify_hostname [OF assms(1)] by (simp add: scoped_plain)
qed

lemma canonical_parsed:
  assumes "rfc4291_reader pton" "canonical_address m e"
  shows "ParseHost pton (TransportHost e) m = parsed e"
    "ad_family e = Ipv6 \<Longrightarrow> ParseHost pton (''['' @ TransportHost e @ '']'') m = parsed e"
  using ParseHost_plain [of "TransportHost e" pton m] canonical_host_text [OF assms(2)] canonical_classified [OF assms]
  by simp_all

lemma ParseHost_parsed:
  "rfc4291_reader pton \<Longrightarrow> pr_ok (ParseHost pton s m) \<Longrightarrow>
     \<exists>e. ParseHost pton s m = parsed e \<and> canonical_address m e"
  using ParseHost_canonical [of pton s m] by (intro exI [of _ "pr_endpoint (ParseHost pton s m)"]) (simp add: parsed_def)

subsection \<open>Authorities\<close>

lemma ParsePort_decimal:
  assumes "p \<noteq> 0"
  shows "ParsePort (decimal (unat (p :: u16))) = p"
proof -
  have "unat p < 65536" using unsigned_less [of p, where 'a = nat] by simp
  moreover have "0 < unat p" using assms by (simp add: unat_gt_0)
  moreover have "length (decimal (unat p)) \<le> 5" using calculation(1) by (intro decimal_length) simp_all
  ultimately show ?thesis by (simp add: ParsePort_def digits_loop_decimal ValidPort_def)
qed

lemma canonical_port [simp]: "canonical_address m e \<Longrightarrow> ad_port e = 0"
  by (erule canonical_address.cases) (simp_all add: unported_def)

lemma TransportHost_port [simp]: "TransportHost (e\<lparr>ad_port := p\<rparr>) = TransportHost e"
  by (simp add: TransportHost_def)

lemma ParseAuthority_parsed:
  assumes "rfc4291_reader pton" "pr_ok (ParseAuthority pton s d m)"
  shows "\<exists>e p. ParseAuthority pton s d m = parsed (e\<lparr>ad_port := p\<rparr>) \<and> canonical_address m e \<and> p \<noteq> 0"
proof -
  have step: "\<exists>e. with_port p (ParseHost pton t m) = parsed (e\<lparr>ad_port := p\<rparr>) \<and> canonical_address m e"
    if "pr_ok (with_port p (ParseHost pton t m))" for p t
  proof -
    have "pr_ok (ParseHost pton t m)" using that by (simp add: with_port_def split: if_splits)
    then show ?thesis using ParseHost_parsed [OF assms(1)] by fastforce
  qed
  have "\<exists>p t. ParseAuthority pton s d m = with_port p (ParseHost pton t m) \<and> p \<noteq> 0"
    using assms(2) unfolding ParseAuthority_def Let_def
    by (auto simp del: find_char_None simp: ValidPort_def split: if_splits option.splits)
  then show ?thesis using step assms(2) by metis
qed

lemma plain_no_colon:
  assumes "canonical_address m e" "ad_family e \<noteq> Ipv6"
  shows "CHR '':'' \<notin> set (TransportHost e)"
  using assms
proof (induction rule: canonical_address.induct)
  case (ipv4 os)
  have "\<not> dot_or_digit CHR '':''" by (simp add: dot_or_digit_def IsAsciiDigit_def code_def)
  then show ?case using CanonicalIpv4_chars [of os] by (auto simp: list_all_iff)
next
  case (hostname h)
  then show ?case using dns_no_colon by simp
qed simp_all

lemma formatted_authority:
  assumes "rfc4291_reader pton" "canonical_address m e" "p \<noteq> 0" "ValidPort (unat d)"
  shows "ParseAuthority pton (FormatHostPort (e\<lparr>ad_port := p\<rparr>)) d m = parsed (e\<lparr>ad_port := p\<rparr>)"
proof -
  let ?h = "TransportHost e" and ?p = "decimal (unat p)"
  have host: "?h \<noteq> []" "length ?h \<le> 253" "list_all (\<lambda>c. plain_char c \<or> c = CHR ''%'') ?h"
    using canonical_host_text [OF assms(2)] by auto
  have "unat p < 65536" using unsigned_less [of p, where 'a = nat] by simp
  then have "length ?p \<le> 5" by (intro decimal_length) simp_all
  have plain: "plain_text ?p" by (rule digits_plain [OF decimal_digits])
  have colon: "CHR '':'' \<notin> set ?p"
    using decimal_digits [of "unat p"] by (auto simp: list_all_iff digit_char_def code_def)
  have no_close: "CHR '']'' \<notin> set ?h" and no_open: "CHR ''['' \<notin> set ?h"
    using no_brackets [OF host(3)] by blast+
  have chars: "plain_char CHR '':''" by (simp add: plain_char_def)
  show ?thesis
  proof (cases "ad_family e = Ipv6")
    case True
    let ?s = "(''['' @ ?h @ '']'') @ '':'' @ ?p"
    have form: "FormatHostPort (e\<lparr>ad_port := p\<rparr>) = ?s" using True assms(3) by (simp add: FormatHostPort_def Let_def)
    have "\<not> InvalidEndpointCharacters ?s"
      using host(3) plain chars by (intro plain_valid) (auto simp: list_all_iff plain_text_def)
    moreover have "find_char CHR '']'' ?s = Some (length ?h + 1)"
      using find_char_append [of "CHR '']''" "CHR ''['' # ?h" "'':'' @ ?p"] no_close by simp
    moreover have "take (length ?h + 2) ?s = ''['' @ ?h @ '']''" "drop (length ?h + 2) ?s = '':'' @ ?p" by simp_all
    ultimately show ?thesis
      using assms host \<open>length ?p \<le> 5\<close> canonical_parsed(2) [OF assms(1,2) True] ParsePort_decimal [OF assms(3)]
      unfolding form by (simp add: ParseAuthority_def kMaxInputLength_def Let_def)
  next
    case False
    let ?s = "?h @ CHR '':'' # ?p"
    have form: "FormatHostPort (e\<lparr>ad_port := p\<rparr>) = ?s" using False assms(3) by (simp add: FormatHostPort_def Let_def)
    have "\<not> InvalidEndpointCharacters ?s"
      using host(3) plain chars by (intro plain_valid) (auto simp: list_all_iff plain_text_def)
    moreover have "find_char CHR '':'' ?s = Some (length ?h)"
      using find_char_append plain_no_colon [OF assms(2) False] by simp
    moreover have "rfind_char CHR '':'' ?s = Some (length ?h)" using rfind_char_append colon by simp
    moreover have "hd ?s \<noteq> CHR ''[''" using no_open host(1) by (cases ?h) auto
    ultimately show ?thesis
      using assms host \<open>length ?p \<le> 5\<close> canonical_parsed(1) [OF assms(1,2)] ParsePort_decimal [OF assms(3)]
      unfolding form by (simp add: ParseAuthority_def kMaxInputLength_def Let_def)
  qed
qed

subsection \<open>Server identities\<close>

lemma accepted_simps [simp]: "sr_ok (accepted i)" "sr_identity (accepted i) = i" "\<not> sr_ok default_server_result"
  by (simp_all add: accepted_def default_server_result_def)

lemma not_sr_ok [simp]: "default_server_result \<noteq> accepted i"
  by (simp add: accepted_def default_server_result_def)

lemma server_text:
  assumes "plain_text s" "s \<noteq> []" "length s \<le> 253"
  shows "ParseServerIdentity pton s = classify_server pton s"
proof -
  have "\<not> InvalidEndpointCharacters s"
    using assms(1) by (intro plain_valid) (auto simp: plain_text_def list_all_iff)
  then show ?thesis using assms plain_excludes(1-3) [OF assms(1)] by (simp add: ParseServerIdentity_def)
qed

lemma server_fixpoint_hostname:
  assumes "rfc4291_reader pton" "dns_name v" "\<not> numeric_labels v"
  shows "ParseServerIdentity pton (map AsciiLower v) = accepted \<lparr>si_kind = Dns, si_canonicalName = map AsciiLower v\<rparr>"
proof -
  let ?h = "map AsciiLower v"
  have dns: "dns_name ?h" using assms(2) by (simp add: dns_name_lower)
  have numeric: "\<not> list_all numeric_label (split_on CHR ''.'' ?h)"
    using assms(3) dns_last [OF dns] dns numeric_labels_lower [of v] by (auto simp: numeric_labels_exact dns_name_def)
  have "CanonicalHostname ?h = ?h" "?h \<noteq> []" using dns
    by (auto simp: CanonicalHostname_exact strip_dot_dns dns_name_def lower_chars comp_def)
  moreover have "pton ?h = None" using pton_colon [OF assms(1) dns_no_colon [OF dns]] .
  ultimately show ?thesis
    using server_text [OF plain_dns [OF dns], of pton] hostname_not_numeric [OF dns numeric] dns dns_no_colon [OF dns]
    by (simp add: dns_name_def classify_server_def)
qed

lemma server_fixpoint_ipv6:
  assumes "rfc4291_reader pton" "length a = 16" "\<not> ipv6_not_connectable a"
  shows "ParseServerIdentity pton (CanonicalIpv6 a) = accepted \<lparr>si_kind = Ip, si_canonicalName = CanonicalIpv6 a\<rparr>"
proof -
  have pton: "pton (CanonicalIpv6 a) = Some a" using pton_canonical assms by simp
  have "CHR '':'' \<in> set (CanonicalIpv6 a)" using pton assms(1) by (simp add: rfc4291_reader_def)
  moreover have "\<not> dot_or_digit CHR '':''" by (simp add: dot_or_digit_def IsAsciiDigit_def code_def)
  ultimately have "ParseIpv4 (CanonicalIpv6 a) = None" "CanonicalIpv6 a \<noteq> []" using ParseIpv4_None by auto
  then show ?thesis using server_text [OF plain_ipv6, of a pton] CanonicalIpv6_length [of a] pton assms(3)
    by (simp add: classify_server_def)
qed

lemma server_fixpoint_ipv4:
  assumes "length os = 4" "\<not> Ipv4NotConnectable os"
  shows "ParseServerIdentity pton (CanonicalIpv4 os) = accepted \<lparr>si_kind = Ip, si_canonicalName = CanonicalIpv4 os\<rparr>"
  using assms server_text [OF plain_ipv4, of os pton] CanonicalIpv4_length [of os] CanonicalIpv4_chars [of os]
    ParseIpv4_exact [of "CanonicalIpv4 os" os] by (cases "CanonicalIpv4 os = []") (auto simp: classify_server_def)

lemma server_fixpoint:
  assumes "rfc4291_reader pton" "sr_ok (ParseServerIdentity pton t)"
  shows "ParseServerIdentity pton (si_canonicalName (sr_identity (ParseServerIdentity pton t))) = ParseServerIdentity pton t"
proof (cases "t = []")
  case True
  then show ?thesis by (simp add: default_identity_def ParseServerIdentity_def)
next
  case False
  then have eq: "ParseServerIdentity pton t = classify_server pton t" and ok: "sr_ok (classify_server pton t)"
    using assms(2) by (auto simp: ParseServerIdentity_def simp del: find_char_None split: if_splits)
  show ?thesis
  proof (cases "ParseIpv4 t")
    case (Some os)
    then have "\<not> Ipv4NotConnectable os" using ok by (auto simp: classify_server_def split: if_splits)
    then show ?thesis using server_fixpoint_ipv4 [of os] ParseIpv4_exact [of t os] Some eq by (simp add: classify_server_def)
  next
    case no4: None
    show ?thesis
    proof (cases "pton t")
      case (Some a)
      then have "\<not> ipv6_not_connectable a" using ok no4 by (auto simp: classify_server_def split: if_splits)
      then show ?thesis using server_fixpoint_ipv6 [OF assms(1) pton_length [OF assms(1) Some]] Some no4 eq by (simp add: classify_server_def)
    next
      case None
      then have "\<not> numeric_labels (strip_dot t)" "dns_name (strip_dot t)"
          "ParseServerIdentity pton t = accepted \<lparr>si_kind = Dns, si_canonicalName = map AsciiLower (strip_dot t)\<rparr>"
        using eq ok no4 by (auto simp: classify_server_def CanonicalHostname_exact LegacyNumericHost_def Let_def simp del: find_char_None split: if_splits)
      then show ?thesis using server_fixpoint_hostname [OF assms(1)] by simp
    qed
  qed
qed

subsection \<open>The identity text\<close>

lemma FamilyText_inject: "FamilyText f = FamilyText g \<longleftrightarrow> f = g"
  by (cases f; cases g) simp_all

lemma KindText_inject: "ServerIdentityKindText f = ServerIdentityKindText g \<longleftrightarrow> f = g"
  by (cases f; cases g) simp_all

lemma LengthPrefixed_inject: "LengthPrefixed v @ x = LengthPrefixed w @ y \<longleftrightarrow> v = w \<and> x = y"
  using length_prefix_inject [of v x w y] by (simp add: LengthPrefixed_def)

lemma LengthPrefixed_end: "LengthPrefixed v = LengthPrefixed w \<longleftrightarrow> v = w"
  using LengthPrefixed_inject [of v "[]" w "[]"] by simp

lemma decimal_bar: "decimal m @ CHR ''|'' # x = decimal n @ CHR ''|'' # y \<longleftrightarrow> m = n \<and> x = y"
proof -
  have "\<not> digit_char CHR ''|''" by (simp add: digit_char_def code_def)
  then show ?thesis
    using digits_before [OF decimal_digits decimal_digits, of "CHR ''|''" m x n y] by (auto simp: decimal_inject)
qed

lemma identity_text_inject:
  "identity_text e i = identity_text e' i' \<longleftrightarrow>
     ad_family e = ad_family e' \<and> ad_canonicalHost e = ad_canonicalHost e' \<and> ad_scope e = ad_scope e' \<and>
     ad_port e = ad_port e' \<and> i = i'"
proof -
  have "i = i' \<longleftrightarrow> si_kind i = si_kind i' \<and> si_canonicalName i = si_canonicalName i'"
    by (cases i; cases i') simp
  then show ?thesis
    by (auto simp: identity_text_def LengthPrefixed_inject LengthPrefixed_end decimal_bar FamilyText_inject KindText_inject
      intro: unsigned_word_eqI)
qed

lemma matching_scope_kind:
  assumes "EndpointMatchesCanonicalPolicy pton e" "EndpointMatchesCanonicalPolicy pton e'"
    "ad_family e = ad_family e'" "ad_canonicalHost e = ad_canonicalHost e'" "ad_scope e = ad_scope e'" "ad_port e = ad_port e'"
  shows "e = e'"
  using assms unfolding EndpointMatchesCanonicalPolicy_def Let_def
  by (auto intro!: address.equality split: if_splits)

text \<open>
  Every endpoint a profile may store has an identity, whatever accepted server name it is paired
  with.
\<close>

lemma parsed_endpoint_has_identity:
  assumes "rfc4291_reader pton" "pr_ok (ParseFields pton s p Persisted)" "sr_ok (ParseServerIdentity pton t)"
  shows "ir_ok (IdentityV2 pton (pr_endpoint (ParseFields pton s p Persisted)) (sr_identity (ParseServerIdentity pton t)))"
proof -
  have port: "ValidPort (unat p)" and ok: "pr_ok (ParseHost pton s Persisted)"
    using assms(2) by (auto simp: ParseFields_def with_port_def split: if_splits)
  then obtain e where e: "ParseHost pton s Persisted = parsed e" "canonical_address Persisted e"
    using ParseHost_parsed [OF assms(1)] by blast
  have "ad_version e = kAddressVersion \<and> ad_scopeKind e \<noteq> Numeric" using e(2)
    by (cases rule: canonical_address.cases) (auto simp: unported_def elim: scope_text.cases)
  then have "EndpointMatchesCanonicalPolicy pton (e\<lparr>ad_port := p\<rparr>)"
    using port canonical_parsed(1) [OF assms(1) e(2)]
    by (auto simp: EndpointMatchesCanonicalPolicy_def TransportHost_def parsed_def)
  moreover have "pr_endpoint (ParseFields pton s p Persisted) = e\<lparr>ad_port := p\<rparr>"
    using port e(1) by (simp add: ParseFields_def) (simp add: parsed_def)
  ultimately show ?thesis using assms(3) server_fixpoint [OF assms(1,3)] by (simp add: IdentityV2_def Let_def)
qed

section \<open>Properties\<close>

text \<open>
  C34. The addresses the parser of hosts returns are exactly the canonical ones: connectable IPv4 addresses,
  connectable IPv6 addresses with a scope exactly when they are link-local (a number only at run
  time), and lower-case host names that are no number to any resolver.
\<close>

theorem parse_host_exact:
  assumes "rfc4291_reader pton"
  shows "(\<exists>s. pr_ok (ParseHost pton s m) \<and> pr_endpoint (ParseHost pton s m) = e) \<longleftrightarrow> canonical_address m e"
proof
  assume "\<exists>s. pr_ok (ParseHost pton s m) \<and> pr_endpoint (ParseHost pton s m) = e"
  then show "canonical_address m e" using ParseHost_canonical [OF assms] by blast
next
  assume "canonical_address m e"
  then have "ParseHost pton (TransportHost e) m = parsed e" by (rule canonical_parsed(1) [OF assms])
  then show "\<exists>s. pr_ok (ParseHost pton s m) \<and> pr_endpoint (ParseHost pton s m) = e"
    by (intro exI [of _ "TransportHost e"]) (simp add: parsed_def)
qed

lemma parse_host_exact_witness:
  "canonical_address Persisted (unported ''rd.example'' Hostname [] NoScope)"
proof -
  have "pr_ok (ParseHost reference_pton ''Rd.Example.'' Persisted) \<and>
      pr_endpoint (ParseHost reference_pton ''Rd.Example.'' Persisted) = unported ''rd.example'' Hostname [] NoScope"
    by code_simp
  then show ?thesis using parse_host_exact [OF reference_pton_reads] by blast
qed

text \<open>
  C35. Writing a parsed authority and parsing it again, with any default port, gives the same endpoint.
\<close>

theorem authority_round_trip:
  assumes "rfc4291_reader pton" "pr_ok (ParseAuthority pton s d m)" "ValidPort (unat d')"
  shows "ParseAuthority pton (FormatHostPort (pr_endpoint (ParseAuthority pton s d m))) d' m = ParseAuthority pton s d m"
proof -
  obtain e p where "ParseAuthority pton s d m = parsed (e\<lparr>ad_port := p\<rparr>)" "canonical_address m e" "p \<noteq> 0"
    using ParseAuthority_parsed [OF assms(1,2)] by blast
  then show ?thesis using formatted_authority [OF assms(1) _ _ assms(3)] by (simp add: parsed_def)
qed

lemma authority_round_trip_witness:
  "ParseAuthority reference_pton ''rd.example:8443'' 443 Persisted =
     ParseAuthority reference_pton ''RD.Example.:08443'' 22 Persisted"
proof -
  let ?s = "''RD.Example.:08443''"
  let ?e = "(unported ''rd.example'' Hostname [] NoScope)\<lparr>ad_port := 8443\<rparr>"
  have host: "ParseHost reference_pton ''RD.Example.'' Persisted = parsed (unported ''rd.example'' Hostname [] NoScope)"
    by code_simp
  have port: "ParsePort ''08443'' = 8443" by (simp add: ParsePort_def IsAsciiDigit_def code_def ValidPort_def)
  have valid: "\<not> InvalidEndpointCharacters ?s" by code_simp
  have colons: "find_char CHR '':'' ?s = Some 11" "rfind_char CHR '':'' ?s = Some 11" by (simp_all add: rfind_char_def)
  have parse: "ParseAuthority reference_pton ?s 22 Persisted = parsed ?e"
    unfolding ParseAuthority_def colons by (simp add: valid port host ValidPort_def kMaxInputLength_def)
  have "FormatHostPort ?e = ''rd.example:8443''"
    by (simp add: FormatHostPort_def unported_def TransportHost_def decimal.simps char_of_def bit_0)
  then show ?thesis using authority_round_trip [OF reference_pton_reads, of ?s 22 Persisted 443]
    unfolding parse by (simp add: parsed_def ValidPort_def)
qed

text \<open>
  C36. The text of an IPv6 address denotes it, and it is the text of RFC 5952: lower-case groups without
  leading zeros, the first of the longest runs of two zero groups or more written as a gap, and no
  gap when there is no such run.
\<close>

theorem canonical_ipv6_text:
  "read_ipv6 (CanonicalIpv6 a) = Some (Ipv6Words a) \<and>
   ((\<exists>s n. shortened_run (Ipv6Words a) s n \<and>
       CanonicalIpv6 a = hexes (take s (Ipv6Words a)) @ ''::'' @ hexes (drop (s + n) (Ipv6Words a))) \<or>
    \<not> (\<exists>s n. 2 \<le> n \<and> zeros (Ipv6Words a) s n) \<and> CanonicalIpv6 a = hexes (Ipv6Words a))"
  using read_canonical CanonicalIpv6_form [of a] by (meson leD)

text \<open>
  C37. Two endpoints have the same identity only if they are the same and are served by the same server.
\<close>

theorem identity_v2_injective:
  assumes "ir_ok (IdentityV2 pton e server)" "ir_ok (IdentityV2 pton e' server')"
    "ir_identity (IdentityV2 pton e server) = ir_identity (IdentityV2 pton e' server')"
  shows "e = e' \<and> effective_identity e server = effective_identity e' server'"
proof -
  have matches: "EndpointMatchesCanonicalPolicy pton e" "EndpointMatchesCanonicalPolicy pton e'"
    using assms(1,2) by (auto simp: IdentityV2_def split: if_splits)
  have "identity_text e (effective_identity e server) = identity_text e' (effective_identity e' server')"
    using assms by (auto simp: IdentityV2_def Let_def split: if_splits)
  then show ?thesis using matching_scope_kind [OF matches] by (simp add: identity_text_inject)
qed

definition example_endpoint :: "u16 \<Rightarrow> address" where
  "example_endpoint p = (unported ''rd.example'' Hostname [] NoScope)\<lparr>ad_port := p\<rparr>"

lemma example_endpoint_identity:
  assumes "ValidPort (unat p)"
  shows "ir_ok (IdentityV2 reference_pton (example_endpoint p) default_identity)"
proof -
  have "dns_name ''rd.example''" "map AsciiLower ''rd.example'' = ''rd.example''"
      "\<not> list_all numeric_label (split_on CHR ''.'' ''rd.example'')" by code_simp+
  then have "ParseHost reference_pton (TransportHost (unported ''rd.example'' Hostname [] NoScope)) Persisted =
      parsed (unported ''rd.example'' Hostname [] NoScope)"
    by (intro canonical_parsed(1) [OF reference_pton_reads] canonical_address.hostname)
  then have "ParseFields reference_pton ''rd.example'' p Persisted = parsed (example_endpoint p)"
    using assms by (simp add: ParseFields_def example_endpoint_def)
  then show ?thesis
    using parsed_endpoint_has_identity [OF reference_pton_reads, of "''rd.example''" p "[]"]
    by (simp add: parsed_def ParseServerIdentity_def)
qed

lemma identity_v2_injective_witness:
  "ir_identity (IdentityV2 reference_pton (example_endpoint 3389) default_identity) \<noteq>
   ir_identity (IdentityV2 reference_pton (example_endpoint 3390) default_identity)"
proof
  assume "ir_identity (IdentityV2 reference_pton (example_endpoint 3389) default_identity) =
    ir_identity (IdentityV2 reference_pton (example_endpoint 3390) default_identity)"
  moreover have "ValidPort (unat (3389 :: u16))" "ValidPort (unat (3390 :: u16))" by (simp_all add: ValidPort_def)
  ultimately have "example_endpoint 3389 = example_endpoint 3390" 
    using identity_v2_injective example_endpoint_identity by blast
  then show False by (simp add: example_endpoint_def unported_def)
qed

end
