(* ===== verification/Moonlight_Session.thy ===== *)
theory Moonlight_Session
  imports Prelude
begin

text \<open>
  The owner of the Moonlight operation lane (\<open>moonlight/core/MoonlightSessionOwner.h\<close> and \<open>.cpp\<close>): the
  library moonlight-common-c allows one connection per process, its start blocks, may be interrupted
  only after its first stage callback, and must not be stopped while a callback or a worker still uses
  it. Each critical section is a function on the owner; a \<open>shared_ptr<State>\<close> is the index of the session
  in the list of all that were made. The driver is the environment: what its calls return or throw
  is an argument. A step relation interleaves the callers, the lane's worker thread, the driver's
  calls and the leases; a call of the driver, which is made without the lock, and its return are steps of
  their own, between the critical sections before and after it. A failure of the mutex itself, which the \<open>catch\<close> clauses are for, is left out.
\<close>

section \<open>Data\<close>

record session_key =
  sk_sessionId :: u64
  sk_generation :: u64
  sk_ownerToken :: u64

definition key_valid :: "session_key \<Rightarrow> bool" where
  "key_valid k \<longleftrightarrow> sk_sessionId k \<noteq> 0 \<and> sk_generation k \<noteq> 0 \<and> sk_ownerToken k \<noteq> 0"

definition no_key :: session_key where
  "no_key = \<lparr>sk_sessionId = 0, sk_generation = 0, sk_ownerToken = 0\<rparr>"

datatype session_phase = Idle | Starting | Running | Stopping | Stopped | Failed

datatype start_status = Accepted | InvalidRequest | InvalidDriver | Busy | OwnerTokenExhausted | ShuttingDown

datatype stop_status = StopDone | AlreadyTerminal | InvalidKey | StaleOwner | TimedOut | DriverFailure | StopRequested

datatype driver_failure = NoFailure | StartException | InterruptException | StopException

datatype lease_kind = Callback | Worker

record session_snapshot =
  sn_matched :: bool
  sn_key :: session_key
  sn_phase :: session_phase
  sn_cancellationRequested :: bool
  sn_admissionOpen :: bool
  sn_startInvoked :: bool
  sn_startInterruptible :: bool
  sn_startReturned :: bool
  sn_interruptInvoked :: bool
  sn_stopInvoked :: bool
  sn_stopCompleted :: bool
  sn_inFlightCallbacks :: nat
  sn_inFlightWorkers :: nat
  sn_startResult :: int
  sn_driverFailure :: driver_failure

definition empty_snapshot :: session_snapshot where
  "empty_snapshot = \<lparr>sn_matched = False, sn_key = no_key, sn_phase = Idle, sn_cancellationRequested = False,
     sn_admissionOpen = False, sn_startInvoked = False, sn_startInterruptible = False, sn_startReturned = False,
     sn_interruptInvoked = False, sn_stopInvoked = False, sn_stopCompleted = False, sn_inFlightCallbacks = 0,
     sn_inFlightWorkers = 0, sn_startResult = 0, sn_driverFailure = NoFailure\<rparr>"

record lane_session =
  ss_key :: session_key
  ss_phase :: session_phase
  ss_cancellationRequested :: bool
  ss_admissionOpen :: bool
  ss_startInvoked :: bool
  ss_startInterruptible :: bool
  ss_startReturned :: bool
  ss_interruptInvoked :: bool
  ss_stopScheduled :: bool
  ss_stopInvoked :: bool
  ss_stopCompleted :: bool
  ss_callbackLeases :: nat
  ss_workerLeases :: nat
  ss_controlOperations :: nat
  ss_startResult :: int
  ss_driverFailure :: driver_failure

definition kStartNotRun :: int where
  "kStartNotRun = - (2 ^ 31)"

definition isTerminal :: "session_phase \<Rightarrow> bool" where
  "isTerminal p \<longleftrightarrow> p = Stopped \<or> p = Failed"

definition fresh_session :: "session_key \<Rightarrow> lane_session" where
  "fresh_session k = \<lparr>ss_key = k, ss_phase = Starting, ss_cancellationRequested = False, ss_admissionOpen = True,
     ss_startInvoked = False, ss_startInterruptible = False, ss_startReturned = False, ss_interruptInvoked = False,
     ss_stopScheduled = False, ss_stopInvoked = False, ss_stopCompleted = False, ss_callbackLeases = 0,
     ss_workerLeases = 0, ss_controlOperations = 0, ss_startResult = kStartNotRun, ss_driverFailure = NoFailure\<rparr>"

record lane_owner =
  mo_sessions :: "lane_session list"
  mo_active :: "nat option"
  mo_pendingStart :: "nat option"
  mo_pendingStop :: "nat option"
  mo_lastTerminal :: session_snapshot
  mo_nextOwnerToken :: u64
  mo_shuttingDown :: bool

definition new_lane_owner :: lane_owner where
  "new_lane_owner = \<lparr>mo_sessions = [], mo_active = None, mo_pendingStart = None, mo_pendingStop = None,
     mo_lastTerminal = empty_snapshot, mo_nextOwnerToken = 1, mo_shuttingDown = False\<rparr>"

abbreviation session_at :: "lane_owner \<Rightarrow> nat \<Rightarrow> lane_session" where
  "session_at o1 r \<equiv> mo_sessions o1 ! r"

text \<open>An assignment through the pointer.\<close>

definition set_session :: "nat \<Rightarrow> lane_session \<Rightarrow> lane_owner \<Rightarrow> lane_owner" where
  "set_session r x o1 = o1\<lparr>mo_sessions := (mo_sessions o1)[r := x]\<rparr>"

section \<open>Snapshots and the end of a session\<close>

definition snapshotStateLocked :: "lane_session \<Rightarrow> session_snapshot" where
  "snapshotStateLocked x = \<lparr>sn_matched = True, sn_key = ss_key x, sn_phase = ss_phase x,
     sn_cancellationRequested = ss_cancellationRequested x, sn_admissionOpen = ss_admissionOpen x,
     sn_startInvoked = ss_startInvoked x, sn_startInterruptible = ss_startInterruptible x,
     sn_startReturned = ss_startReturned x, sn_interruptInvoked = ss_interruptInvoked x,
     sn_stopInvoked = ss_stopInvoked x, sn_stopCompleted = ss_stopCompleted x,
     sn_inFlightCallbacks = ss_callbackLeases x, sn_inFlightWorkers = ss_workerLeases x + ss_controlOperations x,
     sn_startResult = ss_startResult x, sn_driverFailure = ss_driverFailure x\<rparr>"

definition snapshotLocked :: "session_key \<Rightarrow> lane_owner \<Rightarrow> session_snapshot" where
  "snapshotLocked k o1 =
     (case mo_active o1 of
        Some r \<Rightarrow> if ss_key (session_at o1 r) = k then snapshotStateLocked (session_at o1 r)
          else if sn_matched (mo_lastTerminal o1) \<and> sn_key (mo_lastTerminal o1) = k then mo_lastTerminal o1 else empty_snapshot
      | None \<Rightarrow> if sn_matched (mo_lastTerminal o1) \<and> sn_key (mo_lastTerminal o1) = k then mo_lastTerminal o1 else empty_snapshot)"

definition owner_snapshot :: "session_key \<Rightarrow> lane_owner \<Rightarrow> session_snapshot" where
  "owner_snapshot k o1 = (if \<not> key_valid k then empty_snapshot else snapshotLocked k o1)"

text \<open>The condition \<open>waitForPhase\<close> waits for.\<close>

definition phase_reached :: "session_key \<Rightarrow> session_phase \<Rightarrow> lane_owner \<Rightarrow> bool" where
  "phase_reached k p o1 \<longleftrightarrow> key_valid k \<and> sn_matched (snapshotLocked k o1) \<and> sn_phase (snapshotLocked k o1) = p"

definition reapActiveLocked :: "nat \<Rightarrow> lane_owner \<Rightarrow> lane_owner" where
  "reapActiveLocked r o1 = (let x = session_at o1 r in
     if mo_active o1 \<noteq> Some r \<or> \<not> isTerminal (ss_phase x) \<or> ss_callbackLeases x \<noteq> 0 \<or> ss_workerLeases x \<noteq> 0 \<or>
       ss_controlOperations x \<noteq> 0 \<or> mo_pendingStart o1 = Some r \<or> mo_pendingStop o1 = Some r then o1
     else o1\<lparr>mo_lastTerminal := snapshotStateLocked x, mo_active := None\<rparr>)"

section \<open>Starting and stopping\<close>

definition reap_active :: "lane_owner \<Rightarrow> lane_owner" where
  "reap_active o1 = (case mo_active o1 of None \<Rightarrow> o1 | Some r \<Rightarrow> reapActiveLocked r o1)"

definition owner_start :: "u64 \<Rightarrow> u64 \<Rightarrow> bool \<Rightarrow> lane_owner \<Rightarrow> (start_status \<times> session_key) \<times> lane_owner" where
  "owner_start sessionId generation driverValid o1 =
     (if sessionId = 0 \<or> generation = 0 then ((InvalidRequest, no_key), o1)
      else if \<not> driverValid then ((InvalidDriver, no_key), o1)
      else if mo_shuttingDown o1 then ((ShuttingDown, no_key), o1)
      else let o2 = reap_active o1 in
        if mo_active o2 \<noteq> None then ((Busy, no_key), o2)
        else if mo_nextOwnerToken o2 = 0 then ((OwnerTokenExhausted, no_key), o2)
        else let k = \<lparr>sk_sessionId = sessionId, sk_generation = generation, sk_ownerToken = mo_nextOwnerToken o2\<rparr>;
                 r = length (mo_sessions o2)
          in ((Accepted, k), o2\<lparr>mo_nextOwnerToken := mo_nextOwnerToken o2 + 1,
               mo_sessions := mo_sessions o2 @ [fresh_session k], mo_active := Some r, mo_pendingStart := Some r\<rparr>))"

text \<open>
  The state the caller is given, the status, and whether it must call the driver's interrupt next.
\<close>

record stop_request =
  sq_status :: stop_status
  sq_state :: "nat option"
  sq_interrupt :: bool

definition refuse_stop :: "stop_status \<Rightarrow> stop_request" where
  "refuse_stop st = \<lparr>sq_status = st, sq_state = None, sq_interrupt = False\<rparr>"

definition cancel_session :: "nat \<Rightarrow> lane_owner \<Rightarrow> bool \<times> lane_owner" where
  "cancel_session r o1 =
     (let x = (session_at o1 r)\<lparr>ss_cancellationRequested := True, ss_admissionOpen := False\<rparr> in
      if ss_phase x = Starting then
        (let x1 = x\<lparr>ss_phase := Stopping\<rparr> in
         if ss_startInvoked x1 \<and> ss_startInterruptible x1 \<and> \<not> ss_startReturned x1 \<and> \<not> ss_interruptInvoked x1 then
           (True, set_session r (x1\<lparr>ss_interruptInvoked := True,
              ss_controlOperations := ss_controlOperations x1 + 1\<rparr>) o1)
         else (False, set_session r x1 o1))
      else if ss_phase x = Running then
        (let x1 = x\<lparr>ss_phase := Stopping\<rparr> in
         if \<not> ss_stopScheduled x1 then
           (False, (set_session r (x1\<lparr>ss_stopScheduled := True\<rparr>) o1)\<lparr>mo_pendingStop := Some r\<rparr>)
         else (False, set_session r x1 o1))
      else (False, set_session r x o1))"

definition requestStopInternal :: "session_key \<Rightarrow> lane_owner \<Rightarrow> stop_request \<times> lane_owner" where
  "requestStopInternal k o1 =
     (if \<not> key_valid k then (refuse_stop InvalidKey, o1)
      else case mo_active o1 of
        None \<Rightarrow>
          if sn_matched (mo_lastTerminal o1) \<and> sn_key (mo_lastTerminal o1) = k then
            (refuse_stop (if sn_driverFailure (mo_lastTerminal o1) = NoFailure then AlreadyTerminal else DriverFailure), o1)
          else (refuse_stop StaleOwner, o1)
      | Some r \<Rightarrow>
          if ss_key (session_at o1 r) \<noteq> k then (refuse_stop StaleOwner, o1)
          else if isTerminal (ss_phase (session_at o1 r)) then
            (\<lparr>sq_status = (if ss_driverFailure (session_at o1 r) = NoFailure then AlreadyTerminal else DriverFailure),
              sq_state = Some r, sq_interrupt = False\<rparr>, reapActiveLocked r o1)
          else (case cancel_session r o1 of (interrupt, o2) \<Rightarrow>
            (\<lparr>sq_status = StopRequested, sq_state = Some r, sq_interrupt = interrupt\<rparr>, o2)))"

text \<open>The end of \<open>stop\<close>: its wait is over when the session is terminal.\<close>

definition stop_wait_over :: "nat \<Rightarrow> lane_owner \<Rightarrow> bool" where
  "stop_wait_over r o1 \<longleftrightarrow> isTerminal (ss_phase (session_at o1 r))"

definition stop_finish :: "nat \<Rightarrow> lane_owner \<Rightarrow> stop_status \<times> lane_owner" where
  "stop_finish r o1 =
     (if \<not> stop_wait_over r o1 then (TimedOut, o1)
      else (if ss_driverFailure (session_at o1 r) = NoFailure then StopDone else DriverFailure, reapActiveLocked r o1))"

section \<open>Leases and interruption\<close>

definition owner_acquire :: "session_key \<Rightarrow> lease_kind \<Rightarrow> lane_owner \<Rightarrow> nat option \<times> lane_owner" where
  "owner_acquire k kind o1 =
     (if \<not> key_valid k then (None, o1)
      else case mo_active o1 of
        None \<Rightarrow> (None, o1)
      | Some r \<Rightarrow> (let x = session_at o1 r in
          if ss_key x \<noteq> k \<or> \<not> ss_admissionOpen x \<or> ss_phase x \<noteq> Starting \<and> ss_phase x \<noteq> Running then (None, o1)
          else (Some r, set_session r (case kind of
              Callback \<Rightarrow> x\<lparr>ss_callbackLeases := ss_callbackLeases x + 1\<rparr>
            | Worker \<Rightarrow> x\<lparr>ss_workerLeases := ss_workerLeases x + 1\<rparr>) o1)))"

definition releaseAdmission :: "nat \<Rightarrow> lease_kind \<Rightarrow> lane_owner \<Rightarrow> lane_owner" where
  "releaseAdmission r kind o1 = (let x = session_at o1 r in
     reapActiveLocked r (set_session r (case kind of
         Callback \<Rightarrow> if ss_callbackLeases x \<noteq> 0 then x\<lparr>ss_callbackLeases := ss_callbackLeases x - 1\<rparr> else x
       | Worker \<Rightarrow> if ss_workerLeases x \<noteq> 0 then x\<lparr>ss_workerLeases := ss_workerLeases x - 1\<rparr> else x) o1))"

text \<open>\<open>markInterruptible\<close>: its result, and whether it calls the driver's interrupt next.\<close>

definition markStartInterruptible :: "nat \<Rightarrow> lane_owner \<Rightarrow> (bool \<times> bool) \<times> lane_owner" where
  "markStartInterruptible r o1 = (let x = session_at o1 r in
     if mo_active o1 \<noteq> Some r \<or> \<not> ss_startInvoked x \<or> ss_startReturned x \<or>
       ss_phase x \<noteq> Starting \<and> ss_phase x \<noteq> Stopping then ((False, False), o1)
     else let x1 = x\<lparr>ss_startInterruptible := True\<rparr> in
       if ss_cancellationRequested x1 \<and> \<not> ss_interruptInvoked x1 then
         ((True, True), set_session r (x1\<lparr>ss_interruptInvoked := True,
            ss_controlOperations := ss_controlOperations x1 + 1\<rparr>) o1)
       else ((True, False), set_session r x1 o1))"

text \<open>\<open>invokeInterrupt\<close> after the driver's interrupt.\<close>

definition interrupt_finish :: "nat \<Rightarrow> bool \<Rightarrow> lane_owner \<Rightarrow> lane_owner" where
  "interrupt_finish r threw o1 =
     (let x = session_at o1 r;
          x1 = (if ss_controlOperations x \<noteq> 0 then x\<lparr>ss_controlOperations := ss_controlOperations x - 1\<rparr> else x);
          x2 = (if threw \<and> ss_driverFailure x1 = NoFailure then x1\<lparr>ss_driverFailure := InterruptException\<rparr> else x1);
          x3 = (if threw \<and> isTerminal (ss_phase x2) then x2\<lparr>ss_phase := Failed\<rparr> else x2)
      in reapActiveLocked r (set_session r x3 o1))"

section \<open>The worker\<close>

datatype worker_job = StartJob nat | StopJob nat

text \<open>The worker takes a job; nothing to do is \<open>None\<close>.\<close>

definition worker_take :: "lane_owner \<Rightarrow> worker_job option \<times> lane_owner" where
  "worker_take o1 =
     (case mo_pendingStart o1 of
        Some r \<Rightarrow> (Some (StartJob r), o1\<lparr>mo_pendingStart := None\<rparr>)
      | None \<Rightarrow> (case mo_pendingStop o1 of
          Some r \<Rightarrow> (Some (StopJob r), o1\<lparr>mo_pendingStop := None\<rparr>)
        | None \<Rightarrow> (None, o1)))"

definition worker_over :: "lane_owner \<Rightarrow> bool" where
  "worker_over o1 \<longleftrightarrow> mo_shuttingDown o1 \<and> mo_pendingStart o1 = None \<and> mo_pendingStop o1 = None"

text \<open>\<open>runStart\<close> before the driver's start: whether that is called.\<close>

definition start_enter :: "nat \<Rightarrow> lane_owner \<Rightarrow> bool \<times> lane_owner" where
  "start_enter r o1 = (let x = session_at o1 r in
     if mo_active o1 \<noteq> Some r then (False, o1)
     else if ss_phase x = Stopping \<and> ss_cancellationRequested x \<and> \<not> ss_startInvoked x then
       (False, reapActiveLocked r (set_session r (x\<lparr>ss_admissionOpen := False, ss_startReturned := True,
          ss_startResult := kStartNotRun, ss_phase := Stopped\<rparr>) o1))
     else if ss_phase x \<noteq> Starting then (False, o1)
     else (True, set_session r (x\<lparr>ss_startInvoked := True, ss_controlOperations := ss_controlOperations x + 1\<rparr>) o1))"

text \<open>\<open>runStart\<close> after it; \<open>None\<close> stands for an exception.\<close>

definition start_leave :: "nat \<Rightarrow> int option \<Rightarrow> lane_owner \<Rightarrow> lane_owner" where
  "start_leave r result o1 =
     (let x = (session_at o1 r)\<lparr>ss_startReturned := True,
            ss_startResult := (case result of None \<Rightarrow> kStartNotRun | Some v \<Rightarrow> v)\<rparr>;
          x1 = (if ss_controlOperations x \<noteq> 0 then x\<lparr>ss_controlOperations := ss_controlOperations x - 1\<rparr> else x)
      in reapActiveLocked r
        (case result of
           None \<Rightarrow> set_session r (x1\<lparr>ss_admissionOpen := False, ss_phase := Failed,
             ss_driverFailure := (if ss_driverFailure x1 = NoFailure then StartException else ss_driverFailure x1)\<rparr>) o1
         | Some v \<Rightarrow>
             if v \<noteq> 0 then set_session r (x1\<lparr>ss_admissionOpen := False,
               ss_phase := (if ss_cancellationRequested x1 \<and> ss_driverFailure x1 = NoFailure then Stopped else Failed)\<rparr>) o1
             else if ss_cancellationRequested x1 then
               (let x2 = x1\<lparr>ss_admissionOpen := False, ss_phase := Stopping\<rparr> in
                if \<not> ss_stopScheduled x2 then
                  (set_session r (x2\<lparr>ss_stopScheduled := True\<rparr>) o1)\<lparr>mo_pendingStop := Some r\<rparr>
                else set_session r x2 o1)
             else set_session r (x1\<lparr>ss_phase := Running\<rparr>) o1))"

text \<open>\<open>runStop\<close>: whether it goes on, what it waits for, and the sections about the driver's stop.\<close>

definition stop_enter :: "nat \<Rightarrow> lane_owner \<Rightarrow> bool \<times> lane_owner" where
  "stop_enter r o1 = (let x = session_at o1 r in
     if mo_active o1 \<noteq> Some r \<or> ss_phase x \<noteq> Stopping \<or> \<not> ss_startReturned x \<or> ss_startResult x \<noteq> 0 \<or> ss_stopInvoked x
     then (False, reapActiveLocked r o1) else (True, o1))"

definition drained :: "lane_session \<Rightarrow> bool" where
  "drained x \<longleftrightarrow> ss_callbackLeases x = 0 \<and> ss_workerLeases x = 0 \<and> ss_controlOperations x = 0"

definition stop_invoke :: "nat \<Rightarrow> lane_owner \<Rightarrow> lane_owner" where
  "stop_invoke r o1 = (let x = session_at o1 r in
     set_session r (x\<lparr>ss_stopInvoked := True, ss_controlOperations := ss_controlOperations x + 1\<rparr>) o1)"

definition stop_leave :: "nat \<Rightarrow> bool \<Rightarrow> lane_owner \<Rightarrow> lane_owner" where
  "stop_leave r threw o1 =
     (let x = session_at o1 r;
          x1 = (if ss_controlOperations x \<noteq> 0 then x\<lparr>ss_controlOperations := ss_controlOperations x - 1\<rparr> else x);
          x2 = x1\<lparr>ss_stopCompleted := True, ss_admissionOpen := False\<rparr>;
          x3 = (if threw \<and> ss_driverFailure x2 = NoFailure then x2\<lparr>ss_driverFailure := StopException\<rparr> else x2);
          x4 = x3\<lparr>ss_phase := (if ss_driverFailure x3 = NoFailure then Stopped else Failed)\<rparr>
      in reapActiveLocked r (set_session r x4 o1))"

text \<open>The destructor's last section, when no session is active.\<close>

definition shut_down :: "lane_owner \<Rightarrow> lane_owner" where
  "shut_down o1 = o1\<lparr>mo_shuttingDown := True\<rparr>"

section \<open>The interleaving\<close>

text \<open>
  Where the worker thread is: between the queue and the first section of a job (\<open>WTaken\<close>), between the section
  that decides on the driver's start and its call (\<open>WStarting\<close>), in it, between its return and the section
  that records it (\<open>WStarted\<close>, with the result), waiting in \<open>runStop\<close>, and likewise around the driver's stop.
\<close>

datatype worker_place = WIdle | WTaken worker_job | WStarting nat | WInStart nat | WStarted nat "int option"
  | WWaits nat | WStopping nat | WInStop nat | WStopped nat bool | WExited

text \<open>
  What the driver sees and what the clients and the owner do, for a session: calls and returns of the
  driver's functions, leases, and the sections of \<open>runStart\<close> that decide on the start and record its result.
\<close>

datatype driver_call = CallStart | CallInterrupt | CallStop

datatype lane_event = Admitted nat | Cancelled nat | Decided nat | Called driver_call nat | Returned driver_call nat
  | StartOk nat | Recorded nat | Leased nat | Unleased nat

text \<open>
  An interrupt in progress: its session, whether the driver's start made it (then the start cannot
  return before it), whether the driver's function has been called yet, and once it has returned whether
  it threw.
\<close>

record interrupt =
  in_session :: nat
  in_byStart :: bool
  in_called :: bool
  in_result :: "bool option"

record lane =
  la_owner :: lane_owner
  la_worker :: worker_place
  la_interrupts :: "interrupt list"
  la_leases :: "(nat \<times> lease_kind) list"
  la_log :: "lane_event list"

definition new_lane :: lane where
  "new_lane = \<lparr>la_owner = new_lane_owner, la_worker = WIdle, la_interrupts = [], la_leases = [], la_log = []\<rparr>"

datatype lane_action = Start u64 u64 bool | RequestStop session_key | StopReturns nat | Acquire session_key lease_kind
  | Release nat lease_kind | MarkInterruptible | InterruptCall interrupt | InterruptReturn interrupt bool
  | InterruptRecord interrupt | TakeJob | EnterStart | CallStartNow | StartReturn "int option" | RecordStart
  | EnterStop | InvokeStop | CallStopNow | StopReturn bool | RecordStop | ShutDown | WorkerExit

definition byStart :: "nat \<Rightarrow> bool \<Rightarrow> interrupt" where
  "byStart r b = \<lparr>in_session = r, in_byStart = b, in_called = False, in_result = None\<rparr>"

inductive lane_step :: "lane \<Rightarrow> lane_action \<Rightarrow> lane \<Rightarrow> bool" where
  start: "owner_start sid gen ok (la_owner l) = ((st, k), o2) \<Longrightarrow>
    lane_step l (Start sid gen ok) (l\<lparr>la_owner := o2,
      la_log := (if st = Accepted then Admitted (length (mo_sessions (la_owner l))) # la_log l else la_log l)\<rparr>)"
| request_stop: "requestStopInternal k (la_owner l) = (q, o2) \<Longrightarrow>
    lane_step l (RequestStop k) (l\<lparr>la_owner := o2,
      la_interrupts := (if sq_interrupt q then byStart (the (sq_state q)) False # la_interrupts l else la_interrupts l),
      la_log := (if sq_status q = StopRequested then Cancelled (the (sq_state q)) # la_log l else la_log l)\<rparr>)"
| stop_returns: "r < length (mo_sessions (la_owner l)) \<Longrightarrow>
    lane_step l (StopReturns r) (l\<lparr>la_owner := snd (stop_finish r (la_owner l))\<rparr>)"
| acquire: "owner_acquire k kind (la_owner l) = (res, o2) \<Longrightarrow>
    lane_step l (Acquire k kind) (case res of None \<Rightarrow> l\<lparr>la_owner := o2\<rparr>
      | Some r \<Rightarrow> l\<lparr>la_owner := o2, la_leases := (r, kind) # la_leases l, la_log := Leased r # la_log l\<rparr>)"
| release: "(r, kind) \<in> set (la_leases l) \<Longrightarrow>
    lane_step l (Release r kind) (l\<lparr>la_owner := releaseAdmission r kind (la_owner l),
      la_leases := remove1 (r, kind) (la_leases l), la_log := Unleased r # la_log l\<rparr>)"
| mark: "la_worker l = WInStart r \<Longrightarrow> \<not> (\<exists>i \<in> set (la_interrupts l). in_byStart i) \<Longrightarrow>
    markStartInterruptible r (la_owner l) = ((res, invoke), o2) \<Longrightarrow>
    lane_step l MarkInterruptible (l\<lparr>la_owner := o2,
      la_interrupts := (if invoke then byStart r True # la_interrupts l else la_interrupts l)\<rparr>)"
| interrupt_call: "i \<in> set (la_interrupts l) \<Longrightarrow> \<not> in_called i \<Longrightarrow>
    lane_step l (InterruptCall i) (l\<lparr>la_interrupts := i\<lparr>in_called := True\<rparr> # remove1 i (la_interrupts l),
      la_log := Called CallInterrupt (in_session i) # la_log l\<rparr>)"
| interrupt_return: "i \<in> set (la_interrupts l) \<Longrightarrow> in_called i \<Longrightarrow> in_result i = None \<Longrightarrow>
    lane_step l (InterruptReturn i threw) (l\<lparr>la_interrupts := i\<lparr>in_result := Some threw\<rparr> # remove1 i (la_interrupts l),
      la_log := Returned CallInterrupt (in_session i) # la_log l\<rparr>)"
| interrupt_record: "i \<in> set (la_interrupts l) \<Longrightarrow> in_result i = Some threw \<Longrightarrow>
    lane_step l (InterruptRecord i) (l\<lparr>la_owner := interrupt_finish (in_session i) threw (la_owner l),
      la_interrupts := remove1 i (la_interrupts l)\<rparr>)"
| take_job: "la_worker l = WIdle \<Longrightarrow> worker_take (la_owner l) = (Some j, o2) \<Longrightarrow>
    lane_step l TakeJob (l\<lparr>la_owner := o2, la_worker := WTaken j\<rparr>)"
| enter_start: "la_worker l = WTaken (StartJob r) \<Longrightarrow> start_enter r (la_owner l) = (go, o2) \<Longrightarrow>
    lane_step l EnterStart (l\<lparr>la_owner := o2, la_worker := (if go then WStarting r else WIdle),
      la_log := (if go then Decided r # la_log l else la_log l)\<rparr>)"
| call_start: "la_worker l = WStarting r \<Longrightarrow>
    lane_step l CallStartNow (l\<lparr>la_worker := WInStart r, la_log := Called CallStart r # la_log l\<rparr>)"
| start_return: "la_worker l = WInStart r \<Longrightarrow> \<not> (\<exists>i \<in> set (la_interrupts l). in_byStart i) \<Longrightarrow>
    lane_step l (StartReturn res) (l\<lparr>la_worker := WStarted r res,
      la_log := (if res = Some 0 then StartOk r # Returned CallStart r # la_log l else Returned CallStart r # la_log l)\<rparr>)"
| record_start: "la_worker l = WStarted r res \<Longrightarrow>
    lane_step l RecordStart (l\<lparr>la_owner := start_leave r res (la_owner l), la_worker := WIdle,
      la_log := Recorded r # la_log l\<rparr>)"
| enter_stop: "la_worker l = WTaken (StopJob r) \<Longrightarrow> stop_enter r (la_owner l) = (go, o2) \<Longrightarrow>
    lane_step l EnterStop (l\<lparr>la_owner := o2, la_worker := (if go then WWaits r else WIdle)\<rparr>)"
| invoke_stop: "la_worker l = WWaits r \<Longrightarrow> drained (session_at (la_owner l) r) \<Longrightarrow>
    lane_step l InvokeStop (l\<lparr>la_owner := stop_invoke r (la_owner l), la_worker := WStopping r\<rparr>)"
| call_stop: "la_worker l = WStopping r \<Longrightarrow>
    lane_step l CallStopNow (l\<lparr>la_worker := WInStop r, la_log := Called CallStop r # la_log l\<rparr>)"
| stop_return: "la_worker l = WInStop r \<Longrightarrow>
    lane_step l (StopReturn threw) (l\<lparr>la_worker := WStopped r threw, la_log := Returned CallStop r # la_log l\<rparr>)"
| record_stop: "la_worker l = WStopped r threw \<Longrightarrow>
    lane_step l RecordStop (l\<lparr>la_owner := stop_leave r threw (la_owner l), la_worker := WIdle\<rparr>)"
| shut: "mo_active (la_owner l) = None \<Longrightarrow> lane_step l ShutDown (l\<lparr>la_owner := shut_down (la_owner l)\<rparr>)"
| worker_exit: "la_worker l = WIdle \<Longrightarrow> worker_over (la_owner l) \<Longrightarrow> lane_step l WorkerExit (l\<lparr>la_worker := WExited\<rparr>)"

inductive reachable :: "lane \<Rightarrow> bool" where
  init: "reachable new_lane"
| lane_step: "reachable l \<Longrightarrow> lane_step l a l' \<Longrightarrow> reachable l'"

section \<open>The stages of a session\<close>

text \<open>Where the active session is: before, in and after its start, and before and in its stop.\<close>

definition not_cancelled_or_stopping :: "lane_session \<Rightarrow> bool" where
  "not_cancelled_or_stopping x \<longleftrightarrow> ss_phase x = (if ss_cancellationRequested x then Stopping else Starting) \<and>
     \<not> ss_startReturned x \<and> \<not> ss_stopScheduled x \<and> \<not> ss_stopInvoked x \<and> \<not> ss_stopCompleted x"

definition unstarted :: "lane_session \<Rightarrow> bool" where
  "unstarted x \<longleftrightarrow> not_cancelled_or_stopping x \<and> \<not> ss_startInvoked x \<and> \<not> ss_interruptInvoked x \<and>
     \<not> ss_startInterruptible x \<and> ss_driverFailure x = NoFailure"

definition in_start :: "lane_session \<Rightarrow> bool" where
  "in_start x \<longleftrightarrow> not_cancelled_or_stopping x \<and> ss_startInvoked x \<and>
     ss_interruptInvoked x = (ss_cancellationRequested x \<and> ss_startInterruptible x) \<and>
     (ss_driverFailure x = NoFailure \<or> ss_driverFailure x = InterruptException \<and> ss_interruptInvoked x)"

definition start_succeeded :: "lane_session \<Rightarrow> bool" where
  "start_succeeded x \<longleftrightarrow> ss_startInvoked x \<and> ss_startReturned x \<and> ss_startResult x = 0"

definition session_running :: "lane_session \<Rightarrow> bool" where
  "session_running x \<longleftrightarrow> start_succeeded x \<and> ss_phase x = Running \<and> \<not> ss_cancellationRequested x \<and> \<not> ss_interruptInvoked x \<and>
     \<not> ss_stopScheduled x \<and> \<not> ss_stopInvoked x \<and> \<not> ss_stopCompleted x \<and> ss_driverFailure x = NoFailure"

definition stopping :: "lane_session \<Rightarrow> bool" where
  "stopping x \<longleftrightarrow> start_succeeded x \<and> ss_phase x = Stopping \<and> ss_cancellationRequested x \<and> ss_stopScheduled x \<and>
     \<not> ss_stopCompleted x"

definition session_ended :: "lane_session \<Rightarrow> bool" where
  "session_ended x \<longleftrightarrow> isTerminal (ss_phase x) \<and> ss_startReturned x \<and> ss_stopInvoked x = ss_stopCompleted x \<and>
     (ss_stopInvoked x \<longrightarrow> start_succeeded x) \<and> (ss_interruptInvoked x \<longrightarrow> ss_startInvoked x \<and> ss_cancellationRequested x) \<and>
     (ss_phase x = Stopped \<longrightarrow> ss_driverFailure x = NoFailure \<and> ss_cancellationRequested x \<and>
        (\<not> ss_startInvoked x \<or> ss_startResult x \<noteq> 0 \<or> ss_stopCompleted x)) \<and>
     (ss_phase x = Failed \<longrightarrow> ss_startInvoked x \<and> (ss_driverFailure x \<noteq> NoFailure \<or> ss_startResult x \<noteq> 0)) \<and>
     (start_succeeded x \<longrightarrow> ss_stopCompleted x)"

definition admits :: "lane_session \<Rightarrow> bool" where
  "admits x \<longleftrightarrow> ss_admissionOpen x = (ss_phase x = Starting \<or> ss_phase x = Running)"

text \<open>The worker, the queues and the stage agree.\<close>

definition on_lane :: "worker_place \<Rightarrow> lane_owner \<Rightarrow> nat \<Rightarrow> lane_session \<Rightarrow> bool" where
  "on_lane w o1 r x \<longleftrightarrow>
     (case w of
        WIdle \<Rightarrow> (if mo_pendingStart o1 \<noteq> None then mo_pendingStart o1 = Some r \<and> mo_pendingStop o1 = None \<and> unstarted x
          else if mo_pendingStop o1 \<noteq> None then mo_pendingStop o1 = Some r \<and> stopping x \<and> \<not> ss_stopInvoked x
          else session_running x \<or> session_ended x)
      | WTaken (StartJob q) \<Rightarrow> q = r \<and> unstarted x \<and> mo_pendingStart o1 = None \<and> mo_pendingStop o1 = None
      | WStarting q \<Rightarrow> q = r \<and> in_start x \<and> \<not> ss_startInterruptible x \<and> mo_pendingStart o1 = None \<and> mo_pendingStop o1 = None
      | WInStart q \<Rightarrow> q = r \<and> in_start x \<and> mo_pendingStart o1 = None \<and> mo_pendingStop o1 = None
      | WStarted q res \<Rightarrow> q = r \<and> in_start x \<and> mo_pendingStart o1 = None \<and> mo_pendingStop o1 = None
      | WTaken (StopJob q) \<Rightarrow> q = r \<and> stopping x \<and> \<not> ss_stopInvoked x \<and> mo_pendingStart o1 = None \<and> mo_pendingStop o1 = None
      | WWaits q \<Rightarrow> q = r \<and> stopping x \<and> \<not> ss_stopInvoked x \<and> mo_pendingStart o1 = None \<and> mo_pendingStop o1 = None
      | WStopping q \<Rightarrow> q = r \<and> stopping x \<and> ss_stopInvoked x \<and> mo_pendingStart o1 = None \<and> mo_pendingStop o1 = None
      | WInStop q \<Rightarrow> q = r \<and> stopping x \<and> ss_stopInvoked x \<and> mo_pendingStart o1 = None \<and> mo_pendingStop o1 = None
      | WStopped q threw \<Rightarrow> q = r \<and> stopping x \<and> ss_stopInvoked x \<and> mo_pendingStart o1 = None \<and> mo_pendingStop o1 = None
      | WExited \<Rightarrow> False)"

definition driver_operations :: "worker_place \<Rightarrow> nat" where
  "driver_operations w = (case w of WStarting q \<Rightarrow> 1 | WInStart q \<Rightarrow> 1 | WStarted q res \<Rightarrow> 1
     | WStopping q \<Rightarrow> 1 | WInStop q \<Rightarrow> 1 | WStopped q threw \<Rightarrow> 1 | _ \<Rightarrow> 0)"

text \<open>The counters of the active session count what is in flight, all of it its own.\<close>

definition counted :: "worker_place \<Rightarrow> interrupt list \<Rightarrow> (nat \<times> lease_kind) list \<Rightarrow> nat \<Rightarrow> lane_session \<Rightarrow> bool" where
  "counted w ins ls r x \<longleftrightarrow>
     ss_callbackLeases x = count_list ls (r, Callback) \<and> ss_workerLeases x = count_list ls (r, Worker) \<and>
     ss_controlOperations x = driver_operations w + length ins \<and>
     fst ` set ls \<subseteq> {r} \<and> in_session ` set ins \<subseteq> {r} \<and> length ins \<le> 1 \<and> 
     (ins \<noteq> [] \<longrightarrow> ss_interruptInvoked x \<and> \<not> ss_stopInvoked x) \<and> (ss_stopInvoked x \<longrightarrow> ls = []) \<and>
     (\<forall>i \<in> set ins. in_result i = None \<or> in_called i)"

definition lane_inv :: "lane \<Rightarrow> bool" where
  "lane_inv l \<longleftrightarrow>
     (case mo_active (la_owner l) of
        None \<Rightarrow> mo_pendingStart (la_owner l) = None \<and> mo_pendingStop (la_owner l) = None \<and>
          (la_worker l = WIdle \<or> la_worker l = WExited) \<and> la_interrupts l = [] \<and> la_leases l = []
      | Some r \<Rightarrow> Suc r = length (mo_sessions (la_owner l)) \<and> \<not> mo_shuttingDown (la_owner l) \<and>
          on_lane (la_worker l) (la_owner l) r (session_at (la_owner l) r) \<and>
          admits (session_at (la_owner l) r) \<and> counted (la_worker l) (la_interrupts l) (la_leases l) r (session_at (la_owner l) r)) \<and>
     (la_worker l = WExited \<longrightarrow> mo_shuttingDown (la_owner l)) \<and>
     (\<forall>q < length (mo_sessions (la_owner l)). mo_active (la_owner l) \<noteq> Some q \<longrightarrow> session_ended (session_at (la_owner l) q))"

end
