(* ===== verification/Moonlight_Lane.thy ===== *)
theory Moonlight_Lane
  imports Moonlight_Session
begin

text \<open>
  The invariant of the Moonlight lane: worker, queues and counters agree with the stage of the active
  session, the sessions before it have ended, and every step keeps this (\<open>lane_inv_step\<close>,
  \<open>reachable_inv\<close>). \<open>flags\<close> is what a history depends on of a session.
\<close>

section \<open>The stages are kept\<close>

named_theorems stage_defs

lemmas [stage_defs] = not_cancelled_or_stopping_def unstarted_def in_start_def start_succeeded_def session_running_def stopping_def
  session_ended_def admits_def isTerminal_def

lemma set_session_simps [simp]:
  "mo_active (set_session r x o1) = mo_active o1" "mo_pendingStart (set_session r x o1) = mo_pendingStart o1"
  "mo_pendingStop (set_session r x o1) = mo_pendingStop o1" "mo_shuttingDown (set_session r x o1) = mo_shuttingDown o1"
  "mo_sessions (set_session r x o1) = (mo_sessions o1)[r := x]"
  by (simp_all add: set_session_def)

lemma lane_inv_active:
  assumes "lane_inv l" "mo_active (la_owner l) = Some r"
  shows "Suc r = length (mo_sessions (la_owner l))" "\<not> mo_shuttingDown (la_owner l)" "la_worker l \<noteq> WExited"
    "on_lane (la_worker l) (la_owner l) r (session_at (la_owner l) r)" "admits (session_at (la_owner l) r)"
    "counted (la_worker l) (la_interrupts l) (la_leases l) r (session_at (la_owner l) r)"
    "\<forall>q < length (mo_sessions (la_owner l)). q \<noteq> r \<longrightarrow> session_ended (session_at (la_owner l) q)"
  using assms by (auto simp: lane_inv_def)

lemma active_update:
  assumes "lane_inv l" "mo_active (la_owner l) = Some r" "mo_active (la_owner l') = Some r"
    "mo_sessions (la_owner l') = (mo_sessions (la_owner l))[r := x]" "\<not> mo_shuttingDown (la_owner l')"
    "on_lane (la_worker l') (la_owner l') r x" "admits x" "counted (la_worker l') (la_interrupts l') (la_leases l') r x"
  shows "lane_inv l'"
proof -
  have "la_worker l' \<noteq> WExited" using assms(6) by (auto simp: on_lane_def)
  moreover have "Suc r = length (mo_sessions (la_owner l))" using lane_inv_active [OF assms(1,2)] by simp
  ultimately show ?thesis using assms lane_inv_active(7) [OF assms(1,2)] by (auto simp: lane_inv_def nth_list_update)
qed

text \<open>A terminal session is reaped only when nothing of it is left.\<close>

lemma on_lane_terminal:
  "on_lane w o1 r x \<Longrightarrow> isTerminal (ss_phase x) \<Longrightarrow>
     w = WIdle \<and> mo_pendingStart o1 = None \<and> mo_pendingStop o1 = None \<and> session_ended x"
  by (auto simp: on_lane_def stage_defs split: worker_place.splits worker_job.splits if_splits)

lemma no_leases:
  assumes "count_list ls (r, Callback) = 0" "count_list ls (r, Worker) = 0" "fst ` set ls \<subseteq> {r}"
  shows "ls = []"
proof (rule ccontr)
  assume "ls \<noteq> []"
  then obtain q kind where "(q, kind) \<in> set ls" by (metis list.set_intros(1) neq_Nil_conv surj_pair)
  moreover from this have "q = r" using assms(3) by auto
  ultimately show False using assms(1,2) by (cases kind) (auto simp: count_list_0_iff)
qed

lemma reap_keeps:
  assumes "lane_inv l"
  shows "lane_inv (l\<lparr>la_owner := reapActiveLocked r (la_owner l)\<rparr>)"
proof (cases "reapActiveLocked r (la_owner l) = la_owner l")
  case True
  then show ?thesis using assms by simp
next
  case False
  let ?x = "session_at (la_owner l) r"
  have reap: "mo_active (la_owner l) = Some r" "isTerminal (ss_phase ?x)" "ss_callbackLeases ?x = 0" "ss_workerLeases ?x = 0"
    "ss_controlOperations ?x = 0"
    "reapActiveLocked r (la_owner l) = (la_owner l)\<lparr>mo_lastTerminal := snapshotStateLocked ?x, mo_active := None\<rparr>"
    using False by (auto simp: reapActiveLocked_def Let_def split: if_splits)
  note act = lane_inv_active [OF assms reap(1)]
  have "la_interrupts l = []" "la_leases l = []"
    using act(6) reap no_leases [of "la_leases l" r] by (simp_all add: counted_def)
  then show ?thesis using on_lane_terminal [OF act(4) reap(2)] act(7) reap(1) by (auto simp: lane_inv_def reap(6))
qed

text \<open>The log is not looked at.\<close>

lemma lane_inv_cong:
  "la_owner l = la_owner l' \<Longrightarrow> la_worker l = la_worker l' \<Longrightarrow> la_interrupts l = la_interrupts l' \<Longrightarrow>
     la_leases l = la_leases l' \<Longrightarrow> lane_inv l = lane_inv l'"
  by (simp add: lane_inv_def split: option.split)

lemma reap_update:
  assumes "lane_inv l" "la_owner l' = reapActiveLocked r (la_owner l)" "la_worker l' = la_worker l"
    "la_interrupts l' = la_interrupts l" "la_leases l' = la_leases l"
  shows "lane_inv l'"
  using reap_keeps [OF assms(1), of r] lane_inv_cong [of l' "l\<lparr>la_owner := reapActiveLocked r (la_owner l)\<rparr>"] assms(2-5)
  by simp

lemma log_irrelevant [simp]: "lane_inv (l\<lparr>la_log := g\<rparr>) = lane_inv l"
  by (simp add: lane_inv_def split: option.split)

text \<open>The critical sections of the clients.\<close>

lemma reap_active_keeps: "lane_inv l \<Longrightarrow> lane_inv (l\<lparr>la_owner := reap_active (la_owner l)\<rparr>)"
  using reap_keeps by (simp add: reap_active_def split: option.split)

lemma start_keeps:
  assumes "lane_inv l" "owner_start sid gen ok (la_owner l) = ((st, k), o2)"
  shows "lane_inv (l\<lparr>la_owner := o2\<rparr>)"
proof -
  let ?o = "reap_active (la_owner l)"
  have inv: "lane_inv (l\<lparr>la_owner := ?o\<rparr>)" using reap_active_keeps assms(1) .
  consider "o2 = la_owner l" | "o2 = ?o"
    | "mo_active ?o = None" "\<not> mo_shuttingDown (la_owner l)"
      "o2 = ?o\<lparr>mo_nextOwnerToken := mo_nextOwnerToken ?o + 1, mo_sessions := mo_sessions ?o @ [fresh_session k],
         mo_active := Some (length (mo_sessions ?o)), mo_pendingStart := Some (length (mo_sessions ?o))\<rparr>"
  proof (cases "sid = 0 \<or> gen = 0 \<or> \<not> ok \<or> mo_shuttingDown (la_owner l)")
    case True
    then have "o2 = la_owner l" using assms(2) by (auto simp: owner_start_def split: if_splits)
    then show ?thesis using that(1) by blast
  next
    case asked: False
    show ?thesis
    proof (cases "mo_active ?o \<noteq> None \<or> mo_nextOwnerToken ?o = 0")
      case True
      then have "o2 = ?o" using assms(2) asked by (simp add: owner_start_def Let_def split: if_splits)
      then show ?thesis using that(2) by blast
    next
      case False
      then show ?thesis using assms(2) asked that(3) by (auto simp: owner_start_def Let_def)
    qed
  qed
  then show ?thesis
  proof cases
    case 1
    then show ?thesis using assms(1) by simp
  next
    case 2
    then show ?thesis using inv by simp
  next
    case 3
    have shut: "mo_shuttingDown ?o = mo_shuttingDown (la_owner l)"
      by (simp add: reap_active_def reapActiveLocked_def Let_def split: option.split)
    have idle: "la_worker l = WIdle" "la_interrupts l = []" "la_leases l = []" "mo_pendingStop ?o = None"
      and old: "\<forall>q < length (mo_sessions ?o). session_ended (session_at ?o q)"
      using inv 3 shut by (auto simp: lane_inv_def)
    have o2: "mo_active o2 = Some (length (mo_sessions ?o))" "mo_pendingStart o2 = Some (length (mo_sessions ?o))"
      "mo_pendingStop o2 = None" "mo_sessions o2 = mo_sessions ?o @ [fresh_session k]" "\<not> mo_shuttingDown o2"
      using idle 3 shut by simp_all
    have "unstarted (fresh_session k)" "admits (fresh_session k)" "counted WIdle [] [] r (fresh_session k)" for r
      by (simp_all add: fresh_session_def counted_def driver_operations_def stage_defs)
    then show ?thesis using idle old o2 by (auto simp: lane_inv_def on_lane_def nth_append less_Suc_eq)
  qed
qed

lemma active_set_pending:
  assumes "lane_inv l" "mo_active (la_owner l) = Some r"
    "la_owner l' = (set_session r x (la_owner l))\<lparr>mo_pendingStop := p\<rparr>"
    "on_lane (la_worker l') (la_owner l') r x" "admits x" "counted (la_worker l') (la_interrupts l') (la_leases l') r x"
  shows "lane_inv l'"
  by (rule active_update [OF assms(1,2), of _ x])
    (use assms lane_inv_active(2) [OF assms(1,2)] in simp_all)

lemma active_set:
  assumes "lane_inv l" "mo_active (la_owner l) = Some r" "la_owner l' = set_session r x (la_owner l)"
    "on_lane (la_worker l') (la_owner l') r x" "admits x" "counted (la_worker l') (la_interrupts l') (la_leases l') r x"
  shows "lane_inv l'"
  by (rule active_update [OF assms(1,2), of _ x])
    (use assms lane_inv_active(2) [OF assms(1,2)] in simp_all)

lemma pending_same [simp]: "(set_session r x o1)\<lparr>mo_pendingStop := mo_pendingStop o1\<rparr> = set_session r x o1"
  by (simp add: set_session_def)

lemma cancel_stage:
  assumes "on_lane w o1 r (session_at o1 r)" "admits (session_at o1 r)" "counted w ins ls r (session_at o1 r)"
    "\<not> isTerminal (ss_phase (session_at o1 r))" "cancel_session r o1 = (b, o2)"
  shows "\<exists>x p. o2 = (set_session r x o1)\<lparr>mo_pendingStop := p\<rparr> \<and> on_lane w o2 r x \<and> admits x \<and>
    counted w (if b then byStart r False # ins else ins) ls r x"
proof -
  let ?x = "(session_at o1 r)\<lparr>ss_cancellationRequested := True, ss_admissionOpen := False\<rparr>"
  have phases: "ss_phase ?x = Starting \<or> ss_phase ?x = Running \<or> ss_phase ?x = Stopping"
    using assms(1,4) by (auto simp: on_lane_def stage_defs split: worker_place.splits worker_job.splits if_splits)
  consider (interrupt) "ss_phase ?x = Starting" "ss_startInvoked ?x" "ss_startInterruptible ?x" "\<not> ss_interruptInvoked ?x"
      "b" "o2 = set_session r (?x\<lparr>ss_phase := Stopping, ss_interruptInvoked := True,
        ss_controlOperations := ss_controlOperations ?x + 1\<rparr>) o1"
    | (mark) "ss_phase ?x = Starting" "\<not> (ss_startInvoked ?x \<and> ss_startInterruptible ?x \<and> \<not> ss_startReturned ?x \<and> \<not> ss_interruptInvoked ?x)"
      "\<not> b" "o2 = set_session r (?x\<lparr>ss_phase := Stopping\<rparr>) o1"
    | (schedule) "ss_phase ?x = Running" "\<not> ss_stopScheduled ?x" "\<not> b"
      "o2 = (set_session r (?x\<lparr>ss_phase := Stopping, ss_stopScheduled := True\<rparr>) o1)\<lparr>mo_pendingStop := Some r\<rparr>"
    | (scheduled) "ss_phase ?x = Running" "ss_stopScheduled ?x"
    | (again) "ss_phase ?x = Stopping" "\<not> b" "o2 = set_session r ?x o1"
    using phases assms(5) by (auto simp: cancel_session_def Let_def split: if_splits)
  then show ?thesis
  proof cases
    case interrupt
    let ?y = "?x\<lparr>ss_phase := Stopping, ss_interruptInvoked := True, ss_controlOperations := ss_controlOperations ?x + 1\<rparr>"
    have "on_lane w o2 r ?y" "admits ?y" "counted w (byStart r False # ins) ls r ?y"
      using assms(1-3) interrupt by (auto simp: on_lane_def counted_def byStart_def stage_defs split: worker_place.splits worker_job.splits if_splits)
    then show ?thesis using interrupt by (intro exI [of _ ?y] exI [of _ "mo_pendingStop o1"]) simp
  next
    case mark
    let ?y = "?x\<lparr>ss_phase := Stopping\<rparr>"
    have "on_lane w o2 r ?y" "admits ?y" "counted w ins ls r ?y"
      using assms(1-3) mark by (auto simp: on_lane_def counted_def stage_defs split: worker_place.splits worker_job.splits if_splits)
    then show ?thesis using mark by (intro exI [of _ ?y] exI [of _ "mo_pendingStop o1"]) simp
  next
    case schedule
    let ?y = "?x\<lparr>ss_phase := Stopping, ss_stopScheduled := True\<rparr>"
    have "on_lane w o2 r ?y" "admits ?y" "counted w ins ls r ?y"
      using assms(1-3) schedule by (auto simp: on_lane_def counted_def stage_defs split: worker_place.splits worker_job.splits if_splits)
    then show ?thesis using schedule by (intro exI [of _ ?y] exI [of _ "Some r"]) simp
  next
    case scheduled
    then show ?thesis using assms(1) by (auto simp: on_lane_def stage_defs split: worker_place.splits worker_job.splits if_splits)
  next
    case again
    have "on_lane w o2 r ?x" "admits ?x" "counted w ins ls r ?x"
      using assms(1-3) again by (auto simp: on_lane_def counted_def stage_defs split: worker_place.splits worker_job.splits if_splits)
    then show ?thesis using again by (intro exI [of _ ?x] exI [of _ "mo_pendingStop o1"]) simp
  qed
qed

lemmas stage_splits = worker_place.splits worker_job.splits if_splits

lemma count_remove1: "a \<in> set ls \<Longrightarrow> count_list (remove1 a ls) b = (if a = b then count_list ls b - 1 else count_list ls b)"
proof (induction ls)
  case (Cons c ls)
  then show ?case by (cases "c = a") (auto simp: count_list_0_iff)
qed simp

lemma acquire_keeps:
  assumes "lane_inv l" "owner_acquire k kind (la_owner l) = (Some r, o2)"
  shows "mo_active (la_owner l) = Some r" "lane_inv (l\<lparr>la_owner := o2, la_leases := (r, kind) # la_leases l\<rparr>)"
    "ss_phase (session_at (la_owner l) r) = Starting \<or> ss_phase (session_at (la_owner l) r) = Running"
proof -
  let ?x = "session_at (la_owner l) r"
  show active: "mo_active (la_owner l) = Some r"
    using assms(2) by (auto simp: owner_acquire_def Let_def split: if_splits option.splits)
  define y where "y = (case kind of Callback \<Rightarrow> ?x\<lparr>ss_callbackLeases := ss_callbackLeases ?x + 1\<rparr>
    | Worker \<Rightarrow> ?x\<lparr>ss_workerLeases := ss_workerLeases ?x + 1\<rparr>)"
  show "ss_phase ?x = Starting \<or> ss_phase ?x = Running"
    using assms(2) active by (auto simp: owner_acquire_def Let_def split: if_splits)
  have o2: "o2 = set_session r y (la_owner l)"
    using assms(2) active by (auto simp: owner_acquire_def Let_def y_def split: if_splits)
  note act = lane_inv_active [OF assms(1) active]
  have "on_lane (la_worker l) o2 r y" using act(4) unfolding o2 y_def
    by (cases kind) (auto simp: on_lane_def stage_defs split: stage_splits)
  moreover have "admits y" using act(5) unfolding y_def by (cases kind) (auto simp: admits_def)
  moreover have "\<not> ss_stopInvoked ?x"
    using act(4) \<open>ss_phase ?x = Starting \<or> ss_phase ?x = Running\<close> by (auto simp: on_lane_def stage_defs split: stage_splits)
  then have "counted (la_worker l) (la_interrupts l) ((r, kind) # la_leases l) r y"
    using act(6) unfolding y_def by (cases kind) (auto simp: counted_def)
  ultimately show "lane_inv (l\<lparr>la_owner := o2, la_leases := (r, kind) # la_leases l\<rparr>)"
    by (intro active_set [OF assms(1) active, where x = y]) (simp_all add: o2)
qed

lemma acquire_refused: "owner_acquire k kind o1 = (None, o2) \<Longrightarrow> o2 = o1"
  by (auto simp: owner_acquire_def Let_def split: if_splits option.splits)

lemma release_keeps:
  assumes "lane_inv l" "(r, kind) \<in> set (la_leases l)"
  shows "lane_inv (l\<lparr>la_owner := releaseAdmission r kind (la_owner l), la_leases := remove1 (r, kind) (la_leases l)\<rparr>)"
proof -
  obtain q where active: "mo_active (la_owner l) = Some q" using assms by (auto simp: lane_inv_def split: option.splits)
  note act = lane_inv_active [OF assms(1) active]
  have q: "q = r" using act(6) assms(2) by (auto simp: counted_def)
  let ?x = "session_at (la_owner l) r"
  define y where "y = (case kind of
      Callback \<Rightarrow> if ss_callbackLeases ?x \<noteq> 0 then ?x\<lparr>ss_callbackLeases := ss_callbackLeases ?x - 1\<rparr> else ?x
    | Worker \<Rightarrow> if ss_workerLeases ?x \<noteq> 0 then ?x\<lparr>ss_workerLeases := ss_workerLeases ?x - 1\<rparr> else ?x)"
  let ?o = "set_session r y (la_owner l)"
  have "on_lane (la_worker l) ?o r y" using act(4) unfolding y_def q
    by (cases kind) (auto simp: on_lane_def stage_defs split: stage_splits)
  moreover have "admits y" using act(5) unfolding y_def q by (cases kind) (auto simp: admits_def)
  moreover have "counted (la_worker l) (la_interrupts l) (remove1 (r, kind) (la_leases l)) r y"
    using act(6) assms(2) set_remove1_subset [of "(r, kind)" "la_leases l"] unfolding y_def q
    by (cases kind) (auto simp: counted_def count_remove1)
  ultimately have "lane_inv (l\<lparr>la_owner := ?o, la_leases := remove1 (r, kind) (la_leases l)\<rparr>)"
    by (intro active_set [OF assms(1) active [unfolded q], where x = y]) simp_all
  then show ?thesis by (rule reap_update) (simp_all add: releaseAdmission_def Let_def y_def)
qed

lemma mark_keeps:
  assumes "lane_inv l" "la_worker l = WInStart r" "markStartInterruptible r (la_owner l) = ((res, b), o2)"
  shows "lane_inv (l\<lparr>la_owner := o2, la_interrupts := (if b then byStart r True # la_interrupts l else la_interrupts l)\<rparr>)"
proof -
  obtain q where active: "mo_active (la_owner l) = Some q" using assms by (auto simp: lane_inv_def split: option.splits)
  note act = lane_inv_active [OF assms(1) active]
  have q: "q = r" using act(4) assms(2) by (auto simp: on_lane_def)
  let ?x = "(session_at (la_owner l) r)\<lparr>ss_startInterruptible := True\<rparr>"
  have stage: "in_start (session_at (la_owner l) r)" using act(4) assms(2) q by (simp add: on_lane_def)
  define y where "y = (if b then ?x\<lparr>ss_interruptInvoked := True, ss_controlOperations := ss_controlOperations ?x + 1\<rparr> else ?x)"
  have b: "b = (ss_cancellationRequested ?x \<and> \<not> ss_interruptInvoked ?x)"
    and o2: "o2 = set_session r y (la_owner l)"
    using assms(3) active q stage by (auto simp: markStartInterruptible_def Let_def y_def stage_defs split: if_splits)
  have "on_lane (la_worker l) o2 r y" using act(4) assms(2) unfolding o2 y_def b q
    by (auto simp: on_lane_def stage_defs)
  moreover have "admits y" using act(5) unfolding y_def q by (auto simp: admits_def)
  moreover have "counted (la_worker l) (if b then byStart r True # la_interrupts l else la_interrupts l) (la_leases l) r y"
    using act(6) stage unfolding y_def q by (auto simp: counted_def byStart_def b stage_defs)
  ultimately show ?thesis by (intro active_set [OF assms(1) active [unfolded q], where x = y]) (simp_all add: o2)
qed

lemma interrupt_call_keeps:
  assumes "lane_inv l" "i \<in> set (la_interrupts l)"
  shows "lane_inv (l\<lparr>la_interrupts := i\<lparr>in_called := True\<rparr> # remove1 i (la_interrupts l)\<rparr>)"
proof -
  obtain r where active: "mo_active (la_owner l) = Some r" using assms by (auto simp: lane_inv_def split: option.splits)
  note act = lane_inv_active [OF assms(1) active]
  have "counted (la_worker l) (i\<lparr>in_called := True\<rparr> # remove1 i (la_interrupts l)) (la_leases l) r (session_at (la_owner l) r)"
    using act(6) assms(2) set_remove1_subset [of i "la_interrupts l"]
    by (cases "la_interrupts l") (auto simp: counted_def length_remove1)
  then show ?thesis using assms(1) active by (auto simp: lane_inv_def)
qed

lemma interrupt_returned_keeps:
  assumes "lane_inv l" "i \<in> set (la_interrupts l)" "in_called i"
  shows "lane_inv (l\<lparr>la_interrupts := i\<lparr>in_result := Some threw\<rparr> # remove1 i (la_interrupts l)\<rparr>)"
proof -
  obtain r where active: "mo_active (la_owner l) = Some r" using assms by (auto simp: lane_inv_def split: option.splits)
  note act = lane_inv_active [OF assms(1) active]
  have "counted (la_worker l) (i\<lparr>in_result := Some threw\<rparr> # remove1 i (la_interrupts l)) (la_leases l) r (session_at (la_owner l) r)"
    using act(6) assms(2,3) set_remove1_subset [of i "la_interrupts l"]
    by (cases "la_interrupts l") (auto simp: counted_def length_remove1)
  then show ?thesis using assms(1) active by (auto simp: lane_inv_def)
qed

lemma on_lane_interrupted:
  assumes "on_lane w o1 r x" "\<not> isTerminal (ss_phase x)" "ss_interruptInvoked x"
    "f = InterruptException \<or> f = ss_driverFailure x" "mo_pendingStart o2 = mo_pendingStart o1" "mo_pendingStop o2 = mo_pendingStop o1"
  shows "on_lane w o2 r (x\<lparr>ss_controlOperations := c, ss_driverFailure := f, ss_phase := ss_phase x\<rparr>)"
proof -
  have "unstarted x \<Longrightarrow> False" "session_running x \<Longrightarrow> False" "session_ended x \<Longrightarrow> False"
    using assms(2,3) by (auto simp: stage_defs)
  moreover have "in_start x \<Longrightarrow> in_start (x\<lparr>ss_controlOperations := c, ss_driverFailure := f, ss_phase := ss_phase x\<rparr>)"
    using assms(3,4) by (auto simp: stage_defs)
  moreover have "stopping x \<Longrightarrow> stopping (x\<lparr>ss_controlOperations := c, ss_driverFailure := f, ss_phase := ss_phase x\<rparr>)"
    by (simp add: stage_defs)
  ultimately show ?thesis using assms(1,5,6) by (auto simp: on_lane_def split: stage_splits)
qed

lemma ended_interrupted:
  assumes "session_ended x" "ss_interruptInvoked x"
    "y = x\<lparr>ss_controlOperations := c, ss_driverFailure := f, ss_phase := p\<rparr>"
    "f = ss_driverFailure x \<and> p = ss_phase x \<or> f \<noteq> NoFailure \<and> p = Failed"
  shows "session_ended y"
proof -
  have y: "ss_phase y = p" "ss_startReturned y = ss_startReturned x" "ss_stopInvoked y = ss_stopInvoked x"
    "ss_stopCompleted y = ss_stopCompleted x" "ss_interruptInvoked y = ss_interruptInvoked x"
    "ss_startInvoked y = ss_startInvoked x" "ss_driverFailure y = f" "ss_cancellationRequested y = ss_cancellationRequested x"
    "ss_startResult y = ss_startResult x" by (simp_all add: assms(3))
  show ?thesis using assms(4)
  proof (elim disjE conjE)
    assume same: "f = ss_driverFailure x" "p = ss_phase x"
    show ?thesis using assms(1) unfolding session_ended_def start_succeeded_def isTerminal_def y same .
  next
    assume failed: "f \<noteq> NoFailure" "p = Failed"
    show ?thesis using assms(1,2) failed(1) unfolding session_ended_def start_succeeded_def isTerminal_def y failed(2)
      by (simp only: session_phase.distinct simp_thms) blast
  qed
qed

lemma interrupt_record_keeps:
  assumes "lane_inv l" "i \<in> set (la_interrupts l)"
  shows "lane_inv (l\<lparr>la_owner := interrupt_finish (in_session i) threw (la_owner l), la_interrupts := remove1 i (la_interrupts l)\<rparr>)"
proof -
  obtain r where active: "mo_active (la_owner l) = Some r" using assms by (auto simp: lane_inv_def split: option.splits)
  note act = lane_inv_active [OF assms(1) active]
  have i: "in_session i = r" "la_interrupts l = [i]"
    using act(6) assms(2) by (cases "la_interrupts l"; auto simp: counted_def)+
  let ?x = "session_at (la_owner l) r"
  have invoked: "ss_interruptInvoked ?x" and control: "ss_controlOperations ?x \<noteq> 0"
    using act(6) i by (simp_all add: counted_def)
  define f where "f = (if threw \<and> ss_driverFailure ?x = NoFailure then InterruptException else ss_driverFailure ?x)"
  define p where "p = (if threw \<and> isTerminal (ss_phase ?x) then Failed else ss_phase ?x)"
  define y where "y = ?x\<lparr>ss_controlOperations := ss_controlOperations ?x - 1, ss_driverFailure := f, ss_phase := p\<rparr>"
  have finish: "interrupt_finish r threw (la_owner l) = reapActiveLocked r (set_session r y (la_owner l))"
  proof -
    have "interrupt_finish r threw (la_owner l) = reapActiveLocked r (set_session r
        (let x2 = (if threw \<and> ss_driverFailure ?x = NoFailure
            then ?x\<lparr>ss_controlOperations := ss_controlOperations ?x - 1, ss_driverFailure := InterruptException\<rparr>
            else ?x\<lparr>ss_controlOperations := ss_controlOperations ?x - 1\<rparr>)
         in if threw \<and> isTerminal (ss_phase x2) then x2\<lparr>ss_phase := Failed\<rparr> else x2) (la_owner l))"
      using control by (simp add: interrupt_finish_def Let_def)
    also have "(let x2 = (if threw \<and> ss_driverFailure ?x = NoFailure
            then ?x\<lparr>ss_controlOperations := ss_controlOperations ?x - 1, ss_driverFailure := InterruptException\<rparr>
            else ?x\<lparr>ss_controlOperations := ss_controlOperations ?x - 1\<rparr>)
         in if threw \<and> isTerminal (ss_phase x2) then x2\<lparr>ss_phase := Failed\<rparr> else x2) = y"
      by (simp add: Let_def y_def f_def p_def)
    finally show ?thesis .
  qed
  have f: "f = InterruptException \<and> threw \<or> f = ss_driverFailure ?x \<and> \<not> (threw \<and> ss_driverFailure ?x = NoFailure)" by (auto simp: f_def)
  let ?o = "set_session r y (la_owner l)"
  have lane: "on_lane (la_worker l) ?o r y"
  proof (cases "isTerminal (ss_phase ?x)")
    case True
    then have "session_ended y" using on_lane_terminal [OF act(4) True] ended_interrupted [OF _ invoked y_def] f True
      by (auto simp: f_def p_def)
    then show ?thesis using on_lane_terminal [OF act(4) True] by (simp add: on_lane_def)
  next
    case False
    then have "p = ss_phase ?x" by (simp add: p_def)
    then show ?thesis using on_lane_interrupted [OF act(4) False invoked, of f ?o] f unfolding y_def by auto
  qed
  moreover have "admits y" using act(5) unfolding y_def p_def by (auto simp: admits_def isTerminal_def)
  moreover have "counted (la_worker l) [] (la_leases l) r y" using act(6) i unfolding y_def by (auto simp: counted_def)
  ultimately have "lane_inv (l\<lparr>la_owner := ?o, la_interrupts := []\<rparr>)"
    by (intro active_set [OF assms(1) active, where x = y]) simp_all
  then show ?thesis by (rule reap_update) (simp_all add: finish i)
qed

text \<open>The worker.\<close>

lemma worker_active:
  "lane_inv l \<Longrightarrow> la_worker l \<noteq> WIdle \<Longrightarrow> la_worker l \<noteq> WExited \<Longrightarrow> \<exists>r. mo_active (la_owner l) = Some r"
  by (auto simp: lane_inv_def split: option.splits)

lemma take_keeps:
  assumes "lane_inv l" "la_worker l = WIdle" "worker_take (la_owner l) = (Some j, o2)"
  shows "lane_inv (l\<lparr>la_owner := o2, la_worker := WTaken j\<rparr>)"
proof -
  obtain r where active: "mo_active (la_owner l) = Some r"
    using assms(1,3) by (auto simp: lane_inv_def worker_take_def split: option.splits)
  note act = lane_inv_active [OF assms(1) active]
  let ?x = "session_at (la_owner l) r"
  have job: "on_lane (WTaken j) o2 r ?x" "mo_active o2 = Some r" "mo_sessions o2 = mo_sessions (la_owner l)" "\<not> mo_shuttingDown o2"
    using assms(2,3) act(2,4) active by (auto simp: on_lane_def worker_take_def split: option.splits if_splits)
  have "counted (WTaken j) (la_interrupts l) (la_leases l) r ?x"
    using act(6) assms(2) by (simp add: counted_def driver_operations_def)
  then show ?thesis using job act(5) by (intro active_update [OF assms(1) active, where x = "?x"]) simp_all
qed

lemma enter_start_keeps:
  assumes "lane_inv l" "la_worker l = WTaken (StartJob q)" "start_enter q (la_owner l) = (go, o2)"
  shows "lane_inv (l\<lparr>la_owner := o2, la_worker := (if go then WStarting q else WIdle)\<rparr>)"
    "mo_active (la_owner l) = Some q" "unstarted (session_at (la_owner l) q)"
    "go \<longleftrightarrow> \<not> ss_cancellationRequested (session_at (la_owner l) q)"
proof -
  obtain r where active: "mo_active (la_owner l) = Some r" using worker_active [OF assms(1)] assms(2) by auto
  note act = lane_inv_active [OF assms(1) active]
  have stage: "q = r" "unstarted (session_at (la_owner l) r)" "mo_pendingStart (la_owner l) = None" "mo_pendingStop (la_owner l) = None"
    using act(4) assms(2) by (simp_all add: on_lane_def)
  let ?x = "session_at (la_owner l) r"
  show "mo_active (la_owner l) = Some q" "unstarted (session_at (la_owner l) q)" using active stage by simp_all
  show go: "go \<longleftrightarrow> \<not> ss_cancellationRequested (session_at (la_owner l) q)"
    using assms(3) stage active by (auto simp: start_enter_def Let_def stage_defs split: if_splits)
  have count: "driver_operations (WTaken (StartJob q)) = 0" by (simp add: driver_operations_def)
  show "lane_inv (l\<lparr>la_owner := o2, la_worker := (if go then WStarting q else WIdle)\<rparr>)"
  proof (cases "ss_cancellationRequested ?x")
    case True
    let ?y = "?x\<lparr>ss_admissionOpen := False, ss_startReturned := True, ss_startResult := kStartNotRun, ss_phase := Stopped\<rparr>"
    have o2: "o2 = reapActiveLocked r (set_session r ?y (la_owner l))" "\<not> go"
      using assms(3) stage active True by (auto simp: start_enter_def Let_def stage_defs split: if_splits)
    have "session_ended ?y" "admits ?y" "counted WIdle (la_interrupts l) (la_leases l) r ?y"
      using stage(2) act(6) assms(2) True by (auto simp: stage_defs counted_def driver_operations_def)
    then have "lane_inv (l\<lparr>la_owner := set_session r ?y (la_owner l), la_worker := WIdle\<rparr>)"
      using stage by (intro active_set [OF assms(1) active, where x = ?y]) (simp_all add: on_lane_def)
    then show ?thesis by (rule reap_update) (simp_all add: o2)
  next
    case False
    let ?y = "?x\<lparr>ss_startInvoked := True, ss_controlOperations := ss_controlOperations ?x + 1\<rparr>"
    have o2: "o2 = set_session r ?y (la_owner l)" "go"
      using assms(3) stage active False by (auto simp: start_enter_def Let_def stage_defs split: if_splits)
    have "in_start ?y" "admits ?y" "counted (WStarting q) (la_interrupts l) (la_leases l) r ?y"
      using stage(2) act(5,6) assms(2) False by (auto simp: stage_defs counted_def driver_operations_def)
    then show ?thesis using stage o2 by (intro active_set [OF assms(1) active, where x = ?y]) (simp_all add: on_lane_def unstarted_def)
  qed
qed

text \<open>The driver's calls: only the place of the worker changes.\<close>

lemma moved_keeps:
  assumes "lane_inv l" "mo_active (la_owner l) = Some r" "on_lane w (la_owner l) r (session_at (la_owner l) r)"
    "driver_operations w = driver_operations (la_worker l)"
  shows "lane_inv (l\<lparr>la_worker := w\<rparr>)"
proof -
  note act = lane_inv_active [OF assms(1,2)]
  have "counted w (la_interrupts l) (la_leases l) r (session_at (la_owner l) r)"
    using act(6) assms(4) by (simp add: counted_def)
  then show ?thesis using assms(2,3) act(2,5)
    by (intro active_update [OF assms(1,2), where x = "session_at (la_owner l) r"]) simp_all
qed

lemma call_keeps:
  assumes "lane_inv l"
  shows "la_worker l = WStarting q \<Longrightarrow> lane_inv (l\<lparr>la_worker := WInStart q\<rparr>)"
    "la_worker l = WInStart q \<Longrightarrow> lane_inv (l\<lparr>la_worker := WStarted q res\<rparr>)"
    "la_worker l = WStopping q \<Longrightarrow> lane_inv (l\<lparr>la_worker := WInStop q\<rparr>)"
    "la_worker l = WInStop q \<Longrightarrow> lane_inv (l\<lparr>la_worker := WStopped q threw\<rparr>)"
proof -
  have active: "\<exists>r. mo_active (la_owner l) = Some r" if "la_worker l \<noteq> WIdle" "la_worker l \<noteq> WExited"
    using worker_active [OF assms that] .
  show "la_worker l = WStarting q \<Longrightarrow> lane_inv (l\<lparr>la_worker := WInStart q\<rparr>)"
    "la_worker l = WInStart q \<Longrightarrow> lane_inv (l\<lparr>la_worker := WStarted q res\<rparr>)"
    "la_worker l = WStopping q \<Longrightarrow> lane_inv (l\<lparr>la_worker := WInStop q\<rparr>)"
    "la_worker l = WInStop q \<Longrightarrow> lane_inv (l\<lparr>la_worker := WStopped q threw\<rparr>)"
    using active lane_inv_active(4) [OF assms]
    by (auto intro!: moved_keeps [OF assms] simp: on_lane_def driver_operations_def)
qed

lemma record_start_keeps:
  assumes "lane_inv l" "la_worker l = WStarted q res"
  shows "lane_inv (l\<lparr>la_owner := start_leave q res (la_owner l), la_worker := WIdle\<rparr>)"
proof -
  obtain r where active: "mo_active (la_owner l) = Some r" using worker_active [OF assms(1)] assms(2) by auto
  note act = lane_inv_active [OF assms(1) active]
  have stage: "q = r" "in_start (session_at (la_owner l) r)" "mo_pendingStart (la_owner l) = None" "mo_pendingStop (la_owner l) = None"
    using act(4) assms(2) by (simp_all add: on_lane_def)
  let ?x = "session_at (la_owner l) r"
  let ?c = "ss_controlOperations ?x - 1"
  have control: "ss_controlOperations ?x \<noteq> 0" and counts: "ss_controlOperations ?x = 1 + length (la_interrupts l)"
    using act(6) assms(2) by (simp_all add: counted_def driver_operations_def)
  have counted: "counted WIdle (la_interrupts l) (la_leases l) r y"
    if "ss_callbackLeases y = ss_callbackLeases ?x" "ss_workerLeases y = ss_workerLeases ?x" "ss_controlOperations y = ?c"
      "ss_interruptInvoked y = ss_interruptInvoked ?x" "ss_stopInvoked y = ss_stopInvoked ?x" for y
    using act(6) assms(2) that counts by (simp add: counted_def driver_operations_def)
  consider (throw) "res = None" | (fails) v where "res = Some v" "v \<noteq> 0"
    | (cancelled) "res = Some 0" "ss_cancellationRequested ?x" | (runs) "res = Some 0" "\<not> ss_cancellationRequested ?x"
    by (cases res) auto
  then show ?thesis
  proof cases
    case throw
    let ?y = "?x\<lparr>ss_startReturned := True, ss_startResult := kStartNotRun, ss_controlOperations := ?c, ss_admissionOpen := False,
      ss_phase := Failed, ss_driverFailure := (if ss_driverFailure ?x = NoFailure then StartException else ss_driverFailure ?x)\<rparr>"
    have "session_ended ?y" using stage(2) by (auto simp: stage_defs kStartNotRun_def)
    moreover have "admits ?y" by (simp add: admits_def)
    ultimately have inv: "lane_inv (l\<lparr>la_owner := set_session r ?y (la_owner l), la_worker := WIdle\<rparr>)"
      using stage counted by (intro active_set [OF assms(1) active, where x = ?y]) (simp_all add: on_lane_def)
    have leave: "start_leave q res (la_owner l) = reapActiveLocked r (set_session r ?y (la_owner l))"
      using control by (cases "ss_driverFailure ?x = NoFailure"; cases "ss_cancellationRequested ?x")
        (simp_all add: start_leave_def Let_def throw stage(1))
    show ?thesis by (rule reap_update [OF inv]) (simp_all add: leave)
  next
    case fails
    let ?y = "?x\<lparr>ss_startReturned := True, ss_startResult := v, ss_controlOperations := ?c, ss_admissionOpen := False,
      ss_phase := (if ss_cancellationRequested ?x \<and> ss_driverFailure ?x = NoFailure then Stopped else Failed)\<rparr>"
    have "session_ended ?y" using stage(2) fails by (auto simp: stage_defs)
    moreover have "admits ?y" by (simp add: admits_def)
    ultimately have inv: "lane_inv (l\<lparr>la_owner := set_session r ?y (la_owner l), la_worker := WIdle\<rparr>)"
      using stage counted by (intro active_set [OF assms(1) active, where x = ?y]) (simp_all add: on_lane_def)
    have leave: "start_leave q res (la_owner l) = reapActiveLocked r (set_session r ?y (la_owner l))"
      using control by (cases "ss_driverFailure ?x = NoFailure"; cases "ss_cancellationRequested ?x")
        (simp_all add: start_leave_def Let_def fails stage(1))
    show ?thesis by (rule reap_update [OF inv]) (simp_all add: leave)
  next
    case cancelled
    let ?y = "?x\<lparr>ss_startReturned := True, ss_startResult := 0, ss_controlOperations := ?c, ss_admissionOpen := False,
      ss_phase := Stopping, ss_stopScheduled := True\<rparr>"
    have "stopping ?y \<and> \<not> ss_stopInvoked ?y" using stage(2) cancelled by (auto simp: stage_defs)
    moreover have "admits ?y" by (simp add: admits_def)
    ultimately have inv: "lane_inv (l\<lparr>la_owner := (set_session r ?y (la_owner l))\<lparr>mo_pendingStop := Some r\<rparr>, la_worker := WIdle\<rparr>)"
      using stage counted by (intro active_set_pending [OF assms(1) active, where x = ?y]) (simp_all add: on_lane_def)
    have "\<not> ss_stopScheduled ?x" using stage(2) by (simp add: stage_defs)
    then have leave: "start_leave q res (la_owner l) =
        reapActiveLocked r ((set_session r ?y (la_owner l))\<lparr>mo_pendingStop := Some r\<rparr>)"
      using control by (simp add: start_leave_def Let_def cancelled stage(1))
    show ?thesis by (rule reap_update [OF inv]) (simp_all add: leave)
  next
    case runs
    let ?y = "?x\<lparr>ss_startReturned := True, ss_startResult := 0, ss_controlOperations := ?c, ss_phase := Running\<rparr>"
    have "session_running ?y" using stage(2) runs by (auto simp: stage_defs)
    moreover have "admits ?y" using act(5) stage(2) runs by (auto simp: stage_defs)
    ultimately have inv: "lane_inv (l\<lparr>la_owner := set_session r ?y (la_owner l), la_worker := WIdle\<rparr>)"
      using stage counted by (intro active_set [OF assms(1) active, where x = ?y]) (simp_all add: on_lane_def)
    have leave: "start_leave q res (la_owner l) = reapActiveLocked r (set_session r ?y (la_owner l))"
      using control by (cases "ss_driverFailure ?x = NoFailure"; cases "ss_cancellationRequested ?x")
        (simp_all add: start_leave_def Let_def runs stage(1))
    show ?thesis by (rule reap_update [OF inv]) (simp_all add: leave)
  qed
qed

lemma enter_stop_keeps:
  assumes "lane_inv l" "la_worker l = WTaken (StopJob q)" "stop_enter q (la_owner l) = (go, o2)"
  shows "lane_inv (l\<lparr>la_owner := o2, la_worker := (if go then WWaits q else WIdle)\<rparr>)" "go" "o2 = la_owner l"
proof -
  obtain r where active: "mo_active (la_owner l) = Some r" using worker_active [OF assms(1)] assms(2) by auto
  note act = lane_inv_active [OF assms(1) active]
  have stage: "q = r" "stopping (session_at (la_owner l) r)" "\<not> ss_stopInvoked (session_at (la_owner l) r)"
    "mo_pendingStart (la_owner l) = None" "mo_pendingStop (la_owner l) = None"
    using act(4) assms(2) by (simp_all add: on_lane_def)
  show go: "go" "o2 = la_owner l" using assms(3) stage active by (auto simp: stop_enter_def Let_def stage_defs split: if_splits)
  have "counted (WWaits q) (la_interrupts l) (la_leases l) r (session_at (la_owner l) r)"
    using act(6) assms(2) by (simp add: counted_def driver_operations_def)
  then show "lane_inv (l\<lparr>la_owner := o2, la_worker := (if go then WWaits q else WIdle)\<rparr>)"
    using go stage act(2,5) active
    by (intro active_update [OF assms(1) active, where x = "session_at (la_owner l) r"]) (simp_all add: on_lane_def)
qed

lemma invoke_stop_keeps:
  assumes "lane_inv l" "la_worker l = WWaits q" "drained (session_at (la_owner l) q)"
  shows "lane_inv (l\<lparr>la_owner := stop_invoke q (la_owner l), la_worker := WStopping q\<rparr>)"
    "mo_active (la_owner l) = Some q" "stopping (session_at (la_owner l) q)" "\<not> ss_stopInvoked (session_at (la_owner l) q)"
    "la_interrupts l = []" "la_leases l = []"
proof -
  obtain r where active: "mo_active (la_owner l) = Some r" using worker_active [OF assms(1)] assms(2) by auto
  note act = lane_inv_active [OF assms(1) active]
  have stage: "q = r" "stopping (session_at (la_owner l) r)" "\<not> ss_stopInvoked (session_at (la_owner l) r)"
    "mo_pendingStart (la_owner l) = None" "mo_pendingStop (la_owner l) = None"
    using act(4) assms(2) by (simp_all add: on_lane_def)
  then show "mo_active (la_owner l) = Some q" "stopping (session_at (la_owner l) q)" "\<not> ss_stopInvoked (session_at (la_owner l) q)"
    using active by simp_all
  show idle: "la_interrupts l = []" "la_leases l = []"
    using act(6) assms(2,3) stage(1) no_leases [of "la_leases l" r] by (simp_all add: counted_def drained_def)
  let ?y = "(session_at (la_owner l) r)\<lparr>ss_stopInvoked := True, ss_controlOperations := ss_controlOperations (session_at (la_owner l) r) + 1\<rparr>"
  have "stopping ?y" "admits ?y" "counted (WStopping q) (la_interrupts l) (la_leases l) r ?y"
    using stage(2) act(5,6) assms(2) idle by (auto simp: stage_defs counted_def driver_operations_def)
  then show "lane_inv (l\<lparr>la_owner := stop_invoke q (la_owner l), la_worker := WStopping q\<rparr>)"
    using stage by (intro active_set [OF assms(1) active, where x = ?y]) (simp_all add: on_lane_def stop_invoke_def Let_def)
qed

lemma record_stop_keeps:
  assumes "lane_inv l" "la_worker l = WStopped q threw"
  shows "lane_inv (l\<lparr>la_owner := stop_leave q threw (la_owner l), la_worker := WIdle\<rparr>)"
proof -
  obtain r where active: "mo_active (la_owner l) = Some r" using worker_active [OF assms(1)] assms(2) by auto
  note act = lane_inv_active [OF assms(1) active]
  have stage: "q = r" "stopping (session_at (la_owner l) r)" "ss_stopInvoked (session_at (la_owner l) r)"
    "mo_pendingStart (la_owner l) = None" "mo_pendingStop (la_owner l) = None"
    using act(4) assms(2) by (simp_all add: on_lane_def)
  let ?x = "session_at (la_owner l) r"
  let ?z = "?x\<lparr>ss_controlOperations := ss_controlOperations ?x - 1, ss_stopCompleted := True, ss_admissionOpen := False\<rparr>"
  define y where "y = (if threw \<and> ss_driverFailure ?x = NoFailure then ?z\<lparr>ss_driverFailure := StopException, ss_phase := Failed\<rparr>
    else ?z\<lparr>ss_phase := (if ss_driverFailure ?x = NoFailure then Stopped else Failed)\<rparr>)"
  have "session_ended y" using stage(2,3) by (auto simp: stage_defs y_def)
  moreover have "admits y" by (simp add: admits_def y_def)
  moreover have "counted WIdle (la_interrupts l) (la_leases l) r y" and control: "ss_controlOperations ?x \<noteq> 0"
    using act(6) assms(2) by (simp_all add: counted_def driver_operations_def y_def)
  ultimately have inv: "lane_inv (l\<lparr>la_owner := set_session r y (la_owner l), la_worker := WIdle\<rparr>)"
    using stage by (intro active_set [OF assms(1) active, where x = y]) (simp_all add: on_lane_def)
  have leave: "stop_leave r threw (la_owner l) = reapActiveLocked r (set_session r y (la_owner l))"
    using control by (simp add: stop_leave_def Let_def y_def)
  show ?thesis by (rule reap_update [OF inv]) (simp_all add: leave stage(1))
qed

lemma requestStop_cases:
  assumes "requestStopInternal k o1 = (q, o2)"
  obtains "o2 = o1" "\<not> sq_interrupt q" "sq_status q \<noteq> StopRequested"
  | r where "o2 = reapActiveLocked r o1" "\<not> sq_interrupt q" "sq_status q \<noteq> StopRequested"
  | r where "mo_active o1 = Some r" "\<not> isTerminal (ss_phase (session_at o1 r))" "sq_state q = Some r"
      "sq_status q = StopRequested" "cancel_session r o1 = (sq_interrupt q, o2)"
  using assms by (auto simp: requestStopInternal_def refuse_stop_def split: if_splits option.splits prod.splits)

lemma request_stop_keeps:
  assumes "lane_inv l" "requestStopInternal k (la_owner l) = (q, o2)"
  shows "lane_inv (l\<lparr>la_owner := o2,
    la_interrupts := (if sq_interrupt q then byStart (the (sq_state q)) False # la_interrupts l else la_interrupts l)\<rparr>)"
  using assms(2)
proof (cases rule: requestStop_cases)
  case 1
  then show ?thesis using assms(1) by simp
next
  case (2 r)
  then show ?thesis using reap_keeps [OF assms(1), of r] by simp
next
  case (3 r)
  note act = lane_inv_active [OF assms(1) 3(1)]
  obtain x p where x: "o2 = (set_session r x (la_owner l))\<lparr>mo_pendingStop := p\<rparr>" "on_lane (la_worker l) o2 r x" "admits x"
    "counted (la_worker l) (if sq_interrupt q then byStart r False # la_interrupts l else la_interrupts l) (la_leases l) r x"
    using cancel_stage [OF act(4-6) 3(2,5)] by blast
  then show ?thesis using 3 by (intro active_set_pending [OF assms(1) 3(1), where x = x]) (auto split: if_splits)
qed

lemma shut_down_keeps: "lane_inv l \<Longrightarrow> mo_active (la_owner l) = None \<Longrightarrow> lane_inv (l\<lparr>la_owner := shut_down (la_owner l)\<rparr>)"
  by (simp add: lane_inv_def shut_down_def)

lemma worker_exit_keeps:
  "lane_inv l \<Longrightarrow> worker_over (la_owner l) \<Longrightarrow> lane_inv (l\<lparr>la_worker := WExited\<rparr>)"
  by (auto simp: lane_inv_def worker_over_def split: option.splits)

lemma stop_finish_keeps: "lane_inv l \<Longrightarrow> lane_inv (l\<lparr>la_owner := snd (stop_finish r (la_owner l))\<rparr>)"
  using reap_keeps [of l r] by (simp add: stop_finish_def)

lemma lane_like:
  "lane_inv l \<Longrightarrow> la_owner l' = la_owner l \<Longrightarrow> la_worker l' = la_worker l \<Longrightarrow> la_interrupts l' = la_interrupts l \<Longrightarrow>
     la_leases l' = la_leases l \<Longrightarrow> lane_inv l'"
  using lane_inv_cong [of l' l] by simp

lemma lane_inv_step: "lane_step l a l' \<Longrightarrow> lane_inv l \<Longrightarrow> lane_inv l'"
proof (induction rule: lane_step.induct)
  case (start sid gen ok l st k o2)
  show ?case by (rule lane_like [OF start_keeps [OF start(2,1)]]) simp_all
next
  case (request_stop k l q o2)
  show ?case by (rule lane_like [OF request_stop_keeps [OF request_stop(2,1)]]) simp_all
next
  case (stop_returns r l)
  show ?case by (rule stop_finish_keeps [OF stop_returns(2)])
next
  case (acquire k kind l res o2)
  show ?case
  proof (cases res)
    case None
    have "o2 = la_owner l" using acquire(1) acquire_refused unfolding None by blast
    then show ?thesis by (intro lane_like [OF acquire(2)]) (simp_all add: None)
  next
    case (Some r)
    have "owner_acquire k kind (la_owner l) = (Some r, o2)" using acquire(1) Some by simp
    from acquire_keeps(2) [OF acquire(2) this] show ?thesis
      by (rule lane_like) (simp_all add: Some)
  qed
next
  case (release r kind l)
  show ?case by (rule lane_like [OF release_keeps [OF release(2,1)]]) simp_all
next
  case (mark l r res invoke o2)
  show ?case by (rule lane_like [OF mark_keeps [OF mark(4,1,3)]]) simp_all
next
  case (interrupt_call i l)
  show ?case by (rule lane_like [OF interrupt_call_keeps [OF interrupt_call(3,1)]]) simp_all
next
  case (interrupt_return i l threw)
  show ?case by (rule lane_like [OF interrupt_returned_keeps [OF interrupt_return(4,1,2)]]) simp_all
next
  case (interrupt_record i l threw)
  show ?case by (rule interrupt_record_keeps [OF interrupt_record(3,1)])
next
  case (take_job l j o2)
  show ?case by (rule take_keeps [OF take_job(3,1,2)])
next
  case (enter_start l r go o2)
  show ?case by (rule lane_like [OF enter_start_keeps(1) [OF enter_start(3,1,2)]]) simp_all
next
  case (call_start l r)
  show ?case by (rule lane_like [OF call_keeps(1) [OF call_start(2,1)]]) simp_all
next
  case (start_return l r res)
  show ?case by (rule lane_like [OF call_keeps(2) [OF start_return(3,1)]]) simp_all
next
  case (record_start l r res)
  show ?case by (rule lane_like [OF record_start_keeps [OF record_start(2,1)]]) simp_all
next
  case (enter_stop l r go o2)
  show ?case by (rule enter_stop_keeps(1) [OF enter_stop(3,1,2)])
next
  case (invoke_stop l r)
  show ?case by (rule invoke_stop_keeps(1) [OF invoke_stop(3,1,2)])
next
  case (call_stop l r)
  show ?case by (rule lane_like [OF call_keeps(3) [OF call_stop(2,1)]]) simp_all
next
  case (stop_return l r threw)
  show ?case by (rule lane_like [OF call_keeps(4) [OF stop_return(2,1)]]) simp_all
next
  case (record_stop l r threw)
  show ?case by (rule record_stop_keeps [OF record_stop(2,1)])
next
  case (shut l)
  show ?case by (rule shut_down_keeps [OF shut(2,1)])
next
  case (worker_exit l)
  show ?case by (rule worker_exit_keeps [OF worker_exit(3,2)])
qed

lemma reachable_inv: "reachable l \<Longrightarrow> lane_inv l"
proof (induction rule: reachable.induct)
  case init
  show ?case by (simp add: lane_inv_def new_lane_def new_lane_owner_def)
next
  case (lane_step l a l')
  then show ?case using lane_inv_step by blast
qed

section \<open>The history\<close>

text \<open>What the log tells of a session, as flags of its record.\<close>

record flags =
  fg_start :: bool
  fg_returned :: bool
  fg_ok :: bool
  fg_stop :: bool
  fg_cancel :: bool
  fg_interrupt :: bool

definition flags_of :: "lane_session \<Rightarrow> flags" where
  "flags_of x = \<lparr>fg_start = ss_startInvoked x, fg_returned = (ss_startInvoked x \<and> ss_startReturned x), fg_ok = start_succeeded x,
     fg_stop = ss_stopInvoked x, fg_cancel = ss_cancellationRequested x, fg_interrupt = ss_interruptInvoked x\<rparr>"

abbreviation flag_list :: "lane \<Rightarrow> flags list" where
  "flag_list l \<equiv> map flags_of (mo_sessions (la_owner l))"

lemma flags_reap [simp]: "mo_sessions (reapActiveLocked r o1) = mo_sessions o1"
  by (simp add: reapActiveLocked_def Let_def)

lemma flags_set: "flags_of x = flags_of (session_at o1 r) \<Longrightarrow> map flags_of (mo_sessions (set_session r x o1)) = map flags_of (mo_sessions o1)"
  by (metis list_update_id map_update set_session_simps(5) list_update_beyond linorder_not_le nth_map)

lemma flags_start:
  "owner_start sid gen ok o1 = ((st, k), o2) \<Longrightarrow> map flags_of (mo_sessions o2) = map flags_of (mo_sessions o1) @
     (if st = Accepted then [flags_of (fresh_session k)] else [])"
  by (auto simp: owner_start_def Let_def reap_active_def split: if_splits option.splits)

lemma flags_acquire: "owner_acquire k kind o1 = (res, o2) \<Longrightarrow> map flags_of (mo_sessions o2) = map flags_of (mo_sessions o1)"
  by (auto simp: owner_acquire_def Let_def intro!: flags_set [simplified] split: if_splits option.splits lease_kind.splits)
    (simp_all add: flags_of_def start_succeeded_def)

end
