(* ===== verification/Moonlight_History.thy ===== *)
theory Moonlight_History
  imports Moonlight_Lane
begin

text \<open>
  What the driver of the Moonlight lane sees: which events may follow a history (\<open>may_follow\<close>,
  \<open>lawful\<close>), how the log agrees with the sessions' flags, with the calls in flight and with the leases
  (\<open>log_inv\<close>), and that every step keeps this (\<open>reachable_log\<close>).
\<close>

lemma flags_release [simp]: "map flags_of (mo_sessions (releaseAdmission r kind o1)) = map flags_of (mo_sessions o1)"
  unfolding releaseAdmission_def Let_def flags_reap
  by (rule flags_set) (cases kind; simp add: flags_of_def start_succeeded_def)

lemma flags_interrupt [simp]: "map flags_of (mo_sessions (interrupt_finish r threw o1)) = map flags_of (mo_sessions o1)"
  unfolding interrupt_finish_def Let_def flags_reap
  by (rule flags_set) (simp add: flags_of_def start_succeeded_def)

lemma flags_stop_leave [simp]: "map flags_of (mo_sessions (stop_leave r threw o1)) = map flags_of (mo_sessions o1)"
  unfolding stop_leave_def Let_def flags_reap
  by (rule flags_set) (simp add: flags_of_def start_succeeded_def)

lemma flags_stop_finish [simp]: "mo_sessions (snd (stop_finish r o1)) = mo_sessions o1"
  by (simp add: stop_finish_def)

lemma flags_take: "worker_take o1 = (j, o2) \<Longrightarrow> mo_sessions o2 = mo_sessions o1"
  by (auto simp: worker_take_def split: option.splits)

lemma flags_cancel:
  assumes "cancel_session r o1 = (b, o2)" "r < length (mo_sessions o1)"
  shows "map flags_of (mo_sessions o2) = (map flags_of (mo_sessions o1))[r := (flags_of (session_at o1 r))\<lparr>fg_cancel := True,
    fg_interrupt := (b \<or> ss_interruptInvoked (session_at o1 r))\<rparr>]"
  using assms by (auto simp: cancel_session_def Let_def map_update flags_of_def start_succeeded_def split: if_splits)

lemma flags_mark:
  assumes "markStartInterruptible r o1 = ((res, b), o2)" "r < length (mo_sessions o1)" "mo_active o1 = Some r"
    "in_start (session_at o1 r)"
  shows "map flags_of (mo_sessions o2) = (map flags_of (mo_sessions o1))[r := (flags_of (session_at o1 r))\<lparr>
    fg_interrupt := (b \<or> ss_interruptInvoked (session_at o1 r))\<rparr>]"
proof -
  let ?x = "session_at o1 r"
  have "\<not> (mo_active o1 \<noteq> Some r \<or> \<not> ss_startInvoked ?x \<or> ss_startReturned ?x \<or> ss_phase ?x \<noteq> Starting \<and> ss_phase ?x \<noteq> Stopping)"
    using assms(3,4) by (auto simp: stage_defs)
  then show ?thesis using assms(1)
    unfolding markStartInterruptible_def Let_def
    by (auto simp: map_update flags_of_def start_succeeded_def split: if_splits)
qed

lemma flags_start_enter:
  assumes "start_enter r o1 = (go, o2)" "mo_active o1 = Some r" "unstarted (session_at o1 r)" "r < length (mo_sessions o1)"
  shows "map flags_of (mo_sessions o2) =
    (if go then (map flags_of (mo_sessions o1))[r := (flags_of (session_at o1 r))\<lparr>fg_start := True\<rparr>] else map flags_of (mo_sessions o1))"
proof (cases go)
  case True
  then show ?thesis using assms
    by (auto simp: start_enter_def Let_def map_update flags_of_def stage_defs split: if_splits)
next
  case False
  then have "o2 = reapActiveLocked r (set_session r ((session_at o1 r)\<lparr>ss_admissionOpen := False, ss_startReturned := True,
      ss_startResult := kStartNotRun, ss_phase := Stopped\<rparr>) o1)"
    using assms by (auto simp: start_enter_def Let_def stage_defs split: if_splits)
  moreover have "\<not> ss_startInvoked (session_at o1 r)" using assms(3) by (simp add: unstarted_def)
  ultimately show ?thesis using False flags_set [of _ o1 r] by (simp add: flags_of_def start_succeeded_def)
qed

lemma flags_start_leave:
  assumes "in_start (session_at o1 r)" "r < length (mo_sessions o1)"
  shows "map flags_of (mo_sessions (start_leave r res o1)) =
    (map flags_of (mo_sessions o1))[r := (flags_of (session_at o1 r))\<lparr>fg_returned := True, fg_ok := (res = Some 0)\<rparr>]"
  using assms
  by (cases res) (auto simp: start_leave_def Let_def map_update flags_of_def stage_defs kStartNotRun_def)

lemma flags_stop_invoke:
  "r < length (mo_sessions o1) \<Longrightarrow> map flags_of (mo_sessions (stop_invoke r o1)) =
    (map flags_of (mo_sessions o1))[r := (flags_of (session_at o1 r))\<lparr>fg_stop := True\<rparr>]"
  by (simp add: stop_invoke_def Let_def map_update flags_of_def start_succeeded_def)

subsection \<open>Lawful histories\<close>

fun newest :: "lane_event list \<Rightarrow> nat option" where
  "newest [] = None"
| "newest (Admitted r # log) = Some r"
| "newest (e # log) = newest log"

definition calls_closed :: "lane_event list \<Rightarrow> bool" where
  "calls_closed log \<longleftrightarrow> (\<forall>op q. count_list log (Called op q) = count_list log (Returned op q))"

definition leases_closed :: "lane_event list \<Rightarrow> bool" where
  "leases_closed log \<longleftrightarrow> (\<forall>q. count_list log (Leased q) = count_list log (Unleased q))"

text \<open>
  What may happen after a history (the newest event first). A session is admitted when nothing of the
  earlier ones is in progress. The worker decides to start the driver once, for the newest session,
  and not after a cancellation; the driver is started once, after that decision and alone;
  interrupted once, after a cancellation, in a start that was made, and never after its stop; stopped
  once, after a start that succeeded and a cancellation, when no call and no lease is open. A lease is
  given only for the newest session while it is not cancelled and no failed start is recorded.
\<close>

fun may_follow :: "lane_event \<Rightarrow> lane_event list \<Rightarrow> bool" where
  "may_follow (Admitted r) log = (Admitted r \<notin> set log \<and> calls_closed log \<and> leases_closed log)"
| "may_follow (Cancelled r) log = (newest log = Some r)"
| "may_follow (Decided r) log = (newest log = Some r \<and> Decided r \<notin> set log \<and> Cancelled r \<notin> set log)"
| "may_follow (Called CallStart r) log = (newest log = Some r \<and> Decided r \<in> set log \<and> Called CallStart r \<notin> set log \<and>
     calls_closed log)"
| "may_follow (Called CallInterrupt r) log = (newest log = Some r \<and> Cancelled r \<in> set log \<and> Called CallStart r \<in> set log \<and>
     Called CallInterrupt r \<notin> set log \<and> Called CallStop r \<notin> set log)"
| "may_follow (Called CallStop r) log = (newest log = Some r \<and> Cancelled r \<in> set log \<and> StartOk r \<in> set log \<and>
     Called CallStop r \<notin> set log \<and> calls_closed log \<and> leases_closed log)"
| "may_follow (Returned op r) log = (newest log = Some r \<and> count_list log (Returned op r) < count_list log (Called op r))"
| "may_follow (StartOk r) log = (newest log = Some r \<and> Returned CallStart r \<in> set log)"
| "may_follow (Recorded r) log = (newest log = Some r \<and> Returned CallStart r \<in> set log \<and> Recorded r \<notin> set log)"
| "may_follow (Leased r) log = (newest log = Some r \<and> Cancelled r \<notin> set log \<and> Called CallStop r \<notin> set log \<and>
     (Recorded r \<in> set log \<longrightarrow> StartOk r \<in> set log))"
| "may_follow (Unleased r) log = (newest log = Some r \<and> count_list log (Unleased r) < count_list log (Leased r))"

fun lawful :: "lane_event list \<Rightarrow> bool" where
  "lawful [] = True"
| "lawful (e # log) = (may_follow e log \<and> lawful log)"

definition in_flight :: "worker_place \<Rightarrow> interrupt list \<Rightarrow> driver_call \<Rightarrow> nat \<Rightarrow> nat" where
  "in_flight w ins op q = (case op of
     CallStart \<Rightarrow> (if w = WInStart q then 1 else 0)
   | CallStop \<Rightarrow> (if w = WInStop q then 1 else 0)
   | CallInterrupt \<Rightarrow> length (filter (\<lambda>i. in_called i \<and> in_result i = None \<and> in_session i = q) ins))"

definition logged :: "worker_place \<Rightarrow> lane_event list \<Rightarrow> interrupt list \<Rightarrow> nat \<Rightarrow> flags \<Rightarrow> bool" where
  "logged w log ins q f \<longleftrightarrow>
     (Decided q \<in> set log) = fg_start f \<and> (Recorded q \<in> set log) = fg_returned f \<and>
     (Called CallStart q \<in> set log) = (fg_start f \<and> w \<noteq> WStarting q) \<and>
     (Returned CallStart q \<in> set log) = (fg_returned f \<or> (\<exists>res. w = WStarted q res)) \<and>
     (StartOk q \<in> set log) = (fg_ok f \<or> w = WStarted q (Some 0)) \<and>
     (Called CallStop q \<in> set log) = (fg_stop f \<and> w \<noteq> WStopping q) \<and>
     (Cancelled q \<in> set log) = fg_cancel f \<and>
     (Called CallInterrupt q \<in> set log \<longrightarrow> fg_interrupt f \<and> (\<forall>i \<in> set ins. in_session i = q \<longrightarrow> in_called i)) \<and>
     Admitted q \<in> set log"

definition unheard :: "lane_event list \<Rightarrow> nat \<Rightarrow> bool" where
  "unheard log q \<longleftrightarrow> Called CallStart q \<notin> set log \<and> Returned CallStart q \<notin> set log \<and> StartOk q \<notin> set log \<and>
     Called CallStop q \<notin> set log \<and> Cancelled q \<notin> set log \<and> Called CallInterrupt q \<notin> set log \<and> Admitted q \<notin> set log \<and>
     Decided q \<notin> set log \<and> Recorded q \<notin> set log"

definition log_inv :: "worker_place \<Rightarrow> interrupt list \<Rightarrow> (nat \<times> lease_kind) list \<Rightarrow> flags list \<Rightarrow> lane_event list \<Rightarrow> bool" where
  "log_inv w ins ls fs log \<longleftrightarrow>
     (\<forall>op q. count_list log (Called op q) = count_list log (Returned op q) + in_flight w ins op q) \<and>
     (\<forall>q. count_list log (Leased q) = count_list log (Unleased q) + length (filter (\<lambda>x. fst x = q) ls)) \<and>
     (\<forall>q < length fs. logged w log ins q (fs ! q)) \<and> (\<forall>q. length fs \<le> q \<longrightarrow> unheard log q) \<and>
     newest log = (if fs = [] then None else Some (length fs - 1)) \<and> lawful log"

fun about :: "lane_event \<Rightarrow> nat" where
  "about (Admitted r) = r" | "about (Cancelled r) = r" | "about (Called op r) = r" | "about (Returned op r) = r"
| "about (Decided r) = r" | "about (Recorded r) = r" | "about (StartOk r) = r" | "about (Leased r) = r" | "about (Unleased r) = r"

lemma logged_other: "about e \<noteq> q \<Longrightarrow> logged w (e # log) ins q f = logged w log ins q f"
  by (cases e) (simp_all add: logged_def)

lemma unheard_other: "about e \<noteq> q \<Longrightarrow> unheard (e # log) q = unheard log q"
  by (cases e) (simp_all add: unheard_def)

lemma newest_other: "(\<And>r. e \<noteq> Admitted r) \<Longrightarrow> newest (e # log) = newest log"
  by (cases e) auto

text \<open>The worker is at no other session.\<close>

definition places :: "worker_place \<Rightarrow> nat \<Rightarrow> bool" where
  "places w r \<longleftrightarrow> (\<forall>q. q \<noteq> r \<longrightarrow> w \<noteq> WStarting q \<and> w \<noteq> WStopping q \<and> (\<forall>res. w \<noteq> WStarted q res))"

lemma places_simps [simp]:
  "places WIdle r" "places (WTaken j) r" "places (WStarting r) r" "places (WInStart q) r" "places (WStarted r res) r"
  "places (WWaits q) r" "places (WStopping r) r" "places (WInStop q) r" "places (WStopped q threw) r" "places WExited r"
  by (simp_all add: places_def)

lemma logged_ins:
  "\<forall>i \<in> set ins. in_session i = r \<Longrightarrow> \<forall>i \<in> set ins'. in_session i = r \<Longrightarrow> places w r \<Longrightarrow> places w' r \<Longrightarrow> q \<noteq> r \<Longrightarrow>
     logged w log ins q f = logged w' log ins' q f"
  by (auto simp: logged_def places_def)

definition counts_ok :: "worker_place \<Rightarrow> interrupt list \<Rightarrow> (nat \<times> lease_kind) list \<Rightarrow> lane_event list \<Rightarrow> bool" where
  "counts_ok w ins ls log \<longleftrightarrow>
     (\<forall>op q. count_list log (Called op q) = count_list log (Returned op q) + in_flight w ins op q) \<and>
     (\<forall>q. count_list log (Leased q) = count_list log (Unleased q) + length (filter (\<lambda>x. fst x = q) ls))"

lemma log_inv_counts: "log_inv w ins ls fs log \<Longrightarrow> counts_ok w ins ls log"
  by (simp add: log_inv_def counts_ok_def)

text \<open>A step that logs an event of the newest session, or none.\<close>

lemma log_silent:
  assumes "log_inv w ins ls fs log" "r < length fs" "\<forall>i \<in> set ins. in_session i = r" "\<forall>i \<in> set ins'. in_session i = r"
    "places w r" "places w' r" "logged w' log ins' r f" "counts_ok w' ins' ls' log"
  shows "log_inv w' ins' ls' (fs[r := f]) log"
proof -
  have "logged w' log ins' q ((fs[r := f]) ! q)" if "q < length fs" for q
    using assms that logged_ins [OF assms(3-6)] by (cases "q = r") (auto simp: log_inv_def)
  then show ?thesis using assms(1,2,8) by (auto simp: log_inv_def counts_ok_def)
qed

lemma log_event:
  assumes "log_inv w ins ls fs log" "Suc r = length fs" "about e = r" "\<And>q. e \<noteq> Admitted q"
    "\<forall>i \<in> set ins. in_session i = r" "\<forall>i \<in> set ins'. in_session i = r" "places w r" "places w' r"
    "logged w' (e # log) ins' r f" "may_follow e log" "counts_ok w' ins' ls' (e # log)"
  shows "log_inv w' ins' ls' (fs[r := f]) (e # log)"
proof -
  have "logged w' (e # log) ins' q ((fs[r := f]) ! q)" if "q < length fs" for q
    using assms(1-3,9) that logged_ins [OF assms(5-8)] logged_other [of e q w log ins] logged_other [of e q w' log ins']
    by (cases "q = r") (auto simp: log_inv_def)
  moreover have "unheard (e # log) q" if "length fs \<le> q" for q
    using assms(1-3) that unheard_other [of e q log] by (auto simp: log_inv_def)
  ultimately show ?thesis using assms(1,2,10,11) newest_other [OF assms(4)] by (auto simp: log_inv_def counts_ok_def)
qed

lemma active_flags:
  assumes "log_inv w ins ls fs log" "r < length fs"
  shows "logged w log ins r (fs ! r)"
  using assms by (simp add: log_inv_def)

lemma newest_active: "log_inv w ins ls fs log \<Longrightarrow> Suc r = length fs \<Longrightarrow> newest log = Some r"
  by (auto simp: log_inv_def)

lemma quiet_closed:
  assumes "counts_ok w [] [] log" "driver_operations w = 0"
  shows "calls_closed log" "leases_closed log"
proof -
  have "in_flight w [] op q = 0" for op q
    using assms(2) by (auto simp: in_flight_def driver_operations_def split: driver_call.split worker_place.splits)
  then show "calls_closed log" "leases_closed log" using assms(1) by (simp_all add: counts_ok_def calls_closed_def leases_closed_def)
qed

definition lane_log :: "lane \<Rightarrow> bool" where
  "lane_log l \<longleftrightarrow> log_inv (la_worker l) (la_interrupts l) (la_leases l) (flag_list l) (la_log l)"

lemma active_interrupts:
  assumes "lane_inv l" "mo_active (la_owner l) = Some r"
  shows "\<forall>i \<in> set (la_interrupts l). in_session i = r" "Suc r = length (flag_list l)"
    "logged w log ins r (flag_list l ! r) = logged w log ins r (flags_of (session_at (la_owner l) r))"
    "places (la_worker l) r"
  using lane_inv_active [OF assms]
  by (auto simp: counted_def on_lane_def split: worker_place.splits worker_job.splits)

lemma log_start:
  assumes "lane_inv l" "lane_log l" "owner_start sid gen ok (la_owner l) = ((st, k), o2)"
  shows "lane_log (l\<lparr>la_owner := o2,
    la_log := (if st = Accepted then Admitted (length (mo_sessions (la_owner l))) # la_log l else la_log l)\<rparr>)"
proof (cases "st = Accepted")
  case False
  then show ?thesis using assms(2) flags_start [OF assms(3)] by (simp add: lane_log_def)
next
  case True
  let ?n = "length (mo_sessions (la_owner l))"
  have idle: "mo_active (reap_active (la_owner l)) = None"
    using assms(3) True by (auto simp: owner_start_def Let_def split: if_splits)
  have "lane_inv (l\<lparr>la_owner := reap_active (la_owner l)\<rparr>)" by (rule reap_active_keeps [OF assms(1)])
  then have quiet: "la_interrupts l = []" "la_leases l = []" "driver_operations (la_worker l) = 0"
    using idle by (auto simp: lane_inv_def driver_operations_def)
  have fs: "map flags_of (mo_sessions o2) = flag_list l @ [flags_of (fresh_session k)]" using flags_start [OF assms(3)] True by simp
  have inv: "log_inv (la_worker l) [] [] (flag_list l) (la_log l)" using assms(2) quiet by (simp add: lane_log_def)
  have at: "la_worker l = WIdle \<or> la_worker l = WExited" using idle \<open>lane_inv (l\<lparr>la_owner := reap_active (la_owner l)\<rparr>)\<close>
    by (auto simp: lane_inv_def)
  have "unheard (la_log l) ?n" using inv by (simp add: log_inv_def)
  then have new: "logged (la_worker l) (Admitted ?n # la_log l) [] ?n (flags_of (fresh_session k))"
    using at by (auto simp: logged_def unheard_def flags_of_def fresh_session_def start_succeeded_def)
  have old: "logged (la_worker l) (Admitted ?n # la_log l) [] q (flag_list l ! q)" if "q < ?n" for q
    using inv that logged_other [of "Admitted ?n" q "la_worker l"] by (simp add: log_inv_def)
  have "unheard (Admitted ?n # la_log l) q" if "Suc ?n \<le> q" for q
    using inv that unheard_other [of "Admitted ?n" q] by (simp add: log_inv_def)
  moreover have "may_follow (Admitted ?n) (la_log l)"
    using quiet_closed [OF log_inv_counts [OF inv] quiet(3)] \<open>unheard (la_log l) ?n\<close> by (simp add: unheard_def)
  ultimately have "log_inv (la_worker l) [] [] (flag_list l @ [flags_of (fresh_session k)]) (Admitted ?n # la_log l)"
    using inv new old by (auto simp: log_inv_def nth_append less_Suc_eq)
  then show ?thesis using True quiet fs by (simp add: lane_log_def)
qed

lemma filter_fst_remove1:
  "(r, k) \<in> set ls \<Longrightarrow> length (filter (\<lambda>x. fst x = p) ls) =
     length (filter (\<lambda>x. fst x = p) (remove1 (r, k) ls)) + (if p = r then 1 else 0)"
  by (induction ls) auto

lemma log_request_stop:
  assumes "lane_inv l" "lane_log l" "requestStopInternal k (la_owner l) = (q, o2)"
  shows "lane_log (l\<lparr>la_owner := o2,
      la_interrupts := (if sq_interrupt q then byStart (the (sq_state q)) False # la_interrupts l else la_interrupts l),
      la_log := (if sq_status q = StopRequested then Cancelled (the (sq_state q)) # la_log l else la_log l)\<rparr>)"
  using assms(3)
proof (cases rule: requestStop_cases)
  case 1
  then show ?thesis using assms(2) by (simp add: lane_log_def)
next
  case (2 r)
  then show ?thesis using assms(2) by (simp add: lane_log_def)
next
  case (3 r)
  let ?x = "session_at (la_owner l) r"
  let ?ins = "if sq_interrupt q then byStart r False # la_interrupts l else la_interrupts l"
  let ?f = "(flags_of ?x)\<lparr>fg_cancel := True, fg_interrupt := (sq_interrupt q \<or> ss_interruptInvoked ?x)\<rparr>"
  note act = active_interrupts [OF assms(1) 3(1)]
  have r: "r < length (mo_sessions (la_owner l))" using act(2) by simp
  have fresh: "sq_interrupt q \<Longrightarrow> \<not> ss_interruptInvoked ?x"
    using 3(5) by (auto simp: cancel_session_def Let_def split: if_splits)
  have inv: "log_inv (la_worker l) (la_interrupts l) (la_leases l) (flag_list l) (la_log l)" using assms(2) by (simp add: lane_log_def)
  have old: "logged (la_worker l) (la_log l) (la_interrupts l) r (flags_of ?x)" using active_flags [OF inv, of r] act(2,3) by simp
  have "counts_ok (la_worker l) ?ins (la_leases l) (Cancelled r # la_log l)"
    using log_inv_counts [OF inv] by (auto simp: counts_ok_def in_flight_def byStart_def split: driver_call.split)
  moreover have "logged (la_worker l) (Cancelled r # la_log l) ?ins r ?f"
    using old fresh by (auto simp: logged_def flags_of_def byStart_def)
  ultimately have "log_inv (la_worker l) ?ins (la_leases l) ((flag_list l)[r := ?f]) (Cancelled r # la_log l)"
    using act newest_active [OF inv act(2)] by (intro log_event [OF inv act(2)]) (auto simp: byStart_def)
  then show ?thesis using 3(3,4) flags_cancel [OF 3(5) r] by (cases "sq_interrupt q") (simp_all add: lane_log_def)
qed

lemma log_acquire:
  assumes "lane_inv l" "lane_log l" "owner_acquire k kind (la_owner l) = (Some r, o2)"
  shows "lane_log (l\<lparr>la_owner := o2, la_leases := (r, kind) # la_leases l, la_log := Leased r # la_log l\<rparr>)"
proof -
  let ?x = "session_at (la_owner l) r"
  note acq = acquire_keeps [OF assms(1,3)]
  note act = active_interrupts [OF assms(1) acq(1)]
  have inv: "log_inv (la_worker l) (la_interrupts l) (la_leases l) (flag_list l) (la_log l)" using assms(2) by (simp add: lane_log_def)
  have old: "logged (la_worker l) (la_log l) (la_interrupts l) r (flags_of ?x)" using active_flags [OF inv, of r] act(2,3) by simp
  have "\<not> ss_cancellationRequested ?x \<and> \<not> ss_stopInvoked ?x \<and> (ss_startInvoked ?x \<and> ss_startReturned ?x \<longrightarrow> start_succeeded ?x)"
    using lane_inv_active(4) [OF assms(1) acq(1)] acq(3)
    by (auto simp: on_lane_def stage_defs split: stage_splits)
  then have "may_follow (Leased r) (la_log l)" using old newest_active [OF inv act(2)] by (simp add: logged_def flags_of_def)
  moreover have "counts_ok (la_worker l) (la_interrupts l) ((r, kind) # la_leases l) (Leased r # la_log l)"
    using log_inv_counts [OF inv] by (auto simp: counts_ok_def)
  moreover have "logged (la_worker l) (Leased r # la_log l) (la_interrupts l) r (flag_list l ! r)" using old act(2,3) by (simp add: logged_def)
  ultimately have "log_inv (la_worker l) (la_interrupts l) ((r, kind) # la_leases l) ((flag_list l)[r := flag_list l ! r]) (Leased r # la_log l)"
    using act by (intro log_event [OF inv act(2)]) auto
  then show ?thesis using flags_acquire [OF assms(3)] by (simp add: lane_log_def)
qed

lemma log_release:
  assumes "lane_inv l" "lane_log l" "(r, kind) \<in> set (la_leases l)"
  shows "lane_log (l\<lparr>la_owner := releaseAdmission r kind (la_owner l), la_leases := remove1 (r, kind) (la_leases l),
    la_log := Unleased r # la_log l\<rparr>)"
proof -
  obtain q where active: "mo_active (la_owner l) = Some q" using assms by (auto simp: lane_inv_def split: option.splits)
  have "q = r" using lane_inv_active(6) [OF assms(1) active] assms(3) by (auto simp: counted_def)
  note act = active_interrupts [OF assms(1) active, unfolded this]
  have inv: "log_inv (la_worker l) (la_interrupts l) (la_leases l) (flag_list l) (la_log l)" using assms(2) by (simp add: lane_log_def)
  note counts = log_inv_counts [OF inv]
  have old: "logged (la_worker l) (la_log l) (la_interrupts l) r (flag_list l ! r)" using active_flags [OF inv, of r] act(2) by simp
  note removed = filter_fst_remove1 [OF assms(3)]
  have "counts_ok (la_worker l) (la_interrupts l) (remove1 (r, kind) (la_leases l)) (Unleased r # la_log l)"
    using counts removed by (auto simp: counts_ok_def)
  moreover have "may_follow (Unleased r) (la_log l)"
    using counts removed [of r] newest_active [OF inv act(2)] by (simp add: counts_ok_def)
  moreover have "logged (la_worker l) (Unleased r # la_log l) (la_interrupts l) r (flag_list l ! r)" using old by (simp add: logged_def)
  ultimately have "log_inv (la_worker l) (la_interrupts l) (remove1 (r, kind) (la_leases l)) ((flag_list l)[r := flag_list l ! r]) (Unleased r # la_log l)"
    using act by (intro log_event [OF inv act(2)]) auto
  then show ?thesis by (simp add: lane_log_def)
qed

lemma log_mark:
  assumes "lane_inv l" "lane_log l" "la_worker l = WInStart r" "markStartInterruptible r (la_owner l) = ((res, b), o2)"
  shows "lane_log (l\<lparr>la_owner := o2, la_interrupts := (if b then byStart r True # la_interrupts l else la_interrupts l)\<rparr>)"
proof -
  let ?x = "session_at (la_owner l) r"
  obtain q where active: "mo_active (la_owner l) = Some q" using worker_active [OF assms(1)] assms(3) by auto
  have q: "q = r" and stage: "in_start ?x" using lane_inv_active(4) [OF assms(1) active] assms(3) by (simp_all add: on_lane_def)
  note act = active_interrupts [OF assms(1) active, unfolded q]
  have r: "r < length (mo_sessions (la_owner l))" using act(2) by simp
  have inv: "log_inv (la_worker l) (la_interrupts l) (la_leases l) (flag_list l) (la_log l)" using assms(2) by (simp add: lane_log_def)
  have old: "logged (la_worker l) (la_log l) (la_interrupts l) r (flags_of ?x)" using active_flags [OF inv, of r] act(2,3) by simp
  let ?ins = "if b then byStart r True # la_interrupts l else la_interrupts l"
  let ?f = "(flags_of ?x)\<lparr>fg_interrupt := (b \<or> ss_interruptInvoked ?x)\<rparr>"
  have fresh: "b \<Longrightarrow> \<not> ss_interruptInvoked ?x"
    using assms(4) by (auto simp: markStartInterruptible_def Let_def split: if_splits)
  have "counts_ok (la_worker l) ?ins (la_leases l) (la_log l)"
    using log_inv_counts [OF inv] by (auto simp: counts_ok_def in_flight_def byStart_def split: driver_call.split)
  moreover have "logged (la_worker l) (la_log l) ?ins r ?f" using old fresh by (auto simp: logged_def flags_of_def byStart_def)
  ultimately have "log_inv (la_worker l) ?ins (la_leases l) ((flag_list l)[r := ?f]) (la_log l)"
    using act by (intro log_silent [OF inv, of r]) (auto simp: byStart_def)
  then show ?thesis using flags_mark [OF assms(4) r active [unfolded q] stage] by (cases b) (simp_all add: lane_log_def)
qed

lemma one_interrupt:
  assumes "lane_inv l" "i \<in> set (la_interrupts l)"
  obtains r where "mo_active (la_owner l) = Some r" "la_interrupts l = [i]" "in_session i = r"
    "ss_interruptInvoked (session_at (la_owner l) r)"
proof -
  obtain r where active: "mo_active (la_owner l) = Some r" using assms by (auto simp: lane_inv_def split: option.splits)
  note act = lane_inv_active(6) [OF assms(1) active]
  have "la_interrupts l = [i]" using act assms(2) by (cases "la_interrupts l") (auto simp: counted_def)
  then show thesis using act active that by (simp add: counted_def)
qed

text \<open>An interrupt in progress belongs to a session that was cancelled and started, and is not in its stop.\<close>

lemma interrupted_stage:
  assumes "lane_inv l" "mo_active (la_owner l) = Some r" "la_interrupts l \<noteq> []"
  shows "ss_startInvoked (session_at (la_owner l) r)" "ss_cancellationRequested (session_at (la_owner l) r)"
    "\<not> ss_stopInvoked (session_at (la_owner l) r)" "la_worker l \<noteq> WStarting r"
    "i \<in> set (la_interrupts l) \<Longrightarrow> \<not> in_called i \<Longrightarrow> in_result i = None"
  using lane_inv_active(4,6) [OF assms(1,2)] assms(3)
  by (auto simp: counted_def on_lane_def stage_defs split: stage_splits)

lemma log_interrupt_call:
  assumes "lane_inv l" "lane_log l" "i \<in> set (la_interrupts l)" "\<not> in_called i"
  shows "lane_log (l\<lparr>la_interrupts := i\<lparr>in_called := True\<rparr> # remove1 i (la_interrupts l),
    la_log := Called CallInterrupt (in_session i) # la_log l\<rparr>)"
proof -
  obtain r where r: "mo_active (la_owner l) = Some r" "la_interrupts l = [i]" "in_session i = r"
    "ss_interruptInvoked (session_at (la_owner l) r)" by (rule one_interrupt [OF assms(1,3)])
  let ?x = "session_at (la_owner l) r"
  note act = active_interrupts [OF assms(1) r(1)]
  have inv: "log_inv (la_worker l) [i] (la_leases l) (flag_list l) (la_log l)" using assms(2) r(2) by (simp add: lane_log_def)
  have old: "logged (la_worker l) (la_log l) [i] r (flags_of ?x)" using active_flags [OF inv, of r] act(2,3) by simp
  have "la_interrupts l \<noteq> []" using r(2) by simp
  then have new: "in_result i = None" using interrupted_stage(5) [OF assms(1) r(1) _ assms(3,4)] by blast
  have "may_follow (Called CallInterrupt r) (la_log l)"
    using old interrupted_stage [OF assms(1) r(1)] r(2,3) assms(4) newest_active [OF inv act(2)]
    by (simp add: logged_def flags_of_def)
  moreover have "counts_ok (la_worker l) [i\<lparr>in_called := True\<rparr>] (la_leases l) (Called CallInterrupt r # la_log l)"
    using log_inv_counts [OF inv] r(3) assms(4) new
    by (auto simp: counts_ok_def in_flight_def split: driver_call.splits)
  moreover have "logged (la_worker l) (Called CallInterrupt r # la_log l) [i\<lparr>in_called := True\<rparr>] r (flag_list l ! r)"
    using old r(4) act(2,3) by (auto simp: logged_def flags_of_def)
  ultimately have "log_inv (la_worker l) [i\<lparr>in_called := True\<rparr>] (la_leases l) ((flag_list l)[r := flag_list l ! r]) (Called CallInterrupt r # la_log l)"
    using r(3) act(4) by (intro log_event [OF inv act(2)]) auto
  then show ?thesis using r(2,3) by (simp add: lane_log_def)
qed

lemma log_interrupt_return:
  assumes "lane_inv l" "lane_log l" "i \<in> set (la_interrupts l)" "in_called i" "in_result i = None"
  shows "lane_log (l\<lparr>la_interrupts := i\<lparr>in_result := Some threw\<rparr> # remove1 i (la_interrupts l),
    la_log := Returned CallInterrupt (in_session i) # la_log l\<rparr>)"
proof -
  obtain r where r: "mo_active (la_owner l) = Some r" "la_interrupts l = [i]" "in_session i = r"
    "ss_interruptInvoked (session_at (la_owner l) r)" by (rule one_interrupt [OF assms(1,3)])
  note act = active_interrupts [OF assms(1) r(1)]
  let ?j = "i\<lparr>in_result := Some threw\<rparr>"
  have inv: "log_inv (la_worker l) [i] (la_leases l) (flag_list l) (la_log l)" using assms(2) r(2) by (simp add: lane_log_def)
  have old: "logged (la_worker l) (la_log l) [i] r (flag_list l ! r)" using active_flags [OF inv, of r] act(2) by simp
  note counts = log_inv_counts [OF inv]
  have "may_follow (Returned CallInterrupt r) (la_log l)"
    using counts r(3) assms(4,5) newest_active [OF inv act(2)] by (simp add: counts_ok_def in_flight_def)
  moreover have "counts_ok (la_worker l) [?j] (la_leases l) (Returned CallInterrupt r # la_log l)"
    using counts r(3) assms(4,5) by (auto simp: counts_ok_def in_flight_def split: driver_call.splits)
  moreover have "logged (la_worker l) (Returned CallInterrupt r # la_log l) [?j] r (flag_list l ! r)"
    using old assms(4) by (auto simp: logged_def)
  ultimately have "log_inv (la_worker l) [?j] (la_leases l) ((flag_list l)[r := flag_list l ! r]) (Returned CallInterrupt r # la_log l)"
    using r(3) act(4) by (intro log_event [OF inv act(2)]) auto
  then show ?thesis using r(2,3) by (simp add: lane_log_def)
qed

lemma log_interrupt_record:
  assumes "lane_inv l" "lane_log l" "i \<in> set (la_interrupts l)" "in_result i = Some threw"
  shows "lane_log (l\<lparr>la_owner := interrupt_finish (in_session i) threw (la_owner l), la_interrupts := remove1 i (la_interrupts l)\<rparr>)"
proof -
  obtain r where r: "mo_active (la_owner l) = Some r" "la_interrupts l = [i]" "in_session i = r"
    "ss_interruptInvoked (session_at (la_owner l) r)" by (rule one_interrupt [OF assms(1,3)])
  note act = active_interrupts [OF assms(1) r(1)]
  have inv: "log_inv (la_worker l) [i] (la_leases l) (flag_list l) (la_log l)" using assms(2) r(2) by (simp add: lane_log_def)
  have old: "logged (la_worker l) (la_log l) [i] r (flag_list l ! r)" using active_flags [OF inv, of r] act(2) by simp
  have "counts_ok (la_worker l) [] (la_leases l) (la_log l)"
    using log_inv_counts [OF inv] assms(4) by (auto simp: counts_ok_def in_flight_def split: driver_call.splits)
  moreover have "logged (la_worker l) (la_log l) [] r (flag_list l ! r)" using old by (auto simp: logged_def)
  ultimately have "log_inv (la_worker l) [] (la_leases l) ((flag_list l)[r := flag_list l ! r]) (la_log l)"
    using r(3) act(2,4) by (intro log_silent [OF inv, of r]) auto
  then show ?thesis using r(2,3) by (simp add: lane_log_def)
qed

lemma in_flight_quiet: "driver_operations w = 0 \<Longrightarrow> driver_operations w' = 0 \<Longrightarrow> in_flight w ins = in_flight w' ins"
  by (auto simp: fun_eq_iff in_flight_def driver_operations_def split: driver_call.split worker_place.splits)

lemma log_worker:
  assumes "log_inv w ins ls fs log" "driver_operations w = 0" "driver_operations w' = 0"
  shows "log_inv w' ins ls fs log"
proof -
  have away: "v \<noteq> WStarting q \<and> v \<noteq> WStopping q \<and> (\<forall>res. v \<noteq> WStarted q res)" if "driver_operations v = 0" for v q
    using that by (auto simp: driver_operations_def)
  have "logged w' log ins q f = logged w log ins q f" for q f
    using away [OF assms(2), of q] away [OF assms(3), of q] by (simp add: logged_def)
  then show ?thesis using assms(1) in_flight_quiet [OF assms(2,3)] by (simp add: log_inv_def)
qed

lemma log_enter_start:
  assumes "lane_inv l" "lane_log l" "la_worker l = WTaken (StartJob r)" "start_enter r (la_owner l) = (go, o2)"
  shows "lane_log (l\<lparr>la_owner := o2, la_worker := (if go then WStarting r else WIdle),
    la_log := (if go then Decided r # la_log l else la_log l)\<rparr>)"
proof -
  note enter = enter_start_keeps [OF assms(1,3,4)]
  note act = active_interrupts [OF assms(1) enter(2)]
  have r: "r < length (mo_sessions (la_owner l))" using act(2) by simp
  note fs = flags_start_enter [OF assms(4) enter(2,3) r]
  let ?x = "session_at (la_owner l) r"
  have ins: "la_interrupts l = []"
    using lane_inv_active(6) [OF assms(1) enter(2)] enter(3) by (auto simp: counted_def unstarted_def)
  have quiet: "driver_operations (la_worker l) = 0" using assms(3) by (simp add: driver_operations_def)
  have inv: "log_inv (la_worker l) [] (la_leases l) (flag_list l) (la_log l)" using assms(2) ins by (simp add: lane_log_def)
  show ?thesis
  proof (cases go)
    case False
    then show ?thesis using log_worker [OF inv quiet, of WIdle] fs ins by (simp add: lane_log_def driver_operations_def)
  next
    case True
    have old: "logged (la_worker l) (la_log l) [] r (flags_of ?x)" using active_flags [OF inv, of r] act(2,3) by simp
    have "may_follow (Decided r) (la_log l)"
      using old enter(3,4) True newest_active [OF inv act(2)] by (simp add: logged_def flags_of_def unstarted_def)
    moreover have "counts_ok (WStarting r) [] (la_leases l) (Decided r # la_log l)"
      using log_inv_counts [OF inv] assms(3) by (auto simp: counts_ok_def in_flight_def split: driver_call.splits)
    moreover have "logged (WStarting r) (Decided r # la_log l) [] r ((flags_of ?x)\<lparr>fg_start := True\<rparr>)"
      using old enter(3) assms(3) by (auto simp: logged_def flags_of_def unstarted_def)
    ultimately have "log_inv (WStarting r) [] (la_leases l) ((flag_list l)[r := (flags_of ?x)\<lparr>fg_start := True\<rparr>]) (Decided r # la_log l)"
      using act(4) by (intro log_event [OF inv act(2)]) auto
    then show ?thesis using True fs ins by (simp add: lane_log_def)
  qed
qed

text \<open>The active session of the worker, with what the log tells of it.\<close>

lemma worker_log:
  assumes "lane_inv l" "lane_log l" "la_worker l \<noteq> WIdle" "la_worker l \<noteq> WExited"
  obtains r where "mo_active (la_owner l) = Some r" "on_lane (la_worker l) (la_owner l) r (session_at (la_owner l) r)"
    "Suc r = length (flag_list l)" "flag_list l ! r = flags_of (session_at (la_owner l) r)"
    "logged (la_worker l) (la_log l) (la_interrupts l) r (flags_of (session_at (la_owner l) r))"
proof -
  obtain r where active: "mo_active (la_owner l) = Some r" using worker_active [OF assms(1,3,4)] by auto
  note act = lane_inv_active [OF assms(1) active]
  have "logged (la_worker l) (la_log l) (la_interrupts l) r (flag_list l ! r)"
    using assms(2) act(1) by (intro active_flags [of _ _ "la_leases l"]) (simp_all add: lane_log_def)
  then show thesis using that [OF active act(4)] act(1) by simp
qed

lemma log_call_start:
  assumes "lane_inv l" "lane_log l" "la_worker l = WStarting r"
  shows "lane_log (l\<lparr>la_worker := WInStart r, la_log := Called CallStart r # la_log l\<rparr>)"
proof -
  obtain q where q: "mo_active (la_owner l) = Some q" "on_lane (la_worker l) (la_owner l) q (session_at (la_owner l) q)"
    "Suc q = length (flag_list l)" "flag_list l ! q = flags_of (session_at (la_owner l) q)"
    "logged (la_worker l) (la_log l) (la_interrupts l) q (flags_of (session_at (la_owner l) q))"
    using worker_log [OF assms(1,2)] assms(3) by auto
  let ?x = "session_at (la_owner l) r"
  have r: "q = r" and stage: "in_start ?x" "\<not> ss_startInterruptible ?x" using q(2) assms(3) by (simp_all add: on_lane_def)
  have ins: "la_interrupts l = []"
    using lane_inv_active(6) [OF assms(1) q(1)] stage r by (auto simp: counted_def in_start_def)
  have inv: "log_inv (la_worker l) [] (la_leases l) (flag_list l) (la_log l)" using assms(2) ins by (simp add: lane_log_def)
  have old: "logged (WStarting r) (la_log l) [] r (flags_of ?x)" using q(5) ins r assms(3) by simp
  have started: "fg_start (flags_of ?x)" "\<not> fg_returned (flags_of ?x)" "\<not> fg_ok (flags_of ?x)" "\<not> fg_stop (flags_of ?x)"
    using stage(1) by (simp_all add: flags_of_def stage_defs)
  have "calls_closed (la_log l)"
    using log_inv_counts [OF inv] assms(3) by (auto simp: counts_ok_def calls_closed_def in_flight_def split: driver_call.split)
  then have "may_follow (Called CallStart r) (la_log l)"
    using old started newest_active [OF inv q(3)] r by (simp add: logged_def)
  moreover have "counts_ok (WInStart r) [] (la_leases l) (Called CallStart r # la_log l)"
    using log_inv_counts [OF inv] assms(3) by (auto simp: counts_ok_def in_flight_def split: driver_call.splits)
  moreover have "logged (WInStart r) (Called CallStart r # la_log l) [] r (flags_of ?x)"
    using old started by (auto simp: logged_def)
  ultimately have "log_inv (WInStart r) [] (la_leases l) ((flag_list l)[r := flags_of ?x]) (Called CallStart r # la_log l)"
    using q(3) r assms(3) by (intro log_event [OF inv]) auto
  have "flag_list l ! r = flags_of ?x" using q(4) unfolding r .
  then have same: "(flag_list l)[r := flags_of ?x] = flag_list l" by (metis list_update_id)
  with \<open>log_inv (WInStart r) [] (la_leases l) ((flag_list l)[r := flags_of ?x]) (Called CallStart r # la_log l)\<close>
  show ?thesis using ins by (simp add: lane_log_def)
qed

lemma log_start_return:
  assumes "lane_inv l" "lane_log l" "la_worker l = WInStart r"
  shows "lane_log (l\<lparr>la_worker := WStarted r res,
    la_log := (if res = Some 0 then StartOk r # Returned CallStart r # la_log l else Returned CallStart r # la_log l)\<rparr>)"
proof -
  obtain q where q: "mo_active (la_owner l) = Some q" "on_lane (la_worker l) (la_owner l) q (session_at (la_owner l) q)"
    "Suc q = length (flag_list l)" "flag_list l ! q = flags_of (session_at (la_owner l) q)"
    "logged (la_worker l) (la_log l) (la_interrupts l) q (flags_of (session_at (la_owner l) q))"
    using worker_log [OF assms(1,2)] assms(3) by auto
  let ?x = "session_at (la_owner l) r"
  have r: "q = r" and stage: "in_start ?x" using q(2) assms(3) by (simp_all add: on_lane_def)
  note ins = active_interrupts(1) [OF assms(1) q(1), unfolded r]
  have inv: "log_inv (WInStart r) (la_interrupts l) (la_leases l) (flag_list l) (la_log l)"
    using assms(2,3) by (simp add: lane_log_def)
  note counts = log_inv_counts [OF inv]
  have old: "logged (WInStart r) (la_log l) (la_interrupts l) r (flags_of ?x)" using q(5) r assms(3) by simp
  have started: "\<not> fg_returned (flags_of ?x)" "\<not> fg_ok (flags_of ?x)" "fg_start (flags_of ?x)"
    using stage by (simp_all add: flags_of_def stage_defs)
  have "may_follow (Returned CallStart r) (la_log l)"
    using counts newest_active [OF inv q(3)] r by (simp add: counts_ok_def in_flight_def)
  moreover have closed: "counts_ok (WStarted r v) (la_interrupts l) (la_leases l) (Returned CallStart r # la_log l)" for v
    using counts by (auto simp: counts_ok_def in_flight_def split: driver_call.splits)
  moreover have "logged (WStarted r None) (Returned CallStart r # la_log l) (la_interrupts l) r (flags_of ?x)"
    "res \<noteq> Some 0 \<Longrightarrow> logged (WStarted r res) (Returned CallStart r # la_log l) (la_interrupts l) r (flags_of ?x)"
    using old started by (auto simp: logged_def)
  ultimately have ret: "log_inv (WStarted r v) (la_interrupts l) (la_leases l) ((flag_list l)[r := flags_of ?x]) (Returned CallStart r # la_log l)"
    if "v = None \<or> v = res \<and> res \<noteq> Some 0" for v
    using q(3) r ins that by (intro log_event [OF inv]) auto
  have "flag_list l ! r = flags_of ?x" using q(4) unfolding r .
  then have same: "(flag_list l)[r := flags_of ?x] = flag_list l" by (metis list_update_id)
  show ?thesis
  proof (cases "res = Some 0")
    case False
    then show ?thesis using ret [of res] same by (simp add: lane_log_def)
  next
    case True
    note none = ret [of None, simplified same, simplified]
    have "may_follow (StartOk r) (Returned CallStart r # la_log l)" using newest_active [OF none q(3)] r by simp
    moreover have "counts_ok (WStarted r res) (la_interrupts l) (la_leases l) (StartOk r # Returned CallStart r # la_log l)"
      using closed by (auto simp: counts_ok_def)
    moreover have "logged (WStarted r res) (StartOk r # Returned CallStart r # la_log l) (la_interrupts l) r (flags_of ?x)"
      using old started True by (auto simp: logged_def)
    ultimately have "log_inv (WStarted r res) (la_interrupts l) (la_leases l) ((flag_list l)[r := flags_of ?x])
        (StartOk r # Returned CallStart r # la_log l)"
      using q(3) r ins by (intro log_event [OF none]) auto
    then show ?thesis using True same by (simp add: lane_log_def)
  qed
qed

lemma log_record_start:
  assumes "lane_inv l" "lane_log l" "la_worker l = WStarted r res"
  shows "lane_log (l\<lparr>la_owner := start_leave r res (la_owner l), la_worker := WIdle, la_log := Recorded r # la_log l\<rparr>)"
proof -
  obtain q where q: "mo_active (la_owner l) = Some q" "on_lane (la_worker l) (la_owner l) q (session_at (la_owner l) q)"
    "Suc q = length (flag_list l)" "flag_list l ! q = flags_of (session_at (la_owner l) q)"
    "logged (la_worker l) (la_log l) (la_interrupts l) q (flags_of (session_at (la_owner l) q))"
    using worker_log [OF assms(1,2)] assms(3) by auto
  let ?x = "session_at (la_owner l) r"
  have r: "q = r" and stage: "in_start ?x" using q(2) assms(3) by (simp_all add: on_lane_def)
  note ins = active_interrupts(1) [OF assms(1) q(1), unfolded r]
  have inv: "log_inv (WStarted r res) (la_interrupts l) (la_leases l) (flag_list l) (la_log l)"
    using assms(2,3) by (simp add: lane_log_def)
  have old: "logged (WStarted r res) (la_log l) (la_interrupts l) r (flags_of ?x)" using q(5) r assms(3) by simp
  have started: "\<not> fg_returned (flags_of ?x)" "\<not> fg_ok (flags_of ?x)" "fg_start (flags_of ?x)" "\<not> fg_stop (flags_of ?x)"
    using stage by (simp_all add: flags_of_def stage_defs)
  let ?f = "(flags_of ?x)\<lparr>fg_returned := True, fg_ok := (res = Some 0)\<rparr>"
  have "may_follow (Recorded r) (la_log l)"
    using old started newest_active [OF inv q(3)] r by (auto simp: logged_def)
  moreover have "counts_ok WIdle (la_interrupts l) (la_leases l) (Recorded r # la_log l)"
    using log_inv_counts [OF inv] by (auto simp: counts_ok_def in_flight_def split: driver_call.splits)
  moreover have "logged WIdle (Recorded r # la_log l) (la_interrupts l) r ?f"
    using old started by (auto simp: logged_def)
  ultimately have "log_inv WIdle (la_interrupts l) (la_leases l) ((flag_list l)[r := ?f]) (Recorded r # la_log l)"
    using q(3) r ins by (intro log_event [OF inv]) auto
  moreover have "r < length (mo_sessions (la_owner l))" using q(3) r by simp
  ultimately show ?thesis using flags_start_leave [OF stage, of res] by (simp add: lane_log_def)
qed

lemma log_invoke_stop:
  assumes "lane_inv l" "lane_log l" "la_worker l = WWaits r" "drained (session_at (la_owner l) r)"
  shows "lane_log (l\<lparr>la_owner := stop_invoke r (la_owner l), la_worker := WStopping r\<rparr>)"
proof -
  note invoke = invoke_stop_keeps [OF assms(1,3,4)]
  note act = active_interrupts [OF assms(1) invoke(2)]
  let ?x = "session_at (la_owner l) r"
  have r: "r < length (mo_sessions (la_owner l))" using act(2) by simp
  have inv: "log_inv (WWaits r) [] [] (flag_list l) (la_log l)" using assms(2,3) invoke(5,6) by (simp add: lane_log_def)
  have old: "logged (WWaits r) (la_log l) [] r (flags_of ?x)" using active_flags [OF inv, of r] act(2,3) by simp
  have "counts_ok (WStopping r) [] [] (la_log l)"
    using log_inv_counts [OF inv] by (auto simp: counts_ok_def in_flight_def split: driver_call.splits)
  moreover have "logged (WStopping r) (la_log l) [] r ((flags_of ?x)\<lparr>fg_stop := True\<rparr>)"
    using old invoke(4) by (auto simp: logged_def flags_of_def)
  ultimately have "log_inv (WStopping r) [] [] ((flag_list l)[r := (flags_of ?x)\<lparr>fg_stop := True\<rparr>]) (la_log l)"
    using r by (intro log_silent [OF inv, of r]) auto
  then show ?thesis using flags_stop_invoke [OF r] invoke(5,6) by (simp add: lane_log_def)
qed

text \<open>Nothing of the session is in flight between the decision to stop it and the call.\<close>

lemma stop_alone:
  assumes "lane_inv l" "mo_active (la_owner l) = Some r" "ss_stopInvoked (session_at (la_owner l) r)"
  shows "la_interrupts l = []" "la_leases l = []"
  using lane_inv_active(6) [OF assms(1,2)] assms(3) by (auto simp: counted_def)

lemma log_call_stop:
  assumes "lane_inv l" "lane_log l" "la_worker l = WStopping r"
  shows "lane_log (l\<lparr>la_worker := WInStop r, la_log := Called CallStop r # la_log l\<rparr>)"
proof -
  obtain q where q: "mo_active (la_owner l) = Some q" "on_lane (la_worker l) (la_owner l) q (session_at (la_owner l) q)"
    "Suc q = length (flag_list l)" "flag_list l ! q = flags_of (session_at (la_owner l) q)"
    "logged (la_worker l) (la_log l) (la_interrupts l) q (flags_of (session_at (la_owner l) q))"
    using worker_log [OF assms(1,2)] assms(3) by auto
  let ?x = "session_at (la_owner l) r"
  have r: "q = r" and stage: "stopping ?x" "ss_stopInvoked ?x" using q(2) assms(3) by (simp_all add: on_lane_def)
  note alone = stop_alone [OF assms(1) q(1) [unfolded r] stage(2)]
  have inv: "log_inv (WStopping r) [] [] (flag_list l) (la_log l)" using assms(2,3) alone by (simp add: lane_log_def)
  have old: "logged (WStopping r) (la_log l) [] r (flags_of ?x)" using q(5) alone r assms(3) by simp
  have flags: "fg_start (flags_of ?x)" "fg_returned (flags_of ?x)" "fg_ok (flags_of ?x)" "fg_stop (flags_of ?x)" "fg_cancel (flags_of ?x)"
    using stage by (simp_all add: flags_of_def stage_defs)
  have closed: "calls_closed (la_log l)" "leases_closed (la_log l)"
    using log_inv_counts [OF inv]
    by (auto simp: counts_ok_def calls_closed_def leases_closed_def in_flight_def split: driver_call.split)
  have "may_follow (Called CallStop r) (la_log l)"
    using old flags closed newest_active [OF inv q(3)] r by (simp add: logged_def)
  moreover have "counts_ok (WInStop r) [] [] (Called CallStop r # la_log l)"
    using log_inv_counts [OF inv] by (auto simp: counts_ok_def in_flight_def split: driver_call.splits)
  moreover have "logged (WInStop r) (Called CallStop r # la_log l) [] r (flags_of ?x)"
    using old flags by (auto simp: logged_def)
  ultimately have "log_inv (WInStop r) [] [] ((flag_list l)[r := flags_of ?x]) (Called CallStop r # la_log l)"
    using q(3) r by (intro log_event [OF inv]) auto
  have "flag_list l ! r = flags_of ?x" using q(4) unfolding r .
  then have same: "(flag_list l)[r := flags_of ?x] = flag_list l" by (metis list_update_id)
  with \<open>log_inv (WInStop r) [] [] ((flag_list l)[r := flags_of ?x]) (Called CallStop r # la_log l)\<close>
  show ?thesis using alone by (simp add: lane_log_def)
qed

lemma log_stop_return:
  assumes "lane_inv l" "lane_log l" "la_worker l = WInStop r"
  shows "lane_log (l\<lparr>la_worker := WStopped r threw, la_log := Returned CallStop r # la_log l\<rparr>)"
proof -
  obtain q where q: "mo_active (la_owner l) = Some q" "on_lane (la_worker l) (la_owner l) q (session_at (la_owner l) q)"
    "Suc q = length (flag_list l)" "flag_list l ! q = flags_of (session_at (la_owner l) q)"
    "logged (la_worker l) (la_log l) (la_interrupts l) q (flags_of (session_at (la_owner l) q))"
    using worker_log [OF assms(1,2)] assms(3) by auto
  have r: "q = r" using q(2) assms(3) by (simp add: on_lane_def)
  note ins = active_interrupts(1) [OF assms(1) q(1), unfolded r]
  have inv: "log_inv (WInStop r) (la_interrupts l) (la_leases l) (flag_list l) (la_log l)"
    using assms(2,3) by (simp add: lane_log_def)
  have old: "logged (WInStop r) (la_log l) (la_interrupts l) r (flag_list l ! r)" using q(4,5) r assms(3) by simp
  note counts = log_inv_counts [OF inv]
  have "may_follow (Returned CallStop r) (la_log l)"
    using counts newest_active [OF inv q(3)] r by (simp add: counts_ok_def in_flight_def)
  moreover have "counts_ok (WStopped r threw) (la_interrupts l) (la_leases l) (Returned CallStop r # la_log l)"
    using counts by (auto simp: counts_ok_def in_flight_def split: driver_call.splits)
  moreover have "logged (WStopped r threw) (Returned CallStop r # la_log l) (la_interrupts l) r (flag_list l ! r)"
    using old by (auto simp: logged_def)
  ultimately have "log_inv (WStopped r threw) (la_interrupts l) (la_leases l) ((flag_list l)[r := flag_list l ! r]) (Returned CallStop r # la_log l)"
    using q(3) r ins by (intro log_event [OF inv]) auto
  then show ?thesis by (simp add: lane_log_def)
qed

lemma log_record_stop:
  assumes "lane_log l" "la_worker l = WStopped r threw"
  shows "lane_log (l\<lparr>la_owner := stop_leave r threw (la_owner l), la_worker := WIdle\<rparr>)"
proof -
  have "logged WIdle log ins q f = logged (WStopped r threw) log ins q f" for log ins q f by (simp add: logged_def)
  moreover have "in_flight WIdle ins = in_flight (WStopped r threw) ins" for ins
    by (auto simp: fun_eq_iff in_flight_def split: driver_call.split)
  ultimately show ?thesis using assms by (simp add: lane_log_def log_inv_def)
qed

lemma lane_log_step:
  assumes "lane_step l a l'" "lane_inv l" "lane_log l"
  shows "lane_log l'"
  using assms
proof (induction rule: lane_step.induct)
  case (start sid gen ok l st k o2)
  then show ?case using log_start by blast
next
  case (request_stop k l q o2)
  then show ?case using log_request_stop by blast
next
  case (stop_returns r l)
  then show ?case by (simp add: lane_log_def)
next
  case (acquire k kind l res o2)
  show ?case
  proof (cases res)
    case None
    then show ?thesis using acquire acquire_refused [of k kind "la_owner l" o2] by (simp add: lane_log_def)
  next
    case (Some r)
    then show ?thesis using acquire log_acquire [of l k kind r o2] by simp
  qed
next
  case (release r kind l)
  then show ?case using log_release by blast
next
  case (mark l r res invoke o2)
  then show ?case using log_mark by blast
next
  case (interrupt_call i l)
  then show ?case using log_interrupt_call by blast
next
  case (interrupt_return i l threw)
  then show ?case using log_interrupt_return by blast
next
  case (interrupt_record i l threw)
  then show ?case using log_interrupt_record by blast
next
  case (take_job l j o2)
  then show ?case using log_worker [of WIdle "la_interrupts l" "la_leases l" "flag_list l" "la_log l" "WTaken j"] flags_take [OF take_job(2)]
    by (simp add: lane_log_def driver_operations_def)
next
  case (enter_start l r go o2)
  then show ?case using log_enter_start by blast
next
  case (call_start l r)
  then show ?case using log_call_start by blast
next
  case (start_return l r res)
  then show ?case using log_start_return by blast
next
  case (record_start l r res)
  then show ?case using log_record_start by blast
next
  case (enter_stop l r go o2)
  then show ?case using enter_stop_keeps(2,3) [of l r go o2]
    log_worker [of "WTaken (StopJob r)" "la_interrupts l" "la_leases l" "flag_list l" "la_log l" "WWaits r"]
    by (simp add: lane_log_def driver_operations_def)
next
  case (invoke_stop l r)
  then show ?case using log_invoke_stop by blast
next
  case (call_stop l r)
  then show ?case using log_call_stop by blast
next
  case (stop_return l r threw)
  then show ?case using log_stop_return by blast
next
  case (record_stop l r threw)
  then show ?case using log_record_stop by blast
next
  case (shut l)
  then show ?case by (simp add: lane_log_def shut_down_def)
next
  case (worker_exit l)
  then show ?case using log_worker [of WIdle "la_interrupts l" "la_leases l" "flag_list l" "la_log l" WExited]
    by (simp add: lane_log_def driver_operations_def)
qed

lemma reachable_log: "reachable l \<Longrightarrow> lane_log l"
proof (induction rule: reachable.induct)
  case init
  show ?case by (simp add: lane_log_def log_inv_def new_lane_def new_lane_owner_def in_flight_def unheard_def split: driver_call.split)
next
  case (lane_step l a l')
  then show ?case using lane_log_step reachable_inv by blast
qed

end
