(* ===== verification/Moonlight_Ends.thy ===== *)
theory Moonlight_Ends
  imports Moonlight_History
begin

text \<open>
  A cancelled Moonlight session ends: a terminal session that is kept has something in flight
  (\<open>settled\<close>), each step that ends what is in progress uses up \<open>steps_left\<close> and none adds to it, and one
  of them can always be taken. The step relation as a function (\<open>take_step\<close>, \<open>play\<close>) gives concrete runs,
  and the properties of the lane come last.
\<close>

section \<open>A cancelled session ends\<close>

text \<open>The steps that end what is in progress: the worker's, the driver's, and the release of leases.\<close>

fun internal :: "lane_action \<Rightarrow> bool" where
  "internal TakeJob = True" | "internal EnterStart = True" | "internal (StartReturn res) = True"
| "internal EnterStop = True" | "internal InvokeStop = True" | "internal (StopReturn threw) = True"
| "internal (InterruptCall i) = True" | "internal (InterruptReturn i threw) = True" | "internal (Release r kind) = True"
| "internal CallStartNow = True" | "internal RecordStart = True" | "internal CallStopNow = True" | "internal RecordStop = True"
| "internal (InterruptRecord i) = True"
| "internal a = False"

definition cancelled :: "lane \<Rightarrow> nat \<Rightarrow> bool" where
  "cancelled l r \<longleftrightarrow> mo_active (la_owner l) = Some r \<and> ss_cancellationRequested (session_at (la_owner l) r)"

text \<open>A terminal session that is still active has something in flight.\<close>

definition settled :: "lane_owner \<Rightarrow> bool" where
  "settled o1 \<longleftrightarrow> (\<forall>r. mo_active o1 = Some r \<longrightarrow> isTerminal (ss_phase (session_at o1 r)) \<longrightarrow> \<not> drained (session_at o1 r))"

lemma settled_reaped:
  assumes "lane_inv l'" "la_owner l' = reapActiveLocked r o1" "mo_active o1 = Some r \<or> settled o1"
  shows "settled (la_owner l')"
proof (cases "mo_active o1 = Some r")
  case False
  then show ?thesis using assms(2,3) by (simp add: reapActiveLocked_def Let_def)
next
  case True
  show ?thesis unfolding settled_def
  proof (intro allI impI)
    fix q
    assume q: "mo_active (la_owner l') = Some q" and terminal: "isTerminal (ss_phase (session_at (la_owner l') q))"
    note lane = on_lane_terminal [OF lane_inv_active(4) [OF assms(1) q] terminal]
    show "\<not> drained (session_at (la_owner l') q)"
      using q terminal lane True unfolding assms(2)
      by (auto simp: reapActiveLocked_def Let_def drained_def split: if_splits)
  qed
qed

lemma settled_active:
  "mo_active o1 = Some r \<Longrightarrow> \<not> isTerminal (ss_phase (session_at o1 r)) \<Longrightarrow> settled o1"
  by (simp add: settled_def)

lemma worker_session:
  assumes "lane_inv l" "la_worker l \<in> {WTaken (StartJob r), WStarting r, WInStart r, WTaken (StopJob r), WWaits r, WStopping r, WInStop r} \<or>
      (\<exists>res. la_worker l = WStarted r res) \<or> (\<exists>threw. la_worker l = WStopped r threw)"
  shows "mo_active (la_owner l) = Some r" "r < length (mo_sessions (la_owner l))"
    "\<not> isTerminal (ss_phase (session_at (la_owner l) r))"
proof -
  obtain q where active: "mo_active (la_owner l) = Some q" using worker_active [OF assms(1)] assms(2) by auto
  note act = lane_inv_active [OF assms(1) active]
  have "q = r \<and> \<not> isTerminal (ss_phase (session_at (la_owner l) r))"
    using act(4) assms(2) by (auto simp: on_lane_def stage_defs split: if_splits)
  then show "mo_active (la_owner l) = Some r" "r < length (mo_sessions (la_owner l))"
    "\<not> isTerminal (ss_phase (session_at (la_owner l) r))" using active act(1) by auto
qed

lemma settled_start:
  assumes "settled o1" "owner_start sid gen ok o1 = ((st, k), o2)" "lane_inv l'" "la_owner l' = o2"
  shows "settled o2"
proof -
  have same: "settled (reap_active o1)" if "o2 = reap_active o1"
    using assms that settled_reaped [of l' "the (mo_active o1)" o1] by (auto simp: reap_active_def split: option.splits)
  show ?thesis
  proof (cases "st = Accepted")
    case True
    then have "mo_active o2 = Some (length (mo_sessions o1))" "session_at o2 (length (mo_sessions o1)) = fresh_session k"
      using assms(2) by (auto simp: owner_start_def Let_def reap_active_def split: if_splits option.splits)
    moreover have "\<not> isTerminal (ss_phase (fresh_session k))" by (simp add: fresh_session_def isTerminal_def)
    ultimately show ?thesis using settled_active by metis
  next
    case False
    then have "o2 = o1 \<or> o2 = reap_active o1" using assms(2) by (auto simp: owner_start_def Let_def split: if_splits)
    then show ?thesis using same assms(1) by auto
  qed
qed

lemma settled_cancel:
  assumes "mo_active o1 = Some r" "\<not> isTerminal (ss_phase (session_at o1 r))" "cancel_session r o1 = (b, o2)"
    "r < length (mo_sessions o1)"
  shows "settled o2"
  using assms by (intro settled_active [of _ r])
    (auto simp: cancel_session_def Let_def isTerminal_def split: if_splits)

lemma settled_acquire:
  assumes "lane_inv l" "settled (la_owner l)" "owner_acquire k kind (la_owner l) = (res, o2)"
  shows "settled o2"
proof (cases res)
  case None
  then show ?thesis using assms acquire_refused by blast
next
  case (Some r)
  have acq: "owner_acquire k kind (la_owner l) = (Some r, o2)" using assms(3) Some by simp
  note keeps = acquire_keeps [OF assms(1) acq]
  have r: "r < length (mo_sessions (la_owner l))" using lane_inv_active(1) [OF assms(1) keeps(1)] by simp
  have "mo_active o2 = Some r" "ss_phase (session_at o2 r) = ss_phase (session_at (la_owner l) r)"
    using acq keeps(1) r by (auto simp: owner_acquire_def Let_def split: if_splits lease_kind.splits)
  then show ?thesis using keeps(3) by (intro settled_active) (auto simp: isTerminal_def)
qed

lemma settled_mark:
  assumes "mo_active o1 = Some r" "\<not> isTerminal (ss_phase (session_at o1 r))" "r < length (mo_sessions o1)"
    "markStartInterruptible r o1 = (x, o2)"
  shows "settled o2"
  using assms by (intro settled_active [of _ r])
    (auto simp: markStartInterruptible_def Let_def split: if_splits)

lemma settled_enter_start:
  assumes "lane_inv l'" "la_owner l' = o2" "mo_active o1 = Some r" "\<not> isTerminal (ss_phase (session_at o1 r))"
    "r < length (mo_sessions o1)" "start_enter r o1 = (go, o2)"
  shows "settled o2"
proof -
  let ?x = "session_at o1 r"
  consider "o2 = o1" | "o2 = reapActiveLocked r (set_session r (?x\<lparr>ss_admissionOpen := False, ss_startReturned := True,
        ss_startResult := kStartNotRun, ss_phase := Stopped\<rparr>) o1)"
    | "o2 = set_session r (?x\<lparr>ss_startInvoked := True, ss_controlOperations := ss_controlOperations ?x + 1\<rparr>) o1"
    using assms(6) by (auto simp: start_enter_def Let_def split: if_splits)
  then show ?thesis
  proof cases
    case 1
    then show ?thesis using settled_active assms(3,4) by simp
  next
    case 2
    then show ?thesis using settled_reaped [OF assms(1)] assms(2,3) by simp
  next
    case 3
    then show ?thesis using assms(3-5) by (intro settled_active [of _ r]) simp_all
  qed
qed

lemma settled_step:
  "lane_step l a l' \<Longrightarrow> lane_inv l \<Longrightarrow> lane_inv l' \<Longrightarrow> settled (la_owner l) \<Longrightarrow> settled (la_owner l')"
proof (induction rule: lane_step.induct)
  case (start sid gen ok l st k o2)
  then show ?case using settled_start by simp
next
  case (request_stop k l q o2)
  show ?case using request_stop(1)
  proof (cases rule: requestStop_cases)
    case 1
    then show ?thesis using request_stop by simp
  next
    case (2 r)
    then show ?thesis using settled_reaped [OF request_stop(3), of r "la_owner l"] request_stop(4) by simp
  next
    case (3 r)
    then show ?thesis using settled_cancel lane_inv_active(1) [OF request_stop(2) 3(1)] by simp
  qed
next
  case (stop_returns r l)
  then show ?case using settled_reaped [OF stop_returns(3), of r "la_owner l"] by (simp add: stop_finish_def)
next
  case (acquire k kind l res o2)
  then show ?case using settled_acquire [OF acquire(2,4,1)] by (cases res) simp_all
next
  case (release r kind l)
  obtain q where active: "mo_active (la_owner l) = Some q" using release by (auto simp: lane_inv_def split: option.splits)
  have "q = r" using lane_inv_active(6) [OF release(2) active] release(1) by (auto simp: counted_def)
  then show ?case using settled_reaped [OF release(3)] active by (simp add: releaseAdmission_def Let_def)
next
  case (mark l r res invoke o2)
  then show ?case using settled_mark worker_session [of l r] by simp
next
  case (interrupt_call i l)
  then show ?case by simp
next
  case (interrupt_return i l threw)
  then show ?case by simp
next
  case (interrupt_record i l threw)
  obtain r where "mo_active (la_owner l) = Some r" "in_session i = r" by (rule one_interrupt [OF interrupt_record(3,1)])
  then show ?case using settled_reaped [OF interrupt_record(4)] by (simp add: interrupt_finish_def Let_def)
next
  case (take_job l j o2)
  then show ?case by (auto simp: worker_take_def settled_def split: option.splits)
next
  case (enter_start l r go o2)
  then show ?case using settled_enter_start [OF enter_start(4)] worker_session [OF enter_start(3), of r] by simp
next
  case (call_start l r)
  then show ?case by simp
next
  case (start_return l r res)
  then show ?case by simp
next
  case (record_start l r res)
  note w = worker_session [OF record_start(2), of r]
  show ?case using settled_reaped [OF record_start(3)] w(1) record_start(1)
    by (simp add: start_leave_def Let_def split: option.split if_split)
next
  case (enter_stop l r go o2)
  then show ?case using enter_stop_keeps(3) [OF enter_stop(3,1,2)] by simp
next
  case (invoke_stop l r)
  note w = worker_session [OF invoke_stop(3), of r]
  show ?case using w invoke_stop(1) by (intro settled_active [of _ r]) (simp_all add: stop_invoke_def Let_def)
next
  case (call_stop l r)
  then show ?case by simp
next
  case (stop_return l r threw)
  then show ?case by simp
next
  case (record_stop l r threw)
  note w = worker_session [OF record_stop(2), of r]
  show ?case using settled_reaped [OF record_stop(3)] w(1) record_stop(1) by (simp add: stop_leave_def Let_def)
next
  case (shut l)
  then show ?case by (simp add: settled_def shut_down_def)
next
  case (worker_exit l)
  then show ?case by simp
qed

lemma reachable_settled: "reachable l \<Longrightarrow> settled (la_owner l)"
proof (induction rule: reachable.induct)
  case init
  show ?case by (simp add: settled_def new_lane_def new_lane_owner_def)
next
  case (lane_step l a l')
  then show ?case using settled_step reachable_inv reachable.lane_step by metis
qed

text \<open>How many internal steps are left at most: of the worker's job, of interrupts, of leases.\<close>

definition job_rank :: "worker_place \<Rightarrow> lane_owner \<Rightarrow> nat" where
  "job_rank w o1 = (case w of
     WIdle \<Rightarrow> (if mo_pendingStart o1 \<noteq> None then 11 else if mo_pendingStop o1 \<noteq> None then 6 else 0)
   | WTaken (StartJob q) \<Rightarrow> 10 | WStarting q \<Rightarrow> 9 | WInStart q \<Rightarrow> 8 | WStarted q res \<Rightarrow> 7
   | WTaken (StopJob q) \<Rightarrow> 5 | WWaits q \<Rightarrow> 4 | WStopping q \<Rightarrow> 3 | WInStop q \<Rightarrow> 2 | WStopped q threw \<Rightarrow> 1 | WExited \<Rightarrow> 0)"

definition interrupts_left :: "interrupt list \<Rightarrow> flags \<Rightarrow> nat" where
  "interrupts_left ins f = sum_list (map (\<lambda>i. if in_result i \<noteq> None then 1 else if in_called i then 2 else 3) ins) + (if fg_interrupt f then 0 else 3)"

definition steps_left :: "lane \<Rightarrow> nat \<Rightarrow> nat" where
  "steps_left l r = job_rank (la_worker l) (la_owner l) + interrupts_left (la_interrupts l) (flag_list l ! r) + length (la_leases l)"

lemma pending_reap [simp]:
  "mo_pendingStart (reapActiveLocked r o1) = mo_pendingStart o1" "mo_pendingStop (reapActiveLocked r o1) = mo_pendingStop o1"
  by (simp_all add: reapActiveLocked_def Let_def)

lemma pending_release [simp]:
  "mo_pendingStart (releaseAdmission r k o1) = mo_pendingStart o1" "mo_pendingStop (releaseAdmission r k o1) = mo_pendingStop o1"
  "mo_pendingStart (interrupt_finish r t o1) = mo_pendingStart o1" "mo_pendingStop (interrupt_finish r t o1) = mo_pendingStop o1"
  "mo_pendingStart (stop_leave r t o1) = mo_pendingStart o1" "mo_pendingStop (stop_leave r t o1) = mo_pendingStop o1"
  "mo_pendingStart (snd (stop_finish r o1)) = mo_pendingStart o1" "mo_pendingStop (snd (stop_finish r o1)) = mo_pendingStop o1"
  "mo_pendingStart (start_leave r res o1) = mo_pendingStart o1"
  by (simp_all add: releaseAdmission_def interrupt_finish_def stop_leave_def stop_finish_def start_leave_def Let_def split: option.split)

lemma job_rank_same: "mo_pendingStart o1 = mo_pendingStart o2 \<Longrightarrow> mo_pendingStop o1 = mo_pendingStop o2 \<Longrightarrow> job_rank w o1 = job_rank w o2"
  by (simp add: job_rank_def split: worker_place.split)

lemma cancelled_stage:
  assumes "lane_inv l" "cancelled l r"
  shows "mo_active (la_owner l) = Some r" "r < length (flag_list l)" "fg_cancel (flag_list l ! r)"
    "isTerminal (ss_phase (session_at (la_owner l) r)) \<or> ss_phase (session_at (la_owner l) r) = Stopping"
proof -
  show active: "mo_active (la_owner l) = Some r" using assms(2) by (simp add: cancelled_def)
  note act = lane_inv_active [OF assms(1) active]
  show "r < length (flag_list l)" using act(1) by simp
  show "fg_cancel (flag_list l ! r)" using assms(2) act(1) by (simp add: cancelled_def flags_of_def)
  show "isTerminal (ss_phase (session_at (la_owner l) r)) \<or> ss_phase (session_at (la_owner l) r) = Stopping"
    using act(4) assms(2) by (auto simp: cancelled_def on_lane_def stage_defs split: stage_splits)
qed

lemma cancelled_flag: "mo_active (la_owner l) = Some r \<Longrightarrow> r < length (flag_list l) \<Longrightarrow> cancelled l r \<longleftrightarrow> fg_cancel (flag_list l ! r)"
  by (simp add: cancelled_def flags_of_def)

text \<open>While a cancelled session is active, internal steps use up what is left and no step adds to it.\<close>

definition fewer :: "lane \<Rightarrow> lane_action \<Rightarrow> lane \<Rightarrow> nat \<Rightarrow> bool" where
  "fewer l a l' r \<longleftrightarrow> r < length (flag_list l') \<and> fg_cancel (flag_list l' ! r) \<and>
     steps_left l' r + (if internal a then 1 else 0) \<le> steps_left l r"

lemma fewer_start:
  assumes "lane_inv l" "cancelled l r" "owner_start sid gen ok (la_owner l) = ((st, k), o2)" "mo_active o2 = Some r"
  shows "o2 = la_owner l \<and> st \<noteq> Accepted"
proof -
  note c = cancelled_stage [OF assms(1,2)]
  have "\<not> (st = Accepted)"
  proof
    assume "st = Accepted"
    then have "mo_active o2 = Some (length (mo_sessions (la_owner l)))"
      using assms(3) by (auto simp: owner_start_def Let_def reap_active_def split: if_splits option.splits)
    then show False using assms(4) c(2) by simp
  qed
  moreover from this have "o2 = la_owner l \<or> o2 = reap_active (la_owner l)"
    using assms(3) by (auto simp: owner_start_def Let_def split: if_splits)
  moreover have "reap_active (la_owner l) = la_owner l" if "mo_active (reap_active (la_owner l)) = Some r"
    using that c(1) by (auto simp: reap_active_def reapActiveLocked_def Let_def split: if_splits)
  ultimately show ?thesis using assms(4) by auto
qed

lemma fewer_cancel:
  assumes "cancel_session r o1 = (b, o2)" "ss_phase (session_at o1 r) = Stopping"
  shows "\<not> b" "mo_pendingStart o2 = mo_pendingStart o1" "mo_pendingStop o2 = mo_pendingStop o1"
  using assms by (auto simp: cancel_session_def Let_def)

lemma steps_left_same:
  assumes "job_rank (la_worker l') (la_owner l') = job_rank (la_worker l) (la_owner l)" "la_interrupts l' = la_interrupts l"
    "la_leases l' = la_leases l" "flag_list l' ! r = flag_list l ! r"
  shows "steps_left l' r = steps_left l r"
  using assms by (simp add: steps_left_def)

lemma fewer_step:
  "lane_step l a l' \<Longrightarrow> lane_inv l \<Longrightarrow> cancelled l r \<Longrightarrow> mo_active (la_owner l') = Some r \<Longrightarrow> fewer l a l' r"
proof (induction rule: lane_step.induct)
  case (start sid gen ok l st k o2)
  then have "o2 = la_owner l" "st \<noteq> Accepted" using fewer_start by auto
  then show ?case using cancelled_stage [OF start(2,3)] by (simp add: fewer_def steps_left_def)
next
  case (request_stop k l q o2)
  note c = cancelled_stage [OF request_stop(2,3)]
  show ?case using request_stop(1)
  proof (cases rule: requestStop_cases)
    case 1
    then show ?thesis using c by (simp add: fewer_def steps_left_def)
  next
    case (2 r')
    then show ?thesis using c job_rank_same [of "reapActiveLocked r' (la_owner l)" "la_owner l"]
      by (simp add: fewer_def steps_left_def)
  next
    case (3 r')
    have r': "r' = r" using 3(1) c(1) by simp
    have stopping: "ss_phase (session_at (la_owner l) r) = Stopping" using c(4) 3(2) r' by simp
    note b = fewer_cancel [OF 3(5) [unfolded r'] stopping]
    have flags: "map flags_of (mo_sessions o2) = (flag_list l)[r := (flags_of (session_at (la_owner l) r))\<lparr>fg_cancel := True,
        fg_interrupt := ss_interruptInvoked (session_at (la_owner l) r)\<rparr>]"
      using flags_cancel [OF 3(5) [unfolded r']] b(1) c(2) by simp
    then have "map flags_of (mo_sessions o2) ! r = flag_list l ! r" "length (mo_sessions o2) = length (mo_sessions (la_owner l))"
      using c(2,3) by (simp_all add: flags_of_def) (metis length_list_update length_map)
    then show ?thesis using c b job_rank_same [of o2 "la_owner l"] by (simp add: fewer_def steps_left_def)
  qed
next
  case (stop_returns r' l)
  then show ?case using cancelled_stage [OF stop_returns(2,3)] job_rank_same [of "snd (stop_finish r' (la_owner l))" "la_owner l"]
    by (simp add: fewer_def steps_left_def)
next
  case (acquire k kind l res o2)
  note c = cancelled_stage [OF acquire(2,3)]
  show ?case
  proof (cases res)
    case None
    then have "o2 = la_owner l" using acquire_refused acquire(1) by blast
    then show ?thesis using None c by (simp add: fewer_def steps_left_def)
  next
    case (Some r')
    have acq: "owner_acquire k kind (la_owner l) = (Some r', o2)" using acquire(1) Some by simp
    have "r' = r" using acquire_keeps(1) [OF acquire(2) acq] c(1) by simp
    then show ?thesis using acquire_keeps(3) [OF acquire(2) acq] c(4) by (auto simp: isTerminal_def)
  qed
next
  case (release r' kind l)
  have "length (remove1 (r', kind) (la_leases l)) + 1 = length (la_leases l)"
    using release(1) by (simp add: length_remove1) (metis Suc_pred length_pos_if_in_set)
  then show ?case using cancelled_stage [OF release(2,3)] job_rank_same [of "releaseAdmission r' kind (la_owner l)" "la_owner l"]
    by (simp add: fewer_def steps_left_def)
next
  case (mark l r' res invoke o2)
  note c = cancelled_stage [OF mark(4,5)]
  have r': "r' = r" using worker_session(1) [OF mark(4), of r'] mark(1) c(1) by simp
  have stage: "in_start (session_at (la_owner l) r)"
    using lane_inv_active(4) [OF mark(4) c(1)] mark(1) r' by (simp add: on_lane_def)
  have old: "invoke \<Longrightarrow> \<not> ss_interruptInvoked (session_at (la_owner l) r)"
    using mark(3) r' by (auto simp: markStartInterruptible_def Let_def split: if_splits)
  have "map flags_of (mo_sessions o2) = (flag_list l)[r := (flags_of (session_at (la_owner l) r))\<lparr>
      fg_interrupt := (invoke \<or> ss_interruptInvoked (session_at (la_owner l) r))\<rparr>]"
    using flags_mark [OF mark(3) [unfolded r']] c(1,2) stage by simp
  then show ?case using old c mark(1) r'
    by (cases invoke) (auto simp: fewer_def steps_left_def job_rank_def interrupts_left_def byStart_def flags_of_def)
next
  case (interrupt_call i l)
  note c = cancelled_stage [OF interrupt_call(3,4)]
  obtain q where q: "mo_active (la_owner l) = Some q" "la_interrupts l = [i]" using one_interrupt [OF interrupt_call(3,1)] by blast
  have "la_interrupts l \<noteq> []" using q(2) by simp
  then have "in_result i = None" using interrupted_stage(5) [OF interrupt_call(3) q(1) _ interrupt_call(1,2)] by blast
  then show ?case using c interrupt_call(2) q(2) by (simp add: fewer_def steps_left_def interrupts_left_def)
next
  case (interrupt_return i l threw)
  note c = cancelled_stage [OF interrupt_return(4,5)]
  obtain q where "la_interrupts l = [i]" using one_interrupt [OF interrupt_return(4,1)] by blast
  then show ?case using c interrupt_return(2,3) by (simp add: fewer_def steps_left_def interrupts_left_def)
next
  case (interrupt_record i l threw)
  note c = cancelled_stage [OF interrupt_record(3,4)]
  obtain q where "la_interrupts l = [i]" using one_interrupt [OF interrupt_record(3,1)] by blast
  then show ?case using c interrupt_record(2) job_rank_same [of "interrupt_finish (in_session i) threw (la_owner l)" "la_owner l"]
    by (simp add: fewer_def steps_left_def interrupts_left_def)
next
  case (take_job l j o2)
  note c = cancelled_stage [OF take_job(3,4)]
  have "job_rank (WTaken j) o2 < job_rank WIdle (la_owner l)"
    using take_job(2) by (auto simp: worker_take_def job_rank_def split: option.splits)
  then show ?case using c take_job(1) flags_take [OF take_job(2)] by (simp add: fewer_def steps_left_def)
next
  case (enter_start l r' go o2)
  note c = cancelled_stage [OF enter_start(3,4)]
  note enter = enter_start_keeps [OF enter_start(3,1,2)]
  have r': "r' = r" using enter(2) c(1) by simp
  have go: "\<not> go" using enter(4) enter_start(4) r' by (simp add: cancelled_def)
  have "mo_pendingStart (la_owner l) = None \<and> mo_pendingStop (la_owner l) = None"
    using lane_inv_active(4) [OF enter_start(3) c(1)] enter_start(1) by (simp add: on_lane_def)
  then have "job_rank WIdle o2 = 0"
    using enter_start(2) by (auto simp: start_enter_def Let_def job_rank_def split: if_splits)
  moreover have "map flags_of (mo_sessions o2) = flag_list l"
    using flags_start_enter [OF enter_start(2) enter(2,3)] c(2) go r' by simp
  ultimately show ?case using c enter_start(1) go by (simp add: fewer_def steps_left_def job_rank_def)
next
  case (call_start l r')
  then show ?case using cancelled_stage [OF call_start(2,3)] by (simp add: fewer_def steps_left_def job_rank_def)
next
  case (start_return l r' res)
  then show ?case using cancelled_stage [OF start_return(3,4)] by (simp add: fewer_def steps_left_def job_rank_def)
next
  case (record_start l r' res)
  note c = cancelled_stage [OF record_start(2,3)]
  have r': "r' = r" using worker_session(1) [OF record_start(2), of r'] record_start(1) c(1) by simp
  have stage: "in_start (session_at (la_owner l) r)" "mo_pendingStart (la_owner l) = None"
    using lane_inv_active(4) [OF record_start(2) c(1)] record_start(1) r' by (simp_all add: on_lane_def)
  have "job_rank WIdle (start_leave r res (la_owner l)) \<le> 6" using stage(2) by (simp add: job_rank_def)
  moreover have "map flags_of (mo_sessions (start_leave r res (la_owner l))) =
      (flag_list l)[r := (flags_of (session_at (la_owner l) r))\<lparr>fg_returned := True, fg_ok := (res = Some 0)\<rparr>]"
    using flags_start_leave [OF stage(1)] c(2) by simp
  ultimately show ?case using c record_start(1) r'
    by (auto simp: fewer_def steps_left_def job_rank_def interrupts_left_def)
next
  case (enter_stop l r' go o2)
  note c = cancelled_stage [OF enter_stop(3,4)]
  note enter = enter_stop_keeps [OF enter_stop(3,1,2)]
  show ?case using c enter(2,3) enter_stop(1) by (simp add: fewer_def steps_left_def job_rank_def)
next
  case (invoke_stop l r')
  note c = cancelled_stage [OF invoke_stop(3,4)]
  have r': "r' = r" using worker_session(1) [OF invoke_stop(3), of r'] invoke_stop(1) c(1) by simp
  have "map flags_of (mo_sessions (stop_invoke r (la_owner l))) = (flag_list l)[r := (flags_of (session_at (la_owner l) r))\<lparr>fg_stop := True\<rparr>]"
    using flags_stop_invoke c(2) by simp
  then show ?case using c invoke_stop(1) r'
    by (auto simp: fewer_def steps_left_def job_rank_def interrupts_left_def)
next
  case (call_stop l r')
  then show ?case using cancelled_stage [OF call_stop(2,3)] by (simp add: fewer_def steps_left_def job_rank_def)
next
  case (stop_return l r' threw)
  then show ?case using cancelled_stage [OF stop_return(2,3)] by (simp add: fewer_def steps_left_def job_rank_def)
next
  case (record_stop l r' threw)
  note c = cancelled_stage [OF record_stop(2,3)]
  have "mo_pendingStart (la_owner l) = None \<and> mo_pendingStop (la_owner l) = None"
    using lane_inv_active(4) [OF record_stop(2) c(1)] record_stop(1) by (simp add: on_lane_def)
  then show ?case using c record_stop(1) by (simp add: fewer_def steps_left_def job_rank_def)
next
  case (shut l)
  then show ?case by (simp add: shut_down_def)
next
  case (worker_exit l)
  then show ?case using lane_inv_active(2) [OF worker_exit(3)] by (simp add: worker_over_def)
qed

text \<open>Some internal step of a cancelled session that is active can always be taken.\<close>

lemma internal_enabled:
  assumes "lane_inv l" "settled (la_owner l)" "cancelled l r"
  shows "\<exists>a l'. internal a \<and> lane_step l a l'"
proof -
  have active: "mo_active (la_owner l) = Some r" using assms(3) by (simp add: cancelled_def)
  note act = lane_inv_active [OF assms(1) active]
  consider i where "i \<in> set (la_interrupts l)" | q kind where "(q, kind) \<in> set (la_leases l)"
    | "la_interrupts l = []" "la_leases l = []"
    by (metis list.set_intros(1) neq_Nil_conv surj_pair)
  then show ?thesis
  proof cases
    case 1
    then show ?thesis
      by (cases "in_result i"; cases "in_called i") (meson internal.simps interrupt_call interrupt_return interrupt_record)+
  next
    case 2
    then show ?thesis by (meson internal.simps release)
  next
    case 3
    have quiet: "drained (session_at (la_owner l) r) \<longleftrightarrow> driver_operations (la_worker l) = 0"
      using act(6) 3 by (simp add: counted_def drained_def)
    show ?thesis
    proof (cases "la_worker l")
      case WIdle
      have "\<not> (session_running (session_at (la_owner l) r) \<or> session_ended (session_at (la_owner l) r))"
        using assms(2,3) active quiet WIdle
        by (auto simp: session_running_def session_ended_def cancelled_def settled_def driver_operations_def)
      then have "fst (worker_take (la_owner l)) \<noteq> None"
        using act(4) WIdle by (auto simp: on_lane_def worker_take_def split: if_splits)
      then show ?thesis using take_job [OF WIdle] by (metis internal.simps(1) option.exhaust prod.collapse)
    next
      case (WTaken j)
      then show ?thesis
        by (cases j) (metis WTaken enter_start internal.simps(2) surj_pair, metis WTaken enter_stop internal.simps(4) surj_pair)
    next
      case (WStarting q)
      then show ?thesis using call_start internal.simps(10) by blast
    next
      case (WStarted q res)
      then show ?thesis using record_start internal.simps(11) by blast
    next
      case (WStopping q)
      then show ?thesis using call_stop internal.simps(12) by blast
    next
      case (WStopped q threw)
      then show ?thesis using record_stop internal.simps(13) by blast
    next
      case (WInStart q)
      then show ?thesis using start_return [OF WInStart] 3(1) by (metis empty_iff empty_set internal.simps(3))
    next
      case (WWaits q)
      then have "q = r" using act(4) by (simp add: on_lane_def)
      then have "drained (session_at (la_owner l) q)" using quiet WWaits by (simp add: driver_operations_def)
      then show ?thesis using invoke_stop [OF WWaits] internal.simps(5) by blast
    next
      case (WInStop q)
      then show ?thesis using stop_return internal.simps(6) by blast
    next
      case WExited
      then show ?thesis using act(4) by (simp add: on_lane_def)
    qed
  qed
qed

subsection \<open>A session that was given up is never active again\<close>

definition given_up :: "lane_owner \<Rightarrow> lane_owner \<Rightarrow> bool" where
  "given_up o1 o2 \<longleftrightarrow> length (mo_sessions o2) = length (mo_sessions o1) \<and> mo_active o2 \<in> {mo_active o1, None}"

lemma given_up_reap: "given_up o1 o2 \<Longrightarrow> given_up o1 (reapActiveLocked r o2)"
  by (auto simp: given_up_def reapActiveLocked_def Let_def)

lemma given_up_set: "given_up o1 (set_session r x o1)"
  by (simp add: given_up_def)

lemma given_up_same: "given_up o1 o1"
  by (simp add: given_up_def)

lemma given_up_cancel: "cancel_session r o1 = (b, o2) \<Longrightarrow> given_up o1 o2"
  by (simp add: cancel_session_def Let_def given_up_def split: if_splits) auto

lemmas given_up_intros = given_up_reap given_up_set given_up_same

lemma given_up_step:
  assumes "lane_step l a l'"
  shows "given_up (la_owner l) (la_owner l') \<or> length (mo_sessions (la_owner l)) < length (mo_sessions (la_owner l'))"
  using assms
proof cases
  case (start sid gen ok st k o2)
  have "given_up (la_owner l) (reap_active (la_owner l))"
    by (auto simp: reap_active_def intro: given_up_intros split: option.split)
  then show ?thesis using start(2,3)
    by (auto simp: owner_start_def Let_def given_up_def split: if_splits)
next
  case (request_stop k q o2)
  have "given_up (la_owner l) o2" using request_stop(3)
    by (cases rule: requestStop_cases) (auto intro: given_up_intros given_up_cancel)
  then show ?thesis using request_stop(2) by simp
next
  case (stop_returns r)
  then show ?thesis by (auto simp: stop_finish_def intro: given_up_intros)
next
  case (acquire k kind res o2)
  then have "given_up (la_owner l) o2"
    by (auto simp: owner_acquire_def Let_def intro: given_up_intros split: if_splits option.splits)
  then show ?thesis using acquire(2) by (simp split: option.splits)
next
  case (release r kind)
  then show ?thesis by (auto simp: releaseAdmission_def Let_def intro: given_up_intros)
next
  case (mark r res invoke o2)
  then have "given_up (la_owner l) o2"
    by (auto simp: markStartInterruptible_def Let_def intro: given_up_intros split: if_splits)
  then show ?thesis using mark(2) by simp
next
  case (interrupt_call i)
  then show ?thesis by (simp add: given_up_same)
next
  case (interrupt_return i threw)
  then show ?thesis by (simp add: given_up_same)
next
  case (interrupt_record i threw)
  then show ?thesis by (simp add: interrupt_finish_def Let_def given_up_intros)
next
  case (take_job j o2)
  then show ?thesis by (auto simp: worker_take_def given_up_def split: option.splits)
next
  case (enter_start r go o2)
  then have "given_up (la_owner l) o2"
    by (auto simp: start_enter_def Let_def intro: given_up_intros split: if_splits)
  then show ?thesis using enter_start(2) by simp
next
  case (call_start r)
  then show ?thesis by (simp add: given_up_same)
next
  case (start_return r res)
  then show ?thesis by (simp add: given_up_same)
next
  case (record_start r res)
  have "given_up (la_owner l) (start_leave r res (la_owner l))"
    unfolding start_leave_def Let_def
    by (rule given_up_reap) (auto simp: given_up_def split: option.split)
  then show ?thesis using record_start(2) by simp
next
  case (enter_stop r go o2)
  then have "given_up (la_owner l) o2"
    by (auto simp: stop_enter_def Let_def intro: given_up_intros split: if_splits)
  then show ?thesis using enter_stop(2) by simp
next
  case (invoke_stop r)
  then show ?thesis by (simp add: stop_invoke_def Let_def given_up_intros)
next
  case (call_stop r)
  then show ?thesis by (simp add: given_up_same)
next
  case (stop_return r threw)
  then show ?thesis by (simp add: given_up_same)
next
  case (record_stop r threw)
  then show ?thesis by (simp add: stop_leave_def Let_def given_up_intros)
next
  case shut
  then show ?thesis by (simp add: shut_down_def given_up_def)
next
  case worker_exit
  then show ?thesis by (simp add: given_up_same)
qed

lemma active_before:
  assumes "lane_inv l'" "lane_step l a l'" "r < length (mo_sessions (la_owner l))" "mo_active (la_owner l') = Some r"
  shows "mo_active (la_owner l) = Some r"
  using given_up_step [OF assms(2)] lane_inv_active(1) [OF assms(1,4)] assms(3,4) by (auto simp: given_up_def)

lemma sessions_grow:
  "lane_step l a l' \<Longrightarrow> length (mo_sessions (la_owner l)) \<le> length (mo_sessions (la_owner l'))"
  using given_up_step [of l a l'] by (auto simp: given_up_def)

inductive lane_run :: "lane \<Rightarrow> lane_action list \<Rightarrow> lane \<Rightarrow> bool" where
  run_stay: "lane_run l [] l"
| run_step: "lane_run l as l' \<Longrightarrow> lane_step l' a l'' \<Longrightarrow> lane_run l (as @ [a]) l''"

inductive_cases run_snocE: "lane_run l (as @ [a]) l''"

lemma run_reachable: "lane_run l as l' \<Longrightarrow> reachable l \<Longrightarrow> reachable l'"
  by (induction rule: lane_run.induct) (blast intro: reachable.lane_step)+

lemma run_grow: "lane_run l as l' \<Longrightarrow> length (mo_sessions (la_owner l)) \<le> length (mo_sessions (la_owner l'))"
  by (induction rule: lane_run.induct) (use sessions_grow le_trans in blast)+

lemma run_fewer:
  "lane_run l as l' \<Longrightarrow> reachable l \<Longrightarrow> cancelled l r \<Longrightarrow> mo_active (la_owner l') = Some r \<Longrightarrow>
     cancelled l' r \<and> steps_left l' r + length (filter internal as) \<le> steps_left l r"
proof (induction rule: lane_run.induct)
  case (run_stay l)
  then show ?case by simp
next
  case (run_step l as l' a l'')
  have inv: "lane_inv l'" "lane_inv l''" "lane_inv l"
    using run_step run_reachable reachable_inv by (meson reachable.lane_step)+
  have r: "r < length (mo_sessions (la_owner l'))"
    using cancelled_stage(2) [OF inv(3) run_step.prems(2)] run_grow [OF run_step.hyps(1)] by simp
  have active: "mo_active (la_owner l') = Some r" by (rule active_before [OF inv(2) run_step.hyps(2) r run_step.prems(3)])
  note before = run_step.IH [OF run_step.prems(1,2) active]
  have "fewer l' a l'' r" using fewer_step [OF run_step.hyps(2) inv(1)] before run_step.prems(3) by simp
  then show ?case using before run_step.prems(3) cancelled_flag [of l'' r] by (auto simp: fewer_def)
qed

lemma steps_left_bound:
  assumes "lane_inv l" "cancelled l r"
  shows "steps_left l r \<le> 14 + length (la_leases l)"
proof -
  note c = cancelled_stage [OF assms]
  have count: "counted (la_worker l) (la_interrupts l) (la_leases l) r (session_at (la_owner l) r)"
    by (rule lane_inv_active(6) [OF assms(1) c(1)])
  have "interrupts_left (la_interrupts l) (flag_list l ! r) \<le> 3"
    using count c(2) by (cases "la_interrupts l") (auto simp: counted_def interrupts_left_def flags_of_def)
  moreover have "job_rank (la_worker l) (la_owner l) \<le> 11"
    by (simp add: job_rank_def split: worker_place.split worker_job.split)
  ultimately show ?thesis by (simp add: steps_left_def)
qed

section \<open>Concrete runs\<close>

text \<open>The step relation as a function of the action, and what a list of actions leads to.\<close>

fun take_step :: "lane_action \<Rightarrow> lane \<Rightarrow> lane option" where
  "take_step (Start sid gen ok) l = (case owner_start sid gen ok (la_owner l) of ((st, k), o2) \<Rightarrow>
     Some (l\<lparr>la_owner := o2,
       la_log := (if st = Accepted then Admitted (length (mo_sessions (la_owner l))) # la_log l else la_log l)\<rparr>))"
| "take_step (RequestStop k) l = (case requestStopInternal k (la_owner l) of (q, o2) \<Rightarrow>
     Some (l\<lparr>la_owner := o2,
       la_interrupts := (if sq_interrupt q then byStart (the (sq_state q)) False # la_interrupts l else la_interrupts l),
       la_log := (if sq_status q = StopRequested then Cancelled (the (sq_state q)) # la_log l else la_log l)\<rparr>))"
| "take_step (StopReturns r) l =
     (if r < length (mo_sessions (la_owner l)) then Some (l\<lparr>la_owner := snd (stop_finish r (la_owner l))\<rparr>) else None)"
| "take_step (Acquire k kind) l = (case owner_acquire k kind (la_owner l) of (res, o2) \<Rightarrow>
     Some (case res of None \<Rightarrow> l\<lparr>la_owner := o2\<rparr>
       | Some r \<Rightarrow> l\<lparr>la_owner := o2, la_leases := (r, kind) # la_leases l, la_log := Leased r # la_log l\<rparr>))"
| "take_step (Release r kind) l = (if (r, kind) \<in> set (la_leases l) then
     Some (l\<lparr>la_owner := releaseAdmission r kind (la_owner l),
       la_leases := remove1 (r, kind) (la_leases l), la_log := Unleased r # la_log l\<rparr>) else None)"
| "take_step MarkInterruptible l = (case la_worker l of
     WInStart r \<Rightarrow> if (\<exists>i \<in> set (la_interrupts l). in_byStart i) then None
       else (case markStartInterruptible r (la_owner l) of ((res, invoke), o2) \<Rightarrow> Some (l\<lparr>la_owner := o2,
         la_interrupts := (if invoke then byStart r True # la_interrupts l else la_interrupts l)\<rparr>))
   | _ \<Rightarrow> None)"
| "take_step (InterruptCall i) l = (if i \<in> set (la_interrupts l) \<and> \<not> in_called i then
     Some (l\<lparr>la_interrupts := i\<lparr>in_called := True\<rparr> # remove1 i (la_interrupts l),
       la_log := Called CallInterrupt (in_session i) # la_log l\<rparr>) else None)"
| "take_step (InterruptReturn i threw) l = (if i \<in> set (la_interrupts l) \<and> in_called i \<and> in_result i = None then
     Some (l\<lparr>la_interrupts := i\<lparr>in_result := Some threw\<rparr> # remove1 i (la_interrupts l),
       la_log := Returned CallInterrupt (in_session i) # la_log l\<rparr>) else None)"
| "take_step (InterruptRecord i) l = (case in_result i of
     Some threw \<Rightarrow> if i \<in> set (la_interrupts l) then
       Some (l\<lparr>la_owner := interrupt_finish (in_session i) threw (la_owner l), la_interrupts := remove1 i (la_interrupts l)\<rparr>)
       else None
   | None \<Rightarrow> None)"
| "take_step TakeJob l = (case worker_take (la_owner l) of
     (Some j, o2) \<Rightarrow> if la_worker l = WIdle then Some (l\<lparr>la_owner := o2, la_worker := WTaken j\<rparr>) else None
   | (None, o2) \<Rightarrow> None)"
| "take_step EnterStart l = (case la_worker l of
     WTaken (StartJob r) \<Rightarrow> (case start_enter r (la_owner l) of (go, o2) \<Rightarrow>
       Some (l\<lparr>la_owner := o2, la_worker := (if go then WStarting r else WIdle),
         la_log := (if go then Decided r # la_log l else la_log l)\<rparr>))
   | _ \<Rightarrow> None)"
| "take_step CallStartNow l = (case la_worker l of
     WStarting r \<Rightarrow> Some (l\<lparr>la_worker := WInStart r, la_log := Called CallStart r # la_log l\<rparr>)
   | _ \<Rightarrow> None)"
| "take_step (StartReturn res) l = (case la_worker l of
     WInStart r \<Rightarrow> if (\<exists>i \<in> set (la_interrupts l). in_byStart i) then None
       else Some (l\<lparr>la_worker := WStarted r res,
         la_log := (if res = Some 0 then StartOk r # Returned CallStart r # la_log l else Returned CallStart r # la_log l)\<rparr>)
   | _ \<Rightarrow> None)"
| "take_step RecordStart l = (case la_worker l of
     WStarted r res \<Rightarrow> Some (l\<lparr>la_owner := start_leave r res (la_owner l), la_worker := WIdle, la_log := Recorded r # la_log l\<rparr>)
   | _ \<Rightarrow> None)"
| "take_step EnterStop l = (case la_worker l of
     WTaken (StopJob r) \<Rightarrow> (case stop_enter r (la_owner l) of (go, o2) \<Rightarrow>
       Some (l\<lparr>la_owner := o2, la_worker := (if go then WWaits r else WIdle)\<rparr>))
   | _ \<Rightarrow> None)"
| "take_step InvokeStop l = (case la_worker l of
     WWaits r \<Rightarrow> if drained (session_at (la_owner l) r) then
       Some (l\<lparr>la_owner := stop_invoke r (la_owner l), la_worker := WStopping r\<rparr>) else None
   | _ \<Rightarrow> None)"
| "take_step CallStopNow l = (case la_worker l of
     WStopping r \<Rightarrow> Some (l\<lparr>la_worker := WInStop r, la_log := Called CallStop r # la_log l\<rparr>)
   | _ \<Rightarrow> None)"
| "take_step (StopReturn threw) l = (case la_worker l of
     WInStop r \<Rightarrow> Some (l\<lparr>la_worker := WStopped r threw, la_log := Returned CallStop r # la_log l\<rparr>)
   | _ \<Rightarrow> None)"
| "take_step RecordStop l = (case la_worker l of
     WStopped r threw \<Rightarrow> Some (l\<lparr>la_owner := stop_leave r threw (la_owner l), la_worker := WIdle\<rparr>)
   | _ \<Rightarrow> None)"
| "take_step ShutDown l = (if mo_active (la_owner l) = None then Some (l\<lparr>la_owner := shut_down (la_owner l)\<rparr>) else None)"
| "take_step WorkerExit l =
     (if la_worker l = WIdle \<and> worker_over (la_owner l) then Some (l\<lparr>la_worker := WExited\<rparr>) else None)"

lemma guarded_some:
  "((if b then Some x else None) = Some y) = (b \<and> y = x)" "((if b then None else Some x) = Some y) = (\<not> b \<and> y = x)"
  by auto

lemma take_step_step: "take_step a l = Some l' \<Longrightarrow> lane_step l a l'"
proof (cases a)
  case (Acquire k kind)
  assume "take_step a l = Some l'"
  then show ?thesis using acquire [of k kind l] by (simp add: Acquire split: prod.splits)
qed (auto simp: guarded_some intro: lane_step.intros split: prod.splits option.splits worker_place.splits worker_job.splits split del: if_split)

fun play :: "lane_action list \<Rightarrow> lane \<Rightarrow> lane option" where
  "play [] l = Some l"
| "play (a # as) l = (case take_step a l of None \<Rightarrow> None | Some l' \<Rightarrow> play as l')"

lemma run_append: "lane_run l' bs l'' \<Longrightarrow> lane_run l as l' \<Longrightarrow> lane_run l (as @ bs) l''"
proof (induction rule: lane_run.induct)
  case (run_stay l')
  then show ?case by simp
next
  case (run_step l' bs l1 b l2)
  then show ?case using lane_run.run_step [of l "as @ bs" l1 b l2] by simp
qed

lemma play_run: "play as l = Some l' \<Longrightarrow> lane_run l as l'"
proof (induction as arbitrary: l)
  case Nil
  then show ?case by (simp add: run_stay)
next
  case (Cons a as)
  then obtain l1 where "take_step a l = Some l1" "lane_run l1 as l'" by (auto split: option.splits)
  moreover from this have "lane_run l [a] l1" using run_step [OF run_stay take_step_step] by simp
  ultimately show ?case using run_append by fastforce
qed

lemma play_reachable: "play as new_lane = Some l \<Longrightarrow> reachable l"
  using run_reachable [OF play_run reachable.init] .

text \<open>
  A session that is cancelled while its start is in progress, with a callback inside: the canceller
  interrupts the start, which succeeds all the same, and the stop waits for the callback.
\<close>

definition first_key :: session_key where
  "first_key = \<lparr>sk_sessionId = 1, sk_generation = 1, sk_ownerToken = 1\<rparr>"

definition example_cancel :: "lane_action list" where
  "example_cancel = [Start 1 1 True, TakeJob, EnterStart, CallStartNow, MarkInterruptible, Acquire first_key Callback, RequestStop first_key]"

definition example_drain :: "lane_action list" where
  "example_drain = [InterruptCall (byStart 0 False), InterruptReturn (byStart 0 False\<lparr>in_called := True\<rparr>) False,
     InterruptRecord (byStart 0 False\<lparr>in_called := True, in_result := Some False\<rparr>), StartReturn (Some 0), RecordStart,
     TakeJob, EnterStop, Release 0 Callback, InvokeStop, CallStopNow, StopReturn False, RecordStop]"

text \<open>A cancellation between the worker's decision and the call does not prevent the start.\<close>

definition example_late :: "lane_action list" where
  "example_late = [Start 1 1 True, TakeJob, EnterStart, RequestStop first_key, CallStartNow]"

lemma late_cancellation:
  "map_option la_log (play example_late new_lane) = Some [Called CallStart 0, Cancelled 0, Decided 0, Admitted 0]"
  by code_simp

lemma example_log:
  "map_option la_log (play (example_cancel @ example_drain) new_lane) = Some
     [Returned CallStop 0, Called CallStop 0, Unleased 0, Recorded 0, StartOk 0, Returned CallStart 0, Returned CallInterrupt 0,
      Called CallInterrupt 0, Cancelled 0, Leased 0, Called CallStart 0, Decided 0, Admitted 0]"
  by code_simp


lemma example_states:
  obtains l l' where "play example_cancel new_lane = Some l" "play example_drain l = Some l'" "cancelled l 0"
    "mo_sessions (la_owner l') \<noteq> []" "ss_phase (session_at (la_owner l') 0) = Stopped" "mo_active (la_owner l') = None"
    "la_log l' = [Returned CallStop 0, Called CallStop 0, Unleased 0, Recorded 0, StartOk 0, Returned CallStart 0, Returned CallInterrupt 0,
      Called CallInterrupt 0, Cancelled 0, Leased 0, Called CallStart 0, Decided 0, Admitted 0]"
proof -
  let ?outcome = "\<lambda>l'. (mo_sessions (la_owner l') \<noteq> [], ss_phase (session_at (la_owner l') 0), mo_active (la_owner l'), la_log l')"
  have "map_option (\<lambda>l. (mo_active (la_owner l), ss_cancellationRequested (session_at (la_owner l) 0),
      map_option ?outcome (play example_drain l))) (play example_cancel new_lane) =
    Some (Some 0, True, Some (True, Stopped, None, [Returned CallStop 0, Called CallStop 0, Unleased 0, Recorded 0, StartOk 0,
      Returned CallStart 0, Returned CallInterrupt 0, Called CallInterrupt 0, Cancelled 0, Leased 0, Called CallStart 0, Decided 0, Admitted 0]))"
    by code_simp
  then show ?thesis using that by (auto simp: cancelled_def)
qed

text \<open>
  C38. The driver is called lawfully. Whatever callers, worker, driver and leases do, and in whatever order,
  the history of the lane is lawful: a session is admitted only when nothing of an earlier one is left;
  the worker decides to start the driver at most once for a session, for the newest one and not after its
  cancellation; the driver is started at most once, after that decision and alone; it is interrupted at
  most once, only for a start that was made and a cancellation, and never after its stop; it is stopped
  at most once, after a successful start and a cancellation, when no call and no callback or worker lease
  is open; and no lease is given after the cancellation, nor once a failed start is recorded. The call of the
  driver's start is made after the section that decides on it, so that a cancellation in between no
  longer prevents it (\<open>late_cancellation\<close>).
\<close>

theorem driver_lawful:
  assumes "reachable l"
  shows "lawful (la_log l)"
  using reachable_log [OF assms] by (simp add: lane_log_def log_inv_def)

lemma driver_lawful_witness:
  "\<exists>l. reachable l \<and> lawful (la_log l) \<and> la_log l =
     [Returned CallStop 0, Called CallStop 0, Unleased 0, Recorded 0, StartOk 0, Returned CallStart 0, Returned CallInterrupt 0,
      Called CallInterrupt 0, Cancelled 0, Leased 0, Called CallStart 0, Decided 0, Admitted 0]"
proof -
  obtain l l' where plays: "play example_cancel new_lane = Some l" "play example_drain l = Some l'" and
    log: "la_log l' = [Returned CallStop 0, Called CallStop 0, Unleased 0, Recorded 0, StartOk 0, Returned CallStart 0,
      Returned CallInterrupt 0, Called CallInterrupt 0, Cancelled 0, Leased 0, Called CallStart 0, Decided 0, Admitted 0]"
    using example_states by metis
  have "reachable l'" by (rule run_reachable [OF play_run [OF plays(2)] play_reachable [OF plays(1)]])
  then show ?thesis using driver_lawful [of l'] log by metis
qed

text \<open>
  C39. A cancelled session ends. As long as it is active, one of the steps that end what is in progress
  (the worker's, the return of a driver's call, the release of a lease) can be taken, and however the
  other steps are interleaved with them, at most fourteen of them and one for each lease can be. (The call of a
  driver's function, its return and the section that records the return count separately.)
\<close>

theorem cancelled_session_ends:
  assumes "reachable l" "cancelled l r"
  shows "\<forall>as l'. lane_run l as l' \<longrightarrow> mo_active (la_owner l') = Some r \<longrightarrow>
    length (filter internal as) \<le> 14 + length (la_leases l) \<and> (\<exists>a l''. internal a \<and> lane_step l' a l'')"
proof (intro allI impI)
  fix as l'
  assume lane_run: "lane_run l as l'" and active: "mo_active (la_owner l') = Some r"
  note later = run_reachable [OF lane_run assms(1)]
  note fewer = run_fewer [OF lane_run assms active]
  show "length (filter internal as) \<le> 14 + length (la_leases l) \<and> (\<exists>a l''. internal a \<and> lane_step l' a l'')"
    using fewer steps_left_bound [OF reachable_inv [OF assms(1)] assms(2)]
      internal_enabled [OF reachable_inv [OF later] reachable_settled [OF later]] by fastforce
qed

lemma cancelled_session_ends_witness:
  "\<exists>l. play example_cancel new_lane = Some l \<and> cancelled l 0 \<and> (\<exists>a l''. internal a \<and> lane_step l a l'')"
proof -
  obtain l where play: "play example_cancel new_lane = Some l" and c: "cancelled l 0" using example_states by metis
  have "mo_active (la_owner l) = Some 0" using c by (simp add: cancelled_def)
  then show ?thesis using cancelled_session_ends [OF play_reachable [OF play] c] play c run_stay by blast
qed



end
